(* ===== verification/Prelude.thy ===== *)
theory Prelude
  imports Main "HOL-Library.Word" "HOL-Library.Code_Target_Nat"
begin

text \<open>
  What the component theories share: names for the machine integers of the C++ code, little-endian
  loads from byte buffers, single-bit updates, \<open>memset\<close>-style fills of byte lists, and the
  generic lemmas on them.  The lemmas are collected in \<open>byte_simps\<close> (lengths and reads of byte
  buffers) and \<open>bit_access\<close> (single bits of bytes and of loaded words).
\<close>

unbundle bit_operations_syntax

named_theorems byte_simps \<open>lengths and reads of byte buffers\<close>
named_theorems bit_access \<open>single bits of bytes, words and buffers\<close>

type_synonym u8 = "8 word"
type_synonym u16 = "16 word"
type_synonym u32 = "32 word"
type_synonym u64 = "64 word"

text \<open>
  A \<open>size_t\<close> or \<open>uint64_t\<close> that is only an index or a count is a \<open>nat\<close>; where the code adds two
  of them and the sum may pass \<open>2 ^ 64\<close>, the wrap-around is written with \<open>wrap64\<close>.
  \<open>npos\<close> is \<open>static_cast<size_t>(-1)\<close>.
\<close>

definition wrap64 :: "nat \<Rightarrow> nat" where
  "wrap64 n = n mod 2 ^ 64"

definition npos :: nat where
  "npos = 2 ^ 64 - 1"

lemma wrap64_id [simp]: "n < 2 ^ 64 \<Longrightarrow> wrap64 n = n"
  by (simp add: wrap64_def)

lemma wrap64_less: "wrap64 n < 2 ^ 64"
  by (simp add: wrap64_def)

section \<open>Byte buffers\<close>

text \<open>\<open>fill_bytes buf pos n v\<close> is \<open>memset(buf + pos, v, n)\<close>.\<close>

definition fill_bytes :: "'a list \<Rightarrow> nat \<Rightarrow> nat \<Rightarrow> 'a \<Rightarrow> 'a list" where
  "fill_bytes buf pos n v = take pos buf @ replicate n v @ drop (pos + n) buf"

lemma length_fill_bytes [byte_simps]:
  "pos + n \<le> length buf \<Longrightarrow> length (fill_bytes buf pos n v) = length buf"
  by (simp add: fill_bytes_def)

lemma nth_fill_bytes [byte_simps]:
  assumes "pos + n \<le> length buf" and "k < length buf"
  shows "fill_bytes buf pos n v ! k = (if pos \<le> k \<and> k < pos + n then v else buf ! k)"
  using assms by (auto simp: fill_bytes_def nth_append)

text \<open>\<open>copy_bytes buf pos src\<close> is \<open>memcpy(buf + pos, src, length src)\<close>.\<close>

definition copy_bytes :: "'a list \<Rightarrow> nat \<Rightarrow> 'a list \<Rightarrow> 'a list" where
  "copy_bytes buf pos src = take pos buf @ src @ drop (pos + length src) buf"

lemma length_copy_bytes [byte_simps]:
  "pos + length src \<le> length buf \<Longrightarrow> length (copy_bytes buf pos src) = length buf"
  by (simp add: copy_bytes_def)

lemma nth_copy_bytes [byte_simps]:
  assumes "pos + length src \<le> length buf" and "k < length buf"
  shows "copy_bytes buf pos src ! k =
    (if pos \<le> k \<and> k < pos + length src then src ! (k - pos) else buf ! k)"
  using assms by (auto simp: copy_bytes_def nth_append)

lemma take_copy_bytes:
  "pos + length src \<le> length buf \<Longrightarrow>
    take (length src) (drop pos (copy_bytes buf pos src)) = src"
  by (simp add: copy_bytes_def)

section \<open>Bits of bytes and little-endian loads\<close>

text \<open>One bit of a byte set or cleared with the mask \<open>1 << k\<close>.\<close>

definition put_bit :: "'a::len word \<Rightarrow> nat \<Rightarrow> bool \<Rightarrow> 'a word" where
  "put_bit w k v = (if v then w OR push_bit k 1 else w AND NOT (push_bit k 1))"

lemma bit_put_bit [bit_access]:
  "n < LENGTH('a::len) \<Longrightarrow>
    bit (put_bit (w :: 'a word) k v) n = (if n = k then v else bit w n)"
  by (auto simp: put_bit_def bit_simps)

lemma and_mask_bit [bit_access]: "((w :: 'a::len word) AND 2 ^ k = 0) = (\<not> bit w k)"
  by (simp add: bit_iff_and_push_bit_not_eq_0)

text \<open>
  \<open>le_word bs\<close> reads the bytes \<open>bs\<close> as one little-endian integer, as a
  \<open>reinterpret_cast\<close> of a byte pointer does on x86-64.
\<close>

fun le_word :: "u8 list \<Rightarrow> 'a::len word" where
  "le_word [] = 0"
| "le_word (b # bs) = ucast b OR push_bit 8 (le_word bs)"

lemma bit_le_word [bit_access]:
  "bit (le_word bs :: 'a::len word) n \<longleftrightarrow>
    n < LENGTH('a) \<and> n div 8 < length bs \<and> bit (bs ! (n div 8)) (n mod 8)"
proof (induction bs arbitrary: n)
  case Nil
  then show ?case by simp
next
  case (Cons b bs)
  show ?case
  proof (cases "n < 8")
    case True
    then show ?thesis by (auto simp: bit_simps)
  next
    case False
    then have n: "n div 8 = Suc ((n - 8) div 8)" "n mod 8 = (n - 8) mod 8"
      by (simp_all add: div_if mod_if)
    have "\<not> bit (ucast b :: 'a word) n"
      using False by (auto simp: bit_simps dest: bit_imp_le_length)
    with False n show ?thesis
      by (auto simp: bit_simps Cons.IH)
  qed
qed

text \<open>The \<open>q\<close>-th 64-bit word of a buffer, \<open>reinterpret_cast<const uint64_t *>(buf)[q]\<close>.\<close>

definition qword :: "u8 list \<Rightarrow> nat \<Rightarrow> u64" where
  "qword buf q = le_word (take 8 (drop (8 * q) buf))"

text \<open>The \<open>i\<close>-th bit of a buffer, counted from the least significant bit of byte 0.\<close>

definition buf_bit :: "u8 list \<Rightarrow> nat \<Rightarrow> bool" where
  "buf_bit buf i = bit (buf ! (i div 8)) (i mod 8)"

lemma bit_qword [bit_access]:
  assumes "8 * q + 8 \<le> length buf" and "k < 64"
  shows "bit (qword buf q) k = buf_bit buf (64 * q + k)"
proof -
  have "(64 * q + k) div 8 = 8 * q + k div 8" "(64 * q + k) mod 8 = k mod 8"
    by presburger+
  moreover have "k div 8 < 8" using assms(2) by simp
  ultimately show ?thesis
    using assms by (simp add: qword_def bit_access buf_bit_def)
qed

lemma buf_bit_update [bit_access]:
  assumes "i < 8 * length buf"
  shows "buf_bit (buf[i div 8 := put_bit (buf ! (i div 8)) (i mod 8) v]) j =
    (if j = i then v else buf_bit buf j)"
proof (cases "j div 8 = i div 8")
  case True
  have "i div 8 < length buf" using assms by simp
  moreover have "(j = i) = (j mod 8 = i mod 8)"
    using True by (metis div_mult_mod_eq)
  ultimately show ?thesis
    using True by (simp add: buf_bit_def bit_access)
next
  case False
  then show ?thesis by (auto simp: buf_bit_def)
qed

lemma buf_bit_fill [bit_access]:
  assumes "pos + n \<le> length buf" and "i < 8 * length buf"
    and "v = (if b then 255 else 0)"
  shows "buf_bit (fill_bytes buf pos n v) i =
    (if 8 * pos \<le> i \<and> i < 8 * (pos + n) then b else buf_bit buf i)"
proof -
  have "i div 8 < length buf" using assms(2) by simp
  moreover have "(pos \<le> i div 8 \<and> i div 8 < pos + n) = (8 * pos \<le> i \<and> i < 8 * (pos + n))"
    by auto
  moreover have "bit (255 :: u8) (i mod 8)"
    using bit_mask_iff [of 8 "i mod 8", where ?'a = u8] by (simp add: mask_eq_exp_minus_1)
  ultimately show ?thesis
    using assms by (simp add: buf_bit_def byte_simps)
qed

text \<open>Count trailing zeros, the compiler's \<open>__builtin_ctzll\<close> on a non-zero word.\<close>

function ctz_from :: "u64 \<Rightarrow> nat \<Rightarrow> nat" where
  "ctz_from w n = (if n < 64 \<and> \<not> bit w n then ctz_from w (Suc n) else n)"
  by pat_completeness auto
termination
  by (relation "measure (\<lambda>(w, n). 64 - n)") auto

declare ctz_from.simps [simp del]

definition ctzll :: "u64 \<Rightarrow> nat" where
  "ctzll w = ctz_from w 0"

lemma ctz_from_least:
  assumes "n \<le> m" and "m < 64" and "bit w m"
  shows "n \<le> ctz_from w n \<and> ctz_from w n < 64 \<and> bit w (ctz_from w n) \<and>
    (\<forall>k. n \<le> k \<and> k < ctz_from w n \<longrightarrow> \<not> bit w k)"
  using assms
proof (induction w n rule: ctz_from.induct)
  case (1 w n)
  show ?case
  proof (cases "n < 64 \<and> \<not> bit w n")
    case True
    with 1 have "Suc n \<le> m" by (metis le_antisym not_less_eq_eq)
    with 1 True show ?thesis
      by (simp add: ctz_from.simps [of w n]) (metis le_antisym not_less_eq_eq Suc_leD)
  next
    case False
    with 1 show ?thesis by (auto simp: ctz_from.simps [of w n])
  qed
qed

lemma ctzll_least:
  assumes "m < 64" and "bit w m"
  shows "ctzll w < 64" "bit w (ctzll w)" "k < ctzll w \<Longrightarrow> \<not> bit w k"
  using ctz_from_least [of 0 m w] assms by (auto simp: ctzll_def)

lemma not_all_ones_bit:
  assumes "(w :: u64) \<noteq> - 1"
  shows "\<exists>m < 64. bit (NOT w) m"
proof (rule ccontr)
  assume "\<not> ?thesis"
  then have "w = - 1"
    by (intro bit_word_eqI) (auto simp: bit_simps)
  with assms show False by simp
qed


section \<open>Outcomes\<close>

text \<open>A kernel function either returns or stops the machine with \<open>panic(message)\<close>.\<close>

datatype 'a kresult = Done 'a | Panic string


lemma unat_of_nat_small: "n < 2 ^ LENGTH('a) \<Longrightarrow> unat (of_nat n :: 'a::len word) = n"
  by (simp add: unsigned_of_nat take_bit_nat_eq_self)


section \<open>Memory requests\<close>

text \<open>
  The outcomes of the successive calls of \<open>malloc\<close> are an input of the code that calls it: one
  boolean per call, \<open>False\<close> when it returns the null pointer.  When the list is used up the heap
  is exhausted and every further call fails.
\<close>

type_synonym heap_oracle = "bool list"

fun malloc_ok :: "heap_oracle \<Rightarrow> bool \<times> heap_oracle" where
  "malloc_ok [] = (False, [])"
| "malloc_ok (b # bs) = (b, bs)"


lemma unat_succ_less:
  assumes "(x :: 'a::len word) < y"
  shows "unat (x + 1) = unat x + 1"
proof -
  have "unat x < unat y" using assms by (simp add: word_less_nat_alt)
  moreover have "unat y < 2 ^ LENGTH('a)" by (rule unsigned_less)
  ultimately have "Suc (unat x) mod 2 ^ LENGTH('a) = Suc (unat x)" by (intro mod_less) linarith
  then show ?thesis by (simp add: unat_word_ariths)
qed


section \<open>First match in a table\<close>

text \<open>The loops \<open>for (i = 0; i < N; i++) if (P(table[i])) { ... return; }\<close>.\<close>

fun find_idx :: "('a \<Rightarrow> bool) \<Rightarrow> 'a list \<Rightarrow> nat option" where
  "find_idx P [] = None"
| "find_idx P (x # xs) = (if P x then Some 0 else map_option Suc (find_idx P xs))"

lemma find_idx_None: "find_idx P xs = None \<longleftrightarrow> (\<forall>x \<in> set xs. \<not> P x)"
  by (induction xs) auto

lemma find_idx_Some:
  "find_idx P xs = Some i \<longleftrightarrow> i < length xs \<and> P (xs ! i) \<and> (\<forall>j < i. \<not> P (xs ! j))"
proof (induction xs arbitrary: i)
  case (Cons x xs)
  show ?case
  proof (cases i)
    case 0
    then show ?thesis by auto
  next
    case (Suc k)
    then show ?thesis using Cons.IH [of k] by (auto simp: less_Suc_eq_0_disj)
  qed
qed simp


lemma find_idx_unique:
  assumes "i < length xs" and "P (xs ! i)" and u: "\<And>j. j < length xs \<Longrightarrow> P (xs ! j) \<Longrightarrow> j = i"
  shows "find_idx P xs = Some i"
  unfolding find_idx_Some
proof (intro conjI allI impI notI)
  fix j assume j: "j < i" "P (xs ! j)"
  then have "j = i" using assms(1) by (intro u) auto
  with j show False by simp
qed (use assms(1,2) in auto)


lemma find_idx_cong: "(\<And>x. x \<in> set xs \<Longrightarrow> P x = Q x) \<Longrightarrow> find_idx P xs = find_idx Q xs"
  by (induction xs) auto

lemma find_idx_update: "P y = P (xs ! m) \<Longrightarrow> find_idx P (xs[m := y]) = find_idx P xs"
proof (induction xs arbitrary: m)
  case (Cons x xs)
  then show ?case by (cases m) auto
qed simp

lemma option_ext: "(\<And>x. a = Some x \<longleftrightarrow> b = Some x) \<Longrightarrow> a = b"
  by (cases a; cases b) auto

lemma filter_update_count:
  "i < length xs \<Longrightarrow> length (filter P (xs[i := y])) + (if P (xs ! i) then 1 else 0) =
    length (filter P xs) + (if P y then 1 else 0)"
proof (induction xs arbitrary: i)
  case (Cons x xs)
  then show ?case by (cases i) auto
qed simp

end
