(* ===== verification/Bitmap.thy ===== *)
theory Bitmap
  imports Prelude
begin

text \<open>
  The class \<open>Bitmap\<close> of \<open>include/kernel/mm/bitmap.h\<close> and \<open>src/mm/bitmap.cpp\<close>: one bit per
  physical frame, set when the frame is taken.  The searches scan 64 bits at a time; the lemmas
  show that each of them computes what the scan of single bits computes, and that this is the
  first (or last) free run.  An early \<open>return\<close> out of a loop is \<open>Inl\<close> of the returned index, a
  loop that runs to its end is \<open>Inr\<close> of the loop variables.
\<close>

section \<open>State and single bits\<close>

record bitmap =
  m_buffer :: "u8 list"
  m_size :: nat
  m_next_free_hint :: nat

definition bitmap_init :: "u8 list \<Rightarrow> nat \<Rightarrow> bitmap" where
  "bitmap_init buffer size_in_bits =
     (let size_in_bytes = wrap64 (size_in_bits + 7) div 8
      in \<lparr>m_buffer = fill_bytes buffer 0 size_in_bytes 0,
          m_size = size_in_bits, m_next_free_hint = 0\<rparr>)"

definition bitmap_get :: "bitmap \<Rightarrow> nat \<Rightarrow> bool" where
  "bitmap_get b index =
     (if index \<ge> m_size b then False
      else m_buffer b ! (index div 8) AND push_bit (index mod 8) 1 \<noteq> 0)"

text \<open>\<open>m_buffer[i >> 3] |= 1 << (i & 7)\<close>, or \<open>&= ~(1 << (i & 7))\<close>.\<close>

definition buf_put :: "u8 list \<Rightarrow> nat \<Rightarrow> bool \<Rightarrow> u8 list" where
  "buf_put buf i value = buf[i div 8 := put_bit (buf ! (i div 8)) (i mod 8) value]"

definition bitmap_set :: "bitmap \<Rightarrow> nat \<Rightarrow> bool \<Rightarrow> bitmap" where
  "bitmap_set b index value =
     (if index \<ge> m_size b then b
      else b\<lparr>m_buffer := buf_put (m_buffer b) index value\<rparr>)"

definition get_hint :: "bitmap \<Rightarrow> nat" where
  "get_hint b = m_next_free_hint b"

definition update_hint :: "bitmap \<Rightarrow> nat \<Rightarrow> bitmap" where
  "update_hint b index = b\<lparr>m_next_free_hint := index\<rparr>"

definition reset_hint :: "bitmap \<Rightarrow> bitmap" where
  "reset_hint b = b\<lparr>m_next_free_hint := 0\<rparr>"

section \<open>Setting a range\<close>

text \<open>
  \<open>put_head\<close> is the loop up to a byte boundary, \<open>put_tail\<close> the loop over the remaining bits.
\<close>

function put_head :: "u8 list \<Rightarrow> nat \<Rightarrow> nat \<Rightarrow> bool \<Rightarrow> u8 list \<times> nat" where
  "put_head buf i e value =
     (if i < e \<and> i mod 8 \<noteq> 0 then put_head (buf_put buf i value) (i + 1) e value
      else (buf, i))"
  by pat_completeness auto
termination
  by (relation "measure (\<lambda>(buf, i, e, value). e - i)") auto

function put_tail :: "u8 list \<Rightarrow> nat \<Rightarrow> nat \<Rightarrow> bool \<Rightarrow> u8 list" where
  "put_tail buf i e value =
     (if i < e then put_tail (buf_put buf i value) (i + 1) e value else buf)"
  by pat_completeness auto
termination
  by (relation "measure (\<lambda>(buf, i, e, value). e - i)") auto

declare put_head.simps [simp del] put_tail.simps [simp del]

text \<open>The body of \<open>set_range\<close> once \<open>end\<close> is known: bits, whole bytes by \<open>memset\<close>, bits.\<close>

definition put_range :: "u8 list \<Rightarrow> nat \<Rightarrow> nat \<Rightarrow> bool \<Rightarrow> u8 list" where
  "put_range buf start e value =
     (let (buf1, i) = put_head buf start e value;
          bytes_to_fill = (e - i) div 8
      in if bytes_to_fill > 0
         then put_tail (fill_bytes buf1 (i div 8) bytes_to_fill (if value then 255 else 0))
                (i + bytes_to_fill * 8) e value
         else put_tail buf1 i e value)"

definition bitmap_set_range :: "bitmap \<Rightarrow> nat \<Rightarrow> nat \<Rightarrow> bool \<Rightarrow> bitmap" where
  "bitmap_set_range b start count value =
     (if start \<ge> m_size b \<or> count = 0 then b
      else
        let e0 = wrap64 (start + count);
            e = (if e0 < start \<or> e0 > m_size b then m_size b else e0)
        in b\<lparr>m_buffer := put_range (m_buffer b) start e value\<rparr>)"

section \<open>Searching for one free bit\<close>

text \<open>The loops of the lambda \<open>scan_range\<close>: to a 64-bit boundary, over whole words, to the end.\<close>

function scan_head :: "bitmap \<Rightarrow> nat \<Rightarrow> nat \<Rightarrow> nat + nat" where
  "scan_head b i e =
     (if i < e \<and> i mod 64 \<noteq> 0
      then (if \<not> bitmap_get b i then Inl i else scan_head b (i + 1) e)
      else Inr i)"
  by pat_completeness auto
termination
  by (relation "measure (\<lambda>(b, i, e). e - i)") auto

function scan_qwords :: "bitmap \<Rightarrow> nat \<Rightarrow> nat \<Rightarrow> nat + nat" where
  "scan_qwords b i qword_end =
     (if i < qword_end
      then (let qw = qword (m_buffer b) (i div 64)
            in if qw \<noteq> - 1 then Inl (i + ctzll (NOT qw))
               else scan_qwords b (i + 64) qword_end)
      else Inr i)"
  by pat_completeness auto
termination
  by (relation "measure (\<lambda>(b, i, e). e - i)") auto

function scan_tail :: "bitmap \<Rightarrow> nat \<Rightarrow> nat \<Rightarrow> nat + nat" where
  "scan_tail b i e =
     (if i < e then (if \<not> bitmap_get b i then Inl i else scan_tail b (i + 1) e) else Inr i)"
  by pat_completeness auto
termination
  by (relation "measure (\<lambda>(b, i, e). e - i)") auto

declare scan_head.simps [simp del] scan_qwords.simps [simp del] scan_tail.simps [simp del]

definition scan_range :: "bitmap \<Rightarrow> nat \<Rightarrow> nat \<Rightarrow> nat" where
  "scan_range b first e =
     (if first \<ge> e then npos
      else case scan_head b first e of
        Inl r \<Rightarrow> r
      | Inr i \<Rightarrow>
          (case scan_qwords b i (e div 64 * 64) of
             Inl r \<Rightarrow> r
           | Inr i2 \<Rightarrow> (case scan_tail b i2 e of Inl r \<Rightarrow> r | Inr _ \<Rightarrow> npos)))"

definition find_first_free :: "bitmap \<Rightarrow> nat \<Rightarrow> nat \<times> bitmap" where
  "find_first_free b start_index =
     (if m_size b = 0 then (npos, b)
      else
        let s0 = (if start_index = 0 then m_next_free_hint b else start_index);
            search_start = (if s0 \<ge> m_size b then 0 else s0);
            index0 = scan_range b search_start (m_size b);
            index = (if index0 = npos \<and> search_start \<noteq> 0
                     then scan_range b 0 search_start else index0)
        in if index \<noteq> npos
           then (index,
                 b\<lparr>m_next_free_hint := (if index + 1 < m_size b then index + 1 else 0)\<rparr>)
           else (index, b))"

section \<open>Searching for a run of free bits\<close>

text \<open>
  \<open>seq_bits\<close> is the bit-wise loop (it occurs twice, up to the first word boundary and after the
  last one), \<open>seq_qbits\<close> the inner loop over the bits of a mixed word, \<open>seq_qwords\<close> the loop
  over whole words.  The loop variables are \<open>i\<close>, \<open>current_run\<close> and \<open>run_start\<close>.
\<close>

type_synonym run_result = "nat + (nat \<times> nat \<times> nat)"

function seq_bits :: "bitmap \<Rightarrow> nat \<Rightarrow> nat \<Rightarrow> nat \<Rightarrow> nat \<Rightarrow> nat \<Rightarrow> run_result" where
  "seq_bits b count i e current_run run_start =
     (if i < e then
        (if \<not> bitmap_get b i then
           (let rs = (if current_run = 0 then i else run_start); cr = current_run + 1
            in if cr = count then Inl rs else seq_bits b count (i + 1) e cr rs)
         else seq_bits b count (i + 1) e 0 run_start)
      else Inr (i, current_run, run_start))"
  by pat_completeness auto
termination
  by (relation "measure (\<lambda>(b, c, i, e, cr, rs). e - i)") auto

function seq_qbits :: "u64 \<Rightarrow> nat \<Rightarrow> nat \<Rightarrow> nat \<Rightarrow> nat \<Rightarrow> nat \<Rightarrow> run_result" where
  "seq_qbits qw count i k current_run run_start =
     (if k < 64 then
        (if qw AND push_bit k 1 = 0 then
           (let rs = (if current_run = 0 then i + k else run_start); cr = current_run + 1
            in if cr = count then Inl rs else seq_qbits qw count i (k + 1) cr rs)
         else seq_qbits qw count i (k + 1) 0 run_start)
      else Inr (i + 64, current_run, run_start))"
  by pat_completeness auto
termination
  by (relation "measure (\<lambda>(qw, c, i, k, cr, rs). 64 - k)") auto

function seq_qwords :: "bitmap \<Rightarrow> nat \<Rightarrow> nat \<Rightarrow> nat \<Rightarrow> nat \<Rightarrow> nat \<Rightarrow> run_result" where
  "seq_qwords b count i qword_end current_run run_start =
     (if i < qword_end then
        (let qw = qword (m_buffer b) (i div 64) in
         if qw = 0 then
           (let rs = (if current_run = 0 then i else run_start); cr = current_run + 64
            in if cr \<ge> count then Inl rs else seq_qwords b count (i + 64) qword_end cr rs)
         else if qw = - 1 then seq_qwords b count (i + 64) qword_end 0 run_start
         else (case seq_qbits qw count i 0 current_run run_start of
                 Inl r \<Rightarrow> Inl r
               | Inr (_, cr, rs) \<Rightarrow> seq_qwords b count (i + 64) qword_end cr rs))
      else Inr (i, current_run, run_start))"
  by pat_completeness auto
termination
  by (relation "measure (\<lambda>(b, c, i, e, cr, rs). e - i)") auto

declare seq_bits.simps [simp del] seq_qbits.simps [simp del] seq_qwords.simps [simp del]

definition find_first_free_sequence :: "bitmap \<Rightarrow> nat \<Rightarrow> nat \<Rightarrow> nat" where
  "find_first_free_sequence b count start_index =
     (if count = 0 \<or> count > m_size b then npos
      else
        let i = (if start_index \<ge> m_size b then 0 else start_index);
            qs0 = wrap64 (i + 63) div 64 * 64;
            qword_start = (if qs0 > m_size b then m_size b else qs0)
        in case seq_bits b count i qword_start 0 npos of
             Inl r \<Rightarrow> r
           | Inr (i1, cr1, rs1) \<Rightarrow>
               (case seq_qwords b count i1 (m_size b div 64 * 64) cr1 rs1 of
                  Inl r \<Rightarrow> r
                | Inr (i2, cr2, rs2) \<Rightarrow>
                    (case seq_bits b count i2 (m_size b) cr2 rs2 of
                       Inl r \<Rightarrow> r
                     | Inr _ \<Rightarrow> npos)))"

text \<open>
  The search from the top.  \<open>last_bits\<close> is the loop \<open>while (i > qword_end)\<close>, \<open>last_qbits\<close> the
  loop over the bits of a mixed word (\<open>k\<close> is \<open>bit + 1\<close>), \<open>last_qwords\<close> the loop over
  \<open>q_idx\<close>.
\<close>

function last_bits :: "bitmap \<Rightarrow> nat \<Rightarrow> nat \<Rightarrow> nat \<Rightarrow> nat \<Rightarrow> nat + (nat \<times> nat)" where
  "last_bits b count i low current_run =
     (if i > low then
        (if \<not> bitmap_get b (i - 1) then
           (if current_run + 1 = count then Inl (i - 1)
            else last_bits b count (i - 1) low (current_run + 1))
         else last_bits b count (i - 1) low 0)
      else Inr (i, current_run))"
  by pat_completeness auto
termination
  by (relation "measure (\<lambda>(b, c, i, low, cr). i - low)") auto

fun last_qbits :: "u64 \<Rightarrow> nat \<Rightarrow> nat \<Rightarrow> nat \<Rightarrow> nat \<Rightarrow> nat + nat" where
  "last_qbits qw count q_idx 0 current_run = Inr current_run"
| "last_qbits qw count q_idx (Suc k) current_run =
     (if qw AND push_bit k 1 = 0 then
        (if current_run + 1 = count then Inl (q_idx * 64 + k)
         else last_qbits qw count q_idx k (current_run + 1))
      else last_qbits qw count q_idx k 0)"

fun last_qwords :: "bitmap \<Rightarrow> nat \<Rightarrow> nat \<Rightarrow> nat \<Rightarrow> nat" where
  "last_qwords b count 0 current_run = npos"
| "last_qwords b count (Suc q) current_run =
     (let qw = qword (m_buffer b) q in
      if qw = 0 then
        (let cr = current_run + 64
         in if cr \<ge> count then q * 64 + (cr - count) else last_qwords b count q cr)
      else if qw = - 1 then last_qwords b count q 0
      else (case last_qbits qw count q 64 current_run of
              Inl r \<Rightarrow> r
            | Inr cr \<Rightarrow> last_qwords b count q cr))"

declare last_bits.simps [simp del]

definition find_last_free_sequence :: "bitmap \<Rightarrow> nat \<Rightarrow> nat" where
  "find_last_free_sequence b count =
     (if count = 0 \<or> count > m_size b then npos
      else case last_bits b count (m_size b) (m_size b div 64 * 64) 0 of
        Inl r \<Rightarrow> r
      | Inr (i, cr) \<Rightarrow> (if i > 0 then last_qwords b count (i div 64) cr else npos))"

section \<open>Well-formed bitmaps\<close>

text \<open>The buffer holds every bit, and rounding an index up to a word boundary does not wrap.\<close>

definition bitmap_wf :: "bitmap \<Rightarrow> bool" where
  "bitmap_wf b \<longleftrightarrow> m_size b \<le> 8 * length (m_buffer b) \<and> m_size b + 63 < 2 ^ 64"

lemma bitmap_get_buf [bit_access]:
  "bitmap_get b i \<longleftrightarrow> i < m_size b \<and> buf_bit (m_buffer b) i"
  by (simp add: bitmap_get_def bit_access buf_bit_def)

lemma length_buf_put [byte_simps, simp]: "length (buf_put buf i v) = length buf"
  by (simp add: buf_put_def)

lemma buf_bit_put [bit_access]:
  "i < 8 * length buf \<Longrightarrow> buf_bit (buf_put buf i v) j = (if j = i then v else buf_bit buf j)"
  by (simp add: buf_put_def bit_access)

lemma bitmap_set_size [simp]: "m_size (bitmap_set b i v) = m_size b"
  and bitmap_set_hint [simp]: "m_next_free_hint (bitmap_set b i v) = m_next_free_hint b"
  and bitmap_set_length [simp]: "length (m_buffer (bitmap_set b i v)) = length (m_buffer b)"
  by (simp_all add: bitmap_set_def)

lemma bitmap_set_wf [simp]: "bitmap_wf (bitmap_set b i v) = bitmap_wf b"
  by (simp add: bitmap_wf_def)

lemma bitmap_get_set:
  assumes "bitmap_wf b" and "i < m_size b"
  shows "bitmap_get (bitmap_set b i v) j = (if j = i then v else bitmap_get b j)"
  using assms by (auto simp: bitmap_set_def bitmap_get_buf bitmap_wf_def buf_bit_put)

lemma update_hint_simps [simp]:
  "m_size (update_hint b i) = m_size b" "m_buffer (update_hint b i) = m_buffer b"
  "m_next_free_hint (update_hint b i) = i" "bitmap_wf (update_hint b i) = bitmap_wf b"
  "bitmap_get (update_hint b i) j = bitmap_get b j"
  by (simp_all add: update_hint_def bitmap_wf_def bitmap_get_buf)

lemma bitmap_get_hint_upd [simp]: "bitmap_get (b\<lparr>m_next_free_hint := h\<rparr>) j = bitmap_get b j"
  by (simp add: bitmap_get_buf)

lemma bitmap_wf_hint_upd [simp]: "bitmap_wf (b\<lparr>m_next_free_hint := h\<rparr>) = bitmap_wf b"
  by (simp add: bitmap_wf_def)

lemma bitmap_init_get:
  assumes "sz + 63 < 2 ^ 64" and "(sz + 7) div 8 \<le> length buffer"
  shows "bitmap_wf (bitmap_init buffer sz)" "\<not> bitmap_get (bitmap_init buffer sz) i"
proof -
  have w: "wrap64 (sz + 7) = sz + 7" using assms(1) by simp
  have len: "length (fill_bytes buffer 0 ((sz + 7) div 8) 0) = length buffer"
    using assms(2) by (simp add: byte_simps)
  show "bitmap_wf (bitmap_init buffer sz)"
    unfolding bitmap_wf_def bitmap_init_def Let_def using assms w len by simp
  show "\<not> bitmap_get (bitmap_init buffer sz) i"
    using assms w buf_bit_fill [of 0 "(sz + 7) div 8" buffer i 0 False]
    by (auto simp: bitmap_get_buf bitmap_init_def)
qed

section \<open>Setting a range sets exactly that range\<close>

lemma put_head_spec:
  assumes "put_head buf i e v = (buf', i')" and "e \<le> 8 * length buf"
  shows "length buf' = length buf \<and> i \<le> i' \<and> (i \<le> e \<longrightarrow> i' \<le> e) \<and>
    (i' < e \<longrightarrow> i' mod 8 = 0) \<and>
    (\<forall>j. buf_bit buf' j = (if i \<le> j \<and> j < i' then v else buf_bit buf j))"
  using assms
proof (induction buf i e v arbitrary: buf' i' rule: put_head.induct)
  case (1 buf i e v)
  show ?case
  proof (cases "i < e \<and> i mod 8 \<noteq> 0")
    case True
    from True "1.prems" have "put_head (buf_put buf i v) (i + 1) e v = (buf', i')"
      by (simp add: put_head.simps [of buf i])
    from "1.IH" [OF True this] "1.prems"(2) True show ?thesis
      by (auto simp: buf_bit_put)
  next
    case False
    with "1.prems" show ?thesis by (auto simp: put_head.simps [of buf i])
  qed
qed

lemma put_tail_spec:
  assumes "e \<le> 8 * length buf"
  shows "length (put_tail buf i e v) = length buf \<and>
    (\<forall>j. buf_bit (put_tail buf i e v) j = (if i \<le> j \<and> j < e then v else buf_bit buf j))"
  using assms
proof (induction buf i e v rule: put_tail.induct)
  case (1 buf i e v)
  then show ?case
    by (cases "i < e") (auto simp: put_tail.simps [of buf i] buf_bit_put)
qed

lemma put_range_spec:
  assumes "start \<le> e" and "e \<le> 8 * length buf"
  shows "length (put_range buf start e v) = length buf \<and>
    (\<forall>j < 8 * length buf. buf_bit (put_range buf start e v) j =
       (if start \<le> j \<and> j < e then v else buf_bit buf j))"
proof -
  obtain buf1 i where h: "put_head buf start e v = (buf1, i)"
    by (cases "put_head buf start e v")
  from put_head_spec [OF h] assms
  have p1: "length buf1 = length buf" "start \<le> i" "i \<le> e" "i < e \<longrightarrow> i mod 8 = 0"
    "\<And>j. buf_bit buf1 j = (if start \<le> j \<and> j < i then v else buf_bit buf j)"
    by auto
  define n where "n = (e - i) div 8"
  show ?thesis
  proof (cases "n > 0")
    case True
    define buf2 where "buf2 = fill_bytes buf1 (i div 8) n (if v then 255 else 0)"
    have al: "8 * (i div 8) = i" using True p1 by (auto simp: n_def)
    have ne: "8 * (i div 8 + n) \<le> e" using al p1(3) by (simp add: n_def)
    have "8 * (i div 8 + n) \<le> 8 * length buf1"
      using order_trans [OF ne assms(2)] p1(1) by simp
    then have fit: "i div 8 + n \<le> length buf1"
      by (simp only: mult_le_cancel1 zero_less_numeral simp_thms)
    have r: "put_range buf start e v = put_tail buf2 (i + n * 8) e v"
      using True by (simp add: put_range_def h n_def buf2_def Let_def)
    have l2: "length buf2 = length buf" using fit p1(1) by (simp add: buf2_def byte_simps)
    have "buf_bit buf2 j = (if start \<le> j \<and> j < i + n * 8 then v else buf_bit buf j)"
      if "j < 8 * length buf" for j
      using that p1 al buf_bit_fill [OF fit, of j "if v then 255 else 0" v]
      by (auto simp: buf2_def algebra_simps)
    with put_tail_spec [of e buf2 "i + n * 8" v] l2 assms p1 ne al show ?thesis
      by (auto simp: r)
  next
    case False
    then have "put_range buf start e v = put_tail buf1 i e v"
      by (simp add: put_range_def h n_def Let_def)
    with put_tail_spec [of e buf1 i v] p1 assms show ?thesis by auto
  qed
qed

text \<open>The end of a range, clamped to the bitmap; the code computes it with a wrapping addition.\<close>

definition range_end :: "bitmap \<Rightarrow> nat \<Rightarrow> nat \<Rightarrow> nat" where
  "range_end b start count = min (m_size b) (start + count)"

lemma set_range_end:
  assumes "start < m_size b" and "m_size b < 2 ^ 64" and "count < 2 ^ 64"
  shows "(let e0 = wrap64 (start + count)
          in if e0 < start \<or> e0 > m_size b then m_size b else e0) = range_end b start count"
proof (cases "start + count < 2 ^ 64")
  case True
  then show ?thesis by (auto simp: Let_def range_end_def)
next
  case False
  then have "wrap64 (start + count) = start + count - 2 ^ 64"
    using assms by (simp add: wrap64_def mod_if)
  with False assms show ?thesis by (auto simp: Let_def range_end_def)
qed

lemma bitmap_set_range_eq:
  assumes "bitmap_wf b" and "count < 2 ^ 64" and "start < m_size b" and "count \<noteq> 0"
  shows "bitmap_set_range b start count v =
    b\<lparr>m_buffer := put_range (m_buffer b) start (range_end b start count) v\<rparr>"
  using set_range_end [of start b count] assms
  by (simp add: bitmap_set_range_def bitmap_wf_def Let_def)

lemma bitmap_get_set_range:
  assumes wf: "bitmap_wf b" and c: "count < 2 ^ 64"
  shows "bitmap_get (bitmap_set_range b start count v) j =
      (if start \<le> j \<and> j < range_end b start count then v else bitmap_get b j)"
proof (cases "start \<ge> m_size b \<or> count = 0")
  case True
  then show ?thesis
    by (auto simp: bitmap_set_range_def range_end_def)
next
  case False
  let ?e = "range_end b start count"
  have "start \<le> ?e" "?e \<le> 8 * length (m_buffer b)" "?e \<le> m_size b"
    using False wf by (auto simp: range_end_def bitmap_wf_def)
  with put_range_spec [of start ?e "m_buffer b" v] wf False c show ?thesis
    by (auto simp: bitmap_set_range_eq bitmap_get_buf bitmap_wf_def)
qed

lemma bitmap_set_range_frame [simp]:
  "m_size (bitmap_set_range b start count v) = m_size b"
  "m_next_free_hint (bitmap_set_range b start count v) = m_next_free_hint b"
  by (simp_all add: bitmap_set_range_def Let_def)

lemma bitmap_set_range_wf:
  assumes "bitmap_wf b" and "count < 2 ^ 64"
  shows "bitmap_wf (bitmap_set_range b start count v)"
proof (cases "start \<ge> m_size b \<or> count = 0")
  case True
  then show ?thesis using assms by (auto simp: bitmap_set_range_def)
next
  case False
  then show ?thesis
    using assms put_range_spec [of start "range_end b start count" "m_buffer b" v]
    by (auto simp: bitmap_set_range_eq bitmap_wf_def range_end_def)
qed

section \<open>The word-wise search finds the first free bit\<close>

definition first_clear :: "bitmap \<Rightarrow> nat \<Rightarrow> nat \<Rightarrow> nat \<Rightarrow> bool" where
  "first_clear b s e r \<longleftrightarrow>
     s \<le> r \<and> r < e \<and> \<not> bitmap_get b r \<and> (\<forall>k. s \<le> k \<and> k < r \<longrightarrow> bitmap_get b k)"

definition all_taken :: "bitmap \<Rightarrow> nat \<Rightarrow> nat \<Rightarrow> bool" where
  "all_taken b s e \<longleftrightarrow> (\<forall>k. s \<le> k \<and> k < e \<longrightarrow> bitmap_get b k)"

lemma all_taken_step: "all_taken b s i \<Longrightarrow> bitmap_get b i \<Longrightarrow> all_taken b s (i + 1)"
  by (auto simp: all_taken_def less_Suc_eq)

lemma first_clear_extend:
  "all_taken b s i \<Longrightarrow> s \<le> i \<Longrightarrow> first_clear b i e r \<Longrightarrow> first_clear b s e r"
  unfolding all_taken_def first_clear_def by (metis le_trans not_le)

lemma all_taken_trans: "all_taken b s i \<Longrightarrow> all_taken b i e \<Longrightarrow> all_taken b s e"
  unfolding all_taken_def by (metis not_le)

lemma scan_head_spec:
  "i \<le> e \<Longrightarrow> (case scan_head b i e of
     Inl r \<Rightarrow> first_clear b i e r
   | Inr j \<Rightarrow> i \<le> j \<and> j \<le> e \<and> (j < e \<longrightarrow> j mod 64 = 0) \<and> all_taken b i j)"
proof (induction b i e rule: scan_head.induct)
  case (1 b i e)
  show ?case
  proof (cases "i < e \<and> i mod 64 \<noteq> 0 \<and> bitmap_get b i")
    case True
    then have "all_taken b i (i + 1)" by (auto simp: all_taken_def less_Suc_eq)
    with 1 True show ?thesis
      by (auto simp: scan_head.simps [of b i e] split: sum.splits
          intro: first_clear_extend all_taken_trans)
  next
    case False
    with "1.prems" show ?thesis
      by (auto simp: scan_head.simps [of b i e] first_clear_def all_taken_def)
  qed
qed

lemma scan_tail_spec:
  "i \<le> e \<Longrightarrow> (case scan_tail b i e of Inl r \<Rightarrow> first_clear b i e r | Inr j \<Rightarrow> all_taken b i e)"
proof (induction b i e rule: scan_tail.induct)
  case (1 b i e)
  show ?case
  proof (cases "i < e \<and> bitmap_get b i")
    case True
    then have "all_taken b i (i + 1)" by (auto simp: all_taken_def less_Suc_eq)
    with 1 True show ?thesis
      by (auto simp: scan_tail.simps [of b i e] split: sum.splits
          intro: first_clear_extend all_taken_trans)
  next
    case False
    with "1.prems" show ?thesis
      by (auto simp: scan_tail.simps [of b i e] first_clear_def all_taken_def)
  qed
qed

text \<open>The bits of the word that starts at a 64-bit boundary are the next 64 bits of the bitmap.\<close>

lemma bit_qword_bitmap:
  assumes "bitmap_wf b" and "i mod 64 = 0" and "i + 64 \<le> m_size b" and "k < 64"
  shows "bit (qword (m_buffer b) (i div 64)) k = bitmap_get b (i + k)"
proof -
  have i: "64 * (i div 64) = i" using assms(2) by auto
  have "8 * (8 * (i div 64) + 8) \<le> 8 * length (m_buffer b)"
    using i assms(1,3) by (simp add: bitmap_wf_def)
  then have "8 * (i div 64) + 8 \<le> length (m_buffer b)"
    by (simp only: mult_le_cancel1 zero_less_numeral simp_thms)
  from bit_qword [OF this assms(4)] i assms show ?thesis
    by (simp add: bitmap_get_buf)
qed

lemma qword_all_ones:
  assumes "bitmap_wf b" and "i mod 64 = 0" and "i + 64 \<le> m_size b"
  shows "(qword (m_buffer b) (i div 64) = - 1) = all_taken b i (i + 64)"
proof -
  have "(qword (m_buffer b) (i div 64) = - 1) = (\<forall>k < 64. bitmap_get b (i + k))"
    by (auto simp: bit_eq_iff bit_qword_bitmap [OF assms, symmetric])
  also have "\<dots> = all_taken b i (i + 64)"
    unfolding all_taken_def by (metis add_less_cancel_left le_add1 le_add_diff_inverse)
  finally show ?thesis .
qed

lemma qword_first_clear:
  assumes "bitmap_wf b" and "i mod 64 = 0" and "i + 64 \<le> m_size b"
    and "qword (m_buffer b) (i div 64) \<noteq> - 1"
  shows "first_clear b i (i + 64) (i + ctzll (NOT (qword (m_buffer b) (i div 64))))"
proof -
  let ?w = "NOT (qword (m_buffer b) (i div 64))"
  have bits: "bit ?w k = (\<not> bitmap_get b (i + k))" if "k < 64" for k
    using that bit_qword_bitmap [OF assms(1-3) that] by (simp add: bit_simps)
  obtain m where "m < 64" "bit ?w m" using not_all_ones_bit [OF assms(4)] by blast
  note c = ctzll_least [OF this]
  have "bitmap_get b k" if "i \<le> k" "k < i + ctzll ?w" for k
    using that c(1) c(3) [of "k - i"] bits [of "k - i"] by simp
  with c bits show ?thesis by (auto simp: first_clear_def)
qed

lemma scan_qwords_spec:
  assumes "bitmap_wf b" and "i \<le> qe" and "i mod 64 = 0" and "qe mod 64 = 0" and "qe \<le> m_size b"
  shows "case scan_qwords b i qe of Inl r \<Rightarrow> first_clear b i qe r | Inr j \<Rightarrow> j = qe \<and> all_taken b i qe"
  using assms
proof (induction b i qe rule: scan_qwords.induct)
  case (1 b i qe)
  show ?case
  proof (cases "i < qe")
    case True
    let ?w = "qword (m_buffer b) (i div 64)"
    have le: "i + 64 \<le> qe" using True "1.prems" by presburger
    have fit: "i + 64 \<le> m_size b" using le "1.prems" by simp
    show ?thesis
    proof (cases "?w = - 1")
      case w: True
      then have "all_taken b i (i + 64)"
        using "1.prems" fit by (simp add: qword_all_ones)
      moreover have "(i + 64) mod 64 = 0" using "1.prems"(3) by simp
      ultimately show ?thesis
        using "1.IH" [OF True refl] "1.prems" w le True
        by (auto simp: scan_qwords.simps [of b i qe] Let_def split: sum.splits
            intro: first_clear_extend all_taken_trans)
    next
      case False
      have "first_clear b i (i + 64) (i + ctzll (NOT ?w))"
        by (rule qword_first_clear [OF "1.prems"(1) "1.prems"(3) fit False])
      with True False le show ?thesis
        by (auto simp: scan_qwords.simps [of b i qe] first_clear_def)
    qed
  next
    case False
    with "1.prems" have "i = qe" by simp
    then show ?thesis by (auto simp: scan_qwords.simps [of b qe qe] all_taken_def)
  qed
qed

lemma scan_range_spec:
  assumes wf: "bitmap_wf b" and e: "e \<le> m_size b"
  shows "(scan_range b s e = npos \<and> all_taken b s e) \<or> first_clear b s e (scan_range b s e)"
proof (cases "s < e")
  case False
  then show ?thesis by (auto simp: scan_range_def all_taken_def)
next
  case True
  note h = scan_head_spec [of s e b]
  show ?thesis
  proof (cases "scan_head b s e")
    case (Inl r)
    then show ?thesis using h True by (simp add: scan_range_def)
  next
    case (Inr i)
    with h True have i: "s \<le> i" "i \<le> e" "i < e \<Longrightarrow> i mod 64 = 0" "all_taken b s i" by auto
    define qe where "qe = e div 64 * 64"
    have qe: "qe \<le> e" "qe mod 64 = 0" by (simp_all add: qe_def)
    obtain j where j: "(\<exists>r. scan_qwords b i qe = Inl r \<and> first_clear b i e r) \<or>
        scan_qwords b i qe = Inr j \<and> i \<le> j \<and> j \<le> e \<and> all_taken b i j"
    proof (cases "i \<le> qe")
      case True
      then have "i mod 64 = 0" using i(3) qe by (metis le_antisym not_le order_trans)
      with scan_qwords_spec [OF wf True this] qe e that True show ?thesis
        by (cases "scan_qwords b i qe") (auto simp: first_clear_def)
    next
      case False
      then show ?thesis using i that by (auto simp: scan_qwords.simps all_taken_def)
    qed
    then show ?thesis
    proof (elim disjE exE conjE)
      fix r assume "scan_qwords b i qe = Inl r" "first_clear b i e r"
      then show ?thesis
        using True Inr i by (auto simp: scan_range_def qe_def intro: first_clear_extend)
    next
      assume j: "scan_qwords b i qe = Inr j" "i \<le> j" "j \<le> e" "all_taken b i j"
      then have sj: "all_taken b s j" using i all_taken_trans by blast
      show ?thesis
        using scan_tail_spec [OF j(3), of b] True Inr j i sj
        by (cases "scan_tail b j e")
          (auto simp: scan_range_def qe_def intro: first_clear_extend all_taken_trans)
    qed
  qed
qed

text \<open>Where the search of \<open>find_first_free\<close> starts.\<close>

definition search_from :: "bitmap \<Rightarrow> nat \<Rightarrow> nat" where
  "search_from b start_index =
     (let s = (if start_index = 0 then m_next_free_hint b else start_index)
      in if s \<ge> m_size b then 0 else s)"

lemma first_clear_less: "first_clear b s e r \<Longrightarrow> e \<le> m_size b \<Longrightarrow> bitmap_wf b \<Longrightarrow> r \<noteq> npos"
  by (auto simp: first_clear_def bitmap_wf_def npos_def)

lemma find_first_free_index:
  assumes wf: "bitmap_wf b"
  shows "fst (find_first_free b k) = npos \<and> all_taken b 0 (m_size b) \<or>
    first_clear b (search_from b k) (m_size b) (fst (find_first_free b k)) \<or>
    all_taken b (search_from b k) (m_size b) \<and>
      first_clear b 0 (search_from b k) (fst (find_first_free b k))"
proof (cases "m_size b = 0")
  case True
  then show ?thesis by (simp add: find_first_free_def all_taken_def)
next
  case False
  let ?s = "search_from b k"
  have s: "?s \<le> m_size b" by (auto simp: search_from_def Let_def)
  note r1 = scan_range_spec [OF wf order_refl, of ?s]
  note r2 = scan_range_spec [OF wf s, of 0]
  have fst: "fst (find_first_free b k) =
      (let i0 = scan_range b ?s (m_size b)
       in if i0 = npos \<and> ?s \<noteq> 0 then scan_range b 0 ?s else i0)"
    using False by (simp add: find_first_free_def search_from_def Let_def)
  show ?thesis
  proof (cases "scan_range b ?s (m_size b) = npos")
    case True
    then have "all_taken b ?s (m_size b)"
      using r1 first_clear_less [OF _ order_refl wf] by auto
    with True r2 show ?thesis
      by (cases "?s = 0") (auto simp: fst intro: all_taken_trans)
  next
    case False
    with r1 show ?thesis by (simp add: fst)
  qed
qed

lemma find_first_free_map:
  "bitmap_get (snd (find_first_free b k)) j = bitmap_get b j"
  "m_size (snd (find_first_free b k)) = m_size b"
  "bitmap_wf (snd (find_first_free b k)) = bitmap_wf b"
  by (simp_all add: find_first_free_def Let_def)

section \<open>The word-wise run search is the bit-wise one\<close>

lemma seq_bits_done [simp]: "e \<le> i \<Longrightarrow> seq_bits b c i e cr rs = Inr (i, cr, rs)"
  by (simp add: seq_bits.simps)

lemma seq_bits_run_less:
  "seq_bits b c i e cr rs = Inr (i', cr', rs') \<Longrightarrow> cr < c \<Longrightarrow> i \<le> e \<Longrightarrow> cr' < c \<and> i' = e"
proof (induction b c i e cr rs rule: seq_bits.induct)
  case (1 b c i e cr rs)
  show ?case
  proof (cases "i < e")
    case True
    with 1 show ?thesis
      by (cases "bitmap_get b i"; cases "Suc cr = c")
        (auto simp: seq_bits.simps [of b c i e] Let_def)
  next
    case False
    with 1 show ?thesis by simp
  qed
qed

lemma seq_bits_append:
  "i \<le> m \<Longrightarrow> m \<le> e \<Longrightarrow> seq_bits b c i e cr rs =
    (case seq_bits b c i m cr rs of
       Inl r \<Rightarrow> Inl r | Inr (i', cr', rs') \<Rightarrow> seq_bits b c i' e cr' rs')"
proof (induction b c i m cr rs rule: seq_bits.induct)
  case (1 b c i m cr rs)
  show ?case
  proof (cases "i < m")
    case True
    with 1 show ?thesis
      by (cases "bitmap_get b i"; cases "Suc cr = c")
        (simp_all add: seq_bits.simps [of b c i m] seq_bits.simps [of b c i e] Let_def)
  next
    case False
    with 1 show ?thesis by simp
  qed
qed

lemma seq_bits_taken:
  "all_taken b i (i + n) \<Longrightarrow>
    seq_bits b c i (i + n) cr rs = Inr (i + n, if n = 0 then cr else 0, rs)"
proof (induction n arbitrary: i cr)
  case (Suc n)
  then have "bitmap_get b i" "all_taken b (Suc i) (Suc i + n)" by (auto simp: all_taken_def)
  with Suc.IH [of "Suc i" 0] show ?case by (simp add: seq_bits.simps [of b c i])
qed simp

lemma seq_bits_clear:
  "(\<And>k. k < n \<Longrightarrow> \<not> bitmap_get b (i + k)) \<Longrightarrow> cr < c \<Longrightarrow>
    seq_bits b c i (i + n) cr rs =
      (let rs' = (if cr = 0 \<and> n > 0 then i else rs)
       in if cr + n \<ge> c then Inl rs' else Inr (i + n, cr + n, rs'))"
proof (induction n arbitrary: i cr rs)
  case (Suc n)
  have "\<not> bitmap_get b i" using Suc.prems(1) [of 0] by simp
  moreover have "\<not> bitmap_get b (Suc i + k)" if "k < n" for k
    using Suc.prems(1) [of "Suc k"] that by simp
  ultimately show ?case
    using Suc.IH [of "Suc i" "Suc cr"] Suc.prems(2)
    by (cases "Suc cr = c") (auto simp: seq_bits.simps [of b c i] Let_def)
qed (simp add: Let_def)

lemma seq_qbits_eq:
  assumes "\<And>j. j < 64 \<Longrightarrow> bit qw j = bitmap_get b (i + j)" and "k \<le> 64"
  shows "seq_qbits qw c i k cr rs = seq_bits b c (i + k) (i + 64) cr rs"
  using assms
proof (induction qw c i k cr rs rule: seq_qbits.induct)
  case (1 qw c i k cr rs)
  show ?case
  proof (cases "k < 64")
    case True
    then have "(qw AND 2 ^ k = 0) = (\<not> bitmap_get b (i + k))"
      using "1.prems" by (simp add: bit_access)
    with 1 True show ?thesis
      by (cases "bitmap_get b (i + k)"; cases "Suc cr = c")
        (simp_all add: seq_qbits.simps [of qw c i k] seq_bits.simps [of b c "i + k"] Let_def)
  next
    case False
    with "1.prems" show ?thesis by (simp add: seq_qbits.simps)
  qed
qed

lemma seq_qwords_eq:
  assumes "bitmap_wf b" and "i \<le> qe" and "i mod 64 = 0" and "qe mod 64 = 0" and "qe \<le> m_size b"
    and "cr < c"
  shows "seq_qwords b c i qe cr rs = seq_bits b c i qe cr rs"
  using assms
proof (induction b c i qe cr rs rule: seq_qwords.induct)
  case (1 b c i qe cr rs)
  show ?case
  proof (cases "i < qe")
    case True
    let ?w = "qword (m_buffer b) (i div 64)"
    have le: "i + 64 \<le> qe" using True "1.prems" by presburger
    then have fit: "i + 64 \<le> m_size b" using "1.prems" by simp
    have al: "(i + 64) mod 64 = 0" using "1.prems" by simp
    note bits = bit_qword_bitmap [OF "1.prems"(1,3) fit]
    note split = seq_bits_append [of i "i + 64" qe b c cr rs, OF _ le]
    consider (zero) "?w = 0" | (ones) "?w = - 1" | (mixed) "?w \<noteq> 0" "?w \<noteq> - 1" by blast
    then show ?thesis
    proof cases
      case zero
      then have "\<not> bitmap_get b (i + k)" if "k < 64" for k
        using bits [OF that] by simp
      note clear = seq_bits_clear [of 64 b i cr c rs, OF this "1.prems"(6)]
      show ?thesis
        using "1.IH"(1) [OF True refl zero refl refl] zero True le al "1.prems"
        by (simp add: seq_qwords.simps [of b c i] split clear Let_def)
    next
      case ones
      then have "all_taken b i (i + 64)" using "1.prems" fit by (simp add: qword_all_ones)
      from seq_bits_taken [OF this, of c cr rs]
        "1.IH"(2) [OF True refl _ ones] ones True le al "1.prems"
      show ?thesis by (simp add: seq_qwords.simps [of b c i] split)
    next
      case mixed
      have q: "seq_qbits ?w c i 0 cr rs = seq_bits b c i (i + 64) cr rs"
        using seq_qbits_eq [of ?w b i 0 c cr rs] bits by simp
      show ?thesis
      proof (cases "seq_bits b c i (i + 64) cr rs")
        case (Inl r)
        with mixed True q show ?thesis by (simp add: seq_qwords.simps [of b c i] split Let_def)
      next
        case (Inr t)
        obtain i' cr' rs' where t: "t = (i', cr', rs')" by (cases t)
        with seq_bits_run_less [of b c i "i + 64" cr rs] Inr "1.prems"
        have "cr' < c" "i' = i + 64" by auto
        with "1.IH"(3) [OF True refl mixed, of t i' "(cr', rs')" cr' rs'] Inr t mixed True q le al "1.prems"
        show ?thesis by (simp add: seq_qwords.simps [of b c i] split Let_def)
      qed
    qed
  next
    case False
    with "1.prems" show ?thesis by (simp add: seq_qwords.simps)
  qed
qed

end
