(* ===== verification/Bitmap_Runs.thy ===== *)
theory Bitmap_Runs
  imports Bitmap
begin

text \<open>
  The searches for a run of free bits (\<open>find_first_free_sequence\<close>, \<open>find_last_free_sequence\<close> of
  \<open>src/mm/bitmap.cpp\<close>): both word-wise searches equal the bit-wise ones, and these find the first
  run at or after the start, respectively the last run of the bitmap.
\<close>

section \<open>The word-wise search from the start is the bit-wise one\<close>

lemma find_first_free_sequence_bits:
  fixes start :: nat
  assumes wf: "bitmap_wf b" and c: "0 < c" "c \<le> m_size b"
  defines "s \<equiv> (if start \<ge> m_size b then 0 else start)"
  shows "find_first_free_sequence b c start =
    (case seq_bits b c s (m_size b) 0 npos of Inl r \<Rightarrow> r | Inr _ \<Rightarrow> npos)"
proof -
  define qs where "qs = min (m_size b) ((s + 63) div 64 * 64)"
  define qe where "qe = m_size b div 64 * 64"
  have s: "s < m_size b" using c by (auto simp: s_def)
  have w: "wrap64 (s + 63) = s + 63" using s wf by (simp add: bitmap_wf_def)
  have qs: "s \<le> qs" "qs \<le> m_size b" "qs < m_size b \<Longrightarrow> qs mod 64 = 0"
    using s by (auto simp: qs_def min_def)
  have qe: "qe \<le> m_size b" "qe mod 64 = 0" by (simp_all add: qe_def)
  have split: "seq_bits b c s (m_size b) 0 npos =
      (case seq_bits b c s qs 0 npos of Inl r \<Rightarrow> Inl r
       | Inr (i, cr, rs) \<Rightarrow> seq_bits b c i (m_size b) cr rs)"
    by (rule seq_bits_append [OF qs(1,2)])
  have F: "find_first_free_sequence b c start =
      (case seq_bits b c s qs 0 npos of Inl r \<Rightarrow> r
       | Inr (i1, cr1, rs1) \<Rightarrow>
           (case seq_qwords b c i1 qe cr1 rs1 of Inl r \<Rightarrow> r
            | Inr (i2, cr2, rs2) \<Rightarrow>
                (case seq_bits b c i2 (m_size b) cr2 rs2 of Inl r \<Rightarrow> r | Inr _ \<Rightarrow> npos)))"
  proof -
    have "(if m_size b < (s + 63) div 64 * 64 then m_size b else (s + 63) div 64 * 64) = qs"
      by (simp add: qs_def min_def)
    then show ?thesis
      unfolding find_first_free_sequence_def Let_def s_def [symmetric] w qe_def [symmetric]
      using c by simp
  qed
  show ?thesis
  proof (cases "seq_bits b c s qs 0 npos")
    case (Inl r)
    then show ?thesis by (simp add: F split)
  next
    case (Inr t)
    obtain i cr rs where t: "t = (i, cr, rs)" by (cases t)
    with seq_bits_run_less [of b c s qs 0 npos] Inr c qs
    have i: "cr < c" "i = qs" by auto
    have q: "(case seq_qwords b c qs qe cr rs of Inl r \<Rightarrow> Inl r
        | Inr (i2, cr2, rs2) \<Rightarrow> seq_bits b c i2 (m_size b) cr2 rs2) =
        seq_bits b c qs (m_size b) cr rs"
    proof (cases "qs \<le> qe")
      case True
      then have "qs < m_size b \<or> qs = qe" using qe(1) by linarith
      then have "qs mod 64 = 0" using qs(3) qe(2) by auto
      then have "seq_qwords b c qs qe cr rs = seq_bits b c qs qe cr rs"
        using wf True qe i(1) by (intro seq_qwords_eq) auto
      then show ?thesis using seq_bits_append [OF True qe(1), of b c cr rs] by simp
    next
      case False
      then show ?thesis by (simp add: seq_qwords.simps [of b c qs])
    qed
    show ?thesis
      using Inr t i
      by (cases "seq_qwords b c qs qe cr rs") (auto simp: F split q [symmetric] split: prod.split)
  qed
qed

section \<open>The bit-wise run search finds the first run\<close>

definition clear_run :: "bitmap \<Rightarrow> nat \<Rightarrow> nat \<Rightarrow> bool" where
  "clear_run b t n \<longleftrightarrow> (\<forall>j. t \<le> j \<and> j < t + n \<longrightarrow> \<not> bitmap_get b j)"

definition run_inv :: "bitmap \<Rightarrow> nat \<Rightarrow> nat \<Rightarrow> nat \<Rightarrow> nat \<Rightarrow> nat \<Rightarrow> bool" where
  "run_inv b c s i cr rs \<longleftrightarrow>
     s + cr \<le> i \<and> cr < c \<and> (cr > 0 \<longrightarrow> rs = i - cr) \<and> clear_run b (i - cr) cr \<and>
     (s + cr < i \<longrightarrow> bitmap_get b (i - cr - 1)) \<and>
     (\<forall>t. s \<le> t \<and> t + c \<le> i \<longrightarrow> \<not> clear_run b t c)"

lemma run_inv_extend:
  assumes "run_inv b c s i cr rs" and "\<not> bitmap_get b i"
  shows "clear_run b (i - cr) (cr + 1)"
  unfolding clear_run_def
proof (intro allI impI)
  fix j assume "i - cr \<le> j \<and> j < i - cr + (cr + 1)"
  then have "j = i \<or> i - cr \<le> j \<and> j < i - cr + cr" using assms(1) by (auto simp: run_inv_def)
  then show "\<not> bitmap_get b j" using assms unfolding run_inv_def clear_run_def by blast
qed

lemma run_inv_clear:
  assumes "run_inv b c s i cr rs" and "\<not> bitmap_get b i" and "cr + 1 \<noteq> c"
  shows "run_inv b c s (i + 1) (cr + 1) (if cr = 0 then i else rs)"
proof -
  have "\<not> clear_run b t c" if "s \<le> t" "t + c = i + 1" for t
  proof -
    have "s + cr < i" "bitmap_get b (i - cr - 1)"
      using that assms by (auto simp: run_inv_def)
    moreover have "t \<le> i - cr - 1 \<and> i - cr - 1 < t + c"
      using that assms by (auto simp: run_inv_def)
    ultimately show ?thesis by (auto simp: clear_run_def)
  qed
  moreover have "\<not> clear_run b t c" if "s \<le> t" "t + c \<le> i" for t
    using that assms(1) by (simp add: run_inv_def)
  ultimately have none: "\<forall>t. s \<le> t \<and> t + c \<le> i + 1 \<longrightarrow> \<not> clear_run b t c"
    by (metis le_antisym not_less_eq_eq Suc_eq_plus1)
  have "clear_run b (i - cr) (cr + 1)" by (rule run_inv_extend [OF assms(1,2)])
  with none assms show ?thesis by (simp add: run_inv_def)
qed

lemma run_inv_taken:
  assumes "run_inv b c s i cr rs" and "bitmap_get b i"
  shows "run_inv b c s (i + 1) 0 rs"
proof -
  have "\<not> clear_run b t c" if "s \<le> t" "t + c = i + 1" for t
    using that assms by (auto simp: clear_run_def run_inv_def)
  moreover have "\<not> clear_run b t c" if "s \<le> t" "t + c \<le> i" for t
    using that assms(1) by (simp add: run_inv_def)
  ultimately have "\<forall>t. s \<le> t \<and> t + c \<le> i + 1 \<longrightarrow> \<not> clear_run b t c"
    by (metis le_antisym not_less_eq_eq Suc_eq_plus1)
  with assms show ?thesis by (simp add: run_inv_def clear_run_def)
qed

lemma seq_bits_spec:
  "run_inv b c s i cr rs \<Longrightarrow> i \<le> e \<Longrightarrow>
    (case seq_bits b c i e cr rs of
       Inl r \<Rightarrow> s \<le> r \<and> r + c \<le> e \<and> clear_run b r c \<and> (\<forall>t. s \<le> t \<and> t < r \<longrightarrow> \<not> clear_run b t c)
     | Inr _ \<Rightarrow> \<forall>t. s \<le> t \<and> t + c \<le> e \<longrightarrow> \<not> clear_run b t c)"
proof (induction b c i e cr rs rule: seq_bits.induct)
  case (1 b c i e cr rs)
  show ?case
  proof (cases "i < e")
    case True
    show ?thesis
    proof (cases "bitmap_get b i")
      case taken: True
      with "1.IH"(2) True "1.prems" run_inv_taken [OF "1.prems"(1)] show ?thesis
        by (simp add: seq_bits.simps [of b c i e])
    next
      case clear: False
      show ?thesis
      proof (cases "cr + 1 = c")
        case found: True
        let ?r = "i - cr"
        have r: "(if cr = 0 then i else rs) = ?r" "?r + c = i + 1" "s \<le> ?r"
          using "1.prems" found by (auto simp: run_inv_def)
        moreover have "clear_run b ?r c"
          using run_inv_extend [OF "1.prems"(1) clear] found by simp
        moreover have "\<not> clear_run b t c" if "s \<le> t" "t < ?r" for t
          using that r(2) "1.prems"(1) unfolding run_inv_def by simp
        moreover have "seq_bits b c i e cr rs = Inl ?r"
          using clear found True r(1) by (simp add: seq_bits.simps [of b c i e] Let_def)
        ultimately show ?thesis using True by simp
      next
        case False
        with "1.IH"(1) True clear "1.prems" run_inv_clear [OF "1.prems"(1) clear]
        show ?thesis by (simp add: seq_bits.simps [of b c i e] Let_def)
      qed
    qed
  next
    case False
    with "1.prems" show ?thesis by (auto simp: run_inv_def)
  qed
qed

section \<open>The search from the top finds the last run\<close>

lemma last_bits_append:
  "low \<le> m \<Longrightarrow> m \<le> i \<Longrightarrow>
    last_bits b c i low cr =
    (case last_bits b c i m cr of Inl r \<Rightarrow> Inl r | Inr (i', cr') \<Rightarrow> last_bits b c i' low cr')"
proof (induction b c i m cr rule: last_bits.induct)
  case (1 b c i m cr)
  show ?case
  proof (cases "m < i")
    case True
    then have "low < i" "m \<le> i - 1" using "1.prems" by auto
    with True 1 show ?thesis
      by (auto simp: last_bits.simps [of b c i low] last_bits.simps [of b c i m])
  next
    case False
    then show ?thesis by (simp add: last_bits.simps [of b c i m])
  qed
qed

lemma last_bits_done:
  "last_bits b c i low cr = Inr (i', cr') \<Longrightarrow> low \<le> i \<Longrightarrow> cr < c \<Longrightarrow> i' = low \<and> cr' < c"
proof (induction b c i low cr rule: last_bits.induct)
  case (1 b c i low cr)
  then show ?case
    by (cases "low < i")
      (auto simp: last_bits.simps [of b c i low] split: if_splits)
qed

lemma last_qbits_eq:
  assumes wf: "bitmap_wf b" and q: "q * 64 + 64 \<le> m_size b"
  shows "k \<le> 64 \<Longrightarrow> cr < c \<Longrightarrow>
    last_bits b c (q * 64 + k) (q * 64) cr =
    (case last_qbits (qword (m_buffer b) q) c q k cr of Inl r \<Rightarrow> Inl r | Inr cr' \<Rightarrow> Inr (q * 64, cr'))"
proof (induction k arbitrary: cr)
  case 0
  then show ?case by (simp add: last_bits.simps [of b c "q * 64"])
next
  case (Suc k)
  have "bit (qword (m_buffer b) q) k = bitmap_get b (q * 64 + k)"
    using bit_qword_bitmap [OF wf, of "q * 64" k] q Suc.prems by (simp add: add.commute)
  with Suc show ?case
    by (simp add: last_bits.simps [of b c "Suc (q * 64 + k)"] and_mask_bit)
qed

lemma last_bits_taken:
  assumes "\<And>j. low \<le> j \<Longrightarrow> j < i \<Longrightarrow> bitmap_get b j" and "low < i"
  shows "last_bits b c i low cr = Inr (low, 0)"
proof -
  have "last_bits b c (low + n) low cr = Inr (low, if n = 0 then cr else 0)"
    if "low + n \<le> i" for n cr
    using that
  proof (induction n arbitrary: cr)
    case 0
    then show ?case by (simp add: last_bits.simps [of b c low])
  next
    case (Suc n)
    have "bitmap_get b (low + n)" using Suc.prems by (intro assms(1)) auto
    with Suc show ?case
      by (simp add: last_bits.simps [of b c "Suc (low + n)"])
  qed
  from this [of "i - low"] assms(2) show ?thesis by simp
qed

lemma last_bits_clear:
  assumes "\<And>j. low \<le> j \<Longrightarrow> j < low + n \<Longrightarrow> \<not> bitmap_get b j" and "cr < c"
  shows "last_bits b c (low + n) low cr =
    (if cr + n \<ge> c then Inl (low + (cr + n - c)) else Inr (low, cr + n))"
  using assms
proof (induction n arbitrary: cr)
  case 0
  then show ?case by (simp add: last_bits.simps [of b c low])
next
  case (Suc n)
  have "\<not> bitmap_get b (low + n)" using Suc.prems by auto
  moreover have "last_bits b c (low + n) low (cr + 1) =
      (if cr + 1 + n \<ge> c then Inl (low + (cr + 1 + n - c)) else Inr (low, cr + 1 + n))"
    if "cr + 1 < c"
    using Suc.IH [of "cr + 1"] Suc.prems(1) that by auto
  ultimately show ?case using Suc.prems(2)
    by (auto simp: last_bits.simps [of b c "Suc (low + n)"])
qed

lemma last_qwords_eq:
  assumes wf: "bitmap_wf b"
  shows "q * 64 \<le> m_size b \<Longrightarrow> cr < c \<Longrightarrow>
    last_qwords b c q cr = (case last_bits b c (q * 64) 0 cr of Inl r \<Rightarrow> r | Inr _ \<Rightarrow> npos)"
proof (induction q arbitrary: cr)
  case 0
  then show ?case by (simp add: last_bits.simps [of b c 0])
next
  case (Suc q)
  let ?qw = "qword (m_buffer b) q"
  have split: "last_bits b c (q * 64 + 64) 0 cr =
      (case last_bits b c (q * 64 + 64) (q * 64) cr of Inl r \<Rightarrow> Inl r
       | Inr (i', cr') \<Rightarrow> last_bits b c i' 0 cr')"
    by (rule last_bits_append) auto
  have bits: "bit ?qw k = bitmap_get b (q * 64 + k)" if "k < 64" for k
    using bit_qword_bitmap [OF wf, of "q * 64" k] that Suc.prems by (simp add: add.commute)
  have word: "bitmap_get b j = bit ?qw (j - q * 64)" if "q * 64 \<le> j" "j < q * 64 + 64" for j
    using bits [of "j - q * 64"] that by simp
  consider (clear) "?qw = 0" | (taken) "?qw = - 1" | (mixed) "?qw \<noteq> 0" "?qw \<noteq> - 1" by blast
  then show ?case
  proof cases
    case clear
    then have "last_bits b c (q * 64 + 64) (q * 64) cr =
      (if cr + 64 \<ge> c then Inl (q * 64 + (cr + 64 - c)) else Inr (q * 64, cr + 64))"
      using word Suc.prems by (intro last_bits_clear) auto
    with clear split Suc show ?thesis by (simp add: add.commute)
  next
    case taken
    then have "last_bits b c (q * 64 + 64) (q * 64) cr = Inr (q * 64, 0)"
      using word by (intro last_bits_taken) auto
    with taken split Suc show ?thesis by (simp add: add.commute)
  next
    case mixed
    have eq: "last_bits b c (q * 64 + 64) (q * 64) cr =
      (case last_qbits ?qw c q 64 cr of Inl r \<Rightarrow> Inl r | Inr cr' \<Rightarrow> Inr (q * 64, cr'))"
      using last_qbits_eq [OF wf, of q 64 cr c] Suc.prems by simp
    show ?thesis
    proof (cases "last_qbits ?qw c q 64 cr")
      case (Inl r)
      with mixed split eq show ?thesis by (simp add: add.commute)
    next
      case (Inr cr')
      with eq have "cr' < c" using last_bits_done Suc.prems by fastforce
      with mixed split eq Inr Suc show ?thesis by (simp add: add.commute)
    qed
  qed
qed

lemma find_last_free_sequence_bits:
  assumes wf: "bitmap_wf b" and c: "0 < c" "c \<le> m_size b"
  shows "find_last_free_sequence b c =
    (case last_bits b c (m_size b) 0 0 of Inl r \<Rightarrow> r | Inr _ \<Rightarrow> npos)"
proof -
  let ?low = "m_size b div 64 * 64"
  have split: "last_bits b c (m_size b) 0 0 =
      (case last_bits b c (m_size b) ?low 0 of Inl r \<Rightarrow> Inl r
       | Inr (i', cr') \<Rightarrow> last_bits b c i' 0 cr')"
    by (rule last_bits_append) auto
  show ?thesis
  proof (cases "last_bits b c (m_size b) ?low 0")
    case (Inl r)
    with c split show ?thesis by (simp add: find_last_free_sequence_def)
  next
    case (Inr t)
    then obtain i cr where t: "t = (i, cr)" "i = ?low" "cr < c"
      using last_bits_done [of b c "m_size b" ?low 0] c by (cases t) auto
    have "last_qwords b c (m_size b div 64) cr =
      (case last_bits b c ?low 0 cr of Inl r \<Rightarrow> r | Inr _ \<Rightarrow> npos)"
      using t by (intro last_qwords_eq [OF wf]) auto
    with c split Inr t show ?thesis
      by (cases "?low = 0") (simp_all add: find_last_free_sequence_def last_bits.simps [of b c 0])
  qed
qed


definition last_inv :: "bitmap \<Rightarrow> nat \<Rightarrow> nat \<Rightarrow> nat \<Rightarrow> bool" where
  "last_inv b c i cr \<longleftrightarrow>
     i + cr \<le> m_size b \<and> cr < c \<and> clear_run b i cr \<and>
     (i + cr < m_size b \<longrightarrow> bitmap_get b (i + cr)) \<and>
     (\<forall>t. i \<le> t \<and> t + c \<le> m_size b \<longrightarrow> \<not> clear_run b t c)"

lemma clear_run_cons:
  assumes "clear_run b (Suc i) n" and "\<not> bitmap_get b i"
  shows "clear_run b i (Suc n)"
  unfolding clear_run_def
proof (intro allI impI)
  fix j assume "i \<le> j \<and> j < i + Suc n"
  then have "j = i \<or> Suc i \<le> j \<and> j < Suc i + n" by auto
  then show "\<not> bitmap_get b j" using assms unfolding clear_run_def by blast
qed

lemma last_inv_step:
  assumes inv: "last_inv b c (Suc i) cr"
  shows "bitmap_get b i \<Longrightarrow> last_inv b c i 0"
    and "\<not> bitmap_get b i \<Longrightarrow> cr + 1 \<noteq> c \<Longrightarrow> last_inv b c i (cr + 1)"
proof -
  have later: "\<not> clear_run b t c" if "i < t" "t + c \<le> m_size b" for t
    using that inv by (simp add: last_inv_def)
  have all: "\<forall>t. i \<le> t \<and> t + c \<le> m_size b \<longrightarrow> \<not> clear_run b t c"
    if "i + c \<le> m_size b \<Longrightarrow> \<not> clear_run b i c"
    using that later le_eq_less_or_eq by auto
  show "last_inv b c i 0" if "bitmap_get b i"
  proof -
    have "\<not> clear_run b i c" using that inv by (auto simp: clear_run_def last_inv_def)
    with all that inv show ?thesis by (simp add: last_inv_def clear_run_def)
  qed
  show "last_inv b c i (cr + 1)" if "\<not> bitmap_get b i" "cr + 1 \<noteq> c"
  proof -
    have "\<not> clear_run b i c" if "i + c \<le> m_size b"
    proof -
      have "Suc i + cr < i + c" using inv \<open>cr + 1 \<noteq> c\<close> by (simp add: last_inv_def)
      moreover from this that have "bitmap_get b (Suc i + cr)" using inv by (simp add: last_inv_def)
      ultimately show ?thesis by (auto simp: clear_run_def intro!: exI [of _ "Suc i + cr"])
    qed
    with all that inv show ?thesis by (simp add: last_inv_def clear_run_cons)
  qed
qed

lemma last_bits_spec:
  "last_inv b c i cr \<Longrightarrow>
    (case last_bits b c i 0 cr of
       Inl r \<Rightarrow> r + c \<le> m_size b \<and> clear_run b r c \<and>
         (\<forall>t. r < t \<and> t + c \<le> m_size b \<longrightarrow> \<not> clear_run b t c)
     | Inr _ \<Rightarrow> \<forall>t. t + c \<le> m_size b \<longrightarrow> \<not> clear_run b t c)"
proof (induction i arbitrary: cr)
  case 0
  then show ?case by (simp add: last_bits.simps [of b c 0] last_inv_def)
next
  case (Suc i)
  show ?case
  proof (cases "bitmap_get b i")
    case True
    with Suc.IH [OF last_inv_step(1) [OF Suc.prems True]] show ?thesis
      by (simp add: last_bits.simps [of b c "Suc i"])
  next
    case False
    show ?thesis
    proof (cases "cr + 1 = c")
      case found: True
      have "clear_run b i c"
        using clear_run_cons [of b i cr] False Suc.prems found by (simp add: last_inv_def)
      moreover have "i + c \<le> m_size b" using Suc.prems found by (simp add: last_inv_def)
      moreover have "\<not> clear_run b t c" if "i < t" "t + c \<le> m_size b" for t
        using that Suc.prems by (simp add: last_inv_def)
      ultimately show ?thesis
        using False found by (simp add: last_bits.simps [of b c "Suc i"])
    next
      case more: False
      with False Suc.IH [OF last_inv_step(2) [OF Suc.prems False more]] show ?thesis
        by (simp add: last_bits.simps [of b c "Suc i"])
    qed
  qed
qed

lemma find_last_free_sequence_run:
  assumes "bitmap_wf b" and "find_last_free_sequence b c \<noteq> npos"
  shows "0 < c \<and> find_last_free_sequence b c + c \<le> m_size b \<and>
    clear_run b (find_last_free_sequence b c) c"
proof -
  have c: "0 < c" "c \<le> m_size b"
    using assms(2) by (auto simp: find_last_free_sequence_def split: if_splits)
  have "last_inv b c (m_size b) 0" using c by (auto simp: last_inv_def clear_run_def)
  from last_bits_spec [OF this] show ?thesis
    using assms c find_last_free_sequence_bits [OF assms(1) c] by (auto split: sum.splits)
qed

section \<open>The contract of the searches\<close>

text \<open>
  C23.  \<open>Bitmap::find_first_free_sequence\<close>, which skips whole 64-bit words, returns the least start
  at or after the given index (or index 0, when that lies beyond the bitmap) of a run of \<open>count\<close>
  free bits, and \<open>npos\<close> exactly when there is none.
\<close>

theorem find_first_free_sequence_least:
  fixes start :: nat
  assumes "bitmap_wf b" and "0 < c" and "c \<le> m_size b"
  defines "s \<equiv> (if start \<ge> m_size b then 0 else start)"
    and "r \<equiv> find_first_free_sequence b c start"
  shows "(r = npos) = (\<forall>t. s \<le> t \<and> t + c \<le> m_size b \<longrightarrow> \<not> clear_run b t c) \<and>
    (r \<noteq> npos \<longrightarrow> s \<le> r \<and> r + c \<le> m_size b \<and> clear_run b r c \<and>
      (\<forall>t. s \<le> t \<and> t < r \<longrightarrow> \<not> clear_run b t c))"
proof -
  have "run_inv b c s s 0 npos" using assms(2) by (auto simp: run_inv_def clear_run_def)
  moreover have "s \<le> m_size b" by (simp add: s_def)
  ultimately have *: "case seq_bits b c s (m_size b) 0 npos of
       Inl r \<Rightarrow> s \<le> r \<and> r + c \<le> m_size b \<and> clear_run b r c \<and>
         (\<forall>t. s \<le> t \<and> t < r \<longrightarrow> \<not> clear_run b t c)
     | Inr _ \<Rightarrow> \<forall>t. s \<le> t \<and> t + c \<le> m_size b \<longrightarrow> \<not> clear_run b t c"
    by (rule seq_bits_spec)
  have np: "m_size b < npos" using assms(1) by (simp add: bitmap_wf_def npos_def)
  show ?thesis
    unfolding r_def find_first_free_sequence_bits [OF assms(1-3), of start, folded s_def]
    using * np by (cases "seq_bits b c s (m_size b) 0 npos") auto
qed

lemma find_first_free_sequence_least_witness:
  "find_first_free_sequence \<lparr>m_buffer = [3, 8], m_size = 16, m_next_free_hint = 0\<rparr> 4 5 = 5 \<and>
   \<not> clear_run \<lparr>m_buffer = [3, 8], m_size = 16, m_next_free_hint = 0\<rparr> 9 4"
proof -
  let ?b = "\<lparr>m_buffer = [3, 8], m_size = 16, m_next_free_hint = 0\<rparr> :: bitmap"
  have v: "find_first_free_sequence ?b 4 5 = 5" "find_first_free_sequence ?b 4 9 = 12"
    by code_simp+
  have wf: "bitmap_wf ?b" by (simp add: bitmap_wf_def)
  show ?thesis
    using find_first_free_sequence_least [of ?b 4 9, OF wf] v by (simp add: npos_def)
qed

text \<open>
  \<open>Bitmap::find_last_free_sequence\<close> returns the greatest start of a run of \<open>count\<close> free bits,
  and \<open>npos\<close> exactly when the bitmap has no such run.
\<close>

theorem find_last_free_sequence_greatest:
  assumes "bitmap_wf b" and "0 < c" and "c \<le> m_size b"
  defines "r \<equiv> find_last_free_sequence b c"
  shows "(r = npos) = (\<forall>t. t + c \<le> m_size b \<longrightarrow> \<not> clear_run b t c) \<and>
    (r \<noteq> npos \<longrightarrow> r + c \<le> m_size b \<and> clear_run b r c \<and>
      (\<forall>t. r < t \<and> t + c \<le> m_size b \<longrightarrow> \<not> clear_run b t c))"
proof -
  have "last_inv b c (m_size b) 0" using assms(2) by (auto simp: last_inv_def clear_run_def)
  note * = last_bits_spec [OF this]
  have np: "m_size b < npos" using assms(1) by (simp add: bitmap_wf_def npos_def)
  show ?thesis
    unfolding r_def find_last_free_sequence_bits [OF assms(1-3)]
    using * np by (cases "last_bits b c (m_size b) 0 0") auto
qed

lemma find_last_free_sequence_greatest_witness:
  "find_last_free_sequence \<lparr>m_buffer = [3, 8], m_size = 16, m_next_free_hint = 0\<rparr> 5 = 6 \<and>
   \<not> clear_run \<lparr>m_buffer = [3, 8], m_size = 16, m_next_free_hint = 0\<rparr> 7 5"
proof -
  let ?b = "\<lparr>m_buffer = [3, 8], m_size = 16, m_next_free_hint = 0\<rparr> :: bitmap"
  have v: "find_last_free_sequence ?b 5 = 6" by code_simp
  have wf: "bitmap_wf ?b" by (simp add: bitmap_wf_def)
  show ?thesis
    using find_last_free_sequence_greatest [of ?b 5, OF wf] v by (simp add: npos_def)
qed


text \<open>
  \<open>Bitmap::find_first_free\<close> returns a free index of the bitmap whenever one exists: the first
  one from the search position (the given index, or the hint when it is 0), else the first one from
  0; it returns \<open>npos\<close> exactly when every bit is set, and it changes nothing but the hint.
\<close>

theorem find_first_free_correct:
  assumes "bitmap_wf b"
  shows "(fst (find_first_free b k) = npos \<longleftrightarrow> all_taken b 0 (m_size b)) \<and>
    (\<not> all_taken b (search_from b k) (m_size b) \<longrightarrow>
       first_clear b (search_from b k) (m_size b) (fst (find_first_free b k))) \<and>
    (all_taken b (search_from b k) (m_size b) \<and> \<not> all_taken b 0 (m_size b) \<longrightarrow>
       first_clear b 0 (search_from b k) (fst (find_first_free b k))) \<and>
    (\<exists>h. snd (find_first_free b k) = b\<lparr>m_next_free_hint := h\<rparr>)"
proof -
  have np: "fst (find_first_free b k) \<noteq> npos" if "first_clear b s e (fst (find_first_free b k))"
    "e \<le> m_size b" for s e
    using that assms first_clear_less by blast
  have le: "search_from b k \<le> m_size b" by (simp add: search_from_def Let_def)
  have sub: "\<not> all_taken b 0 (m_size b)" if "first_clear b s e r" "e \<le> m_size b" for s e r
    using that by (auto simp: first_clear_def all_taken_def)
  have nt: "\<not> all_taken b s (m_size b)" if "first_clear b s (m_size b) r" for s r
    using that by (auto simp: first_clear_def all_taken_def)
  have mono: "all_taken b 0 (m_size b) \<Longrightarrow> all_taken b (search_from b k) (m_size b)"
    by (auto simp: all_taken_def)
  have hint: "\<exists>h. snd (find_first_free b k) = b\<lparr>m_next_free_hint := h\<rparr>"
    by (cases b) (auto simp: find_first_free_def Let_def)
  from find_first_free_index [OF assms, of k] show ?thesis
    using np [OF _ order_refl] np [OF _ le] sub [OF _ order_refl] sub [OF _ le] nt mono hint
    by blast
qed

lemma find_first_free_correct_witness:
  "fst (find_first_free \<lparr>m_buffer = [7, 255], m_size = 16, m_next_free_hint = 9\<rparr> 0) = 3 \<and>
   all_taken \<lparr>m_buffer = [7, 255], m_size = 16, m_next_free_hint = 9\<rparr> 9 16 = True"
proof -
  let ?b = "\<lparr>m_buffer = [7, 255], m_size = 16, m_next_free_hint = 9\<rparr> :: bitmap"
  have v: "fst (find_first_free ?b 0) = 3" by code_simp
  have s: "search_from ?b 0 = 9" by (simp add: search_from_def)
  have wf: "bitmap_wf ?b" by (simp add: bitmap_wf_def)
  show ?thesis
    using find_first_free_correct [of ?b 0, OF wf] v by (auto simp: s first_clear_def)
qed

text \<open>
  \<open>Bitmap::set_range\<close>, which fills whole bytes with \<open>memset\<close>, gives the value to exactly the
  bits from \<open>start\<close> that are below \<open>start + count\<close> and inside the bitmap, also when
  \<open>start + count\<close> wraps around 64 bits; no other bit and not the hint changes.
\<close>

theorem bitmap_set_range_exact:
  assumes "bitmap_wf b" and "count < 2 ^ 64"
  shows "bitmap_get (bitmap_set_range b start count v) j =
      (if start \<le> j \<and> j < start + count \<and> j < m_size b then v else bitmap_get b j) \<and>
    m_next_free_hint (bitmap_set_range b start count v) = m_next_free_hint b"
  using bitmap_get_set_range [OF assms, of start v j] by (auto simp: range_end_def)

lemma bitmap_set_range_exact_witness:
  "bitmap_get (bitmap_set_range \<lparr>m_buffer = [0, 0, 0], m_size = 20, m_next_free_hint = 0\<rparr>
     5 (2 ^ 64 - 1) True) 19 \<and>
   m_buffer (bitmap_set_range \<lparr>m_buffer = [0, 0, 0], m_size = 20, m_next_free_hint = 0\<rparr>
     5 (2 ^ 64 - 1) True) = [224, 255, 15]"
proof -
  let ?b = "\<lparr>m_buffer = [0, 0, 0], m_size = 20, m_next_free_hint = 0\<rparr> :: bitmap"
  have v: "m_buffer (bitmap_set_range ?b 5 (2 ^ 64 - 1) True) = [224, 255, 15]" by code_simp
  have wf: "bitmap_wf ?b" by (simp add: bitmap_wf_def)
  show ?thesis
    using bitmap_set_range_exact [of ?b "2 ^ 64 - 1" 5 True 19, OF wf] v by simp
qed

end
