(* ===== verification/Frame_Allocator.thy ===== *)
theory Frame_Allocator
  imports Prelude
begin

text \<open>
  What the rest of the kernel relies on of a reference-counting frame allocator, as a locale: the
  laws of \<open>alloc\<close>, \<open>inc\<close> and \<open>dec\<close> over the set of free frames and the reference counts.  Its
  client lemmas are about whole histories of calls: the count of a frame is the balance of the
  calls that name it, and a frame is handed out again only after all its references were dropped.
\<close>

section \<open>Histories of calls\<close>

datatype frame_op =
    AllocOp nat nat  \<comment> \<open>a request for a number of frames, and the address it returned\<close>
  | IncOp nat
  | DecOp nat

definition frames_of :: "nat \<Rightarrow> nat \<Rightarrow> nat set" where
  "frames_of p n = {p div 4096 ..< p div 4096 + n}"

text \<open>
  A history that follows the protocol: counts are changed only through page-aligned pointers to
  frames that have a reference, and no call panics.
\<close>

definition frame_ptr :: "nat \<Rightarrow> bool" where
  "frame_ptr p \<longleftrightarrow> p \<noteq> 0 \<and> p mod 4096 = 0"

fun frame_run ::
  "('s \<Rightarrow> nat \<Rightarrow> nat \<times> 's) \<Rightarrow> ('s \<Rightarrow> nat \<Rightarrow> 's kresult) \<Rightarrow> ('s \<Rightarrow> nat \<Rightarrow> 's) \<Rightarrow>
   ('s \<Rightarrow> nat \<Rightarrow> nat) \<Rightarrow> 's \<Rightarrow> frame_op list \<Rightarrow> 's option"
where
  "frame_run alloc inc dec refs s [] = Some s"
| "frame_run alloc inc dec refs s (AllocOp n p # ops) =
     (let (q, s') = alloc s n in if q = p then frame_run alloc inc dec refs s' ops else None)"
| "frame_run alloc inc dec refs s (IncOp p # ops) =
     (if frame_ptr p \<and> refs s (p div 4096) > 0 then
        (case inc s p of Done s' \<Rightarrow> frame_run alloc inc dec refs s' ops | Panic _ \<Rightarrow> None)
      else None)"
| "frame_run alloc inc dec refs s (DecOp p # ops) =
     (if frame_ptr p \<and> refs s (p div 4096) > 0
      then frame_run alloc inc dec refs (dec s p) ops else None)"

fun allocates :: "nat \<Rightarrow> frame_op \<Rightarrow> bool" where
  "allocates f (AllocOp n p) = (p \<noteq> 0 \<and> f \<in> frames_of p n)"
| "allocates f (IncOp p) = False"
| "allocates f (DecOp p) = False"

definition inc_calls :: "nat \<Rightarrow> frame_op list \<Rightarrow> nat" where
  "inc_calls f ops = count_list ops (IncOp (f * 4096))"

definition dec_calls :: "nat \<Rightarrow> frame_op list \<Rightarrow> nat" where
  "dec_calls f ops = count_list ops (DecOp (f * 4096))"

lemma frame_ptr_eq: "frame_ptr p \<Longrightarrow> p = p div 4096 * 4096"
  by (auto simp: frame_ptr_def)

lemma frame_run_append:
  "frame_run al ic dc rf s (xs @ ys) =
     Option.bind (frame_run al ic dc rf s xs) (\<lambda>s'. frame_run al ic dc rf s' ys)"
  by (induction al ic dc rf s xs rule: frame_run.induct) (auto split: prod.split kresult.split)

section \<open>The interface\<close>

locale frame_allocator =
  fixes inv :: "'s \<Rightarrow> bool"
    and avail :: "'s \<Rightarrow> nat set"
    and refs :: "'s \<Rightarrow> nat \<Rightarrow> nat"
    and alloc :: "'s \<Rightarrow> nat \<Rightarrow> nat \<times> 's"
    and inc :: "'s \<Rightarrow> nat \<Rightarrow> 's kresult"
    and dec :: "'s \<Rightarrow> nat \<Rightarrow> 's"
  assumes alloc_inv: "inv s \<Longrightarrow> alloc s n = (p, s') \<Longrightarrow> inv s'"
    and alloc_fail: "inv s \<Longrightarrow> alloc s n = (0, s') \<Longrightarrow> avail s' = avail s \<and> refs s' = refs s"
    and alloc_ok: "inv s \<Longrightarrow> alloc s n = (p, s') \<Longrightarrow> p \<noteq> 0 \<Longrightarrow>
      frame_ptr p \<and> frames_of p n \<subseteq> avail s \<and> avail s' = avail s - frames_of p n \<and>
      refs s' = (\<lambda>f. if f \<in> frames_of p n then 1 else refs s f)"
    and inc_ok: "inv s \<Longrightarrow> frame_ptr p \<Longrightarrow> 0 < refs s (p div 4096) \<Longrightarrow> inc s p = Done s' \<Longrightarrow>
      inv s' \<and> avail s' = avail s \<and> refs s' = (refs s)(p div 4096 := refs s (p div 4096) + 1)"
    and dec_ok: "inv s \<Longrightarrow> frame_ptr p \<Longrightarrow> 0 < refs s (p div 4096) \<Longrightarrow>
      inv (dec s p) \<and> refs (dec s p) = (refs s)(p div 4096 := refs s (p div 4096) - 1) \<and>
      avail (dec s p) =
        (if refs s (p div 4096) = 1 then insert (p div 4096) (avail s) else avail s)"
    and avail_refs: "inv s \<Longrightarrow> f \<in> avail s \<Longrightarrow> refs s f = 0"
begin

lemma run_inv: "frame_run alloc inc dec refs s ops = Some s' \<Longrightarrow> inv s \<Longrightarrow> inv s'"
proof (induction ops arbitrary: s)
  case (Cons op ops)
  then show ?case
    by (cases op)
      (auto split: prod.splits if_splits kresult.splits dest: alloc_inv inc_ok dec_ok)
qed simp

lemma run_balance:
  assumes "frame_run alloc inc dec refs s ops = Some s'" and "inv s"
    and "\<not> (\<exists>op \<in> set ops. allocates f op)"
  shows "refs s' f + dec_calls f ops = refs s f + inc_calls f ops"
  using assms
proof (induction ops arbitrary: s)
  case Nil
  then show ?case by (simp add: dec_calls_def inc_calls_def)
next
  case (Cons op ops)
  show ?case
  proof (cases op)
    case (AllocOp n p)
    then obtain s1 where s1: "alloc s n = (p, s1)" "frame_run alloc inc dec refs s1 ops = Some s'"
      using Cons.prems(1) by (auto split: prod.splits if_splits)
    have "refs s1 f = refs s f"
      using alloc_fail [OF Cons.prems(2)] alloc_ok [OF Cons.prems(2) s1(1)] s1(1) Cons.prems(3) AllocOp
      by (cases "p = 0") auto
    with Cons.IH [OF s1(2) alloc_inv [OF Cons.prems(2) s1(1)]] Cons.prems(3) AllocOp
    show ?thesis by (simp add: dec_calls_def inc_calls_def)
  next
    case (IncOp p)
    then obtain s1 where s1: "frame_ptr p" "0 < refs s (p div 4096)" "inc s p = Done s1"
      "frame_run alloc inc dec refs s1 ops = Some s'"
      using Cons.prems(1) by (auto split: if_splits kresult.splits)
    note i = inc_ok [OF Cons.prems(2) s1(1-3)]
    have "refs s' f + dec_calls f ops = refs s1 f + inc_calls f ops"
      using Cons.IH [OF s1(4)] i Cons.prems(3) by simp
    then show ?thesis
      using i IncOp frame_ptr_eq [OF s1(1)] by (auto simp: dec_calls_def inc_calls_def)
  next
    case (DecOp p)
    then have s1: "frame_ptr p" "0 < refs s (p div 4096)"
      "frame_run alloc inc dec refs (dec s p) ops = Some s'"
      using Cons.prems(1) by (auto split: if_splits)
    note d = dec_ok [OF Cons.prems(2) s1(1-2)]
    have "refs s' f + dec_calls f ops = refs (dec s p) f + inc_calls f ops"
      using Cons.IH [OF s1(3)] d Cons.prems(3) by simp
    then show ?thesis
      using d s1(2) DecOp frame_ptr_eq [OF s1(1)] by (auto simp: dec_calls_def inc_calls_def)
  qed
qed

text \<open>A frame that is free exactly when it has no references stays so.\<close>

lemma run_avail:
  assumes "frame_run alloc inc dec refs s ops = Some s'" and "inv s" and "f \<in> avail s \<longleftrightarrow> refs s f = 0"
    and "\<not> (\<exists>op \<in> set ops. allocates f op)"
  shows "f \<in> avail s' \<longleftrightarrow> refs s' f = 0"
  using assms
proof (induction ops arbitrary: s)
  case (Cons op ops)
  show ?case
  proof (cases op)
    case (AllocOp n p)
    then obtain s1 where s1: "alloc s n = (p, s1)" "frame_run alloc inc dec refs s1 ops = Some s'"
      using Cons.prems(1) by (auto split: prod.splits if_splits)
    have "f \<in> avail s1 \<longleftrightarrow> refs s1 f = 0"
      using alloc_fail [OF Cons.prems(2)] alloc_ok [OF Cons.prems(2) s1(1)] s1(1) Cons.prems(3,4) AllocOp
      by (cases "p = 0") auto
    with Cons.IH [OF s1(2) alloc_inv [OF Cons.prems(2) s1(1)]] Cons.prems(4) show ?thesis by simp
  next
    case (IncOp p)
    then obtain s1 where s1: "frame_ptr p" "0 < refs s (p div 4096)" "inc s p = Done s1"
      "frame_run alloc inc dec refs s1 ops = Some s'"
      using Cons.prems(1) by (auto split: if_splits kresult.splits)
    show ?thesis using inc_ok [OF Cons.prems(2) s1(1-3)] s1(2) Cons.IH [OF s1(4)] Cons.prems(3,4) by auto
  next
    case (DecOp p)
    then have s1: "frame_ptr p" "0 < refs s (p div 4096)" "frame_run alloc inc dec refs (dec s p) ops = Some s'"
      using Cons.prems(1) by (auto split: if_splits)
    show ?thesis
      using dec_ok [OF Cons.prems(2) s1(1-2)] s1(2) Cons.IH [OF s1(3)] Cons.prems(3,4) by (auto split: if_splits)
  qed
qed simp

text \<open>The count of a frame since it was allocated, and whether it is free again.\<close>

lemma alloc_balance:
  assumes run: "frame_run alloc inc dec refs s (AllocOp n p # ops) = Some s'"
    and inv: "inv s" and p: "p \<noteq> 0" "f \<in> frames_of p n" and no: "\<not> (\<exists>op \<in> set ops. allocates f op)"
  shows "inv s' \<and> refs s' f + dec_calls f ops = 1 + inc_calls f ops \<and>
    (f \<in> avail s' \<longleftrightarrow> dec_calls f ops = 1 + inc_calls f ops)"
proof -
  obtain s1 where s1: "alloc s n = (p, s1)" and r: "frame_run alloc inc dec refs s1 ops = Some s'"
    using run by (auto split: prod.splits if_splits)
  note i1 = alloc_inv [OF inv s1]
  have "refs s1 f = 1" "f \<notin> avail s1" using alloc_ok [OF inv s1 p(1)] p(2) by simp_all
  then show ?thesis using run_inv [OF r i1] run_balance [OF r i1 no] run_avail [OF r i1 _ no] by auto
qed

lemma realloc_after_release:
  assumes run: "frame_run alloc inc dec refs s (AllocOp n p # ops @ [AllocOp m q]) = Some s'"
    and inv: "inv s" and pq: "p \<noteq> 0" "q \<noteq> 0"
    and f: "f \<in> frames_of p n" "f \<in> frames_of q m"
    and no: "\<not> (\<exists>op \<in> set ops. allocates f op)"
  shows "dec_calls f ops = Suc (inc_calls f ops)"
proof -
  obtain s1 where s1: "alloc s n = (p, s1)"
    and r: "frame_run alloc inc dec refs s1 (ops @ [AllocOp m q]) = Some s'"
    using run by (auto split: prod.splits if_splits)
  obtain s2 where s2: "frame_run alloc inc dec refs s1 ops = Some s2"
    and r2: "frame_run alloc inc dec refs s2 [AllocOp m q] = Some s'"
    using r unfolding frame_run_append bind_eq_Some_conv by blast
  from r2 have a2: "alloc s2 m = (q, s')"
    by (cases "alloc s2 m") (auto split: if_splits)
  note i1 = alloc_inv [OF inv s1]
  note i2 = run_inv [OF s2 i1]
  have "refs s1 f = 1" using alloc_ok [OF inv s1 pq(1)] f(1) by simp
  moreover have "refs s2 f = 0"
    using alloc_ok [OF i2 a2 pq(2)] f(2) avail_refs [OF i2] by blast
  ultimately show ?thesis using run_balance [OF s2 i1 no] by simp
qed

end

end
