(* ===== verification/Pmm.thy ===== *)
theory Pmm
  imports Bitmap_Runs Frame_Allocator
begin

text \<open>
  The physical memory manager, \<open>src/mm/pmm.cpp\<close>.  Its file-scope variables are the record
  \<open>pmm\<close>; physical addresses and frame numbers are \<open>nat\<close> below \<open>2 ^ 64\<close>, the byte counters
  \<open>g_total_memory\<close> and \<open>g_free_memory\<close> are 64-bit words, the reference counts 16-bit words.
  \<open>ram\<close> is the physical memory behind the direct map (\<open>vmm_phys_to_virt\<close>).  Each function runs
  under \<open>g_pmm_lock\<close>, so it is one atomic step.
\<close>

section \<open>Boot memory map\<close>

record BootMemoryMapEntry =
  e_base :: nat
  e_length :: nat
  e_type :: nat

definition BOOT_MEM_USABLE :: nat where "BOOT_MEM_USABLE = 0"
definition BOOT_MEM_BOOTLOADER_RECLAIMABLE :: nat where "BOOT_MEM_BOOTLOADER_RECLAIMABLE = 5"

definition get_aligned_usable_range :: "BootMemoryMapEntry \<Rightarrow> (nat \<times> nat) option" where
  "get_aligned_usable_range entry =
     (if e_length entry = 0 then None
      else if e_base entry + e_length entry \<ge> 2 ^ 64 then None
      else
        let base = wrap64 (e_base entry + 4095) div 4096 * 4096;
            aligned_end = (e_base entry + e_length entry) div 4096 * 4096
        in if base \<ge> aligned_end then None else Some (base, aligned_end - base))"

section \<open>State\<close>

record pmm =
  g_pmm_bitmap :: bitmap
  g_pmm_refcounts :: "u16 list"
  g_bitmap_bits :: nat
  g_total_memory :: u64
  g_free_memory :: u64
  g_highest_page :: nat
  ram :: "nat \<Rightarrow> u8"

definition k_frame_size :: u64 where "k_frame_size = 4096"

definition zero_memory :: "(nat \<Rightarrow> u8) \<Rightarrow> nat \<Rightarrow> nat \<Rightarrow> (nat \<Rightarrow> u8)" where
  "zero_memory mem p n = (\<lambda>a. if p \<le> a \<and> a < p + n then 0 else mem a)"

definition reserve_frame_permanently :: "pmm \<Rightarrow> nat \<Rightarrow> pmm" where
  "reserve_frame_permanently s frame_idx =
     (if frame_idx \<ge> g_bitmap_bits s then s
      else
        let was_free = \<not> bitmap_get (g_pmm_bitmap s) frame_idx;
            s1 = s\<lparr>g_pmm_bitmap := bitmap_set (g_pmm_bitmap s) frame_idx True,
                   g_pmm_refcounts :=
                     (if g_pmm_refcounts s ! frame_idx = 0
                      then (g_pmm_refcounts s)[frame_idx := 1] else g_pmm_refcounts s)\<rparr>
        in if was_free \<and> g_free_memory s1 \<ge> k_frame_size
           then s1\<lparr>g_free_memory := g_free_memory s1 - k_frame_size\<rparr> else s1)"

section \<open>Initialisation\<close>

text \<open>The loops of \<open>pmm_init\<close>, in order: the highest address, the metadata, the usable ranges.\<close>

fun highest_end :: "BootMemoryMapEntry list \<Rightarrow> nat \<Rightarrow> nat" where
  "highest_end [] h = h"
| "highest_end (e # es) h =
     (if e_type e = BOOT_MEM_USABLE \<or> e_type e = BOOT_MEM_BOOTLOADER_RECLAIMABLE then
        (if e_base e + e_length e \<ge> 2 ^ 64 then highest_end es h
         else highest_end es (if e_base e + e_length e > h then e_base e + e_length e else h))
      else highest_end es h)"

fun place_metadata ::
  "nat \<Rightarrow> nat \<Rightarrow> BootMemoryMapEntry list \<Rightarrow> nat option \<Rightarrow> nat option \<Rightarrow> nat option \<times> nat option"
where
  "place_metadata bsz rsz [] b r = (b, r)"
| "place_metadata bsz rsz (e # es) b r =
     (if e_type e = BOOT_MEM_USABLE then
        (case get_aligned_usable_range e of
           None \<Rightarrow> place_metadata bsz rsz es b r
         | Some (base, len) \<Rightarrow>
             let (b', r') =
               (if b = None \<and> len \<ge> bsz then
                  (Some base,
                   if r = None \<and> bsz + rsz < 2 ^ 64 \<and> len \<ge> bsz + rsz
                   then Some (base + bsz) else r)
                else if r = None \<and> len \<ge> rsz then (b, Some base)
                else (b, r))
             in if b' \<noteq> None \<and> r' \<noteq> None then (b', r')
                else place_metadata bsz rsz es b' r')
      else place_metadata bsz rsz es b r)"

definition free_entry :: "pmm \<Rightarrow> BootMemoryMapEntry \<Rightarrow> pmm" where
  "free_entry s e =
     (if e_type e = BOOT_MEM_USABLE then
        (case get_aligned_usable_range e of
           None \<Rightarrow> s
         | Some (base, len) \<Rightarrow>
             let start_frame = base div 4096; frames0 = len div 4096
             in if start_frame < g_bitmap_bits s then
                  (let frames = (if start_frame + frames0 > g_bitmap_bits s
                                 then g_bitmap_bits s - start_frame else frames0);
                       bytes = of_nat frames * k_frame_size
                   in s\<lparr>g_pmm_bitmap := bitmap_set_range (g_pmm_bitmap s) start_frame frames False,
                        g_free_memory := g_free_memory s + bytes,
                        g_total_memory := g_total_memory s + bytes,
                        g_highest_page :=
                          (if start_frame + frames - 1 > g_highest_page s
                           then start_frame + frames - 1 else g_highest_page s)\<rparr>)
                else s)
      else s)"

fun set_refs :: "u16 list \<Rightarrow> nat \<Rightarrow> nat \<Rightarrow> u16 list" where
  "set_refs rc start 0 = rc"
| "set_refs rc start (Suc n) = (set_refs rc start n)[start + n := 1]"

definition reserve_metadata :: "pmm \<Rightarrow> nat \<Rightarrow> nat \<Rightarrow> pmm" where
  "reserve_metadata s phys_addr size_bytes =
     (let start_frame = phys_addr div 4096; frame_count = size_bytes div 4096
      in s\<lparr>g_pmm_bitmap := bitmap_set_range (g_pmm_bitmap s) start_frame frame_count True,
           g_pmm_refcounts := set_refs (g_pmm_refcounts s) start_frame frame_count,
           g_free_memory := g_free_memory s - of_nat size_bytes\<rparr>)"

definition page_round :: "nat \<Rightarrow> nat" where
  "page_round n = (n + 4095) div 4096 * 4096"

text \<open>\<open>pmm_init\<close> from \<open>g_pmm_bitmap_buffer = ...\<close> to its end, and the whole function.\<close>

definition pmm_setup ::
  "pmm \<Rightarrow> BootMemoryMapEntry list \<Rightarrow> nat \<Rightarrow> nat \<Rightarrow> nat \<Rightarrow> nat \<Rightarrow> nat \<Rightarrow> pmm" where
  "pmm_setup s memory_map bits bp bitmap_size_bytes rp refcounts_size_bytes =
     (let buffer = map (ram s) [bp ..< bp + bitmap_size_bytes];
          bm = bitmap_set_range (bitmap_init buffer bits) 0 bits True;
          s1 = s\<lparr>g_pmm_bitmap := bm, g_pmm_refcounts := replicate bits 0,
                 g_bitmap_bits := bits, g_total_memory := 0,
                 g_free_memory := 0, g_highest_page := 0\<rparr>;
          s2 = foldl free_entry s1 memory_map;
          s3 = reserve_metadata s2 bp bitmap_size_bytes;
          s4 = reserve_metadata s3 rp refcounts_size_bytes;
          s5 = reserve_frame_permanently s4 0
      in if g_bitmap_bits s5 > 1 \<and> get_hint (g_pmm_bitmap s5) = 0
         then s5\<lparr>g_pmm_bitmap := update_hint (g_pmm_bitmap s5) 1\<rparr> else s5)"

definition pmm_init :: "pmm \<Rightarrow> BootMemoryMapEntry list \<Rightarrow> pmm kresult" where
  "pmm_init s memory_map =
     (if memory_map = [] then Done s
      else
        let highest = highest_end memory_map 0 in
        if highest > 2 ^ 64 - 1 - 4095 then Panic ''pmm: physical memory range is too large''
        else
          let max_frames = (highest + 4095) div 4096 in
          if max_frames > 2 ^ 64 - 1 then Panic ''pmm: PMM bitmap exceeds addressable size''
          else if wrap64 (max_frames + 7) div 8 > 2 ^ 64 - 1 - 4095
          then Panic ''pmm: bitmap size overflow''
          else if max_frames * 2 \<ge> 2 ^ 64 \<or> max_frames * 2 > 2 ^ 64 - 1 - 4095
          then Panic ''pmm: refcount size overflow''
          else
          let bitmap_size_bytes = page_round (wrap64 (max_frames + 7) div 8);
              refcounts_size_bytes = page_round (max_frames * 2)
          in case place_metadata bitmap_size_bytes refcounts_size_bytes memory_map None None of
               (Some bp, Some rp) \<Rightarrow>
                 Done (pmm_setup s memory_map max_frames bp bitmap_size_bytes rp
                         refcounts_size_bytes)
             | _ \<Rightarrow> Panic ''pmm: failed to find memory for bitmap or refcounts'')"

section \<open>Allocation\<close>

text \<open>A physical pointer is its address; the null pointer is \<open>0\<close>.\<close>

definition pmm_alloc_frame :: "pmm \<Rightarrow> nat \<times> pmm" where
  "pmm_alloc_frame s =
     (let (idx0, bm0) = find_first_free (g_pmm_bitmap s) 0;
          s0 = s\<lparr>g_pmm_bitmap := bm0\<rparr>;
          (frame_idx, s1) =
            (if idx0 = 0 then
               (let r = reserve_frame_permanently s0 0;
                    (idx1, bm1) = find_first_free (g_pmm_bitmap r) 1
                in (idx1, r\<lparr>g_pmm_bitmap := bm1\<rparr>))
             else (idx0, s0))
      in if frame_idx \<noteq> npos \<and> frame_idx < g_bitmap_bits s1 then
           (let phys_ptr = wrap64 (frame_idx * 4096)
            in (phys_ptr,
                s1\<lparr>g_pmm_bitmap := bitmap_set (g_pmm_bitmap s1) frame_idx True,
                   g_pmm_refcounts := (g_pmm_refcounts s1)[frame_idx := 1],
                   g_free_memory := g_free_memory s1 - k_frame_size,
                   ram := zero_memory (ram s1) phys_ptr 4096\<rparr>))
         else (0, s1))"

definition pmm_alloc_frames :: "pmm \<Rightarrow> nat \<Rightarrow> nat \<times> pmm" where
  "pmm_alloc_frames s count =
     (if count = 0 \<or> count > (2 ^ 64 - 1) div 4096 then (0, s)
      else if count = 1 then pmm_alloc_frame s
      else
        let frame_idx = find_last_free_sequence (g_pmm_bitmap s) count in
        if frame_idx \<noteq> npos \<and> count \<le> g_bitmap_bits s - frame_idx \<and>
           wrap64 (frame_idx + count - 1) \<le> g_highest_page s then
          (let bm = bitmap_set_range (g_pmm_bitmap s) frame_idx count True;
               bm' = (if frame_idx \<le> get_hint bm \<and> frame_idx + count > get_hint bm
                      then update_hint bm (frame_idx + count) else bm)
           in (wrap64 (frame_idx * 4096),
               s\<lparr>g_pmm_bitmap := bm',
                 g_pmm_refcounts := set_refs (g_pmm_refcounts s) frame_idx count,
                 g_free_memory := g_free_memory s - k_frame_size * of_nat count\<rparr>))
        else (0, s))"

section \<open>Reference counts\<close>

definition pmm_refcount_inc :: "pmm \<Rightarrow> nat \<Rightarrow> pmm kresult" where
  "pmm_refcount_inc s frame =
     (if frame = 0 then Done s
      else
        let frame_idx = frame div 4096 in
        if frame_idx < g_bitmap_bits s then
          (if g_pmm_refcounts s ! frame_idx = 65535 then Panic ''pmm: refcount overflow''
           else Done (s\<lparr>g_pmm_refcounts :=
                          (g_pmm_refcounts s)[frame_idx := g_pmm_refcounts s ! frame_idx + 1]\<rparr>))
        else Done s)"

definition pmm_refcount_dec :: "pmm \<Rightarrow> nat \<Rightarrow> pmm" where
  "pmm_refcount_dec s frame =
     (if frame = 0 then s
      else
        let frame_idx = frame div 4096 in
        if frame_idx \<ge> g_bitmap_bits s \<or> g_pmm_refcounts s ! frame_idx = 0 then s
        else
          let count = g_pmm_refcounts s ! frame_idx - 1;
              s1 = s\<lparr>g_pmm_refcounts := (g_pmm_refcounts s)[frame_idx := count]\<rparr>
          in if count = 0 then
               s1\<lparr>g_pmm_bitmap :=
                    update_hint (bitmap_set (g_pmm_bitmap s1) frame_idx False) frame_idx,
                  g_free_memory := g_free_memory s1 + k_frame_size\<rparr>
             else s1)"

definition pmm_get_refcount :: "pmm \<Rightarrow> nat \<Rightarrow> u16" where
  "pmm_get_refcount s frame =
     (if frame = 0 then 0
      else if frame div 4096 < g_bitmap_bits s then g_pmm_refcounts s ! (frame div 4096) else 0)"

definition pmm_free_frame :: "pmm \<Rightarrow> nat \<Rightarrow> pmm" where
  "pmm_free_frame s frame = pmm_refcount_dec s frame"

definition pmm_get_free_memory :: "pmm \<Rightarrow> u64" where
  "pmm_get_free_memory s = g_free_memory s"

definition pmm_get_total_memory :: "pmm \<Rightarrow> u64" where
  "pmm_get_total_memory s = g_total_memory s"

definition pmm_is_managed :: "pmm \<Rightarrow> nat \<Rightarrow> bool" where
  "pmm_is_managed s frame = (if frame = 0 then False else frame div 4096 < g_bitmap_bits s)"


section \<open>Invariant\<close>

definition free_frames :: "pmm \<Rightarrow> nat set" where
  "free_frames s = {i. i < g_bitmap_bits s \<and> \<not> bitmap_get (g_pmm_bitmap s) i}"

definition pmm_refs :: "pmm \<Rightarrow> nat \<Rightarrow> nat" where
  "pmm_refs s f = (if f < g_bitmap_bits s then unat (g_pmm_refcounts s ! f) else 0)"

text \<open>The part of the invariant that the loops of \<open>pmm_init\<close> establish and every function keeps.\<close>

definition pmm_core :: "pmm \<Rightarrow> bool" where
  "pmm_core s \<longleftrightarrow>
     bitmap_wf (g_pmm_bitmap s) \<and> m_size (g_pmm_bitmap s) = g_bitmap_bits s \<and>
     length (g_pmm_refcounts s) = g_bitmap_bits s \<and> g_bitmap_bits s < 2 ^ 52 \<and>
     (\<forall>f \<in> free_frames s. pmm_refs s f = 0) \<and>
     g_free_memory s = of_nat (4096 * card (free_frames s))"

definition pmm_inv :: "pmm \<Rightarrow> bool" where
  "pmm_inv s \<longleftrightarrow> pmm_core s \<and> (g_bitmap_bits s > 0 \<longrightarrow> pmm_refs s 0 > 0)"

lemma finite_free_frames [simp]: "finite (free_frames s)"
  by (simp add: free_frames_def)

lemma card_free_frames: "card (free_frames s) \<le> g_bitmap_bits s"
  using card_mono [of "{..< g_bitmap_bits s}" "free_frames s"]
  by (auto simp: free_frames_def)

lemma frame0_taken: "pmm_inv s \<Longrightarrow> 0 \<notin> free_frames s"
  by (auto simp: pmm_inv_def pmm_core_def free_frames_def)

lemma pmm_core_free_bytes:
  assumes "pmm_core s"
  shows "unat (g_free_memory s) = 4096 * card (free_frames s)"
proof -
  have "4096 * card (free_frames s) < 2 ^ 64"
    using card_free_frames [of s] assms by (simp add: pmm_core_def)
  then have "unat (of_nat (4096 * card (free_frames s)) :: u64) = 4096 * card (free_frames s)"
    by (intro unat_of_nat_small) simp
  with assms show ?thesis unfolding pmm_core_def by metis
qed

lemma free_memory_take:
  assumes "F \<subseteq> free_frames s" and "g_free_memory s = of_nat (4096 * card (free_frames s))"
  shows "g_free_memory s - of_nat (4096 * card F) = of_nat (4096 * card (free_frames s - F))"
proof -
  have "card (free_frames s) = card (free_frames s - F) + card F"
    using assms(1) by (metis card_Diff_subset card_mono finite_free_frames finite_subset
        le_add_diff_inverse2)
  then show ?thesis unfolding assms(2) by (simp add: algebra_simps)
qed

lemma length_set_refs [simp]: "length (set_refs rc a n) = length rc"
  by (induction n) auto

lemma nth_set_refs:
  "i < length rc \<Longrightarrow> set_refs rc a n ! i = (if a \<le> i \<and> i < a + n then 1 else rc ! i)"
proof (induction n)
  case (Suc n)
  then show ?case by (cases "i = a + n") auto
qed auto

text \<open>Every operation that takes frames: the bits of \<open>F\<close> are set, its counts become 1.\<close>

lemma pmm_core_take:
  assumes core: "pmm_core s" and F: "F \<subseteq> free_frames s"
    and bm: "bitmap_wf bm" "m_size bm = g_bitmap_bits s"
    and get: "\<And>j. j < g_bitmap_bits s \<Longrightarrow>
      bitmap_get bm j = (j \<in> F \<or> bitmap_get (g_pmm_bitmap s) j)"
    and rc: "length rc = g_bitmap_bits s"
      "\<And>j. j < g_bitmap_bits s \<Longrightarrow> rc ! j = (if j \<in> F then 1 else g_pmm_refcounts s ! j)"
    and fm: "fm = g_free_memory s - of_nat (4096 * card F)"
    and s'_def: "s' = s\<lparr>g_pmm_bitmap := bm, g_pmm_refcounts := rc, g_free_memory := fm, ram := m\<rparr>"
  shows "pmm_core s' \<and> free_frames s' = free_frames s - F \<and>
    pmm_refs s' = (\<lambda>f. if f \<in> F then 1 else pmm_refs s f)"
proof -
  have ff: "free_frames s' = free_frames s - F"
    using get by (auto simp: s'_def free_frames_def)
  have sub: "F \<subseteq> {..< g_bitmap_bits s}" using F by (auto simp: free_frames_def)
  have pr: "pmm_refs s' = (\<lambda>f. if f \<in> F then 1 else pmm_refs s f)"
    using sub by (auto simp: s'_def pmm_refs_def rc(2) fun_eq_iff)
  have "fm = of_nat (4096 * card (free_frames s - F))"
    using free_memory_take [OF F] core by (simp add: fm pmm_core_def)
  then have "g_free_memory s' = of_nat (4096 * card (free_frames s'))"
    unfolding ff by (simp add: s'_def)
  moreover have "\<forall>f \<in> free_frames s'. pmm_refs s' f = 0"
    using core unfolding ff pr pmm_core_def by auto
  moreover have "bitmap_wf (g_pmm_bitmap s') \<and> m_size (g_pmm_bitmap s') = g_bitmap_bits s' \<and>
     length (g_pmm_refcounts s') = g_bitmap_bits s' \<and> g_bitmap_bits s' < 2 ^ 52"
    using core bm rc(1) by (simp add: s'_def pmm_core_def)
  ultimately have "pmm_core s'" unfolding pmm_core_def by blast
  with ff pr show ?thesis by simp
qed


lemma pmm_inv_take:
  assumes "pmm_inv s" and "pmm_core s'" and "g_bitmap_bits s' = g_bitmap_bits s"
    and "pmm_refs s' = (\<lambda>f. if f \<in> F then 1 else pmm_refs s f)"
  shows "pmm_inv s'"
  using assms by (auto simp: pmm_inv_def)

section \<open>Allocating one frame\<close>

lemma find_first_free_frame:
  fixes k :: nat
  assumes core: "pmm_core s"
  defines "i \<equiv> fst (find_first_free (g_pmm_bitmap s) k)"
  shows "free_frames s = {} \<and> i = npos \<or> i \<in> free_frames s \<and> i \<noteq> npos"
proof -
  let ?b = "g_pmm_bitmap s"
  have wf: "bitmap_wf ?b" "m_size ?b = g_bitmap_bits s" using core by (simp_all add: pmm_core_def)
  have le: "search_from ?b k \<le> m_size ?b" by (simp add: search_from_def Let_def)
  have hit: "i \<in> free_frames s \<and> i \<noteq> npos" if "first_clear ?b a e i" "e \<le> m_size ?b" for a e
    using that first_clear_less [OF that wf(1)] wf(2) by (auto simp: first_clear_def free_frames_def)
  from find_first_free_index [OF wf(1), of k] show ?thesis
    unfolding i_def [symmetric]
    using hit [OF _ order_refl] hit [OF _ le] wf(2)
    by (auto simp: all_taken_def free_frames_def)
qed

lemma pmm_alloc_frame_spec:
  assumes inv: "pmm_inv s"
  obtains (none) h where "free_frames s = {}"
      "pmm_alloc_frame s = (0, s\<lparr>g_pmm_bitmap := (g_pmm_bitmap s)\<lparr>m_next_free_hint := h\<rparr>\<rparr>)"
  | (some) i bm where "i \<in> free_frames s" "i \<noteq> 0" "bitmap_wf bm" "m_size bm = g_bitmap_bits s"
      "\<And>j. bitmap_get bm j = bitmap_get (g_pmm_bitmap s) j"
      "pmm_alloc_frame s = (i * 4096,
         s\<lparr>g_pmm_bitmap := bitmap_set bm i True, g_pmm_refcounts := (g_pmm_refcounts s)[i := 1],
           g_free_memory := g_free_memory s - k_frame_size,
           ram := zero_memory (ram s) (i * 4096) 4096\<rparr>)"
proof -
  have core: "pmm_core s" using inv by (simp add: pmm_inv_def)
  obtain i bm where ff: "find_first_free (g_pmm_bitmap s) 0 = (i, bm)" by fastforce
  have bm: "bitmap_wf bm" "m_size bm = g_bitmap_bits s"
    "\<And>j. bitmap_get bm j = bitmap_get (g_pmm_bitmap s) j"
    using find_first_free_map [of "g_pmm_bitmap s" 0] core ff by (simp_all add: pmm_core_def)
  consider "free_frames s = {}" "i = npos" | "i \<in> free_frames s" "i \<noteq> npos"
    using find_first_free_frame [OF core, of 0] ff by auto
  then show thesis
  proof cases
    case 1
    have "bm = g_pmm_bitmap s"
      using ff 1 by (auto simp: find_first_free_def Let_def split: if_splits)
    with ff 1 have "pmm_alloc_frame s =
      (0, s\<lparr>g_pmm_bitmap := (g_pmm_bitmap s)\<lparr>m_next_free_hint := m_next_free_hint (g_pmm_bitmap s)\<rparr>\<rparr>)"
      by (simp add: pmm_alloc_frame_def npos_def)
    then show ?thesis by (rule none [OF 1(1)])
  next
    case 2
    have i: "i < g_bitmap_bits s" "i \<noteq> 0"
      using 2(1) frame0_taken [OF inv] by (auto simp: free_frames_def intro: ccontr)
    have "i * 4096 < 2 ^ 64" using i(1) core by (simp add: pmm_core_def)
    then show ?thesis
      using ff 2 i by (intro some [OF 2(1) i(2) bm]) (simp add: pmm_alloc_frame_def Let_def)
  qed
qed

lemma pmm_alloc_frame_taken:
  assumes inv: "pmm_inv s" and al: "pmm_alloc_frame s = (p, s')"
  shows "pmm_inv s'" and "p = 0 \<Longrightarrow> free_frames s' = free_frames s \<and> pmm_refs s' = pmm_refs s"
    and "p = 0 \<longleftrightarrow> free_frames s = {}"
    and "p \<noteq> 0 \<Longrightarrow> frame_ptr p \<and> p div 4096 \<in> free_frames s \<and>
      free_frames s' = free_frames s - {p div 4096} \<and>
      pmm_refs s' = (\<lambda>f. if f = p div 4096 then 1 else pmm_refs s f) \<and>
      ram s' = zero_memory (ram s) p 4096"
proof -
  have core: "pmm_core s" using inv by (simp add: pmm_inv_def)
  have "pmm_inv s' \<and> (p = 0 \<longrightarrow> free_frames s' = free_frames s \<and> pmm_refs s' = pmm_refs s) \<and>
    (p = 0 \<longleftrightarrow> free_frames s = {}) \<and>
    (p \<noteq> 0 \<longrightarrow> frame_ptr p \<and> p div 4096 \<in> free_frames s \<and>
      free_frames s' = free_frames s - {p div 4096} \<and>
      pmm_refs s' = (\<lambda>f. if f = p div 4096 then 1 else pmm_refs s f) \<and>
      ram s' = zero_memory (ram s) p 4096)"
  proof (rule pmm_alloc_frame_spec [OF inv])
    fix h
    assume 1: "free_frames s = {}"
      "pmm_alloc_frame s = (0, s\<lparr>g_pmm_bitmap := (g_pmm_bitmap s)\<lparr>m_next_free_hint := h\<rparr>\<rparr>)"
    have s': "p = 0" "s' = s\<lparr>g_pmm_bitmap := (g_pmm_bitmap s)\<lparr>m_next_free_hint := h\<rparr>\<rparr>"
      using 1(2) al by auto
    have e: "free_frames s' = free_frames s" "pmm_refs s' = pmm_refs s"
      by (simp_all add: s' free_frames_def pmm_refs_def fun_eq_iff)
    have "pmm_inv s'"
      using inv unfolding pmm_inv_def pmm_core_def e by (simp add: s')
    with e 1 s' show ?thesis by simp
  next
    fix i bm
    assume 2: "i \<in> free_frames s" "i \<noteq> 0" "bitmap_wf bm" "m_size bm = g_bitmap_bits s"
      "\<And>j. bitmap_get bm j = bitmap_get (g_pmm_bitmap s) j"
      "pmm_alloc_frame s = (i * 4096,
         s\<lparr>g_pmm_bitmap := bitmap_set bm i True, g_pmm_refcounts := (g_pmm_refcounts s)[i := 1],
           g_free_memory := g_free_memory s - k_frame_size,
           ram := zero_memory (ram s) (i * 4096) 4096\<rparr>)"
    have i: "i < g_bitmap_bits s" using 2(1) by (simp add: free_frames_def)
    have p: "p = i * 4096" "p div 4096 = i" "frame_ptr p" using 2(2,6) al by (auto simp: frame_ptr_def)
    have "pmm_core s' \<and> free_frames s' = free_frames s - {i} \<and>
      pmm_refs s' = (\<lambda>f. if f \<in> {i} then 1 else pmm_refs s f)"
    proof (rule pmm_core_take [OF core])
      show "s' = s\<lparr>g_pmm_bitmap := bitmap_set bm i True,
          g_pmm_refcounts := (g_pmm_refcounts s)[i := 1],
          g_free_memory := g_free_memory s - k_frame_size,
          ram := zero_memory (ram s) (i * 4096) 4096\<rparr>"
        using 2(6) al by simp
    qed (use 2 i core in \<open>auto simp: bitmap_get_set nth_list_update pmm_core_def k_frame_size_def\<close>)
    then have T: "pmm_core s'" "free_frames s' = free_frames s - {i}"
      "pmm_refs s' = (\<lambda>f. if f \<in> {i} then 1 else pmm_refs s f)" by simp_all
    have s': "g_bitmap_bits s' = g_bitmap_bits s" "ram s' = zero_memory (ram s) p 4096"
      using 2(6) al p(1) by auto
    show ?thesis
      using T p s' 2(1,2) pmm_inv_take [OF inv T(1) s'(1) T(3)] by auto
  qed
  then show "pmm_inv s'" and "p = 0 \<Longrightarrow> free_frames s' = free_frames s \<and> pmm_refs s' = pmm_refs s"
    and "p = 0 \<longleftrightarrow> free_frames s = {}"
    and "p \<noteq> 0 \<Longrightarrow> frame_ptr p \<and> p div 4096 \<in> free_frames s \<and>
      free_frames s' = free_frames s - {p div 4096} \<and>
      pmm_refs s' = (\<lambda>f. if f = p div 4096 then 1 else pmm_refs s f) \<and>
      ram s' = zero_memory (ram s) p 4096" by blast+
qed


section \<open>Allocating several frames\<close>

lemma run_in_free_frames:
  assumes "clear_run (g_pmm_bitmap s) i n" and "i + n \<le> g_bitmap_bits s"
  shows "{i ..< i + n} \<subseteq> free_frames s"
  using assms by (auto simp: clear_run_def free_frames_def)

lemma pmm_alloc_frames_many:
  assumes core: "pmm_core s" and al: "pmm_alloc_frames s n = (p, s')" and n: "n \<noteq> 1"
  obtains (none) "p = 0" "s' = s"
  | (some) i bm where "p = i * 4096" "0 < n" "{i ..< i + n} \<subseteq> free_frames s"
      "bitmap_wf bm" "m_size bm = g_bitmap_bits s"
      "\<And>j. j < g_bitmap_bits s \<Longrightarrow>
         bitmap_get bm j = (j \<in> {i ..< i + n} \<or> bitmap_get (g_pmm_bitmap s) j)"
      "s' = s\<lparr>g_pmm_bitmap := bm, g_pmm_refcounts := set_refs (g_pmm_refcounts s) i n,
             g_free_memory := g_free_memory s - k_frame_size * of_nat n, ram := ram s\<rparr>"
proof -
  let ?i = "find_last_free_sequence (g_pmm_bitmap s) n"
  have wf: "bitmap_wf (g_pmm_bitmap s)" "m_size (g_pmm_bitmap s) = g_bitmap_bits s"
    "g_bitmap_bits s < 2 ^ 52" using core by (simp_all add: pmm_core_def)
  consider "p = 0" "s' = s" | "?i \<noteq> npos" "n \<le> (2 ^ 64 - 1) div 4096" "p \<noteq> 0 \<or> s' \<noteq> s"
    using al n by (auto simp: pmm_alloc_frames_def Let_def split: if_splits)
  then show thesis
  proof cases
    case 1
    then show ?thesis by (rule none)
  next
    case 2
    note run = find_last_free_sequence_run [OF wf(1) 2(1)]
    then have r: "0 < n" "?i + n \<le> g_bitmap_bits s" "{?i ..< ?i + n} \<subseteq> free_frames s"
      using wf(2) run_in_free_frames by auto
    let ?bm = "bitmap_set_range (g_pmm_bitmap s) ?i n True"
    let ?bm' = "if ?i \<le> get_hint ?bm \<and> ?i + n > get_hint ?bm then update_hint ?bm (?i + n) else ?bm"
    have n64: "n < 2 ^ 64" using r wf by simp
    have bm: "bitmap_wf ?bm'" "m_size ?bm' = g_bitmap_bits s"
      "\<And>j. j < g_bitmap_bits s \<Longrightarrow>
         bitmap_get ?bm' j = (j \<in> {?i ..< ?i + n} \<or> bitmap_get (g_pmm_bitmap s) j)"
      using bitmap_set_range_wf [OF wf(1) n64] wf bitmap_get_set_range [OF wf(1) n64] r(2)
      by (auto simp: range_end_def)
    have ps: "p = ?i * 4096" "s' = s\<lparr>g_pmm_bitmap := ?bm',
       g_pmm_refcounts := set_refs (g_pmm_refcounts s) ?i n,
       g_free_memory := g_free_memory s - k_frame_size * of_nat n, ram := ram s\<rparr>"
      using al n 2 r wf(3) by (auto simp: pmm_alloc_frames_def Let_def split: if_splits)
    show ?thesis by (rule some [OF ps(1) r(1,3) bm ps(2)])
  qed
qed

lemma pmm_alloc_frames_taken:
  assumes inv: "pmm_inv s" and al: "pmm_alloc_frames s n = (p, s')"
  shows "pmm_inv s' \<and>
    (p = 0 \<longrightarrow> free_frames s' = free_frames s \<and> pmm_refs s' = pmm_refs s) \<and>
    (p \<noteq> 0 \<longrightarrow> frame_ptr p \<and> frames_of p n \<subseteq> free_frames s \<and>
      free_frames s' = free_frames s - frames_of p n \<and>
      pmm_refs s' = (\<lambda>f. if f \<in> frames_of p n then 1 else pmm_refs s f))"
proof (cases "n = 1")
  case True
  with al have "pmm_alloc_frame s = (p, s')" by (simp add: pmm_alloc_frames_def)
  note * = pmm_alloc_frame_taken [OF inv this]
  show ?thesis using * True by (auto simp: frames_of_def fun_eq_iff)
next
  case False
  have core: "pmm_core s" using inv by (simp add: pmm_inv_def)
  show ?thesis
  proof (rule pmm_alloc_frames_many [OF core al False])
    assume "p = 0" "s' = s"
    with inv show ?thesis by simp
  next
    fix i bm
    assume a: "p = i * 4096" "0 < n" "{i ..< i + n} \<subseteq> free_frames s"
      "bitmap_wf bm" "m_size bm = g_bitmap_bits s"
      "\<And>j. j < g_bitmap_bits s \<Longrightarrow>
         bitmap_get bm j = (j \<in> {i ..< i + n} \<or> bitmap_get (g_pmm_bitmap s) j)"
      "s' = s\<lparr>g_pmm_bitmap := bm, g_pmm_refcounts := set_refs (g_pmm_refcounts s) i n,
             g_free_memory := g_free_memory s - k_frame_size * of_nat n, ram := ram s\<rparr>"
    have T: "pmm_core s' \<and> free_frames s' = free_frames s - {i ..< i + n} \<and>
      pmm_refs s' = (\<lambda>f. if f \<in> {i ..< i + n} then 1 else pmm_refs s f)"
      by (rule pmm_core_take [OF core a(3-6) _ _ _ a(7)])
        (use core in \<open>auto simp: nth_set_refs pmm_core_def k_frame_size_def\<close>)
    have "i \<in> free_frames s" using a(2,3) by auto
    then have "i \<noteq> 0" using frame0_taken [OF inv] by (auto intro: ccontr)
    then have p: "frame_ptr p" "p \<noteq> 0" "frames_of p n = {i ..< i + n}"
      by (auto simp: a(1) frame_ptr_def frames_of_def)
    have "pmm_inv s'"
      using T a(7) by (intro pmm_inv_take [OF inv, where F = "{i ..< i + n}"]) auto
    with T p a(3) show ?thesis by simp
  qed
qed

section \<open>Reference counts keep the invariant\<close>

lemma unat_plus_one:
  assumes "(w :: u16) \<noteq> 65535"
  shows "unat (w + 1) = unat w + 1"
proof -
  have "1 + w \<noteq> 0"
  proof
    assume "1 + w = 0"
    then have "w = - 1" by (simp add: eq_neg_iff_add_eq_0 add.commute)
    with assms show False by simp
  qed
  from unatSuc [OF this] show ?thesis by (simp add: add.commute)
qed

lemma pmm_refcount_inc_spec:
  assumes inv: "pmm_inv s" and p: "frame_ptr p" and r: "0 < pmm_refs s (p div 4096)"
    and inc: "pmm_refcount_inc s p = Done s'"
  shows "pmm_inv s' \<and> free_frames s' = free_frames s \<and>
    pmm_refs s' = (pmm_refs s)(p div 4096 := pmm_refs s (p div 4096) + 1)"
proof -
  let ?f = "p div 4096"
  let ?rc = "(g_pmm_refcounts s)[?f := g_pmm_refcounts s ! ?f + 1]"
  have f: "?f < g_bitmap_bits s" using r by (simp add: pmm_refs_def split: if_splits)
  then have s': "s' = s\<lparr>g_pmm_refcounts := ?rc\<rparr>" and ov: "g_pmm_refcounts s ! ?f \<noteq> 65535"
    using inc p by (auto simp: pmm_refcount_inc_def frame_ptr_def Let_def split: if_splits)
  have len: "length (g_pmm_refcounts s) = g_bitmap_bits s"
    using inv by (simp add: pmm_inv_def pmm_core_def)
  have ff: "free_frames s' = free_frames s" by (simp add: s' free_frames_def)
  have pr: "pmm_refs s' = (pmm_refs s)(?f := pmm_refs s ?f + 1)"
    using f len unat_plus_one [OF ov]
    by (auto simp: s' pmm_refs_def fun_eq_iff nth_list_update)
  have "\<forall>g \<in> free_frames s. g \<noteq> ?f" using inv r by (auto simp: pmm_inv_def pmm_core_def)
  then have "pmm_inv s'"
    using inv unfolding pmm_inv_def pmm_core_def ff pr by (simp add: s')
  with ff pr show ?thesis by simp
qed


lemma unat_is_one: "unat w = Suc 0 \<longleftrightarrow> (w :: u16) = 1"
  using word_eq_iff_unsigned [of w 1, where 'a = nat] by simp

lemma pmm_refcount_dec_spec:
  assumes inv: "pmm_inv s" and p: "frame_ptr p" and r: "0 < pmm_refs s (p div 4096)"
  defines "s' \<equiv> pmm_refcount_dec s p" and "f \<equiv> p div 4096"
  shows "pmm_inv s' \<and> pmm_refs s' = (pmm_refs s)(f := pmm_refs s f - 1) \<and>
    free_frames s' = (if pmm_refs s f = 1 then insert f (free_frames s) else free_frames s)"
proof -
  let ?c = "g_pmm_refcounts s ! f - 1"
  let ?rc = "(g_pmm_refcounts s)[f := ?c]"
  have core: "pmm_core s" using inv by (simp add: pmm_inv_def)
  have f: "f < g_bitmap_bits s" "f \<noteq> 0" and c0: "g_pmm_refcounts s ! f \<noteq> 0"
    using r p by (auto simp: pmm_refs_def f_def frame_ptr_def unat_gt_0 split: if_splits)
  have s': "s' = (if ?c = 0 then s\<lparr>g_pmm_refcounts := ?rc, g_pmm_bitmap :=
        update_hint (bitmap_set (g_pmm_bitmap s) f False) f,
        g_free_memory := g_free_memory s + k_frame_size\<rparr> else s\<lparr>g_pmm_refcounts := ?rc\<rparr>)"
    using f c0 p by (simp add: s'_def pmm_refcount_dec_def frame_ptr_def Let_def f_def [symmetric])
  have wf: "bitmap_wf (g_pmm_bitmap s)" "m_size (g_pmm_bitmap s) = g_bitmap_bits s"
    "length (g_pmm_refcounts s) = g_bitmap_bits s" using core by (simp_all add: pmm_core_def)
  have one: "?c = 0 \<longleftrightarrow> pmm_refs s f = 1"
    using f(1) by (simp add: pmm_refs_def unat_is_one)
  have pr: "pmm_refs s' = (pmm_refs s)(f := pmm_refs s f - 1)"
    using f(1) wf(3) unat_minus_one [OF c0]
    by (auto simp: s' pmm_refs_def fun_eq_iff nth_list_update)
  have get: "bitmap_get (bitmap_set (g_pmm_bitmap s) f False) j =
      (j \<noteq> f \<and> bitmap_get (g_pmm_bitmap s) j)" for j
    using bitmap_get_set [OF wf(1)] f(1) wf(2) by auto
  have ff: "free_frames s' = (if pmm_refs s f = 1 then insert f (free_frames s) else free_frames s)"
    using f(1) one by (auto simp: s' free_frames_def get)
  have notin: "\<forall>g \<in> free_frames s. g \<noteq> f"
    using core r by (auto simp: pmm_core_def f_def)
  have "pmm_inv s'"
  proof (cases "pmm_refs s f = 1")
    case True
    have "card (insert f (free_frames s)) = Suc (card (free_frames s))" using notin by auto
    moreover have "g_free_memory s' = of_nat (4096 * card (free_frames s)) + 4096"
      using core True one by (simp add: s' pmm_core_def k_frame_size_def)
    ultimately have "g_free_memory s' = of_nat (4096 * card (insert f (free_frames s)))" by simp
    then show ?thesis
      using inv True f(2) notin wf unfolding pmm_inv_def pmm_core_def ff pr
      by (simp add: one s' if_distrib)
  next
    case False
    then show ?thesis
      using inv one f(2) notin unfolding pmm_inv_def pmm_core_def ff pr by (simp add: s')
  qed
  with pr ff show ?thesis by simp
qed

section \<open>The physical memory manager is a frame allocator\<close>

interpretation pmm_fa: frame_allocator pmm_inv free_frames pmm_refs pmm_alloc_frames
  pmm_refcount_inc pmm_refcount_dec
proof unfold_locales
  fix s :: pmm and n :: nat and p :: nat and s' :: pmm
  assume "pmm_inv s" "pmm_alloc_frames s n = (p, s')"
  then show "pmm_inv s'" using pmm_alloc_frames_taken by blast
next
  fix s :: pmm and n :: nat and s' :: pmm
  assume "pmm_inv s" "pmm_alloc_frames s n = (0, s')"
  then show "free_frames s' = free_frames s \<and> pmm_refs s' = pmm_refs s"
    using pmm_alloc_frames_taken by blast
next
  fix s :: pmm and n :: nat and p :: nat and s' :: pmm
  assume "pmm_inv s" "pmm_alloc_frames s n = (p, s')" "p \<noteq> 0"
  then show "frame_ptr p \<and> frames_of p n \<subseteq> free_frames s \<and>
    free_frames s' = free_frames s - frames_of p n \<and>
    pmm_refs s' = (\<lambda>f. if f \<in> frames_of p n then 1 else pmm_refs s f)"
    using pmm_alloc_frames_taken by blast
next
  fix s f assume "pmm_inv s" "f \<in> free_frames s"
  then show "pmm_refs s f = 0" by (simp add: pmm_inv_def pmm_core_def)
qed (rule pmm_refcount_inc_spec pmm_refcount_dec_spec; assumption)+

definition pmm_run :: "pmm \<Rightarrow> frame_op list \<Rightarrow> pmm option" where
  "pmm_run = frame_run pmm_alloc_frames pmm_refcount_inc pmm_refcount_dec pmm_refs"


section \<open>Properties\<close>

text \<open>A machine with three frames, of which frame 0 is taken, for the witnesses.\<close>

definition three_frames :: pmm where
  "three_frames =
     \<lparr>g_pmm_bitmap = \<lparr>m_buffer = [1], m_size = 3, m_next_free_hint = 1\<rparr>,
      g_pmm_refcounts = [1, 0, 0], g_bitmap_bits = 3, g_total_memory = 8192,
      g_free_memory = 8192, g_highest_page = 2, ram = (\<lambda>a. 170)\<rparr>"

lemma three_frames_free: "free_frames three_frames = {1, 2}"
proof -
  have "i \<in> free_frames three_frames \<longleftrightarrow> i = 1 \<or> i = 2" for i
  proof (cases "i < 3")
    case True
    then consider "i = 0" | "i = 1" | "i = 2" by linarith
    then show ?thesis
      by cases (simp_all add: free_frames_def three_frames_def bitmap_get_def)
  next
    case False
    then show ?thesis by (auto simp: free_frames_def three_frames_def)
  qed
  then show ?thesis by auto
qed

lemma three_frames_inv: "pmm_inv three_frames"
  unfolding pmm_inv_def pmm_core_def three_frames_free
  by (simp add: three_frames_def bitmap_wf_def pmm_refs_def)

text \<open>
  C8.  No frame is handed out twice while it is in use: when a history of calls on the physical
  memory manager allocates frame \<open>f\<close> and later allocates it again, the calls in between dropped
  exactly one reference of \<open>f\<close> more than they added.  The history follows the protocol of \<open>pmm_run\<close>:
  counts are incremented and decremented only through page-aligned pointers to frames that have a
  reference at that moment, and no increment panics.  Allocation of one and of several frames, failed
  allocations and calls on other frames may occur anywhere in it.
\<close>

theorem pmm_no_double_allocation:
  assumes "pmm_inv s" and "pmm_run s (AllocOp n p # ops @ [AllocOp m q]) = Some s'"
    and "p \<noteq> 0" and "q \<noteq> 0" and "f \<in> frames_of p n" and "f \<in> frames_of q m"
    and "\<not> (\<exists>op \<in> set ops. allocates f op)"
  shows "dec_calls f ops = Suc (inc_calls f ops)"
  using pmm_fa.realloc_after_release assms unfolding pmm_run_def by blast

lemma pmm_no_double_allocation_witness:
  "dec_calls 1 [IncOp 4096, AllocOp 2 0, DecOp 4096, AllocOp 1 8192, DecOp 4096] =
   Suc (inc_calls 1 [IncOp 4096, AllocOp 2 0, DecOp 4096, AllocOp 1 8192, DecOp 4096])"
proof -
  let ?ops = "[IncOp 4096, AllocOp 2 0, DecOp 4096, AllocOp 1 8192, DecOp 4096]"
  have "Option.is_none (pmm_run three_frames (AllocOp 1 4096 # ?ops @ [AllocOp 1 4096])) = False"
    by code_simp
  then obtain s' where "pmm_run three_frames (AllocOp 1 4096 # ?ops @ [AllocOp 1 4096]) = Some s'"
    by (cases "pmm_run three_frames (AllocOp 1 4096 # ?ops @ [AllocOp 1 4096])") auto
  then show ?thesis
    by (rule pmm_no_double_allocation [OF three_frames_inv]) (auto simp: frames_of_def)
qed

text \<open>
  \<open>pmm_alloc_frame\<close> fails exactly when no frame is free.  Otherwise it returns the address of a
  frame that was free, which is not frame 0; its count becomes 1, its 4096 bytes are zero, no other
  count, free frame or byte of memory changes, and the invariant is kept.
\<close>

theorem pmm_alloc_frame_correct:
  assumes "pmm_inv s" and "pmm_alloc_frame s = (p, s')"
  shows "pmm_inv s' \<and> (p = 0 \<longleftrightarrow> free_frames s = {}) \<and>
    (p = 0 \<longrightarrow> pmm_refs s' = pmm_refs s) \<and>
    (p \<noteq> 0 \<longrightarrow> p mod 4096 = 0 \<and> p div 4096 \<in> free_frames s \<and>
       free_frames s' = free_frames s - {p div 4096} \<and>
       pmm_refs s' = (pmm_refs s)(p div 4096 := 1) \<and>
       (\<forall>a. ram s' a = (if p \<le> a \<and> a < p + 4096 then 0 else ram s a)))"
  using pmm_alloc_frame_taken [OF assms]
  by (auto simp: frame_ptr_def zero_memory_def fun_eq_iff)

lemma pmm_alloc_frame_correct_witness:
  "fst (pmm_alloc_frame three_frames) = 4096 \<and> pmm_inv (snd (pmm_alloc_frame three_frames))"
proof -
  have v: "fst (pmm_alloc_frame three_frames) = 4096" by code_simp
  show ?thesis
    using v pmm_alloc_frame_correct [OF three_frames_inv, of "fst (pmm_alloc_frame three_frames)"
        "snd (pmm_alloc_frame three_frames)", OF prod.collapse [symmetric]] by simp
qed

text \<open>
  C28.  From its allocation on, and as long as it is not allocated again, the count of a frame is one plus
  the increments less the decrements that name it, and the frame is free again exactly when the decrements
  are one more than the increments.  This holds over every history that follows the protocol of \<open>pmm_run\<close>
  (increments and decrements only through page-aligned pointers to frames that have a reference, no
  panic), and the invariant is kept.  In particular the 16-bit counts never wrap.
\<close>

theorem pmm_refcount_balance:
  assumes "pmm_inv s" and "pmm_run s (AllocOp n p # ops) = Some s'" and "p \<noteq> 0" and "f \<in> frames_of p n"
    and "\<not> (\<exists>op \<in> set ops. allocates f op)"
  shows "pmm_inv s' \<and> pmm_refs s' f + dec_calls f ops = 1 + inc_calls f ops \<and>
    (f \<in> free_frames s' \<longleftrightarrow> dec_calls f ops = 1 + inc_calls f ops)"
  using pmm_fa.alloc_balance assms unfolding pmm_run_def by blast

lemma pmm_refcount_balance_witness:
  "\<exists>s'. pmm_run three_frames [AllocOp 1 4096, AllocOp 1 8192, IncOp 4096, IncOp 4096, DecOp 4096] = Some s' \<and>
     pmm_refs s' 1 = 2 \<and> 1 \<notin> free_frames s'"
proof -
  let ?ops = "[AllocOp 1 8192, IncOp 4096, IncOp 4096, DecOp 4096]"
  have "Option.is_none (pmm_run three_frames (AllocOp 1 4096 # ?ops)) = False" by code_simp
  then obtain s' where s': "pmm_run three_frames (AllocOp 1 4096 # ?ops) = Some s'"
    by (cases "pmm_run three_frames (AllocOp 1 4096 # ?ops)") auto
  from pmm_refcount_balance [OF three_frames_inv s', of 1] s' show ?thesis
    by (auto simp: frames_of_def inc_calls_def dec_calls_def)
qed

text \<open>
  C29.  The counts do not protect a frame that was never in the allocator's hands: for a frame that is
  marked taken with count 0 (firmware, ACPI or framebuffer memory below the highest usable address)
  an increment followed by a decrement, as when an address space that maps it is cloned and freed,
  puts the frame into the free pool.
\<close>

theorem pmm_reserved_frame_freed:
  assumes "pmm_core s" and "frame_ptr p" and "p div 4096 < g_bitmap_bits s"
    and "bitmap_get (g_pmm_bitmap s) (p div 4096)" and "pmm_refs s (p div 4096) = 0"
  shows "\<exists>s1. pmm_refcount_inc s p = Done s1 \<and>
    free_frames (pmm_refcount_dec s1 p) = insert (p div 4096) (free_frames s)"
proof -
  let ?f = "p div 4096"
  let ?s1 = "s\<lparr>g_pmm_refcounts := (g_pmm_refcounts s)[?f := 1]\<rparr>"
  have wf: "bitmap_wf (g_pmm_bitmap s)" "m_size (g_pmm_bitmap s) = g_bitmap_bits s"
    "length (g_pmm_refcounts s) = g_bitmap_bits s" using assms(1) by (simp_all add: pmm_core_def)
  have z: "g_pmm_refcounts s ! ?f = 0" using assms(3,5) by (simp add: pmm_refs_def unat_eq_zero)
  have i: "pmm_refcount_inc s p = Done ?s1"
    using assms(2,3) z by (simp add: pmm_refcount_inc_def frame_ptr_def Let_def)
  have "free_frames (pmm_refcount_dec ?s1 p) = insert ?f (free_frames s)"
    using assms(2,3) wf bitmap_get_set [OF wf(1)]
    by (auto simp: pmm_refcount_dec_def frame_ptr_def Let_def free_frames_def)
  with i show ?thesis by blast
qed

lemma pmm_reserved_frame_freed_witness:
  "\<exists>s1. pmm_refcount_inc (three_frames\<lparr>g_pmm_bitmap := \<lparr>m_buffer = [5], m_size = 3,
       m_next_free_hint = 1\<rparr>, g_free_memory := 4096\<rparr>) 8192 = Done s1 \<and>
     2 \<in> free_frames (pmm_refcount_dec s1 8192)"
proof -
  let ?s = "three_frames\<lparr>g_pmm_bitmap := \<lparr>m_buffer = [5], m_size = 3,
       m_next_free_hint = 1\<rparr>, g_free_memory := 4096\<rparr>"
  have g: "bitmap_get (g_pmm_bitmap ?s) 2" "bitmap_get (g_pmm_bitmap ?s) 0"
    "\<not> bitmap_get (g_pmm_bitmap ?s) 1" by code_simp+
  have "i \<in> free_frames ?s \<longleftrightarrow> i = 1" for i
  proof (cases "i < 3")
    case True
    then consider "i = 0" | "i = 1" | "i = 2" by linarith
    then show ?thesis using g by cases (simp_all add: free_frames_def three_frames_def)
  qed (auto simp: free_frames_def three_frames_def)
  then have ff: "free_frames ?s = {1}" by auto
  have core: "pmm_core ?s"
    unfolding pmm_core_def ff by (simp add: three_frames_def bitmap_wf_def pmm_refs_def)
  have p: "frame_ptr 8192" by (simp add: frame_ptr_def)
  show ?thesis
    using pmm_reserved_frame_freed [OF core p] g(1) by (auto simp: three_frames_def pmm_refs_def)
qed

end
