(* ===== verification/Pmm_Init.thy ===== *)
theory Pmm_Init
  imports Pmm
begin

text \<open>
  \<open>pmm_init\<close> of \<open>src/mm/pmm.cpp\<close> establishes the invariant of the physical memory manager: for a
  boot memory map whose usable entries do not overlap, the free frames afterwards are exactly the
  whole frames of usable entries, less the frames of the bitmap and the counts and frame 0.
\<close>

section \<open>Usable frames of the map\<close>

definition entry_frames :: "BootMemoryMapEntry \<Rightarrow> nat set" where
  "entry_frames e =
     (if e_type e = BOOT_MEM_USABLE then
        (case get_aligned_usable_range e of
           None \<Rightarrow> {} | Some (base, len) \<Rightarrow> {base div 4096 ..< base div 4096 + len div 4096})
      else {})"

definition apart :: "BootMemoryMapEntry \<Rightarrow> BootMemoryMapEntry \<Rightarrow> bool" where
  "apart d e \<longleftrightarrow>
     e_type d = BOOT_MEM_USABLE \<and> e_type e = BOOT_MEM_USABLE \<longrightarrow>
     e_base d + e_length d \<le> e_base e \<or> e_base e + e_length e \<le> e_base d"

definition low_entry :: "nat \<Rightarrow> BootMemoryMapEntry \<Rightarrow> bool" where
  "low_entry h e \<longleftrightarrow>
     (e_type e = BOOT_MEM_USABLE \<and> e_base e + e_length e < 2 ^ 64 \<longrightarrow> e_base e + e_length e \<le> h)"

lemma highest_end_mono: "h \<le> highest_end es h"
proof (induction es arbitrary: h)
  case (Cons e es)
  have "h \<le> highest_end es (if e_base e + e_length e > h then e_base e + e_length e else h)"
    by (rule order_trans [OF _ Cons]) simp
  with Cons show ?case by auto
qed simp

lemma highest_end_bound: "e \<in> set es \<Longrightarrow> low_entry (highest_end es h) e"
proof (induction es arbitrary: h)
  case (Cons d es)
  have "e_base d + e_length d \<le> highest_end es (max h (e_base d + e_length d))"
    using highest_end_mono [of "max h (e_base d + e_length d)" es] by simp
  then have "low_entry (highest_end (d # es) h) d"
    using highest_end_mono [of h es] by (auto simp: low_entry_def max_def)
  with Cons show ?case by (auto simp: low_entry_def)
qed simp

text \<open>Below the panic bound, rounding the base up does not wrap and the range stays in the entry.\<close>

lemma aligned_range:
  assumes "get_aligned_usable_range e = Some (base, len)" and "e_type e = BOOT_MEM_USABLE"
    and "low_entry h e" and "h \<le> 2 ^ 64 - 4096"
  shows "base mod 4096 = 0" "len mod 4096 = 0" "0 < len" "e_base e \<le> base"
    "base + len \<le> e_base e + e_length e" "base + len \<le> h"
proof -
  let ?top = "e_base e + e_length e"
  have l: "e_length e \<noteq> 0" "?top < 2 ^ 64"
    using assms(1) by (auto simp: get_aligned_usable_range_def split: if_splits)
  then have h: "?top \<le> h" using assms(2,3) by (simp add: low_entry_def)
  have w: "wrap64 (e_base e + 4095) = e_base e + 4095"
    using l h assms(4) by (intro wrap64_id) simp
  have b: "base = (e_base e + 4095) div 4096 * 4096" "len = ?top div 4096 * 4096 - base"
    "base < ?top div 4096 * 4096"
    using assms(1) l by (auto simp: get_aligned_usable_range_def Let_def w split: if_splits)
  show "base mod 4096 = 0" "0 < len" using b by auto
  show "len mod 4096 = 0" unfolding b(2) b(1) by (simp flip: diff_mult_distrib)
  show "e_base e \<le> base" unfolding b(1) by linarith
  have "base + len = ?top div 4096 * 4096" using b(2,3) by simp
  then show "base + len \<le> ?top" by simp
  with h show "base + len \<le> h" by simp
qed

lemma frames_below:
  assumes "x mod 4096 = 0" and "f < x div 4096 + y div 4096" and "y mod 4096 = 0"
  shows "f * 4096 + 4096 \<le> x + (y :: nat)"
  using assms by (auto elim!: dvdE simp flip: dvd_eq_mod_eq_0)

lemma entry_frames_bytes:
  assumes "f \<in> entry_frames e" and "low_entry h e" and "h \<le> 2 ^ 64 - 4096"
  shows "e_type e = BOOT_MEM_USABLE \<and> e_base e \<le> f * 4096 \<and>
    f * 4096 + 4096 \<le> e_base e + e_length e \<and> f * 4096 + 4096 \<le> h"
proof -
  obtain base len where g: "get_aligned_usable_range e = Some (base, len)"
    and u: "e_type e = BOOT_MEM_USABLE"
    and f: "base div 4096 \<le> f" "f < base div 4096 + len div 4096"
    using assms(1) by (auto simp: entry_frames_def split: if_splits option.splits)
  note a = aligned_range [OF g u assms(2,3)]
  have "f * 4096 + 4096 \<le> base + len" by (rule frames_below [OF a(1) f(2) a(2)])
  moreover have "base \<le> f * 4096" using a(1) f(1) by (auto elim!: dvdE simp flip: dvd_eq_mod_eq_0)
  ultimately show ?thesis using a u by linarith
qed

lemma entry_frames_apart:
  assumes "apart d e" and "low_entry h d" and "low_entry h e" and "h \<le> 2 ^ 64 - 4096"
  shows "entry_frames d \<inter> entry_frames e = {}"
proof (rule equals0I)
  fix f assume "f \<in> entry_frames d \<inter> entry_frames e"
  then have "f \<in> entry_frames d" "f \<in> entry_frames e" by auto
  from entry_frames_bytes [OF this(1) assms(2,4)] entry_frames_bytes [OF this(2) assms(3,4)] assms(1)
  show False unfolding apart_def by linarith
qed


section \<open>Freeing the usable entries\<close>

lemma free_entry_core:
  assumes core: "pmm_core s" and refs: "\<And>f. f \<in> entry_frames e \<Longrightarrow> pmm_refs s f = 0"
    and new: "entry_frames e \<inter> free_frames s = {}" and low: "low_entry h e"
    and h: "h \<le> 2 ^ 64 - 4096" and bits: "h \<le> g_bitmap_bits s * 4096"
  shows "pmm_core (free_entry s e) \<and> g_bitmap_bits (free_entry s e) = g_bitmap_bits s \<and>
    g_pmm_refcounts (free_entry s e) = g_pmm_refcounts s \<and> ram (free_entry s e) = ram s \<and>
    free_frames (free_entry s e) = free_frames s \<union> entry_frames e \<and>
    g_total_memory (free_entry s e) - g_free_memory (free_entry s e) =
      g_total_memory s - g_free_memory s"
proof (cases "e_type e = BOOT_MEM_USABLE \<and> get_aligned_usable_range e \<noteq> None")
  case False
  then have "free_entry s e = s" "entry_frames e = {}"
    by (cases "get_aligned_usable_range e"; simp add: free_entry_def entry_frames_def)+
  with core show ?thesis by simp
next
  case True
  then obtain base len where u: "e_type e = BOOT_MEM_USABLE"
    and g: "get_aligned_usable_range e = Some (base, len)" by auto
  note a = aligned_range [OF g u low h]
  let ?st = "base div 4096" and ?n = "len div 4096"
  have F: "entry_frames e = {?st ..< ?st + ?n}" using u g by (simp add: entry_frames_def)
  have n: "0 < ?n" using a(2,3) by (auto elim!: dvdE simp flip: dvd_eq_mod_eq_0)
  have "?st + ?n - 1 \<in> entry_frames e" using n by (simp add: F)
  then have "(?st + ?n - 1) * 4096 + 4096 \<le> g_bitmap_bits s * 4096"
    using entry_frames_bytes low h bits by (meson order_trans)
  then have fit: "?st + ?n \<le> g_bitmap_bits s" using n by linarith
  let ?bm = "bitmap_set_range (g_pmm_bitmap s) ?st ?n False"
  have wf: "bitmap_wf (g_pmm_bitmap s)" "m_size (g_pmm_bitmap s) = g_bitmap_bits s" "?n < 2 ^ 64"
    using core fit by (simp_all add: pmm_core_def)
  have s': "free_entry s e = s\<lparr>g_pmm_bitmap := ?bm,
      g_free_memory := g_free_memory s + of_nat ?n * k_frame_size,
      g_total_memory := g_total_memory s + of_nat ?n * k_frame_size,
      g_highest_page := (if ?st + ?n - 1 > g_highest_page s then ?st + ?n - 1 else g_highest_page s)\<rparr>"
    using u g fit n by (simp add: free_entry_def Let_def)
  have get: "bitmap_get ?bm j = (j \<notin> entry_frames e \<and> bitmap_get (g_pmm_bitmap s) j)"
    for j using bitmap_get_set_range [OF wf(1,3), of ?st False j] fit
    by (auto simp: range_end_def F wf(2))
  have ff: "free_frames (free_entry s e) = free_frames s \<union> entry_frames e"
    using fit by (auto simp: s' free_frames_def get F)
  have "card (free_frames s \<union> entry_frames e) = card (free_frames s) + ?n"
    using new by (subst card_Un_disjoint) (auto simp: F)
  then have fm: "g_free_memory (free_entry s e) = of_nat (4096 * card (free_frames (free_entry s e)))"
    unfolding ff using core by (simp add: s' pmm_core_def k_frame_size_def algebra_simps)
  have pr: "pmm_refs (free_entry s e) = pmm_refs s" by (simp add: s' pmm_refs_def fun_eq_iff)
  have "pmm_core (free_entry s e)"
    unfolding pmm_core_def fm pr ff
    using core refs bitmap_set_range_wf [OF wf(1,3)] by (auto simp: s' pmm_core_def)
  with ff show ?thesis by (simp add: s')
qed

lemma free_entries_core:
  assumes "pmm_core s" and "\<And>f. pmm_refs s f = 0" and "sorted_wrt apart es"
    and "\<And>e. e \<in> set es \<Longrightarrow> low_entry h e \<and> entry_frames e \<inter> free_frames s = {}"
    and "h \<le> 2 ^ 64 - 4096" and "h \<le> g_bitmap_bits s * 4096"
  defines "s' \<equiv> foldl free_entry s es"
  shows "pmm_core s' \<and> g_bitmap_bits s' = g_bitmap_bits s \<and>
    g_pmm_refcounts s' = g_pmm_refcounts s \<and> ram s' = ram s \<and>
    free_frames s' = free_frames s \<union> (\<Union>e \<in> set es. entry_frames e) \<and>
    g_total_memory s' - g_free_memory s' = g_total_memory s - g_free_memory s"
  unfolding s'_def using assms(1-6)
proof (induction es arbitrary: s)
  case (Cons e es)
  let ?s = "free_entry s e"
  have S: "pmm_core ?s \<and> g_bitmap_bits ?s = g_bitmap_bits s \<and>
    g_pmm_refcounts ?s = g_pmm_refcounts s \<and> ram ?s = ram s \<and>
    free_frames ?s = free_frames s \<union> entry_frames e \<and>
    g_total_memory ?s - g_free_memory ?s = g_total_memory s - g_free_memory s"
    using Cons.prems by (intro free_entry_core) auto
  have "entry_frames d \<inter> free_frames ?s = {}" if "d \<in> set es" for d
  proof -
    have "apart e d" using that Cons.prems(3) by simp
    then have "entry_frames e \<inter> entry_frames d = {}"
      using that Cons.prems(4,5) by (intro entry_frames_apart [where h = h]) auto
    with S that Cons.prems(4) show ?thesis by auto
  qed
  moreover have "pmm_refs ?s f = 0" for f
    using S Cons.prems(2) [of f] by (simp add: pmm_refs_def split: if_splits)
  ultimately have IH: "pmm_core (foldl free_entry ?s es) \<and>
    g_bitmap_bits (foldl free_entry ?s es) = g_bitmap_bits ?s \<and>
    g_pmm_refcounts (foldl free_entry ?s es) = g_pmm_refcounts ?s \<and>
    ram (foldl free_entry ?s es) = ram ?s \<and>
    free_frames (foldl free_entry ?s es) = free_frames ?s \<union> (\<Union>e \<in> set es. entry_frames e) \<and>
    g_total_memory (foldl free_entry ?s es) - g_free_memory (foldl free_entry ?s es) =
      g_total_memory ?s - g_free_memory ?s"
    using S Cons.prems by (intro Cons.IH) auto
  with S show ?case by auto
qed simp


section \<open>Placing the bitmap and the counts\<close>

definition block_frames :: "nat \<Rightarrow> nat \<Rightarrow> nat set" where
  "block_frames p n = {p div 4096 ..< p div 4096 + n div 4096}"

definition fits :: "BootMemoryMapEntry \<Rightarrow> nat \<Rightarrow> nat \<Rightarrow> bool" where
  "fits e p n \<longleftrightarrow>
     p mod 4096 = 0 \<and> entry_frames e \<noteq> {} \<and> block_frames p n \<subseteq> entry_frames e"

lemma fits_range:
  assumes "get_aligned_usable_range e = Some (base, len)" and "e_type e = BOOT_MEM_USABLE"
    and "low_entry h e" and "h \<le> 2 ^ 64 - 4096"
    and "off + n \<le> len" and "off mod 4096 = 0"
  shows "fits e (base + off) n"
proof -
  note a = aligned_range [OF assms(1-4)]
  have "(base + off) div 4096 + n div 4096 \<le> base div 4096 + len div 4096"
  proof -
    have "off div 4096 + n div 4096 \<le> len div 4096"
      using assms(5,6) by (auto elim!: dvdE simp flip: dvd_eq_mod_eq_0)
    moreover have "(base + off) div 4096 = base div 4096 + off div 4096"
      using a(1) by (auto elim!: dvdE simp flip: dvd_eq_mod_eq_0)
    ultimately show ?thesis by simp
  qed
  moreover have "base div 4096 \<le> (base + off) div 4096" by (simp add: div_le_mono)
  moreover have "(base + off) mod 4096 = 0"
    using a(1) assms(6) by (simp add: mod_add_eq [symmetric])
  moreover have "0 < len div 4096"
    using a(2,3) by (auto elim!: dvdE simp flip: dvd_eq_mod_eq_0)
  ultimately show ?thesis
    using assms(1,2) by (auto simp: fits_def entry_frames_def block_frames_def)
qed

lemma place_counts:
  assumes "place_metadata bsz rsz es (Some bp) None = (Some bp', Some rp)"
    and "h \<le> 2 ^ 64 - 4096" and "\<And>e. e \<in> set es \<Longrightarrow> low_entry h e"
  shows "bp' = bp \<and> (\<exists>e \<in> set es. fits e rp rsz)"
  using assms
proof (induction es)
  case (Cons e es)
  show ?case
  proof (cases "\<exists>base len. e_type e = BOOT_MEM_USABLE \<and>
      get_aligned_usable_range e = Some (base, len) \<and> rsz \<le> len")
    case True
    then obtain base len where u: "e_type e = BOOT_MEM_USABLE"
      and g: "get_aligned_usable_range e = Some (base, len)" and l: "rsz \<le> len" by blast
    then have "bp' = bp" "rp = base" using Cons.prems(1) by auto
    moreover have "fits e base rsz"
      using fits_range [OF g u _ Cons.prems(2), of 0 rsz] l Cons.prems(3) by simp
    ultimately show ?thesis by auto
  next
    case False
    then have "place_metadata bsz rsz es (Some bp) None = (Some bp', Some rp)"
      using Cons.prems(1) by (auto split: if_splits option.splits)
    with Cons show ?thesis by auto
  qed
qed simp

lemma block_frames_inside:
  assumes "fits e p n" shows "block_frames p n \<subseteq> entry_frames e"
  using assms by (simp add: fits_def)

lemma place_metadata_ok:
  assumes "place_metadata bsz rsz es None None = (Some bp, Some rp)"
    and "h \<le> 2 ^ 64 - 4096" and "\<And>e. e \<in> set es \<Longrightarrow> low_entry h e" and "sorted_wrt apart es"
    and "bsz mod 4096 = 0" and "bsz \<le> rsz"
  shows "(\<exists>e \<in> set es. fits e bp bsz) \<and> (\<exists>e \<in> set es. fits e rp rsz) \<and>
    block_frames bp bsz \<inter> block_frames rp rsz = {}"
  using assms
proof (induction es)
  case (Cons e es)
  show ?case
  proof (cases "\<exists>base len. e_type e = BOOT_MEM_USABLE \<and>
      get_aligned_usable_range e = Some (base, len) \<and> bsz \<le> len")
    case True
    then obtain base len where u: "e_type e = BOOT_MEM_USABLE"
      and g: "get_aligned_usable_range e = Some (base, len)" and l: "bsz \<le> len" by blast
    have low: "low_entry h e" using Cons.prems(3) by simp
    have fb: "fits e base bsz" using fits_range [OF g u low Cons.prems(2), of 0 bsz] l by simp
    show ?thesis
    proof (cases "bsz + rsz < 2 ^ 64 \<and> bsz + rsz \<le> len")
      case both: True
      then have p: "bp = base" "rp = base + bsz" using Cons.prems(1) u g l by auto
      have "fits e (base + bsz) rsz"
        using fits_range [OF g u low Cons.prems(2), of bsz rsz] both Cons.prems(5) by simp
      moreover have "block_frames base bsz \<inter> block_frames (base + bsz) rsz = {}"
        using Cons.prems(5) by (auto simp: block_frames_def elim!: dvdE simp flip: dvd_eq_mod_eq_0)
      ultimately show ?thesis using fb p by auto
    next
      case False
      then have "place_metadata bsz rsz es (Some base) None = (Some bp, Some rp)"
        using Cons.prems(1) u g l by auto
      from place_counts [OF this Cons.prems(2)] Cons.prems(3)
      obtain d where d: "bp = base" "d \<in> set es" "fits d rp rsz" by auto
      have "entry_frames e \<inter> entry_frames d = {}"
        using d(2) Cons.prems(2-4) by (intro entry_frames_apart [where h = h]) auto
      then show ?thesis
        using fb d block_frames_inside [OF fb] block_frames_inside [OF d(3)] by auto
    qed
  next
    case False
    then have "place_metadata bsz rsz es None None = (Some bp, Some rp)"
      using Cons.prems(1,6) by (auto split: if_splits option.splits)
    with Cons show ?thesis by auto
  qed
qed simp


section \<open>Reserving frames\<close>

lemma reserve_metadata_core:
  assumes core: "pmm_core s" and F: "block_frames p n \<subseteq> free_frames s" and n: "n mod 4096 = 0"
  defines "s' \<equiv> reserve_metadata s p n"
  shows "pmm_core s' \<and> free_frames s' = free_frames s - block_frames p n \<and>
    pmm_refs s' = (\<lambda>f. if f \<in> block_frames p n then 1 else pmm_refs s f)"
proof (cases "n = 0")
  case True
  then have "s' = s" by (simp add: s'_def reserve_metadata_def bitmap_set_range_def)
  with True core show ?thesis by (simp add: block_frames_def)
next
  case False
  let ?a = "p div 4096" and ?n = "n div 4096"
  have wf: "bitmap_wf (g_pmm_bitmap s)" "m_size (g_pmm_bitmap s) = g_bitmap_bits s"
    "g_bitmap_bits s < 2 ^ 52" "length (g_pmm_refcounts s) = g_bitmap_bits s"
    using core by (simp_all add: pmm_core_def)
  have n0: "0 < ?n" using n False by (auto elim!: dvdE simp flip: dvd_eq_mod_eq_0)
  then have "?a + ?n - 1 \<in> free_frames s" using F by (auto simp: block_frames_def)
  then have fit: "?a + ?n \<le> g_bitmap_bits s" using n0 by (auto simp: free_frames_def)
  then have n64: "?n < 2 ^ 64" using wf(3) by simp
  show ?thesis
  proof (rule pmm_core_take [OF core F])
    show "s' = s\<lparr>g_pmm_bitmap := bitmap_set_range (g_pmm_bitmap s) ?a ?n True,
        g_pmm_refcounts := set_refs (g_pmm_refcounts s) ?a ?n,
        g_free_memory := g_free_memory s - of_nat n, ram := ram s\<rparr>"
      by (simp add: s'_def reserve_metadata_def Let_def)
    show "g_free_memory s - of_nat n = g_free_memory s - of_nat (4096 * card (block_frames p n))"
      using n by (auto simp: block_frames_def elim!: dvdE simp flip: dvd_eq_mod_eq_0)
  qed (use bitmap_set_range_wf [OF wf(1) n64] bitmap_get_set_range [OF wf(1) n64] fit wf
       in \<open>auto simp: nth_set_refs block_frames_def range_end_def\<close>)
qed

lemma reserve_frame0:
  assumes core: "pmm_core s" and b: "0 < g_bitmap_bits s"
  defines "s' \<equiv> reserve_frame_permanently s 0"
  shows "pmm_inv s' \<and> free_frames s' = free_frames s - {0} \<and> g_total_memory s' = g_total_memory s"
proof -
  have wf: "bitmap_wf (g_pmm_bitmap s)" "m_size (g_pmm_bitmap s) = g_bitmap_bits s"
    "length (g_pmm_refcounts s) = g_bitmap_bits s" using core by (simp_all add: pmm_core_def)
  have get: "bitmap_get (bitmap_set (g_pmm_bitmap s) 0 True) j = (j = 0 \<or> bitmap_get (g_pmm_bitmap s) j)"
    for j using bitmap_get_set [OF wf(1)] b wf(2) by auto
  have tm: "g_total_memory s' = g_total_memory s"
    by (simp add: s'_def reserve_frame_permanently_def Let_def)
  show ?thesis
  proof (cases "0 \<in> free_frames s")
    case True
    then have r0: "pmm_refs s 0 = 0" "\<not> bitmap_get (g_pmm_bitmap s) 0"
      using core by (auto simp: pmm_core_def free_frames_def)
    have "0 < card (free_frames s)" using True by (auto simp: card_gt_0_iff)
    then have "4096 \<le> unat (g_free_memory s)" using pmm_core_free_bytes [OF core] by simp
    then have "k_frame_size \<le> g_free_memory s" by (simp add: k_frame_size_def word_le_nat_alt)
    then have s': "s' = s\<lparr>g_pmm_bitmap := bitmap_set (g_pmm_bitmap s) 0 True,
        g_pmm_refcounts := (g_pmm_refcounts s)[0 := 1],
        g_free_memory := g_free_memory s - k_frame_size, ram := ram s\<rparr>"
      using b r0 by (simp add: s'_def reserve_frame_permanently_def Let_def pmm_refs_def unat_eq_zero)
    have "pmm_core s' \<and> free_frames s' = free_frames s - {0} \<and>
      pmm_refs s' = (\<lambda>f. if f \<in> {0} then 1 else pmm_refs s f)"
      by (rule pmm_core_take [OF core _ _ _ _ _ _ _ s'])
        (use True wf get in \<open>auto simp: k_frame_size_def nth_list_update\<close>)
    with tm show ?thesis by (simp add: pmm_inv_def)
  next
    case False
    let ?rc = "if g_pmm_refcounts s ! 0 = 0 then (g_pmm_refcounts s)[0 := 1] else g_pmm_refcounts s"
    have t: "bitmap_get (g_pmm_bitmap s) 0" using False b by (simp add: free_frames_def)
    then have s': "s' = s\<lparr>g_pmm_bitmap := bitmap_set (g_pmm_bitmap s) 0 True, g_pmm_refcounts := ?rc\<rparr>"
      using b by (simp add: s'_def reserve_frame_permanently_def Let_def)
    have ff: "free_frames s' = free_frames s"
      using t by (auto simp: s' free_frames_def get intro: ccontr)
    have pr: "pmm_refs s' f = (if f = 0 then unat (?rc ! 0) else pmm_refs s f)" for f
      using b wf(3) by (simp add: s' pmm_refs_def)
    have "unat (?rc ! 0) > 0" using b wf(3) by (simp add: unat_gt_0)
    moreover have "pmm_core s'"
      using core False unfolding pmm_core_def ff pr by (auto simp: s')
    ultimately have "pmm_inv s'" by (simp add: pmm_inv_def pr)
    with ff False tm show ?thesis by simp
  qed
qed

lemma pmm_inv_hint:
  assumes "s' = (if c then s\<lparr>g_pmm_bitmap := update_hint (g_pmm_bitmap s) h\<rparr> else s)"
  shows "pmm_inv s' = pmm_inv s" "free_frames s' = free_frames s"
    "g_total_memory s' = g_total_memory s" "g_bitmap_bits s' = g_bitmap_bits s"
proof -
  show f: "free_frames s' = free_frames s" by (simp add: assms free_frames_def)
  have r: "pmm_refs s' = pmm_refs s" by (simp add: assms pmm_refs_def fun_eq_iff)
  show "pmm_inv s' = pmm_inv s" unfolding pmm_inv_def pmm_core_def f r by (simp add: assms)
  show "g_total_memory s' = g_total_memory s" "g_bitmap_bits s' = g_bitmap_bits s"
    by (simp_all add: assms)
qed


section \<open>Initialisation establishes the invariant\<close>

definition usable_frames :: "BootMemoryMapEntry list \<Rightarrow> nat set" where
  "usable_frames es = (\<Union>e \<in> set es. entry_frames e)"

lemma page_round_mod [simp]: "page_round n mod 4096 = 0"
  by (simp add: page_round_def)

lemma page_round_ge: "n \<le> page_round n"
  unfolding page_round_def by linarith

lemma page_round_mono: "m \<le> n \<Longrightarrow> page_round m \<le> page_round n"
  unfolding page_round_def by (intro mult_le_mono1 div_le_mono) simp

lemma empty_map_core:
  assumes "bits < 2 ^ 52" and "(bits + 7) div 8 \<le> length buffer"
    and "s1 = s\<lparr>g_pmm_bitmap := bitmap_set_range (bitmap_init buffer bits) 0 bits True,
      g_pmm_refcounts := replicate bits 0, g_bitmap_bits := bits, g_total_memory := 0,
      g_free_memory := 0, g_highest_page := 0\<rparr>"
  shows "pmm_core s1" "free_frames s1 = {}" "pmm_refs s1 f = 0"
proof -
  have wf: "bitmap_wf (bitmap_init buffer bits)" "m_size (bitmap_init buffer bits) = bits"
    using bitmap_init_get(1) [of bits buffer] assms by (simp_all add: bitmap_init_def)
  have b64: "bits < 2 ^ 64" using assms(1) by simp
  show ff: "free_frames s1 = {}"
    using bitmap_get_set_range [OF wf(1) b64, of 0 True] wf(2)
    by (auto simp: assms(3) free_frames_def range_end_def)
  show "pmm_refs s1 f = 0" by (simp add: pmm_refs_def assms(3))
  show "pmm_core s1"
    unfolding pmm_core_def ff
    using bitmap_set_range_wf [OF wf(1) b64] wf(2) assms(1) by (simp add: assms(3))
qed

lemma pmm_setup_inv:
  fixes s :: pmm
  assumes bits: "bits < 2 ^ 52" "0 < bits" "h \<le> bits * 4096" "h \<le> 2 ^ 64 - 4096"
    and map: "sorted_wrt apart es" "\<And>e. e \<in> set es \<Longrightarrow> low_entry h e"
    and bp: "block_frames bp bsz \<subseteq> usable_frames es" "bsz mod 4096 = 0" "(bits + 7) div 8 \<le> bsz"
    and rp: "block_frames rp rsz \<subseteq> usable_frames es" "rsz mod 4096 = 0"
    and disj: "block_frames bp bsz \<inter> block_frames rp rsz = {}"
  defines "s' \<equiv> pmm_setup s es bits bp bsz rp rsz"
  shows "pmm_inv s' \<and> g_bitmap_bits s' = bits \<and>
    free_frames s' = usable_frames es - block_frames bp bsz - block_frames rp rsz - {0} \<and>
    g_total_memory s' = of_nat (4096 * card (usable_frames es))"
proof -
  define s1 where "s1 = s\<lparr>g_pmm_bitmap :=
      bitmap_set_range (bitmap_init (map (ram s) [bp ..< bp + bsz]) bits) 0 bits True,
      g_pmm_refcounts := replicate bits 0, g_bitmap_bits := bits, g_total_memory := 0,
      g_free_memory := 0, g_highest_page := 0\<rparr>"
  define s2 where "s2 = foldl free_entry s1 es"
  define s3 where "s3 = reserve_metadata s2 bp bsz"
  define s4 where "s4 = reserve_metadata s3 rp rsz"
  define s5 where "s5 = reserve_frame_permanently s4 0"
  note c1 = empty_map_core [OF bits(1) _ s1_def, simplified, OF bp(3)]
  have b1: "g_bitmap_bits s1 = bits" "g_total_memory s1 - g_free_memory s1 = 0"
    by (simp_all add: s1_def)
  have c2: "pmm_core s2 \<and> g_bitmap_bits s2 = g_bitmap_bits s1 \<and>
      g_pmm_refcounts s2 = g_pmm_refcounts s1 \<and> ram s2 = ram s1 \<and>
      free_frames s2 = free_frames s1 \<union> (\<Union>e \<in> set es. entry_frames e) \<and>
      g_total_memory s2 - g_free_memory s2 = g_total_memory s1 - g_free_memory s1"
    unfolding s2_def using c1 map bits b1 by (intro free_entries_core [where h = h]) auto
  then have f2: "free_frames s2 = usable_frames es" by (simp add: c1(2) usable_frames_def)
  have t2: "g_total_memory s2 = of_nat (4096 * card (usable_frames es))"
    using c2 b1(2) f2 by (simp add: pmm_core_def)
  have c3: "pmm_core s3 \<and> free_frames s3 = free_frames s2 - block_frames bp bsz \<and>
      pmm_refs s3 = (\<lambda>f. if f \<in> block_frames bp bsz then 1 else pmm_refs s2 f)"
    unfolding s3_def using c2 f2 bp by (intro reserve_metadata_core) auto
  have c4: "pmm_core s4 \<and> free_frames s4 = free_frames s3 - block_frames rp rsz \<and>
      pmm_refs s4 = (\<lambda>f. if f \<in> block_frames rp rsz then 1 else pmm_refs s3 f)"
    unfolding s4_def using c3 f2 rp disj by (intro reserve_metadata_core) auto
  have b4: "g_bitmap_bits s4 = bits" "g_total_memory s4 = g_total_memory s2"
    using c2 b1 by (simp_all add: s4_def s3_def reserve_metadata_def Let_def)
  have c5: "pmm_inv s5 \<and> free_frames s5 = free_frames s4 - {0} \<and> g_total_memory s5 = g_total_memory s4"
    unfolding s5_def using c4 b4 bits(2) by (intro reserve_frame0) auto
  have b5: "g_bitmap_bits s5 = bits"
    by (simp add: s5_def reserve_frame_permanently_def Let_def b4)
  have "s' = (if g_bitmap_bits s5 > 1 \<and> get_hint (g_pmm_bitmap s5) = 0
      then s5\<lparr>g_pmm_bitmap := update_hint (g_pmm_bitmap s5) 1\<rparr> else s5)"
    unfolding s'_def pmm_setup_def Let_def
    unfolding s1_def [symmetric] s2_def [symmetric] s3_def [symmetric] s4_def [symmetric]
      s5_def [symmetric] ..
  from pmm_inv_hint [OF this] c5 c4 c3 f2 b4(2) t2 b5 show ?thesis by simp
qed


text \<open>
  C24.  When \<open>pmm_init\<close> returns for a boot memory map whose usable entries do not overlap, the
  invariant of the physical memory manager holds: a free frame has no references, the free byte
  count is 4096 times the number of clear bits, frame 0 is taken.  The free frames are exactly the
  whole frames of usable entries, less those of the bitmap and of the counts and frame 0, and the
  total is 4096 times the number of usable frames.
\<close>

theorem pmm_init_establishes_inv:
  assumes "sorted_wrt apart es" and "es \<noteq> []" and "pmm_init s es = Done s'"
  shows "pmm_inv s' \<and>
    (\<exists>bp bsz rp rsz. 8 * bsz \<ge> g_bitmap_bits s' \<and> rsz \<ge> 2 * g_bitmap_bits s' \<and>
      block_frames bp bsz \<inter> block_frames rp rsz = {} \<and>
      block_frames bp bsz \<union> block_frames rp rsz \<subseteq> usable_frames es \<and>
      free_frames s' = usable_frames es - block_frames bp bsz - block_frames rp rsz - {0}) \<and>
    g_total_memory s' = of_nat (4096 * card (usable_frames es))"
proof -
  define h where "h = highest_end es 0"
  define bits where "bits = (h + 4095) div 4096"
  define bsz where "bsz = page_round ((bits + 7) div 8)"
  define rsz where "rsz = page_round (bits * 2)"
  have h: "h \<le> 2 ^ 64 - 4096"
    using assms by (auto simp: pmm_init_def h_def Let_def split: if_splits)
  then have "h + 4095 < 2 ^ 52 * 4096" by simp
  then have b: "bits < 2 ^ 52" unfolding bits_def by (rule less_mult_imp_div_less)
  have hb: "h \<le> bits * 4096" unfolding bits_def by linarith
  have w: "wrap64 (bits + 7) = bits + 7" using b by (intro wrap64_id) simp
  obtain bp rp where pl: "place_metadata bsz rsz es None None = (Some bp, Some rp)"
    and s': "s' = pmm_setup s es bits bp bsz rp rsz"
    using assms(2,3) h
    by (auto simp: pmm_init_def Let_def w simp flip: h_def bits_def bsz_def rsz_def
        split: if_splits prod.splits option.splits)
  have low: "low_entry h e" if "e \<in> set es" for e
    using that highest_end_bound by (simp add: h_def)
  have sz: "bsz mod 4096 = 0" "rsz mod 4096 = 0" "(bits + 7) div 8 \<le> bsz" "bits * 2 \<le> rsz" "bsz \<le> rsz"
    using page_round_ge [of "(bits + 7) div 8"] page_round_ge [of "bits * 2"]
      page_round_mono [of "(bits + 7) div 8" "bits * 2"] by (auto simp: bsz_def rsz_def)
  from place_metadata_ok [OF pl h low assms(1) sz(1) sz(5)]
  obtain d e where de: "d \<in> set es" "fits d bp bsz" "e \<in> set es" "fits e rp rsz"
    and disj: "block_frames bp bsz \<inter> block_frames rp rsz = {}" by blast
  have inb: "block_frames bp bsz \<subseteq> usable_frames es" "block_frames rp rsz \<subseteq> usable_frames es"
    using de block_frames_inside unfolding usable_frames_def by blast+
  have pos: "0 < bits"
  proof -
    obtain f where "f \<in> entry_frames d" using de(2) by (auto simp: fits_def)
    from entry_frames_bytes [OF this low [OF de(1)] h] have "4096 \<le> h" by simp
    then show ?thesis by (simp add: bits_def div_greater_zero_iff)
  qed
  have S: "pmm_inv s' \<and> g_bitmap_bits s' = bits \<and>
    free_frames s' = usable_frames es - block_frames bp bsz - block_frames rp rsz - {0} \<and>
    g_total_memory s' = of_nat (4096 * card (usable_frames es))"
    unfolding s' using b hb h pos assms(1) low inb sz disj by (intro pmm_setup_inv) auto
  then have "8 * bsz \<ge> g_bitmap_bits s' \<and> rsz \<ge> 2 * g_bitmap_bits s'" using sz by auto
  then show ?thesis
    using S inb disj
    by (intro conjI exI [of _ bp] exI [of _ bsz] exI [of _ rp] exI [of _ rsz]) simp_all
qed

lemma pmm_init_establishes_inv_witness:
  "\<exists>s'. pmm_init \<lparr>g_pmm_bitmap = \<lparr>m_buffer = [], m_size = 0, m_next_free_hint = 0\<rparr>,
      g_pmm_refcounts = [], g_bitmap_bits = 0, g_total_memory = 0, g_free_memory = 0,
      g_highest_page = 0, ram = (\<lambda>a. 170)\<rparr>
      [\<lparr>e_base = 0, e_length = 655360, e_type = 0\<rparr>, \<lparr>e_base = 655360, e_length = 4096, e_type = 1\<rparr>,
       \<lparr>e_base = 1048576, e_length = 40960, e_type = 0\<rparr>] = Done s' \<and> pmm_inv s'"
  (is "\<exists>s'. pmm_init ?s ?es = Done s' \<and> pmm_inv s'")
proof -
  have ap: "sorted_wrt apart ?es" by (simp add: apart_def BOOT_MEM_USABLE_def)
  have "\<exists>s'. pmm_init ?s ?es = Done s'"
    by (simp add: pmm_init_def Let_def BOOT_MEM_USABLE_def BOOT_MEM_BOOTLOADER_RECLAIMABLE_def
        page_round_def get_aligned_usable_range_def)
  then obtain s' where "pmm_init ?s ?es = Done s'" by (elim exE)
  with pmm_init_establishes_inv [OF ap _ this] show ?thesis by simp
qed

end
