(* ===== verification/Region_Map.thy ===== *)
theory Region_Map
  imports Prelude
begin

text \<open>
  What the system calls rely on of a map from address ranges to attributes (the areas of a process):
  a lookup after \<open>add\<close> and after \<open>unmap\<close>, and when \<open>add\<close> succeeds.  The client lemma is the one
  behind \<open>mmap\<close> over an existing mapping: unmapping a range makes room for a new area there.
\<close>

locale region_map =
  fixes inv :: "'m \<Rightarrow> bool"
    and look :: "'m \<Rightarrow> nat \<Rightarrow> 'a option"
    and add :: "'m \<Rightarrow> nat \<Rightarrow> nat \<Rightarrow> 'a \<Rightarrow> heap_oracle \<Rightarrow> bool \<times> 'm \<times> heap_oracle"
    and unmap :: "'m \<Rightarrow> nat \<Rightarrow> nat \<Rightarrow> heap_oracle \<Rightarrow> bool \<times> 'm \<times> heap_oracle"
  assumes add_inv: "inv m \<Longrightarrow> inv (fst (snd (add m s e x h)))"
    and add_done: "inv m \<Longrightarrow> add m s e x h = (True, m', h') \<Longrightarrow>
      look m' a = (if s \<le> a \<and> a < e then Some x else look m a)"
    and add_fail: "inv m \<Longrightarrow> add m s e x h = (False, m', h') \<Longrightarrow> look m' = look m"
    and add_room: "inv m \<Longrightarrow> 0 < s \<Longrightarrow> s < e \<Longrightarrow> \<forall>a. s \<le> a \<and> a < e \<longrightarrow> look m a = None \<Longrightarrow>
      fst (add m s e x (True # True # h))"
    and unmap_inv: "inv m \<Longrightarrow> inv (fst (snd (unmap m s e h)))"
    and unmap_done: "inv m \<Longrightarrow> unmap m s e h = (True, m', h') \<Longrightarrow>
      look m' a = (if s \<le> a \<and> a < e then None else look m a)"
    and unmap_fail: "inv m \<Longrightarrow> unmap m s e h = (False, m', h') \<Longrightarrow> m' = m"
begin

lemma replace_range:
  assumes "inv m" and "0 < s" and "s < e"
    and "unmap m s e h = (True, m1, h1)" and "add m1 s e x (True # True # h2) = (r, m2, h3)"
  shows "r \<and> inv m2 \<and> (\<forall>a. look m2 a = (if s \<le> a \<and> a < e then Some x else look m a))"
proof -
  have i1: "inv m1" using unmap_inv [OF assms(1), of s e h] assms(4) by simp
  have "\<forall>a. s \<le> a \<and> a < e \<longrightarrow> look m1 a = None"
    using unmap_done [OF assms(1,4)] by simp
  from add_room [OF i1 assms(2,3) this, of x h2] assms(5) have r: "r" by simp
  have "inv m2" using add_inv [OF i1, of s e x "True # True # h2"] assms(5) by simp
  moreover have "look m2 a = (if s \<le> a \<and> a < e then Some x else look m a)" for a
    using add_done [OF i1] assms(5) r unmap_done [OF assms(1,4)] by simp
  ultimately show ?thesis using r by simp
qed

end

end
