(* ===== verification/Vma.thy ===== *)
theory Vma
  imports Region_Map
begin

text \<open>
  The list of virtual memory areas of a process, \<open>src/mm/vma.cpp\<close>.  The list is singly linked and
  owned by its head pointer, so it is a HOL list; the null pointer is the empty list.  Every
  function that allocates takes the outcomes of its calls of \<open>malloc\<close> and returns the rest.
\<close>

section \<open>Operations\<close>

datatype VMAType = Generic | Text | Data | Stack | Heap | Mmio | Anonymous | Shared

record VMA =
  v_start :: nat
  v_end :: nat
  v_flags :: u64
  v_type :: VMAType
  v_is_cow :: bool

fun vma_find :: "VMA list \<Rightarrow> nat \<Rightarrow> VMA option" where
  "vma_find [] addr = None"
| "vma_find (v # vs) addr =
     (if addr \<ge> v_start v \<and> addr < v_end v then Some v else vma_find vs addr)"

definition vma_sentinel :: VMA where
  "vma_sentinel =
     \<lparr>v_start = 0, v_end = 0, v_flags = 0, v_type = Generic, v_is_cow = False\<rparr>"

text \<open>
  The walk of \<open>vma_add\<close> to the link where the new area goes: its position, or \<open>None\<close> when the area
  overlaps one that is there.
\<close>

fun vma_slot :: "VMA list \<Rightarrow> nat \<Rightarrow> nat \<Rightarrow> nat option" where
  "vma_slot [] start e = Some 0"
| "vma_slot (v # vs) start e =
     (if v_start v < start then
        (if start < v_end v then None else map_option Suc (vma_slot vs start e))
      else if e > v_start v then None
      else Some 0)"

definition vma_add ::
  "VMA list \<Rightarrow> nat \<Rightarrow> nat \<Rightarrow> u64 \<Rightarrow> VMAType \<Rightarrow> heap_oracle \<Rightarrow> VMA option \<times> VMA list \<times> heap_oracle"
where
  "vma_add l start e flags type h =
     (if start \<ge> e then (None, l, h)
      else
        let (ok, l1, h1) =
          (if l = [] then
             (let (b, h') = malloc_ok h in if b then (True, [vma_sentinel], h') else (False, [], h'))
           else (True, l, h))
        in if \<not> ok then (None, l1, h1)
           else case vma_slot l1 start e of
             None \<Rightarrow> (None, l1, h1)
           | Some k \<Rightarrow>
               (let (b, h2) = malloc_ok h1 in
                if \<not> b then (None, l1, h2)
                else
                  let new_vma = \<lparr>v_start = start, v_end = e, v_flags = flags, v_type = type,
                                 v_is_cow = False\<rparr>
                  in (Some new_vma, take k l1 @ new_vma # drop k l1, h2)))"

fun vma_remove :: "VMA list \<Rightarrow> nat \<Rightarrow> nat \<Rightarrow> VMA list" where
  "vma_remove [] start e = []"
| "vma_remove (v # vs) start e =
     (if v_start v = start \<and> v_end v = e then vs else v # vma_remove vs start e)"

text \<open>
  The loop of \<open>vma_unmap\<close>; the result is \<open>False\<close> with the areas changed so far when the split of
  an area finds no memory.
\<close>

fun vma_unmap_loop :: "VMA list \<Rightarrow> nat \<Rightarrow> nat \<Rightarrow> heap_oracle \<Rightarrow> bool \<times> VMA list \<times> heap_oracle" where
  "vma_unmap_loop [] start e h = (True, [], h)"
| "vma_unmap_loop (v # vs) start e h =
     (if e \<le> v_start v \<or> start \<ge> v_end v then
        (let (ok, vs', h') = vma_unmap_loop vs start e h in (ok, v # vs', h'))
      else if start \<le> v_start v \<and> e \<ge> v_end v then vma_unmap_loop vs start e h
      else if start \<le> v_start v \<and> e < v_end v then
        (let (ok, vs', h') = vma_unmap_loop vs start e h in (ok, v\<lparr>v_start := e\<rparr> # vs', h'))
      else if start > v_start v \<and> e \<ge> v_end v then
        (let (ok, vs', h') = vma_unmap_loop vs start e h in (ok, v\<lparr>v_end := start\<rparr> # vs', h'))
      else
        (let (b, h1) = malloc_ok h in
         if \<not> b then (False, v # vs, h1)
         else
           let (ok, vs', h') = vma_unmap_loop vs start e h1
           in (ok, v\<lparr>v_end := start\<rparr> # v\<lparr>v_start := e\<rparr> # vs', h')))"

definition vma_unmap :: "VMA list \<Rightarrow> nat \<Rightarrow> nat \<Rightarrow> heap_oracle \<Rightarrow> bool \<times> VMA list \<times> heap_oracle" where
  "vma_unmap l start e h = (if start \<ge> e then (False, l, h) else vma_unmap_loop l start e h)"

text \<open>A clone that runs out of memory frees what it copied and returns the null pointer.\<close>

fun vma_clone_loop :: "VMA list \<Rightarrow> VMA list \<Rightarrow> heap_oracle \<Rightarrow> VMA list \<times> heap_oracle" where
  "vma_clone_loop [] new_list h = (new_list, h)"
| "vma_clone_loop (v # vs) new_list h =
     (let (b, h1) = malloc_ok h in
      if \<not> b then ([], h1) else vma_clone_loop vs (new_list @ [v]) h1)"

definition vma_clone :: "VMA list \<Rightarrow> heap_oracle \<Rightarrow> VMA list \<times> heap_oracle" where
  "vma_clone src h = vma_clone_loop src [] h"

section \<open>Invariant\<close>

text \<open>Areas are ordered and disjoint, and only the sentinel is empty.\<close>

definition area_ok :: "VMA \<Rightarrow> bool" where
  "area_ok v \<longleftrightarrow> v_start v < v_end v \<or> v_start v = 0 \<and> v_end v = 0"

definition vma_inv :: "VMA list \<Rightarrow> bool" where
  "vma_inv l \<longleftrightarrow> (\<forall>v \<in> set l. area_ok v) \<and> sorted_wrt (\<lambda>a b. v_end a \<le> v_start b) l"

definition area_attrs :: "VMA \<Rightarrow> u64 \<times> VMAType \<times> bool" where
  "area_attrs v = (v_flags v, v_type v, v_is_cow v)"

definition attrs_at :: "VMA list \<Rightarrow> nat \<Rightarrow> (u64 \<times> VMAType \<times> bool) option" where
  "attrs_at l a = map_option area_attrs (vma_find l a)"

lemma attrs_at_simps [simp]:
  "attrs_at [] a = None"
  "attrs_at (v # vs) a = (if v_start v \<le> a \<and> a < v_end v then Some (area_attrs v) else attrs_at vs a)"
  by (simp_all add: attrs_at_def)

lemma attrs_at_append:
  "attrs_at (xs @ ys) a = (case attrs_at xs a of None \<Rightarrow> attrs_at ys a | Some r \<Rightarrow> Some r)"
  by (induction xs) auto

lemma area_attrs_upd [simp]:
  "area_attrs (v\<lparr>v_start := x\<rparr>) = area_attrs v" "area_attrs (v\<lparr>v_end := x\<rparr>) = area_attrs v"
  by (simp_all add: area_attrs_def)

lemma vma_inv_simps [simp]:
  "vma_inv []"
  "vma_inv (v # vs) \<longleftrightarrow> area_ok v \<and> (\<forall>w \<in> set vs. v_end v \<le> v_start w) \<and> vma_inv vs"
  by (auto simp: vma_inv_def)

lemma attrs_at_None: "attrs_at l a = None \<longleftrightarrow> (\<forall>v \<in> set l. \<not> (v_start v \<le> a \<and> a < v_end v))"
  by (induction l) auto

lemma vma_find_mem:
  "vma_find l a = Some v \<Longrightarrow> v \<in> set l \<and> v_start v \<le> a \<and> a < v_end v"
  by (induction l) (auto split: if_splits)

lemma vma_find_unique:
  "vma_inv l \<Longrightarrow> v \<in> set l \<Longrightarrow> v_start v \<le> a \<Longrightarrow> a < v_end v \<Longrightarrow> vma_find l a = Some v"
  by (induction l) (auto simp: area_ok_def)


section \<open>Adding an area\<close>

lemma vma_slot_some:
  "vma_slot l s e = Some k \<Longrightarrow> vma_inv l \<Longrightarrow> s < e \<Longrightarrow>
    k \<le> length l \<and> (\<forall>v \<in> set (take k l). v_end v \<le> s) \<and> (\<forall>v \<in> set (drop k l). e \<le> v_start v)"
proof (induction l arbitrary: k)
  case (Cons v vs)
  then show ?case by (fastforce simp: area_ok_def split: if_splits)
qed simp

lemma vma_slot_free:
  assumes "vma_slot l s e = Some k" and "vma_inv l" and "s < e" and "s \<le> a" and "a < e"
  shows "attrs_at l a = None"
proof -
  note S = vma_slot_some [OF assms(1-3)]
  have "attrs_at (take k l) a = None" "attrs_at (drop k l) a = None"
    using S assms(4,5) by (force simp: attrs_at_None)+
  then have "attrs_at (take k l @ drop k l) a = None" unfolding attrs_at_append by simp
  then show ?thesis by simp
qed

lemma vma_slot_none:
  "vma_slot l s e = None \<Longrightarrow> vma_inv l \<Longrightarrow> 0 < s \<Longrightarrow> s < e \<Longrightarrow>
    \<exists>a. s \<le> a \<and> a < e \<and> attrs_at l a \<noteq> None"
proof (induction l)
  case (Cons v vs)
  show ?case
  proof (cases "v_start v < s")
    case True
    show ?thesis
    proof (cases "s < v_end v")
      case hit: True
      with True Cons.prems(4) show ?thesis by (intro exI [of _ s]) simp
    next
      case False
      with True Cons obtain a where "s \<le> a" "a < e" "attrs_at vs a \<noteq> None" by auto
      with False show ?thesis by (intro exI [of _ a]) simp
    qed
  next
    case False
    with Cons.prems have "v_start v < e" "v_start v < v_end v" by (auto simp: area_ok_def split: if_splits)
    with False show ?thesis by (intro exI [of _ "v_start v"]) simp
  qed
qed simp

lemma vma_inv_append:
  "vma_inv (xs @ ys) \<longleftrightarrow> vma_inv xs \<and> vma_inv ys \<and> (\<forall>v \<in> set xs. \<forall>w \<in> set ys. v_end v \<le> v_start w)"
  by (auto simp: vma_inv_def sorted_wrt_append)

lemma vma_insert:
  assumes "vma_inv l" and "s < e" and "vma_slot l s e = Some k"
    and new: "v_start n = s" "v_end n = e"
  defines "l' \<equiv> take k l @ n # drop k l"
  shows "vma_inv l'" "attrs_at l' a = (if s \<le> a \<and> a < e then Some (area_attrs n) else attrs_at l a)"
proof -
  note S = vma_slot_some [OF assms(3,1,2)]
  have inv: "vma_inv (take k l @ drop k l)" using assms(1) by simp
  have "\<forall>v \<in> set (take k l). \<forall>w \<in> set (drop k l). v_end v \<le> v_start w"
    using inv unfolding vma_inv_append by blast
  moreover have "area_ok n" using assms(2) new by (simp add: area_ok_def)
  ultimately show "vma_inv l'"
    using inv S new unfolding l'_def vma_inv_append by auto
  have hi: "attrs_at (drop k l) a = None" if "a < e"
    using S that by (force simp: attrs_at_None)
  have lo: "attrs_at (take k l) a = None" if "s \<le> a"
    using S that by (force simp: attrs_at_None)
  have "attrs_at l a = attrs_at (take k l @ drop k l) a" by simp
  then show "attrs_at l' a = (if s \<le> a \<and> a < e then Some (area_attrs n) else attrs_at l a)"
    using hi lo new unfolding l'_def attrs_at_append by (auto split: option.splits)
qed

lemma vma_sentinel_simps [simp]:
  "area_ok vma_sentinel" "v_start vma_sentinel = 0" "v_end vma_sentinel = 0"
  by (simp_all add: vma_sentinel_def area_ok_def)

text \<open>The list that \<open>vma_add\<close> walks: the given one, or the sentinel made for an empty one.\<close>

lemma vma_add_cases:
  assumes "vma_add l s e fl ty h = (r, l', h')"
  obtains (fail) "r = None" "l' = l \<or> l = [] \<and> l' = [vma_sentinel]"
  | (added) l1 k n where "s < e" "l1 = l \<or> l = [] \<and> l1 = [vma_sentinel]" "vma_slot l1 s e = Some k"
      "n = \<lparr>v_start = s, v_end = e, v_flags = fl, v_type = ty, v_is_cow = False\<rparr>" "r = Some n"
      "l' = take k l1 @ n # drop k l1"
proof (cases "s < e \<and> (l = [] \<longrightarrow> fst (malloc_ok h))")
  case False
  with assms show ?thesis
    by (intro fail) (auto simp: vma_add_def Let_def split: if_splits prod.splits)
next
  case True
  let ?l1 = "if l = [] then [vma_sentinel] else l"
  let ?h1 = "if l = [] then snd (malloc_ok h) else h"
  let ?n = "\<lparr>v_start = s, v_end = e, v_flags = fl, v_type = ty, v_is_cow = False\<rparr>"
  have v: "(r, l', h') = (case vma_slot ?l1 s e of None \<Rightarrow> (None, ?l1, ?h1)
      | Some k \<Rightarrow> if fst (malloc_ok ?h1)
          then (Some ?n, take k ?l1 @ ?n # drop k ?l1, snd (malloc_ok ?h1))
          else (None, ?l1, snd (malloc_ok ?h1)))"
    unfolding assms [symmetric] vma_add_def Let_def using True
    by (cases "l = []") (simp_all add: split_beta split: option.split)
  show ?thesis
  proof (cases "vma_slot ?l1 s e")
    case None
    with v show ?thesis by (intro fail) auto
  next
    case (Some k)
    show ?thesis
    proof (cases "fst (malloc_ok ?h1)")
      case ok: True
      show ?thesis by (rule added [of ?l1 k ?n]) (use v Some ok True in auto)
    next
      case no: False
      with v Some show ?thesis by (intro fail) auto
    qed
  qed
qed

lemma vma_add_inv: "vma_inv l \<Longrightarrow> vma_inv (fst (snd (vma_add l s e fl ty h)))"
proof -
  assume inv: "vma_inv l"
  obtain r l' h' where a: "vma_add l s e fl ty h = (r, l', h')" by (metis prod_cases3)
  show ?thesis
  proof (rule vma_add_cases [OF a])
    assume "l' = l \<or> l = [] \<and> l' = [vma_sentinel]"
    with inv a show ?thesis by auto
  next
    fix l1 k n
    assume *: "s < e" "l1 = l \<or> l = [] \<and> l1 = [vma_sentinel]" "vma_slot l1 s e = Some k"
      "n = \<lparr>v_start = s, v_end = e, v_flags = fl, v_type = ty, v_is_cow = False\<rparr>"
      "l' = take k l1 @ n # drop k l1"
    then have "vma_inv l1" using inv by auto
    from vma_insert(1) [OF this *(1,3), of n] * a show ?thesis by simp
  qed
qed

lemma vma_add_attrs:
  assumes inv: "vma_inv l" and a: "vma_add l s e fl ty h = (r, l', h')"
  shows "attrs_at l' x =
    (if r \<noteq> None \<and> s \<le> x \<and> x < e then Some (fl, ty, False) else attrs_at l x)"
proof (rule vma_add_cases [OF a])
  assume "r = None" "l' = l \<or> l = [] \<and> l' = [vma_sentinel]"
  then show ?thesis by auto
next
  fix l1 k n
  assume *: "s < e" "l1 = l \<or> l = [] \<and> l1 = [vma_sentinel]" "vma_slot l1 s e = Some k"
    "n = \<lparr>v_start = s, v_end = e, v_flags = fl, v_type = ty, v_is_cow = False\<rparr>" "r = Some n"
    "l' = take k l1 @ n # drop k l1"
  then have "vma_inv l1" using inv by auto
  from vma_insert(2) [OF this *(1,3), of n x] * show ?thesis by (auto simp: area_attrs_def)
qed

lemma vma_add_room:
  assumes inv: "vma_inv l" and "0 < s" and "s < e"
    and free: "\<forall>a. s \<le> a \<and> a < e \<longrightarrow> attrs_at l a = None"
  shows "\<exists>n l' h'. vma_add l s e fl ty (True # True # h) = (Some n, l', h')"
proof -
  let ?l1 = "if l = [] then [vma_sentinel] else l"
  have "vma_inv ?l1" using inv by simp
  moreover have "\<forall>a. s \<le> a \<and> a < e \<longrightarrow> attrs_at ?l1 a = None" using free by auto
  ultimately obtain k where "vma_slot ?l1 s e = Some k"
    using vma_slot_none [of ?l1 s e] assms(2,3) by (cases "vma_slot ?l1 s e") auto
  then show ?thesis using assms(3) by (auto simp: vma_add_def Let_def)
qed


section \<open>Unmapping a range\<close>

lemma vma_unmap_lower_aux:
  "\<forall>v \<in> set l. b \<le> v_start v \<Longrightarrow> w \<in> set (fst (snd (vma_unmap_loop l s e h))) \<Longrightarrow> b \<le> v_start w"
proof (induction l arbitrary: h)
  case (Cons v vs)
  then show ?case by (auto simp: Let_def split_beta split: if_splits)
qed simp

lemma vma_unmap_no_split_aux:
  "\<forall>v \<in> set l. s \<le> v_start v \<Longrightarrow> fst (vma_unmap_loop l s e h)"
proof (induction l arbitrary: h)
  case (Cons v vs)
  then show ?case by (auto simp: Let_def split_beta)
qed simp

lemma vma_unmap_lower:
  "vma_unmap_loop l s e h = (ok, l', h') \<Longrightarrow> \<forall>v \<in> set l. b \<le> v_start v \<Longrightarrow> \<forall>v \<in> set l'. b \<le> v_start v"
  using vma_unmap_lower_aux [of l b _ s e h] by auto

lemma vma_unmap_no_split:
  "vma_unmap_loop l s e h = (ok, l', h') \<Longrightarrow> \<forall>v \<in> set l. s \<le> v_start v \<Longrightarrow> ok"
  using vma_unmap_no_split_aux [of l s e h] by auto

definition unmap_spec :: "VMA list \<Rightarrow> nat \<Rightarrow> nat \<Rightarrow> bool \<Rightarrow> VMA list \<Rightarrow> bool" where
  "unmap_spec l s e ok l' \<longleftrightarrow>
     vma_inv l' \<and>
     (if ok then \<forall>a. attrs_at l' a = (if s \<le> a \<and> a < e then None else attrs_at l a) else l' = l)"

lemma vma_unmap_loop_spec:
  "vma_unmap_loop l s e h = (ok, l', h') \<Longrightarrow> vma_inv l \<Longrightarrow> s < e \<Longrightarrow> unmap_spec l s e ok l'"
proof (induction l s e h arbitrary: ok l' h' rule: vma_unmap_loop.induct)
  case (1 s e h)
  then show ?case by (simp add: unmap_spec_def)
next
  case (2 v vs s e h)
  have inv: "area_ok v" "\<forall>w \<in> set vs. v_end v \<le> v_start w" "vma_inv vs" using "2.prems"(2) by auto
  obtain okn vn hn where n: "vma_unmap_loop vs s e h = (okn, vn, hn)" by (metis prod_cases3)
  obtain okm vm hm where m: "vma_unmap_loop vs s e (snd (malloc_ok h)) = (okm, vm, hm)"
    by (metis prod_cases3)
  have low: "\<forall>w \<in> set vn. v_end v \<le> v_start w" "\<forall>w \<in> set vm. v_end v \<le> v_start w"
    using vma_unmap_lower [OF n inv(2)] vma_unmap_lower [OF m inv(2)] by blast+
  have lows: "\<forall>w \<in> set vn. s \<le> v_start w" "\<forall>w \<in> set vm. s \<le> v_start w" if "s < v_end v"
    using low that by force+
  have safe: "okn" "okm" if "s < v_end v"
    using vma_unmap_no_split [OF n] vma_unmap_no_split [OF m] inv(2) that by force+
  consider (apart) "e \<le> v_start v \<or> v_end v \<le> s"
    | (all) "s < v_end v" "v_start v < e" "s \<le> v_start v" "v_end v \<le> e"
    | (left) "s < v_end v" "v_start v < e" "s \<le> v_start v" "e < v_end v"
    | (right) "s < v_end v" "v_start v < e" "v_start v < s" "v_end v \<le> e"
    | (inside) "s < v_end v" "v_start v < e" "v_start v < s" "e < v_end v"
    by linarith
  then show ?case
  proof cases
    case apart
    with "2.IH"(1) [OF apart n inv(3) "2.prems"(3)] "2.prems"(1) n inv low(1)
    show ?thesis by (auto simp: unmap_spec_def)
  next
    case all
    with "2.IH"(2) [of ok l' h'] "2.prems" inv safe n show ?thesis
      by (auto simp: unmap_spec_def)
  next
    case left
    with "2.IH"(3) [of okn vn hn] "2.prems" n inv low(1) safe show ?thesis
      by (auto simp: unmap_spec_def area_ok_def)
  next
    case right
    with "2.IH"(4) [of okn vn hn] "2.prems" n inv lows(1) safe show ?thesis
      by (auto simp: unmap_spec_def area_ok_def)
  next
    case inside
    show ?thesis
    proof (cases "fst (malloc_ok h)")
      case True
      with inside "2.IH"(5) [of "malloc_ok h" True "snd (malloc_ok h)" okm vm hm] "2.prems" m inv low(2) lows(2) safe
      show ?thesis by (cases "malloc_ok h") (auto simp: unmap_spec_def area_ok_def)
    next
      case False
      with inside "2.prems" show ?thesis
        by (cases "malloc_ok h") (auto simp: unmap_spec_def)
    qed
  qed
qed

lemma vma_unmap_spec:
  assumes "vma_unmap l s e h = (ok, l', h')" and "vma_inv l"
  shows "unmap_spec l s e ok l'"
  using assms vma_unmap_loop_spec [of l s e h ok l' h']
  by (auto simp: vma_unmap_def unmap_spec_def split: if_splits)


section \<open>Removing and cloning\<close>

lemma vma_remove_subset: "set (vma_remove l s e) \<subseteq> set l"
  by (induction l) auto

lemma vma_remove_inv: "vma_inv l \<Longrightarrow> vma_inv (vma_remove l s e)"
  using vma_remove_subset by (induction l) fastforce+

lemma vma_remove_attrs:
  assumes "vma_inv l"
  shows "attrs_at (vma_remove l s e) a =
    (if (\<exists>v \<in> set l. v_start v = s \<and> v_end v = e) \<and> s \<le> a \<and> a < e then None else attrs_at l a)"
  using assms
proof (induction l)
  case (Cons v vs)
  show ?case
  proof (cases "v_start v = s \<and> v_end v = e")
    case True
    with Cons.prems have "attrs_at vs a = None" if "a < e" using that by (force simp: attrs_at_None)
    with True show ?thesis by auto
  next
    case False
    have "\<not> (v_start v \<le> a \<and> a < v_end v)"
      if "w \<in> set vs" "v_start w = s" "v_end w = e" "s \<le> a" for w
      using Cons.prems that by force
    with False Cons show ?thesis by auto
  qed
qed simp

lemma vma_clone_loop_all:
  "fst (vma_clone_loop src acc h) =
    (if length src \<le> length h \<and> False \<notin> set (take (length src) h) then acc @ src else [])"
proof (induction src arbitrary: acc h)
  case (Cons v vs)
  then show ?case by (cases h) (simp_all add: Let_def)
qed simp

section \<open>The areas of a process are a region map\<close>

definition area_look :: "VMA list \<Rightarrow> nat \<Rightarrow> (u64 \<times> VMAType) option" where
  "area_look l a = map_option (\<lambda>(f, t, c). (f, t)) (attrs_at l a)"

definition area_add ::
  "VMA list \<Rightarrow> nat \<Rightarrow> nat \<Rightarrow> u64 \<times> VMAType \<Rightarrow> heap_oracle \<Rightarrow> bool \<times> VMA list \<times> heap_oracle" where
  "area_add l s e x h =
     (let (r, l', h') = vma_add l s e (fst x) (snd x) h in (r \<noteq> None, l', h'))"

interpretation vma_rm: region_map vma_inv area_look area_add vma_unmap
proof unfold_locales
  fix m s e x h
  assume "vma_inv m"
  then show "vma_inv (fst (snd (area_add m s e x h)))"
    using vma_add_inv [of m s e "fst x" "snd x" h] by (simp add: area_add_def split_beta)
next
  fix m s e x h m' h' and a :: nat
  assume "vma_inv m" "area_add m s e x h = (True, m', h')"
  then show "area_look m' a = (if s \<le> a \<and> a < e then Some x else area_look m a)"
    using vma_add_attrs [of m s e "fst x" "snd x" h]
    by (auto simp: area_add_def area_look_def split: prod.splits)
next
  fix m s e x h m' h'
  assume "vma_inv m" "area_add m s e x h = (False, m', h')"
  then show "area_look m' = area_look m"
    using vma_add_attrs [of m s e "fst x" "snd x" h]
    by (auto simp: area_add_def area_look_def fun_eq_iff split: prod.splits)
next
  fix m s e x h
  assume "vma_inv m" "0 < s" "s < e" "\<forall>a. s \<le> a \<and> a < e \<longrightarrow> area_look m a = None"
  then show "fst (area_add m s e x (True # True # h))"
    using vma_add_room [of m s e "fst x" "snd x" h] by (auto simp: area_add_def area_look_def)
next
  fix m s e h
  assume "vma_inv m"
  then show "vma_inv (fst (snd (vma_unmap m s e h)))"
    using vma_unmap_spec by (metis prod.collapse unmap_spec_def)
next
  fix m s e h m' h' a
  assume "vma_inv m" "vma_unmap m s e h = (True, m', h')"
  then show "area_look m' a = (if s \<le> a \<and> a < e then None else area_look m a)"
    using vma_unmap_spec by (fastforce simp: unmap_spec_def area_look_def)
next
  fix m s e h m' h'
  assume "vma_inv m" "vma_unmap m s e h = (False, m', h')"
  then show "m' = m" using vma_unmap_spec by (fastforce simp: unmap_spec_def)
qed

section \<open>Properties\<close>

text \<open>
  C11.  \<open>vma_unmap\<close> keeps the list ordered and disjoint.  When it returns true, exactly the addresses
  of the range are unmapped and every other address keeps its flags, type and copy-on-write mark,
  across the five overlap cases; when it returns false, for an empty range or because the split of an
  area found no memory, the list is unchanged.
\<close>

theorem vma_unmap_correct:
  assumes "vma_inv l" and "vma_unmap l s e h = (ok, l', h')"
  shows "vma_inv l' \<and>
    (ok \<longrightarrow> (\<forall>a. attrs_at l' a = (if s \<le> a \<and> a < e then None else attrs_at l a))) \<and>
    (\<not> ok \<longrightarrow> l' = l)"
  using vma_unmap_spec [OF assms(2,1)] by (auto simp: unmap_spec_def)

lemma vma_unmap_correct_witness:
  "attrs_at (fst (snd (vma_unmap [\<lparr>v_start = 4096, v_end = 20480, v_flags = 7, v_type = Heap,
      v_is_cow = True\<rparr>] 8192 12288 [True]))) 12288 = Some (7, Heap, True)"
proof -
  let ?l = "[\<lparr>v_start = 4096, v_end = 20480, v_flags = 7, v_type = Heap, v_is_cow = True\<rparr>] :: VMA list"
  have inv: "vma_inv ?l" by (simp add: area_ok_def)
  let ?l1 = "[\<lparr>v_start = 4096, v_end = 8192, v_flags = 7, v_type = Heap, v_is_cow = True\<rparr>,
    \<lparr>v_start = 12288, v_end = 20480, v_flags = 7, v_type = Heap, v_is_cow = True\<rparr>] :: VMA list"
  have u: "vma_unmap ?l 8192 12288 [True] = (True, ?l1, [])" by (simp add: vma_unmap_def)
  show ?thesis
    unfolding u using vma_unmap_correct [OF inv u] by (simp add: area_attrs_def)
qed

text \<open>
  \<open>vma_add\<close> keeps the list ordered and disjoint.  It adds the area when no address of the range
  is mapped, memory is available and the range does not start at 0; when it succeeds, the addresses of
  the range get the given flags and type, and none of them was mapped before; whatever it returns, all
  other addresses are as before.
\<close>

theorem vma_add_correct:
  assumes "vma_inv l" and "vma_add l s e flags type h = (r, l', h')"
  shows "vma_inv l' \<and>
    (\<forall>a. attrs_at l' a = (if r \<noteq> None \<and> s \<le> a \<and> a < e then Some (flags, type, False) else attrs_at l a)) \<and>
    (r \<noteq> None \<longrightarrow> s < e \<and> (\<forall>a. s \<le> a \<and> a < e \<longrightarrow> attrs_at l a = None)) \<and>
    (0 < s \<and> s < e \<and> (\<forall>a. s \<le> a \<and> a < e \<longrightarrow> attrs_at l a = None) \<and> (\<exists>g. h = True # True # g) \<longrightarrow>
       r \<noteq> None)"
proof -
  have was: "s < e \<and> (\<forall>a. s \<le> a \<and> a < e \<longrightarrow> attrs_at l a = None)" if "r \<noteq> None"
  proof (rule vma_add_cases [OF assms(2)])
    fix l1 k n
    assume *: "s < e" "l1 = l \<or> l = [] \<and> l1 = [vma_sentinel]" "vma_slot l1 s e = Some k"
    then have "vma_inv l1" using assms(1) by auto
    from vma_slot_free [OF *(3) this *(1)] * show ?thesis by auto
  qed (use that in auto)
  have room: "r \<noteq> None"
    if "0 < s" "s < e" "\<forall>a. s \<le> a \<and> a < e \<longrightarrow> attrs_at l a = None" "h = True # True # g" for g
    using vma_add_room [OF assms(1) that(1-3), of flags type g] assms(2) that(4) by auto
  have inv: "vma_inv l'" using vma_add_inv [OF assms(1), of s e flags type h] assms(2) by simp
  show ?thesis
  proof (intro conjI allI impI inv vma_add_attrs [OF assms])
    show "s < e" if "r \<noteq> None" using was [OF that] ..
    show "attrs_at l a = None" if "r \<noteq> None" "s \<le> a \<and> a < e" for a
      using was [OF that(1)] that(2) by blast
  qed (elim conjE exE, rule room)
qed

lemma vma_add_correct_witness:
  "attrs_at (fst (snd (vma_add [] 4096 8192 5 Text [True, True]))) 8191 = Some (5, Text, False)"
proof -
  have v: "vma_add [] 4096 8192 5 Text [True, True] =
    (Some \<lparr>v_start = 4096, v_end = 8192, v_flags = 5, v_type = Text, v_is_cow = False\<rparr>,
     [vma_sentinel, \<lparr>v_start = 4096, v_end = 8192, v_flags = 5, v_type = Text, v_is_cow = False\<rparr>], [])"
    by code_simp
  show ?thesis using vma_add_correct [OF vma_inv_simps(1) v] v by (simp add: area_attrs_def)
qed

text \<open>
  Replacing a mapping: after \<open>vma_unmap\<close> succeeded on a range, \<open>vma_add\<close> on the same range
  succeeds when memory is available, and the resulting list gives the new flags and type inside the
  range and the old ones outside.
\<close>

theorem vma_replace_range:
  assumes "vma_inv l" and "0 < s" and "s < e" and "vma_unmap l s e h = (True, l1, h1)"
    and "area_add l1 s e x (True # True # h2) = (r, l2, h3)"
  shows "r \<and> vma_inv l2 \<and> (\<forall>a. area_look l2 a = (if s \<le> a \<and> a < e then Some x else area_look l a))"
  using vma_rm.replace_range assms by blast

lemma vma_replace_range_witness:
  "\<exists>l1 l2. vma_unmap [\<lparr>v_start = 4096, v_end = 20480, v_flags = 7, v_type = Heap, v_is_cow = True\<rparr>]
      8192 12288 [True] = (True, l1, []) \<and>
    area_add l1 8192 12288 (3, Mmio) [True, True] = (True, l2, [True]) \<and>
    area_look l2 12287 = Some (3, Mmio)"
proof -
  let ?l = "[\<lparr>v_start = 4096, v_end = 20480, v_flags = 7, v_type = Heap, v_is_cow = True\<rparr>] :: VMA list"
  let ?l1 = "[\<lparr>v_start = 4096, v_end = 8192, v_flags = 7, v_type = Heap, v_is_cow = True\<rparr>,
    \<lparr>v_start = 12288, v_end = 20480, v_flags = 7, v_type = Heap, v_is_cow = True\<rparr>] :: VMA list"
  let ?r = "area_add ?l1 8192 12288 (3, Mmio) [True, True]"
  have inv: "vma_inv ?l" by (simp add: area_ok_def)
  have u: "vma_unmap ?l 8192 12288 [True] = (True, ?l1, [])" by (simp add: vma_unmap_def)
  have a: "?r = (True, fst (snd ?r), [True])" by (simp add: area_add_def vma_add_def Let_def)
  show ?thesis
    using vma_replace_range [OF inv _ _ u a] u a by auto
qed

text \<open>
  \<open>vma_clone\<close> returns an equal list when each of its allocations succeeds, and the null list,
  with nothing left allocated, as soon as one fails.
\<close>

theorem vma_clone_all_or_nothing:
  "fst (vma_clone l h) =
    (if length l \<le> length h \<and> False \<notin> set (take (length l) h) then l else [])"
  unfolding vma_clone_def vma_clone_loop_all by auto

end
