(* ===== verification/Bounded_Fifo.thy ===== *)
theory Bounded_Fifo
  imports Prelude
begin

text \<open>
  The bounded byte and event queues of the kernel (pipes, TCP receive buffers, event queues) are
  rings of fixed capacity.  The locale states what their users rely on; its lemma is about every
  interleaving of writes and reads: what was read, followed by what is still queued, is what was
  queued at the start followed by what was accepted.  The section on rings holds the index
  arithmetic that all three share.
\<close>

section \<open>The interface\<close>

datatype 'a fifo_op = PutOp "'a list" | GetOp nat

text \<open>A history of writes and reads: the accepted input, the output and the final state.\<close>

fun fifo_run ::
  "('s \<Rightarrow> 'a list \<Rightarrow> nat \<times> 's) \<Rightarrow> ('s \<Rightarrow> nat \<Rightarrow> 'a list \<times> 's) \<Rightarrow> 's \<Rightarrow> 'a fifo_op list \<Rightarrow>
   'a list \<times> 'a list \<times> 's"
where
  "fifo_run put get s [] = ([], [], s)"
| "fifo_run put get s (PutOp xs # ops) =
     (let (k, s1) = put s xs; (i, out, s2) = fifo_run put get s1 ops in (take k xs @ i, out, s2))"
| "fifo_run put get s (GetOp n # ops) =
     (let (ys, s1) = get s n; (i, out, s2) = fifo_run put get s1 ops in (i, ys @ out, s2))"

locale bounded_fifo =
  fixes inv :: "'s \<Rightarrow> bool"
    and contents :: "'s \<Rightarrow> 'a list"
    and capacity :: nat
    and put :: "'s \<Rightarrow> 'a list \<Rightarrow> nat \<times> 's"
    and get :: "'s \<Rightarrow> nat \<Rightarrow> 'a list \<times> 's"
  assumes bounded: "inv s \<Longrightarrow> length (contents s) \<le> capacity"
    and put_ok: "inv s \<Longrightarrow> put s xs = (k, s') \<Longrightarrow>
      inv s' \<and> k = min (length xs) (capacity - length (contents s)) \<and>
      contents s' = contents s @ take k xs"
    and get_ok: "inv s \<Longrightarrow> get s n = (ys, s') \<Longrightarrow>
      inv s' \<and> ys = take n (contents s) \<and> contents s' = drop n (contents s)"
begin

lemma stream:
  assumes "inv s" and "fifo_run put get s ops = (i, out, s')"
  shows "inv s' \<and> contents s @ i = out @ contents s'"
  using assms
proof (induction ops arbitrary: s i out)
  case (Cons op ops)
  show ?case
  proof (cases op)
    case (PutOp xs)
    obtain k s1 where p: "put s xs = (k, s1)" by fastforce
    obtain i2 where r: "fifo_run put get s1 ops = (i2, out, s')" "i = take k xs @ i2"
      using Cons.prems(2) PutOp p by (auto split: prod.splits)
    from Cons.IH [OF _ r(1)] put_ok [OF Cons.prems(1) p] r(2) show ?thesis
      by (metis append.assoc)
  next
    case (GetOp n)
    obtain ys s1 where g: "get s n = (ys, s1)" by fastforce
    obtain o2 where r: "fifo_run put get s1 ops = (i, o2, s')" "out = ys @ o2"
      using Cons.prems(2) GetOp g by (auto split: prod.splits)
    from Cons.IH [OF _ r(1)] get_ok [OF Cons.prems(1) g] r(2) show ?thesis
      by (metis append.assoc append_take_drop_id)
  qed
qed simp

end

section \<open>Rings\<close>

definition ring_inv :: "nat \<Rightarrow> 'a list \<Rightarrow> nat \<Rightarrow> nat \<Rightarrow> nat \<Rightarrow> bool" where
  "ring_inv cap buf rd wr n \<longleftrightarrow>
     length buf = cap \<and> rd < cap \<and> n \<le> cap \<and> wr = (rd + n) mod cap"

definition ring_contents :: "nat \<Rightarrow> 'a list \<Rightarrow> nat \<Rightarrow> nat \<Rightarrow> 'a list" where
  "ring_contents cap buf rd n = map (\<lambda>i. buf ! ((rd + i) mod cap)) [0 ..< n]"

lemma length_ring_contents [simp]: "length (ring_contents cap buf rd n) = n"
  by (simp add: ring_contents_def)

lemma ring_contents_0 [simp]: "ring_contents cap buf rd 0 = []"
  by (simp add: ring_contents_def)

lemma ring_slots_differ:
  assumes "i < n" and "n < cap"
  shows "(rd + i) mod cap \<noteq> (rd + n) mod (cap :: nat)"
proof
  assume "(rd + i) mod cap = (rd + n) mod cap"
  then have "cap dvd (rd + n) - (rd + i)"
    using mod_eq_dvd_iff_nat [of "rd + i" "rd + n" cap] assms(1) by simp
  then have "cap dvd n - i" by simp
  with assms show False by (auto dest: dvd_imp_le)
qed

lemma ring_push:
  assumes "ring_inv cap buf rd wr n" and "n < cap"
  shows "ring_inv cap (buf[wr := x]) rd ((wr + 1) mod cap) (n + 1)"
    and "ring_contents cap (buf[wr := x]) rd (n + 1) = ring_contents cap buf rd n @ [x]"
proof -
  show "ring_inv cap (buf[wr := x]) rd ((wr + 1) mod cap) (n + 1)"
    using assms by (simp add: ring_inv_def mod_Suc_eq)
  have wr: "wr = (rd + n) mod cap" "wr < length buf" using assms by (auto simp: ring_inv_def)
  have "buf[wr := x] ! ((rd + i) mod cap) = buf ! ((rd + i) mod cap)" if "i < n" for i
    using ring_slots_differ [OF that assms(2), of rd] wr by (simp add: nth_list_update_neq)
  then show "ring_contents cap (buf[wr := x]) rd (n + 1) = ring_contents cap buf rd n @ [x]"
    using wr by (simp add: ring_contents_def)
qed

lemma ring_pop:
  assumes "ring_inv cap buf rd wr n" and "0 < n"
  shows "ring_inv cap buf ((rd + 1) mod cap) wr (n - 1)"
    and "ring_contents cap buf rd n = buf ! rd # ring_contents cap buf ((rd + 1) mod cap) (n - 1)"
proof -
  obtain m where n: "n = Suc m" using assms(2) by (cases n) auto
  have rd: "rd < cap" using assms(1) by (simp add: ring_inv_def)
  show "ring_inv cap buf ((rd + 1) mod cap) wr (n - 1)"
    using assms by (simp add: ring_inv_def n mod_add_left_eq)
  have "((rd + 1) mod cap + i) mod cap = (rd + Suc i) mod cap" for i
    by (simp add: mod_add_left_eq)
  then show "ring_contents cap buf rd n = buf ! rd # ring_contents cap buf ((rd + 1) mod cap) (n - 1)"
    using rd by (simp add: ring_contents_def n map_upt_Suc del: upt_Suc)
qed


text \<open>A ring that keeps no count and leaves one slot free: it is empty when the two positions agree
  and full when the write position is just before the read position.\<close>

lemma ring_count:
  assumes "ring_inv cap buf rd wr n" and "n < cap"
  shows "n = (wr + cap - rd) mod cap" and "wr = rd \<longleftrightarrow> n = 0" and "(wr + 1) mod cap = rd \<longleftrightarrow> n + 1 = cap"
proof -
  have r: "rd < cap" "wr = (rd + n) mod cap" using assms by (auto simp: ring_inv_def)
  show n: "n = (wr + cap - rd) mod cap"
  proof (cases "rd + n < cap")
    case True
    then show ?thesis using r assms(2) by simp
  next
    case False
    then have "wr = rd + n - cap" using r assms(2) by (simp add: mod_if)
    then show ?thesis using False r assms(2) by simp
  qed
  show "wr = rd \<longleftrightarrow> n = 0" using n r assms(2) by (auto simp: mod_if)
  have "(wr + 1) mod cap = (rd + (n + 1)) mod cap" unfolding r(2) by (simp add: mod_Suc_eq)
  moreover have "(rd + (n + 1)) mod cap = rd \<longleftrightarrow> n + 1 = cap"
    using r(1) assms(2) ring_slots_differ [of 0 "n + 1" cap rd] by (cases "n + 1 = cap") auto
  ultimately show "(wr + 1) mod cap = rd \<longleftrightarrow> n + 1 = cap" by simp
qed

end
