(* ===== verification/Pipe.thy ===== *)
theory Pipe
  imports Bounded_Fifo
begin

text \<open>
  Pipes, \<open>src/fs/pipe.cpp\<close>: eight rings of 4096 bytes.  Each critical section under the lock of a
  pipe is one step; a call that would sleep in \<open>scheduler_wait\<close> returns \<open>Blocked\<close> and leaves the
  pipe as it is, and the wait queues that \<open>scheduler_wake_all\<close> is called on are logged in \<open>wakes\<close>.
  The counters of the debug messages are left out.
\<close>

section \<open>State\<close>

definition PIPE_BUFFER_SIZE :: nat where "PIPE_BUFFER_SIZE = 4096"
definition MAX_PIPES :: nat where "MAX_PIPES = 8"

record pipe =
  in_use :: bool
  p_buffer :: "u8 list"
  read_pos :: nat
  write_pos :: nat
  p_count :: nat
  write_closed :: bool
  read_closed :: bool

datatype wait_queue = DataWait nat | SpaceWait nat

record pipe_table =
  pipes :: "pipe list"
  pipes_initialized :: bool
  wakes :: "wait_queue list"

datatype io_result = Returned int | Blocked

definition pipe_init :: "pipe_table \<Rightarrow> pipe_table" where
  "pipe_init t =
     (if pipes_initialized t then t
      else t\<lparr>pipes := map (\<lambda>p. p\<lparr>in_use := False\<rparr>) (pipes t), pipes_initialized := True\<rparr>)"

fun free_pipe :: "pipe list \<Rightarrow> nat \<Rightarrow> nat option" where
  "free_pipe [] i = None"
| "free_pipe (p # ps) i = (if \<not> in_use p then Some i else free_pipe ps (i + 1))"

definition pipe_create :: "pipe_table \<Rightarrow> int \<times> pipe_table" where
  "pipe_create t0 =
     (let t = pipe_init t0 in
      case free_pipe (pipes t) 0 of
        None \<Rightarrow> (-1, t)
      | Some i \<Rightarrow>
          (int i,
           t\<lparr>pipes := (pipes t)[i := (pipes t ! i)\<lparr>in_use := True, read_pos := 0, write_pos := 0,
                p_count := 0, write_closed := False, read_closed := False\<rparr>]\<rparr>))"

definition bad_pipe :: "pipe_table \<Rightarrow> int \<Rightarrow> bool" where
  "bad_pipe t pipe_id \<longleftrightarrow>
     pipe_id < 0 \<or> pipe_id \<ge> int MAX_PIPES \<or> \<not> in_use (pipes t ! nat pipe_id)"

section \<open>Reading and writing\<close>

text \<open>The copy loops, and the critical sections around them.\<close>

fun take_bytes :: "pipe \<Rightarrow> nat \<Rightarrow> u8 list \<times> pipe" where
  "take_bytes p 0 = ([], p)"
| "take_bytes p (Suc n) =
     (let b = p_buffer p ! read_pos p;
          (bs, p') = take_bytes (p\<lparr>read_pos := (read_pos p + 1) mod PIPE_BUFFER_SIZE\<rparr>) n
      in (b # bs, p'))"

fun put_bytes :: "pipe \<Rightarrow> u8 list \<Rightarrow> pipe" where
  "put_bytes p [] = p"
| "put_bytes p (b # bs) =
     put_bytes (p\<lparr>p_buffer := (p_buffer p)[write_pos p := b],
                  write_pos := (write_pos p + 1) mod PIPE_BUFFER_SIZE\<rparr>) bs"

definition pipe_drain :: "pipe \<Rightarrow> nat \<Rightarrow> u8 list \<times> pipe" where
  "pipe_drain p count =
     (let to_read = (if count < p_count p then count else p_count p);
          (bs, p1) = take_bytes p to_read
      in (bs, p1\<lparr>p_count := p_count p1 - to_read\<rparr>))"

definition pipe_fill :: "pipe \<Rightarrow> u8 list \<Rightarrow> nat \<times> pipe" where
  "pipe_fill p buf =
     (let space = PIPE_BUFFER_SIZE - p_count p;
          to_write = (if length buf < space then length buf else space);
          p1 = put_bytes p (take to_write buf)
      in (to_write, p1\<lparr>p_count := p_count p1 + to_write\<rparr>))"

definition pipe_read :: "pipe_table \<Rightarrow> int \<Rightarrow> nat \<Rightarrow> io_result \<times> u8 list \<times> pipe_table" where
  "pipe_read t pipe_id count =
     (if bad_pipe t pipe_id then (Returned (-1), [], t)
      else
        let i = nat pipe_id; p = pipes t ! i in
        if p_count p > 0 then
          (let (bs, p') = pipe_drain p count
           in (Returned (int (length bs)), bs,
               t\<lparr>pipes := (pipes t)[i := p'], wakes := wakes t @ [SpaceWait i]\<rparr>))
        else if write_closed p then (Returned 0, [], t)
        else (Blocked, [], t))"

definition pipe_write :: "pipe_table \<Rightarrow> int \<Rightarrow> u8 list \<Rightarrow> io_result \<times> pipe_table" where
  "pipe_write t pipe_id buf =
     (if bad_pipe t pipe_id then (Returned (-1), t)
      else
        let i = nat pipe_id; p = pipes t ! i in
        if read_closed p then (Returned (-1), t)
        else if PIPE_BUFFER_SIZE - p_count p > 0 then
          (let (k, p') = pipe_fill p buf
           in (Returned (int k), t\<lparr>pipes := (pipes t)[i := p'], wakes := wakes t @ [DataWait i]\<rparr>))
        else (Blocked, t))"

section \<open>Closing and polling\<close>

definition pipe_close_read :: "pipe_table \<Rightarrow> int \<Rightarrow> pipe_table" where
  "pipe_close_read t pipe_id =
     (if pipe_id < 0 \<or> pipe_id \<ge> int MAX_PIPES then t
      else
        let i = nat pipe_id; p = (pipes t ! i)\<lparr>read_closed := True\<rparr>;
            p' = (if write_closed p then p\<lparr>in_use := False\<rparr> else p)
        in t\<lparr>pipes := (pipes t)[i := p'], wakes := wakes t @ [SpaceWait i]\<rparr>)"

definition pipe_close_write :: "pipe_table \<Rightarrow> int \<Rightarrow> pipe_table" where
  "pipe_close_write t pipe_id =
     (if pipe_id < 0 \<or> pipe_id \<ge> int MAX_PIPES then t
      else
        let i = nat pipe_id; p = (pipes t ! i)\<lparr>write_closed := True\<rparr>;
            p' = (if read_closed p then p\<lparr>in_use := False\<rparr> else p)
        in t\<lparr>pipes := (pipes t)[i := p'], wakes := wakes t @ [DataWait i]\<rparr>)"

text \<open>The node of one end of a pipe: \<open>inode_id\<close> 0 reads, any other value writes.\<close>

record pipe_node =
  inode_id :: nat
  fs_data :: int

definition pipe_get_vnode :: "int \<Rightarrow> bool \<Rightarrow> bool \<Rightarrow> pipe_node option" where
  "pipe_get_vnode pipe_id is_write malloc_succeeds =
     (if malloc_succeeds then Some \<lparr>inode_id = (if is_write then 1 else 0), fs_data = pipe_id\<rparr>
      else None)"

definition pipe_vfs_read :: "pipe_table \<Rightarrow> pipe_node \<Rightarrow> nat \<Rightarrow> io_result \<times> u8 list \<times> pipe_table" where
  "pipe_vfs_read t node sz = pipe_read t (fs_data node) sz"

definition pipe_vfs_write :: "pipe_table \<Rightarrow> pipe_node \<Rightarrow> u8 list \<Rightarrow> io_result \<times> pipe_table" where
  "pipe_vfs_write t node buf = pipe_write t (fs_data node) buf"

definition pipe_vfs_close :: "pipe_table \<Rightarrow> pipe_node \<Rightarrow> pipe_table" where
  "pipe_vfs_close t node =
     (if inode_id node = 0 then pipe_close_read t (fs_data node)
      else pipe_close_write t (fs_data node))"

definition EPOLLIN :: u32 where "EPOLLIN = 1"
definition EPOLLOUT :: u32 where "EPOLLOUT = 2"
definition EPOLLERR :: u32 where "EPOLLERR = 4"
definition EPOLLHUP :: u32 where "EPOLLHUP = 8"

definition pipe_is_ready :: "pipe_table \<Rightarrow> pipe_node \<Rightarrow> u32 \<Rightarrow> u32 option" where
  "pipe_is_ready t node events =
     (if bad_pipe t (fs_data node) then None
      else
        let p = pipes t ! nat (fs_data node);
            occurred =
              (if inode_id node = 0 then
                 (if p_count p > 0 then EPOLLIN else 0) OR
                 (if write_closed p then EPOLLIN OR EPOLLHUP else 0)
               else
                 (if PIPE_BUFFER_SIZE - p_count p > 0 \<and> \<not> read_closed p then EPOLLOUT else 0) OR
                 (if read_closed p then EPOLLERR OR EPOLLHUP else 0));
            active = occurred AND events
        in if active \<noteq> 0 then Some active else None)"


section \<open>One pipe is a ring\<close>

definition pipe_inv :: "pipe \<Rightarrow> bool" where
  "pipe_inv p \<longleftrightarrow> ring_inv PIPE_BUFFER_SIZE (p_buffer p) (read_pos p) (write_pos p) (p_count p)"

definition pipe_contents :: "pipe \<Rightarrow> u8 list" where
  "pipe_contents p = ring_contents PIPE_BUFFER_SIZE (p_buffer p) (read_pos p) (p_count p)"

definition same_flags :: "pipe \<Rightarrow> pipe \<Rightarrow> bool" where
  "same_flags p q \<longleftrightarrow>
     in_use q = in_use p \<and> write_closed q = write_closed p \<and> read_closed q = read_closed p"

lemma pipe_count_bound: "pipe_inv p \<Longrightarrow> p_count p \<le> PIPE_BUFFER_SIZE"
  by (simp add: pipe_inv_def ring_inv_def)

lemma take_bytes_frame:
  "take_bytes p n = (bs, p') \<Longrightarrow> p_buffer p' = p_buffer p \<and> write_pos p' = write_pos p \<and>
    p_count p' = p_count p \<and> same_flags p p'"
  by (induction p n arbitrary: bs p' rule: take_bytes.induct)
    (force simp: same_flags_def Let_def split: prod.splits)+

lemma put_bytes_frame:
  "read_pos (put_bytes p bs) = read_pos p \<and> p_count (put_bytes p bs) = p_count p \<and>
    same_flags p (put_bytes p bs)"
  by (induction p bs rule: put_bytes.induct) (auto simp: same_flags_def)

lemma take_bytes_ring:
  assumes "ring_inv PIPE_BUFFER_SIZE (p_buffer p) (read_pos p) wr m" and "n \<le> m"
    and "take_bytes p n = (bs, p')"
  shows "ring_inv PIPE_BUFFER_SIZE (p_buffer p) (read_pos p') wr (m - n) \<and>
    ring_contents PIPE_BUFFER_SIZE (p_buffer p) (read_pos p) m =
      bs @ ring_contents PIPE_BUFFER_SIZE (p_buffer p) (read_pos p') (m - n)"
  using assms
proof (induction n arbitrary: p m bs)
  case (Suc n)
  let ?q = "p\<lparr>read_pos := (read_pos p + 1) mod PIPE_BUFFER_SIZE\<rparr>"
  obtain cs where t: "take_bytes ?q n = (cs, p')" "bs = p_buffer p ! read_pos p # cs"
    using Suc.prems(3) by (auto simp: Let_def split: prod.splits)
  have m: "0 < m" using Suc.prems(2) by simp
  note pop = ring_pop [OF Suc.prems(1) m]
  have "ring_inv PIPE_BUFFER_SIZE (p_buffer ?q) (read_pos ?q) wr (m - 1)" using pop(1) by simp
  from Suc.IH [OF this _ t(1)] Suc.prems(2) pop(2) t(2) show ?case by simp
qed simp

lemma put_bytes_ring:
  assumes "ring_inv PIPE_BUFFER_SIZE (p_buffer p) (read_pos p) (write_pos p) m"
    and "m + length bs \<le> PIPE_BUFFER_SIZE"
  defines "p' \<equiv> put_bytes p bs"
  shows "ring_inv PIPE_BUFFER_SIZE (p_buffer p') (read_pos p') (write_pos p') (m + length bs) \<and>
    ring_contents PIPE_BUFFER_SIZE (p_buffer p') (read_pos p') (m + length bs) =
      ring_contents PIPE_BUFFER_SIZE (p_buffer p) (read_pos p) m @ bs"
  unfolding p'_def using assms(1,2)
proof (induction bs arbitrary: p m)
  case (Cons b bs)
  let ?q = "p\<lparr>p_buffer := (p_buffer p)[write_pos p := b],
    write_pos := (write_pos p + 1) mod PIPE_BUFFER_SIZE\<rparr>"
  have m: "m < PIPE_BUFFER_SIZE" using Cons.prems(2) by simp
  note push = ring_push [OF Cons.prems(1) m, of b]
  have "ring_inv PIPE_BUFFER_SIZE (p_buffer ?q) (read_pos ?q) (write_pos ?q) (m + 1)"
    using push(1) by simp
  from Cons.IH [OF this] Cons.prems(2) push(2) show ?case by simp
qed simp

lemma pipe_drain_spec:
  assumes "pipe_inv p" and "pipe_drain p n = (bs, p')"
  shows "pipe_inv p' \<and> bs = take n (pipe_contents p) \<and> pipe_contents p' = drop n (pipe_contents p) \<and>
    same_flags p p'"
proof -
  let ?k = "if n < p_count p then n else p_count p"
  obtain p1 where t: "take_bytes p ?k = (bs, p1)" "p' = p1\<lparr>p_count := p_count p1 - ?k\<rparr>"
    using assms(2) by (auto simp: pipe_drain_def Let_def split: prod.splits)
  have "?k \<le> p_count p" by simp
  note r = take_bytes_ring [OF assms(1) [unfolded pipe_inv_def] this t(1)]
  have f: "p_buffer p1 = p_buffer p" "write_pos p1 = write_pos p" "p_count p1 = p_count p"
    "same_flags p p1" using take_bytes_frame [OF t(1)] by simp_all
  have c: "pipe_contents p = bs @ pipe_contents p'" "pipe_inv p'"
    using r by (simp_all add: pipe_contents_def pipe_inv_def t(2) f)
  have "length (pipe_contents p') = p_count p - ?k" by (simp add: pipe_contents_def t(2) f)
  then have len: "length bs = ?k" using arg_cong [OF c(1), of length]
    by (simp add: pipe_contents_def split: if_splits)
  have "bs = take n (pipe_contents p)" "pipe_contents p' = drop n (pipe_contents p)"
    using c(1) len by (auto simp: pipe_contents_def t(2) f)
  with c(2) f(4) show ?thesis by (simp add: same_flags_def t(2))
qed

lemma pipe_fill_spec:
  assumes "pipe_inv p" and "pipe_fill p buf = (k, p')"
  shows "pipe_inv p' \<and> k = min (length buf) (PIPE_BUFFER_SIZE - p_count p) \<and>
    pipe_contents p' = pipe_contents p @ take k buf \<and> same_flags p p'"
proof -
  let ?p1 = "put_bytes p (take k buf)"
  have k: "k = min (length buf) (PIPE_BUFFER_SIZE - p_count p)"
    and p': "p' = ?p1\<lparr>p_count := p_count ?p1 + k\<rparr>"
    using assms(2) by (auto simp: pipe_fill_def Let_def min_def)
  have "p_count p + length (take k buf) \<le> PIPE_BUFFER_SIZE"
    using pipe_count_bound [OF assms(1)] k by simp
  note r = put_bytes_ring [OF assms(1) [unfolded pipe_inv_def] this]
  have f: "read_pos ?p1 = read_pos p" "p_count ?p1 = p_count p" "same_flags p ?p1"
    using put_bytes_frame by blast+
  have "length (take k buf) = k" using k by simp
  then have "pipe_inv p' \<and> pipe_contents p' = pipe_contents p @ take k buf \<and> same_flags p p'"
    using r f(3) by (simp add: pipe_inv_def pipe_contents_def p' f(1,2) same_flags_def)
  with k show ?thesis by blast
qed


section \<open>The table\<close>

definition table_inv :: "pipe_table \<Rightarrow> bool" where
  "table_inv t \<longleftrightarrow> length (pipes t) = MAX_PIPES \<and> (\<forall>p \<in> set (pipes t). pipe_inv p)"

definition pipe_data :: "nat \<Rightarrow> pipe_table \<Rightarrow> u8 list" where
  "pipe_data i t = pipe_contents (pipes t ! i)"

text \<open>A pipe that is in use and whose read end is open.\<close>

definition pipe_open :: "nat \<Rightarrow> pipe_table \<Rightarrow> bool" where
  "pipe_open i t \<longleftrightarrow> table_inv t \<and> i < MAX_PIPES \<and> in_use (pipes t ! i) \<and> \<not> read_closed (pipes t ! i)"

definition pipe_put :: "nat \<Rightarrow> pipe_table \<Rightarrow> u8 list \<Rightarrow> nat \<times> pipe_table" where
  "pipe_put i t buf =
     (let (r, t') = pipe_write t (int i) buf
      in (case r of Returned k \<Rightarrow> nat k | Blocked \<Rightarrow> 0, t'))"

definition pipe_get :: "nat \<Rightarrow> pipe_table \<Rightarrow> nat \<Rightarrow> u8 list \<times> pipe_table" where
  "pipe_get i t n = (let (r, bs, t') = pipe_read t (int i) n in (bs, t'))"

lemma table_inv_nth: "table_inv t \<Longrightarrow> i < MAX_PIPES \<Longrightarrow> pipe_inv (pipes t ! i)"
  by (simp add: table_inv_def)

lemma table_inv_upd:
  "table_inv t \<Longrightarrow> pipe_inv p \<Longrightarrow> table_inv (t\<lparr>pipes := (pipes t)[i := p], wakes := w\<rparr>)"
  by (auto simp: table_inv_def dest: set_update_subset_insert [THEN subsetD])

lemma pipe_not_bad: "pipe_open i t \<Longrightarrow> \<not> bad_pipe t (int i)"
  by (simp add: pipe_open_def bad_pipe_def)

lemma pipe_write_fill:
  assumes "pipe_open i t" and "pipe_fill (pipes t ! i) buf = (k, p')"
  shows "pipe_write t (int i) buf =
    (if p_count (pipes t ! i) < PIPE_BUFFER_SIZE
     then (Returned (int k), t\<lparr>pipes := (pipes t)[i := p'], wakes := wakes t @ [DataWait i]\<rparr>)
     else (Blocked, t))"
  using assms pipe_not_bad [OF assms(1)] by (simp add: pipe_write_def pipe_open_def Let_def)

lemma pipe_put_spec:
  assumes "pipe_open i t" and "pipe_put i t buf = (k, t')"
  shows "pipe_open i t' \<and> k = min (length buf) (PIPE_BUFFER_SIZE - length (pipe_data i t)) \<and>
    pipe_data i t' = pipe_data i t @ take k buf"
proof -
  obtain m p' where f: "pipe_fill (pipes t ! i) buf = (m, p')" by fastforce
  have inv: "pipe_inv (pipes t ! i)" "i < length (pipes t)" "table_inv t"
    using assms(1) by (auto simp: pipe_open_def table_inv_nth table_inv_def)
  note F = pipe_fill_spec [OF inv(1) f]
  show ?thesis
  proof (cases "p_count (pipes t ! i) < PIPE_BUFFER_SIZE")
    case True
    then have e: "k = m" "t' = t\<lparr>pipes := (pipes t)[i := p'], wakes := wakes t @ [DataWait i]\<rparr>"
      using pipe_write_fill [OF assms(1) f] assms(2) by (auto simp: pipe_put_def)
    have "table_inv t'" unfolding e(2) using inv(3) F by (intro table_inv_upd) auto
    then show ?thesis
      using F e inv(2) assms(1) by (simp add: pipe_open_def pipe_data_def same_flags_def pipe_contents_def)
  next
    case False
    then have e: "k = 0" "t' = t"
      using pipe_write_fill [OF assms(1) f] assms(2) by (auto simp: pipe_put_def)
    with False pipe_count_bound [OF inv(1)] assms(1) show ?thesis
      by (simp add: pipe_data_def pipe_contents_def)
  qed
qed

lemma pipe_get_spec:
  assumes "pipe_open i t" and "pipe_get i t n = (bs, t')"
  shows "pipe_open i t' \<and> bs = take n (pipe_data i t) \<and> pipe_data i t' = drop n (pipe_data i t)"
proof -
  obtain cs p' where d: "pipe_drain (pipes t ! i) n = (cs, p')" by fastforce
  have inv: "pipe_inv (pipes t ! i)" "i < length (pipes t)" "table_inv t"
    using assms(1) by (auto simp: pipe_open_def table_inv_nth table_inv_def)
  note D = pipe_drain_spec [OF inv(1) d]
  note nb = pipe_not_bad [OF assms(1)]
  show ?thesis
  proof (cases "p_count (pipes t ! i) > 0")
    case True
    then have e: "bs = cs" "t' = t\<lparr>pipes := (pipes t)[i := p'], wakes := wakes t @ [SpaceWait i]\<rparr>"
      using nb d assms(2) by (auto simp: pipe_get_def pipe_read_def Let_def)
    have "table_inv t'" unfolding e(2) using inv(3) D by (intro table_inv_upd) auto
    then show ?thesis
      using D e inv(2) assms(1) by (simp add: pipe_open_def pipe_data_def same_flags_def)
  next
    case False
    then have e: "bs = []" "t' = t"
      using nb assms(2) by (auto simp: pipe_get_def pipe_read_def Let_def split: if_splits)
    with False assms(1) show ?thesis by (simp add: pipe_data_def pipe_contents_def ring_contents_def)
  qed
qed

interpretation pipe_fifo: bounded_fifo "pipe_open i" "pipe_data i" PIPE_BUFFER_SIZE "pipe_put i" "pipe_get i"
  for i
proof unfold_locales
  fix t assume "pipe_open i t"
  then have "pipe_inv (pipes t ! i)" by (simp add: pipe_open_def table_inv_nth)
  then show "length (pipe_data i t) \<le> PIPE_BUFFER_SIZE"
    using pipe_count_bound by (simp add: pipe_data_def pipe_contents_def)
qed (use pipe_put_spec pipe_get_spec in blast)+

lemma free_pipe_some:
  "free_pipe ps i = Some k \<Longrightarrow> i \<le> k \<and> k < i + length ps \<and> \<not> in_use (ps ! (k - i))"
proof (induction ps arbitrary: i)
  case (Cons p ps)
  show ?case
  proof (cases "in_use p")
    case True
    with Cons have "i + 1 \<le> k" "k < i + 1 + length ps" "\<not> in_use (ps ! (k - (i + 1)))" by fastforce+
    moreover from this have "k - i = Suc (k - (i + 1))" by simp
    ultimately show ?thesis by simp
  next
    case False
    with Cons.prems show ?thesis by simp
  qed
qed simp

lemma free_pipe_none: "free_pipe ps i = None \<longleftrightarrow> (\<forall>p \<in> set ps. in_use p)"
  by (induction ps arbitrary: i) auto

lemma pipe_init_inv: "table_inv t \<Longrightarrow> table_inv (pipe_init t)"
  by (auto simp: pipe_init_def table_inv_def pipe_inv_def)

lemma pipe_create_cases:
  assumes "table_inv t" and "pipe_create t = (fd, t')"
  obtains (full) "fd = -1" "t' = pipe_init t" "\<forall>p \<in> set (pipes (pipe_init t)). in_use p"
  | (made) i where "fd = int i" "i < MAX_PIPES" "\<not> in_use (pipes (pipe_init t) ! i)"
      "pipe_open i t'" "\<not> write_closed (pipes t' ! i)" "pipe_data i t' = []"
      "\<And>j. j \<noteq> i \<Longrightarrow> pipes t' ! j = pipes (pipe_init t) ! j"
proof (cases "free_pipe (pipes (pipe_init t)) 0")
  case None
  then have "fd = -1" "t' = pipe_init t" using assms(2) by (simp_all add: pipe_create_def Let_def)
  with None show ?thesis by (intro full) (simp_all add: free_pipe_none)
next
  case (Some i)
  let ?q = "(pipes (pipe_init t) ! i)\<lparr>in_use := True, read_pos := 0, write_pos := 0,
    p_count := 0, write_closed := False, read_closed := False\<rparr>"
  have inv: "table_inv (pipe_init t)" by (rule pipe_init_inv [OF assms(1)])
  have i: "i < MAX_PIPES" "\<not> in_use (pipes (pipe_init t) ! i)"
    using free_pipe_some [OF Some] inv by (auto simp: table_inv_def)
  have t': "fd = int i" "t' = (pipe_init t)\<lparr>pipes := (pipes (pipe_init t))[i := ?q]\<rparr>"
    using assms(2) Some by (simp_all add: pipe_create_def Let_def)
  have "pipe_inv (pipes (pipe_init t) ! i)" by (rule table_inv_nth [OF inv i(1)])
  then have "pipe_inv ?q" by (simp add: pipe_inv_def ring_inv_def)
  then have "table_inv t'"
    using table_inv_upd [OF inv, of ?q "wakes (pipe_init t)" i] by (simp add: t'(2))
  then have "pipe_open i t'" "\<not> write_closed (pipes t' ! i)" "pipe_data i t' = []"
    "\<And>j. j \<noteq> i \<Longrightarrow> pipes t' ! j = pipes (pipe_init t) ! j"
    using i(1) inv by (simp_all add: pipe_open_def pipe_data_def pipe_contents_def t'(2) table_inv_def)
  with made [OF t'(1) i] show ?thesis by blast
qed

definition fresh_table :: pipe_table where
  "fresh_table =
     \<lparr>pipes = replicate 8 \<lparr>in_use = False, p_buffer = replicate PIPE_BUFFER_SIZE 0, read_pos = 0, write_pos = 0,
        p_count = 0, write_closed = False, read_closed = False\<rparr>,
      pipes_initialized = False, wakes = []\<rparr>"

lemma fresh_table_inv: "table_inv fresh_table"
  by (simp add: fresh_table_def table_inv_def MAX_PIPES_def pipe_inv_def ring_inv_def PIPE_BUFFER_SIZE_def)

lemma fresh_pipe:
  shows "pipe_create fresh_table = (0, snd (pipe_create fresh_table))"
    and "pipe_open 0 (snd (pipe_create fresh_table))"
    and "pipe_data 0 (snd (pipe_create fresh_table)) = []"
    and "\<not> write_closed (pipes (snd (pipe_create fresh_table)) ! 0)"
proof -
  show c: "pipe_create fresh_table = (0, snd (pipe_create fresh_table))"
    by (simp add: fresh_table_def pipe_create_def pipe_init_def Let_def numeral_eq_Suc)
  have "pipe_open 0 (snd (pipe_create fresh_table)) \<and> pipe_data 0 (snd (pipe_create fresh_table)) = [] \<and>
    \<not> write_closed (pipes (snd (pipe_create fresh_table)) ! 0)"
    by (rule pipe_create_cases [OF fresh_table_inv c]) auto
  then show "pipe_open 0 (snd (pipe_create fresh_table))"
    and "pipe_data 0 (snd (pipe_create fresh_table)) = []"
    and "\<not> write_closed (pipes (snd (pipe_create fresh_table)) ! 0)" by simp_all
qed

text \<open>
  C13.  A pipe is a byte stream: for every interleaving of \<open>pipe_write\<close> and \<open>pipe_read\<close> calls on a
  pipe whose read end is open, including short writes into a nearly full ring and calls that would
  block, the bytes read followed by the bytes still in the ring are the bytes that were in the ring
  followed by the bytes the writes accepted: nothing is lost, duplicated or reordered.
\<close>

theorem pipe_stream:
  assumes "pipe_open i t" and "fifo_run (pipe_put i) (pipe_get i) t ops = (accepted, out, t')"
  shows "pipe_open i t' \<and> pipe_data i t @ accepted = out @ pipe_data i t'"
  by (rule pipe_fifo.stream [OF assms])

lemma pipe_stream_witness:
  "\<exists>accepted out t'. fifo_run (pipe_put 0) (pipe_get 0) (snd (pipe_create fresh_table))
     [PutOp [1, 2, 3], GetOp 2, PutOp [4], GetOp 9] = (accepted, out, t') \<and>
     accepted = out @ pipe_data 0 t'"
proof -
  obtain a d t' where r: "fifo_run (pipe_put 0) (pipe_get 0) (snd (pipe_create fresh_table))
     [PutOp [1, 2, 3], GetOp 2, PutOp [4], GetOp 9] = (a, d, t')" by (metis prod_cases3)
  with pipe_stream [OF fresh_pipe(2) r] show ?thesis by (simp add: fresh_pipe(3))
qed

text \<open>
  \<open>pipe_create\<close> hands out a pipe that is empty, open at both ends and was not in use, leaves
  every other pipe as it is, and fails exactly when the table is initialised and all eight pipes are
  in use.
\<close>

theorem pipe_create_fresh:
  assumes "table_inv t" and "pipe_create t = (fd, t')"
  shows "(fd = -1 \<longleftrightarrow> (\<forall>p \<in> set (pipes (pipe_init t)). in_use p)) \<and>
    (fd \<noteq> -1 \<longrightarrow> (\<exists>i < MAX_PIPES. fd = int i \<and> \<not> in_use (pipes (pipe_init t) ! i) \<and>
       pipe_open i t' \<and> \<not> write_closed (pipes t' ! i) \<and> pipe_data i t' = [] \<and>
       (\<forall>j. j \<noteq> i \<longrightarrow> pipes t' ! j = pipes (pipe_init t) ! j)))"
proof (rule pipe_create_cases [OF assms])
  fix i
  assume a: "fd = int i" "i < MAX_PIPES" "\<not> in_use (pipes (pipe_init t) ! i)"
    "pipe_open i t'" "\<not> write_closed (pipes t' ! i)" "pipe_data i t' = []"
    "\<And>j. j \<noteq> i \<Longrightarrow> pipes t' ! j = pipes (pipe_init t) ! j"
  have "pipes (pipe_init t) ! i \<in> set (pipes (pipe_init t))"
    using a(2) pipe_init_inv [OF assms(1)] by (simp add: table_inv_def)
  with a show ?thesis by auto
qed auto

lemma pipe_create_fresh_witness:
  "pipe_open 0 (snd (pipe_create fresh_table)) \<and> \<not> in_use (pipes (pipe_init fresh_table) ! 0)"
  using pipe_create_fresh [OF fresh_table_inv fresh_pipe(1)] by auto

text \<open>
  The results of \<open>pipe_read\<close> on a pipe in use: data as long as there is any, also after the
  write end was closed; then end of file when the write end is closed, and blocking otherwise.  A
  writer that blocks on a full pipe is not forgotten: the next read that takes a byte calls
  \<open>scheduler_wake_all\<close> on the queue it sleeps on, and the repeated write then makes progress.
\<close>

theorem pipe_read_results:
  assumes "pipe_open i t" and "0 < n" and "pipe_read t (int i) n = (r, bs, t')"
  shows "bs = take n (pipe_data i t) \<and>
    (r = Blocked \<longleftrightarrow> pipe_data i t = [] \<and> \<not> write_closed (pipes t ! i)) \<and>
    (r = Returned 0 \<longleftrightarrow> pipe_data i t = [] \<and> write_closed (pipes t ! i)) \<and>
    (pipe_data i t \<noteq> [] \<longrightarrow> r = Returned (int (length bs)) \<and> 0 < length bs) \<and>
    (fst (pipe_write t (int i) buf) = Blocked \<and> buf \<noteq> [] \<longrightarrow>
       wakes t' = wakes t @ [SpaceWait i] \<and>
       (\<exists>k > 0. fst (pipe_write t' (int i) buf) = Returned k))"
proof -
  have g: "pipe_get i t n = (bs, t')" using assms(3) by (simp add: pipe_get_def)
  note G = pipe_get_spec [OF assms(1) g]
  have empty: "pipe_data i t = [] \<longleftrightarrow> p_count (pipes t ! i) = 0"
    by (metis length_0_conv length_ring_contents pipe_contents_def pipe_data_def)
  note nb = pipe_not_bad [OF assms(1)]
  have wakeup: "wakes t' = wakes t @ [SpaceWait i] \<and> (\<exists>k > 0. fst (pipe_write t' (int i) buf) = Returned k)"
    if "fst (pipe_write t (int i) buf) = Blocked" "buf \<noteq> []"
  proof -
    have full: "length (pipe_data i t) = PIPE_BUFFER_SIZE"
      using that(1) nb assms(1) pipe_fifo.bounded [OF assms(1)]
      by (auto simp: pipe_write_def pipe_open_def pipe_data_def pipe_contents_def Let_def
          split: if_splits prod.splits)
    then have w: "wakes t' = wakes t @ [SpaceWait i]"
      using assms(3) nb empty
      by (auto simp: pipe_read_def Let_def PIPE_BUFFER_SIZE_def split: if_splits prod.splits)
    have "length (pipe_data i t') < PIPE_BUFFER_SIZE"
      using G full assms(2) by (simp add: PIPE_BUFFER_SIZE_def)
    then have sp: "p_count (pipes t' ! i) < PIPE_BUFFER_SIZE" by (simp add: pipe_data_def pipe_contents_def)
    obtain k p' where f: "pipe_fill (pipes t' ! i) buf = (k, p')" by fastforce
    have o': "pipe_open i t'" using G by blast
    have "k > 0" using pipe_fill_spec [OF _ f] o' that(2) sp by (simp add: pipe_open_def table_inv_nth)
    with pipe_write_fill [OF o' f] sp w show ?thesis by simp
  qed
  have r: "r = (if pipe_data i t \<noteq> [] then Returned (int (length bs))
      else if write_closed (pipes t ! i) then Returned 0 else Blocked)"
    using assms(3) nb unfolding empty
    by (auto simp: pipe_read_def Let_def split: if_splits prod.splits)
  have "length bs \<noteq> 0" if "pipe_data i t \<noteq> []" using that G assms(2) by simp
  with G wakeup show ?thesis unfolding r by (simp split: if_splits)
qed

lemma pipe_read_results_witness:
  "pipe_read (snd (pipe_create fresh_table)) (int 0) 5 = (Blocked, [], snd (pipe_create fresh_table))"
proof -
  let ?t = "snd (pipe_create fresh_table)"
  obtain r bs t' where e: "pipe_read ?t (int 0) 5 = (r, bs, t')" by (metis prod_cases3)
  have "t' = ?t"
    using fresh_pipe(3) e by (auto simp: pipe_read_def Let_def pipe_data_def pipe_contents_def
        ring_contents_def split: if_splits prod.splits)
  with pipe_read_results [OF fresh_pipe(2) _ e] e fresh_pipe(3,4) show ?thesis by auto
qed

end
