(* ===== verification/Wm_Policy.thy ===== *)
theory Wm_Policy
  imports Prelude
begin

text \<open>
  The damage and presentation policy of the window manager, \<open>include/wm/interaction_policy.h\<close>.
  Coordinates are C \<open>int\<close>s; the code computes with them in 64 bits, where nothing overflows, and
  clamps the results, so they are \<open>int\<close> with \<open>clamp_i64_to_i32\<close>.  An array of rectangles with its
  count is the list of its first \<open>count\<close> elements.
\<close>

section \<open>Rectangles\<close>

record DirtyRect =
  rx :: int
  ry :: int
  rw :: int
  rh :: int

definition INT32_MIN :: int where "INT32_MIN = -2147483648"
definition INT32_MAX :: int where "INT32_MAX = 2147483647"

definition clamp_i64_to_i32 :: "int \<Rightarrow> int" where
  "clamp_i64_to_i32 value =
     (if value < INT32_MIN then INT32_MIN else if value > INT32_MAX then INT32_MAX else value)"

definition rect_right_i64 :: "DirtyRect \<Rightarrow> int" where
  "rect_right_i64 rect = rx rect + rw rect"

definition rect_bottom_i64 :: "DirtyRect \<Rightarrow> int" where
  "rect_bottom_i64 rect = ry rect + rh rect"

definition rect_touch_or_overlap :: "DirtyRect \<Rightarrow> DirtyRect \<Rightarrow> bool" where
  "rect_touch_or_overlap a b =
     (if rw a \<le> 0 \<or> rh a \<le> 0 \<or> rw b \<le> 0 \<or> rh b \<le> 0 then False
      else \<not> (rect_right_i64 a < rx b \<or> rect_right_i64 b < rx a \<or>
              rect_bottom_i64 a < ry b \<or> rect_bottom_i64 b < ry a))"

definition mk_rect :: "int \<Rightarrow> int \<Rightarrow> int \<Rightarrow> int \<Rightarrow> DirtyRect" where
  "mk_rect x1 y1 x2 y2 =
     \<lparr>rx = clamp_i64_to_i32 x1, ry = clamp_i64_to_i32 y1,
      rw = clamp_i64_to_i32 (x2 - x1), rh = clamp_i64_to_i32 (y2 - y1)\<rparr>"

definition rect_union :: "DirtyRect \<Rightarrow> DirtyRect \<Rightarrow> DirtyRect" where
  "rect_union a b =
     (let x1 = (if rx a < rx b then rx a else rx b);
          y1 = (if ry a < ry b then ry a else ry b);
          x2 = (if rect_right_i64 a > rect_right_i64 b then rect_right_i64 a else rect_right_i64 b);
          y2 = (if rect_bottom_i64 a > rect_bottom_i64 b then rect_bottom_i64 a else rect_bottom_i64 b)
      in mk_rect x1 y1 x2 y2)"

definition clip_rect_to_screen :: "DirtyRect \<Rightarrow> int \<Rightarrow> int \<Rightarrow> DirtyRect option" where
  "clip_rect_to_screen rect screen_w screen_h =
     (if screen_w \<le> 0 \<or> screen_h \<le> 0 \<or> rw rect \<le> 0 \<or> rh rect \<le> 0 then None
      else
        let x1 = (if rx rect < 0 then 0 else rx rect);
            y1 = (if ry rect < 0 then 0 else ry rect);
            x2 = (if rect_right_i64 rect > screen_w then screen_w else rect_right_i64 rect);
            y2 = (if rect_bottom_i64 rect > screen_h then screen_h else rect_bottom_i64 rect)
        in if x2 \<le> x1 \<or> y2 \<le> y1 then None else Some (mk_rect x1 y1 x2 y2))"

section \<open>Merging\<close>

text \<open>\<open>rects[i] = rects[*count - 1]; (*count)--\<close>.\<close>

definition swap_remove :: "'a list \<Rightarrow> nat \<Rightarrow> 'a list" where
  "swap_remove xs i = butlast (xs[i := last xs])"

lemma length_swap_remove [simp]: "length (swap_remove xs i) = length xs - 1"
  by (simp add: swap_remove_def)

function clip_all :: "DirtyRect list \<Rightarrow> int \<Rightarrow> int \<Rightarrow> nat \<Rightarrow> DirtyRect list" where
  "clip_all rects sw sh i =
     (if i < length rects then
        (case clip_rect_to_screen (rects ! i) sw sh of
           None \<Rightarrow> clip_all (swap_remove rects i) sw sh i
         | Some r \<Rightarrow> clip_all (rects[i := r]) sw sh (i + 1))
      else rects)"
  by pat_completeness auto
termination
  by (relation "measure (\<lambda>(rects, sw, sh, i). length rects - i)") auto

text \<open>
  The merge loops, for the test of either pass: the loop over \<open>j\<close>, the loop over \<open>i\<close>, and the
  repetition while something was merged.  In the second pass the code keeps the area of
  \<open>rects[i]\<close> in \<open>area_i\<close>; it is recomputed here.
\<close>

type_synonym merge_test = "DirtyRect \<Rightarrow> DirtyRect \<Rightarrow> bool"

function merge_row :: "merge_test \<Rightarrow> DirtyRect list \<Rightarrow> nat \<Rightarrow> nat \<Rightarrow> bool \<Rightarrow> DirtyRect list \<times> bool" where
  "merge_row test rects i j merged =
     (if j < length rects then
        (if test (rects ! i) (rects ! j)
         then merge_row test
                (swap_remove (rects[i := rect_union (rects ! i) (rects ! j)]) j) i j True
         else merge_row test rects i (j + 1) merged)
      else (rects, merged))"
  by pat_completeness auto
termination
  by (relation "measure (\<lambda>(test, rects, i, j, merged). length rects - j)") auto

declare clip_all.simps [simp del] merge_row.simps [simp del]

lemma merge_row_length:
  "merge_row test rects i j m = (rects', m') \<Longrightarrow>
    length rects' \<le> length rects \<and> (m' \<longrightarrow> m \<or> length rects' < length rects)"
proof (induction test rects i j m rule: merge_row.induct)
  case (1 test rects i j m)
  show ?case
  proof (cases "j < length rects")
    case True
    then show ?thesis
      using "1.IH"(1) "1.IH"(2) "1.prems"
      by (cases "test (rects ! i) (rects ! j)") (fastforce simp: merge_row.simps [of test rects i j])+
  next
    case False
    with "1.prems" show ?thesis by (auto simp: merge_row.simps [of test rects i j])
  qed
qed

function merge_rows :: "merge_test \<Rightarrow> DirtyRect list \<Rightarrow> nat \<Rightarrow> bool \<Rightarrow> DirtyRect list \<times> bool" where
  "merge_rows test rects i merged =
     (if i < length rects then
        (case merge_row test rects i (i + 1) merged of
           (rects', merged') \<Rightarrow> merge_rows test rects' (i + 1) merged')
      else (rects, merged))"
  by pat_completeness auto
termination
  by (relation "measure (\<lambda>(test, rects, i, merged). length rects - i)")
    (auto dest!: merge_row_length [OF sym])

declare merge_rows.simps [simp del]

lemma merge_rows_length:
  "merge_rows test rects i m = (rects', m') \<Longrightarrow>
    length rects' \<le> length rects \<and> (m' \<longrightarrow> m \<or> length rects' < length rects)"
proof (induction test rects i m rule: merge_rows.induct)
  case (1 test rects i m)
  show ?case
  proof (cases "i < length rects")
    case True
    obtain r1 m1 where r: "merge_row test rects i (i + 1) m = (r1, m1)" by fastforce
    with True "1.prems" have "merge_rows test r1 (i + 1) m1 = (rects', m')"
      by (simp add: merge_rows.simps [of test rects i])
    from "1.IH" [OF True r [symmetric] this] merge_row_length [OF r] show ?thesis by auto
  next
    case False
    with "1.prems" show ?thesis by (auto simp: merge_rows.simps [of test rects i])
  qed
qed

function merge_all :: "merge_test \<Rightarrow> DirtyRect list \<Rightarrow> DirtyRect list" where
  "merge_all test rects =
     (case merge_rows test rects 0 False of
        (rects', merged) \<Rightarrow> if merged then merge_all test rects' else rects')"
  by pat_completeness auto
termination
  by (relation "measure (\<lambda>(test, rects). length rects)") (auto dest: merge_rows_length [OF sym])

declare merge_all.simps [simp del]

definition rect_area :: "DirtyRect \<Rightarrow> u64" where
  "rect_area r = of_int (rw r) * of_int (rh r)"

definition cheap_union :: merge_test where
  "cheap_union a b \<longleftrightarrow> rect_area (rect_union a b) * 2 < (rect_area a + rect_area b) * 3"

definition bounding :: "DirtyRect list \<Rightarrow> DirtyRect" where
  "bounding rects = foldl rect_union (hd rects) (tl rects)"

definition normalize_dirty_rects :: "DirtyRect list \<Rightarrow> int \<Rightarrow> int \<Rightarrow> bool \<Rightarrow> DirtyRect list" where
  "normalize_dirty_rects rects sw sh interactive =
     (if rects = [] then rects
      else
        let r1 = clip_all rects sw sh 0 in
        if length r1 \<le> 1 then r1
        else
          let r2 = merge_all rect_touch_or_overlap r1 in
          if length r2 \<le> 1 then r2
          else
            let r3 = merge_all cheap_union r2;
                collapse_limit = (if interactive then 24 else 16)
            in if length r3 > collapse_limit then [bounding r3] else r3)"

text \<open>The loop of \<open>enqueue_damage_rect\<close> that merges into the first rectangle that touches.\<close>

fun merge_into :: "DirtyRect list \<Rightarrow> DirtyRect \<Rightarrow> DirtyRect list option" where
  "merge_into [] incoming = None"
| "merge_into (r # rs) incoming =
     (if rect_touch_or_overlap r incoming then Some (rect_union r incoming # rs)
      else map_option ((#) r) (merge_into rs incoming))"

definition enqueue_damage_rect ::
  "DirtyRect list \<Rightarrow> nat \<Rightarrow> int \<Rightarrow> int \<Rightarrow> DirtyRect \<Rightarrow> DirtyRect list" where
  "enqueue_damage_rect rects max_rects sw sh incoming0 =
     (if max_rects = 0 then rects
      else case clip_rect_to_screen incoming0 sw sh of
        None \<Rightarrow> rects
      | Some incoming \<Rightarrow>
          if rx incoming = 0 \<and> ry incoming = 0 \<and> rw incoming = sw \<and> rh incoming = sh then [incoming]
          else case merge_into rects incoming of
            Some rects' \<Rightarrow> rects'
          | None \<Rightarrow>
              if length rects < max_rects then rects @ [incoming]
              else [rect_union (bounding rects) incoming])"

section \<open>Presentation\<close>

datatype PresentPolicyDecision = Submit | Wait | Skip

record PresentPolicyInput =
  pending :: u32
  queue_limit :: u32
  strict_sync :: bool
  interactive :: bool
  copy_path :: bool
  active_manipulation :: bool

definition choose_present_policy :: "PresentPolicyInput \<Rightarrow> PresentPolicyDecision" where
  "choose_present_policy input =
     (if pending input < queue_limit input then Submit
      else if \<not> strict_sync input \<and> interactive input \<and> active_manipulation input then Skip
      else Wait)"

definition pending_presents :: "u32 \<Rightarrow> u32 \<Rightarrow> u32" where
  "pending_presents last_submitted completed =
     (if last_submitted \<le> completed then 0 else last_submitted - completed)"

definition completion_target_for_available_slot :: "u32 \<Rightarrow> u32 \<Rightarrow> u32" where
  "completion_target_for_available_slot last_submitted limit =
     (if limit \<le> 1 then last_submitted
      else if last_submitted < limit then 0
      else last_submitted - limit + 1)"

section \<open>Exposed damage\<close>

definition rect_intersection :: "DirtyRect \<Rightarrow> DirtyRect \<Rightarrow> DirtyRect option" where
  "rect_intersection a b =
     (if rw a \<le> 0 \<or> rh a \<le> 0 \<or> rw b \<le> 0 \<or> rh b \<le> 0 then None
      else
        let x1 = (if rx a > rx b then rx a else rx b);
            y1 = (if ry a > ry b then ry a else ry b);
            x2 = (if rect_right_i64 a < rect_right_i64 b then rect_right_i64 a else rect_right_i64 b);
            y2 = (if rect_bottom_i64 a < rect_bottom_i64 b then rect_bottom_i64 a else rect_bottom_i64 b)
        in if x2 \<le> x1 \<or> y2 \<le> y1 then None else Some (mk_rect x1 y1 x2 y2))"

definition rect_contains :: "DirtyRect \<Rightarrow> DirtyRect \<Rightarrow> bool" where
  "rect_contains outer inner =
     (if rw outer \<le> 0 \<or> rh outer \<le> 0 \<or> rw inner \<le> 0 \<or> rh inner \<le> 0 then False
      else rx inner \<ge> rx outer \<and> ry inner \<ge> ry outer \<and>
           rect_right_i64 inner \<le> rect_right_i64 outer \<and>
           rect_bottom_i64 inner \<le> rect_bottom_i64 outer)"

definition compute_exposed_transition_damage :: "DirtyRect \<Rightarrow> DirtyRect \<Rightarrow> DirtyRect list" where
  "compute_exposed_transition_damage old_outer new_outer =
     (case rect_intersection old_outer new_outer of
        None \<Rightarrow> [old_outer]
      | Some overlap \<Rightarrow>
          if rect_contains overlap old_outer then []
          else
            (if ry old_outer < ry overlap
             then [\<lparr>rx = rx old_outer, ry = ry old_outer, rw = rw old_outer,
                    rh = ry overlap - ry old_outer\<rparr>] else []) @
            (if rect_bottom_i64 overlap < rect_bottom_i64 old_outer
             then [\<lparr>rx = rx old_outer, ry = clamp_i64_to_i32 (rect_bottom_i64 overlap),
                    rw = rw old_outer,
                    rh = clamp_i64_to_i32 (rect_bottom_i64 old_outer - rect_bottom_i64 overlap)\<rparr>]
             else []) @
            (if rx old_outer < rx overlap
             then [\<lparr>rx = rx old_outer, ry = ry overlap, rw = rx overlap - rx old_outer,
                    rh = rh overlap\<rparr>] else []) @
            (if rect_right_i64 overlap < rect_right_i64 old_outer
             then [\<lparr>rx = clamp_i64_to_i32 (rect_right_i64 overlap), ry = ry overlap,
                    rw = clamp_i64_to_i32 (rect_right_i64 old_outer - rect_right_i64 overlap),
                    rh = rh overlap\<rparr>] else []))"


section \<open>Points covered by rectangles\<close>

definition in_rect :: "DirtyRect \<Rightarrow> int \<times> int \<Rightarrow> bool" where
  "in_rect r p \<longleftrightarrow>
     rx r \<le> fst p \<and> fst p < rect_right_i64 r \<and> ry r \<le> snd p \<and> snd p < rect_bottom_i64 r"

definition on_screen :: "int \<Rightarrow> int \<Rightarrow> DirtyRect \<Rightarrow> bool" where
  "on_screen sw sh r \<longleftrightarrow>
     0 \<le> rx r \<and> 0 \<le> ry r \<and> 0 < rw r \<and> 0 < rh r \<and>
     rect_right_i64 r \<le> sw \<and> rect_bottom_i64 r \<le> sh"

definition screen_ok :: "int \<Rightarrow> int \<Rightarrow> bool" where
  "screen_ok sw sh \<longleftrightarrow> sw \<le> INT32_MAX \<and> sh \<le> INT32_MAX"

definition screen_pt :: "int \<Rightarrow> int \<Rightarrow> int \<times> int \<Rightarrow> bool" where
  "screen_pt sw sh p \<longleftrightarrow> 0 \<le> fst p \<and> fst p < sw \<and> 0 \<le> snd p \<and> snd p < sh"

definition covered :: "DirtyRect list \<Rightarrow> int \<times> int \<Rightarrow> bool" where
  "covered rects p \<longleftrightarrow> (\<exists>r \<in> set rects. in_rect r p)"

lemmas rect_defs = in_rect_def on_screen_def screen_ok_def rect_right_i64_def rect_bottom_i64_def
  INT32_MIN_def INT32_MAX_def

lemma clamp_id: "INT32_MIN \<le> v \<Longrightarrow> v \<le> INT32_MAX \<Longrightarrow> clamp_i64_to_i32 v = v"
  by (simp add: clamp_i64_to_i32_def)

lemma mk_rect_coords:
  assumes "INT32_MIN \<le> x1" "x1 \<le> INT32_MAX" "INT32_MIN \<le> y1" "y1 \<le> INT32_MAX"
    and "0 \<le> x2 - x1" "x2 - x1 \<le> INT32_MAX" "0 \<le> y2 - y1" "y2 - y1 \<le> INT32_MAX"
  shows "rx (mk_rect x1 y1 x2 y2) = x1" "ry (mk_rect x1 y1 x2 y2) = y1"
    "rw (mk_rect x1 y1 x2 y2) = x2 - x1" "rh (mk_rect x1 y1 x2 y2) = y2 - y1"
    "rect_right_i64 (mk_rect x1 y1 x2 y2) = x2" "rect_bottom_i64 (mk_rect x1 y1 x2 y2) = y2"
  using assms by (simp_all add: mk_rect_def clamp_i64_to_i32_def rect_defs)

lemma rect_union_minmax:
  "rect_union a b = mk_rect (min (rx a) (rx b)) (min (ry a) (ry b))
     (max (rect_right_i64 a) (rect_right_i64 b)) (max (rect_bottom_i64 a) (rect_bottom_i64 b))"
proof -
  have "(if x < y then x else y) = min x y" "(if x > y then x else y) = max x y" for x y :: int
    by auto
  then show ?thesis by (simp add: rect_union_def Let_def)
qed

lemma rect_union_coords:
  assumes "screen_ok sw sh" and "on_screen sw sh a" and "on_screen sw sh b"
  shows "rx (rect_union a b) = min (rx a) (rx b)" "ry (rect_union a b) = min (ry a) (ry b)"
    "rect_right_i64 (rect_union a b) = max (rect_right_i64 a) (rect_right_i64 b)"
    "rect_bottom_i64 (rect_union a b) = max (rect_bottom_i64 a) (rect_bottom_i64 b)"
  unfolding rect_union_minmax
  by (intro mk_rect_coords; insert assms; unfold rect_defs; linarith)+

lemma rect_union_screen:
  assumes "screen_ok sw sh" and "on_screen sw sh a" and "on_screen sw sh b"
  shows "on_screen sw sh (rect_union a b)"
    and "in_rect a p \<or> in_rect b p \<Longrightarrow> in_rect (rect_union a b) p"
proof -
  note c = rect_union_coords [OF assms]
  have "rw (rect_union a b) = max (rect_right_i64 a) (rect_right_i64 b) - min (rx a) (rx b)"
    "rh (rect_union a b) = max (rect_bottom_i64 a) (rect_bottom_i64 b) - min (ry a) (ry b)"
    unfolding c [symmetric] by (simp_all add: rect_right_i64_def rect_bottom_i64_def)
  moreover have "rw r = rect_right_i64 r - rx r" "rh r = rect_bottom_i64 r - ry r" for r
    by (simp_all add: rect_right_i64_def rect_bottom_i64_def)
  ultimately show "on_screen sw sh (rect_union a b)"
    using assms(2,3) unfolding on_screen_def c by (simp add: min_def max_def)
  show "in_rect a p \<or> in_rect b p \<Longrightarrow> in_rect (rect_union a b) p"
    unfolding in_rect_def c by auto
qed

lemma clip_rect_minmax:
  "clip_rect_to_screen r sw sh =
    (let x1 = max 0 (rx r); y1 = max 0 (ry r);
         x2 = min sw (rect_right_i64 r); y2 = min sh (rect_bottom_i64 r)
     in if 0 < sw \<and> 0 < sh \<and> 0 < rw r \<and> 0 < rh r \<and> x1 < x2 \<and> y1 < y2
        then Some (mk_rect x1 y1 x2 y2) else None)"
proof -
  have e: "(if x < 0 then 0 else x) = max 0 x" "(if x > y then y else x) = min y x" for x y :: int
    by auto
  have "(if sw \<le> 0 \<or> sh \<le> 0 \<or> rw r \<le> 0 \<or> rh r \<le> 0 then None
      else if x2 \<le> x1 \<or> y2 \<le> y1 then None else Some q) =
    (if 0 < sw \<and> 0 < sh \<and> 0 < rw r \<and> 0 < rh r \<and> x1 < x2 \<and> y1 < y2 then Some q else None)"
    for x1 x2 y1 y2 :: int and q :: DirtyRect by auto
  then show ?thesis unfolding clip_rect_to_screen_def Let_def e by blast
qed

lemma clip_rect_screen:
  assumes "screen_ok sw sh"
  shows "case clip_rect_to_screen r sw sh of
      None \<Rightarrow> \<not> (in_rect r p \<and> screen_pt sw sh p)
    | Some r' \<Rightarrow> on_screen sw sh r' \<and> in_rect r' p = (in_rect r p \<and> screen_pt sw sh p)"
proof -
  let ?x1 = "max 0 (rx r)" and ?y1 = "max 0 (ry r)"
    and ?x2 = "min sw (rect_right_i64 r)" and ?y2 = "min sh (rect_bottom_i64 r)"
  show ?thesis
  proof (cases "0 < sw \<and> 0 < sh \<and> 0 < rw r \<and> 0 < rh r \<and> ?x1 < ?x2 \<and> ?y1 < ?y2")
    case True
    let ?r = "mk_rect ?x1 ?y1 ?x2 ?y2"
    have c: "rx ?r = ?x1" "ry ?r = ?y1" "rw ?r = ?x2 - ?x1" "rh ?r = ?y2 - ?y1"
      "rect_right_i64 ?r = ?x2" "rect_bottom_i64 ?r = ?y2"
      by (rule mk_rect_coords; insert assms True; unfold screen_ok_def INT32_MIN_def INT32_MAX_def;
          linarith)+
    have "on_screen sw sh ?r" using True unfolding on_screen_def c by auto
    moreover have "in_rect ?r p = (in_rect r p \<and> screen_pt sw sh p)"
      unfolding in_rect_def screen_pt_def c by auto
    ultimately show ?thesis using True by (simp add: clip_rect_minmax Let_def)
  next
    case False
    then have "\<not> (in_rect r p \<and> screen_pt sw sh p)"
      unfolding in_rect_def screen_pt_def rect_right_i64_def rect_bottom_i64_def by auto
    with False show ?thesis by (auto simp: clip_rect_minmax Let_def)
  qed
qed

section \<open>The loops keep coverage\<close>

lemma nth_in_swap_remove:
  assumes "k < length xs" and "k \<noteq> i" and "i < length xs"
  shows "xs ! k \<in> set (swap_remove xs i)"
proof (cases "k = length xs - 1")
  case True
  then have "i < length xs - 1" using assms by linarith
  moreover have "last xs = xs ! k" using True assms by (cases xs rule: rev_cases) auto
  ultimately have "swap_remove xs i ! i = xs ! k" "i < length (swap_remove xs i)"
    using assms by (auto simp: swap_remove_def nth_butlast)
  then show ?thesis by (metis nth_mem)
next
  case False
  then have "swap_remove xs i ! k = xs ! k" "k < length (swap_remove xs i)"
    using assms by (auto simp: swap_remove_def nth_butlast)
  then show ?thesis by (metis nth_mem)
qed

lemma swap_remove_subset: "i < length xs \<Longrightarrow> set (swap_remove xs i) \<subseteq> set xs"
proof -
  assume i: "i < length xs"
  have "set (swap_remove xs i) \<subseteq> set (xs[i := last xs])"
    by (auto simp: swap_remove_def dest: in_set_butlastD)
  also have "\<dots> \<subseteq> insert (last xs) (set xs)" by (rule set_update_subset_insert)
  also have "\<dots> = set xs" using i by (cases xs rule: rev_cases) auto
  finally show ?thesis .
qed

definition keeps :: "int \<Rightarrow> int \<Rightarrow> DirtyRect list \<Rightarrow> DirtyRect list \<Rightarrow> bool" where
  "keeps sw sh xs ys \<longleftrightarrow>
     (\<forall>r \<in> set ys. on_screen sw sh r) \<and> (\<forall>p. covered xs p \<longrightarrow> covered ys p)"

lemma keeps_refl: "\<forall>r \<in> set xs. on_screen sw sh r \<Longrightarrow> keeps sw sh xs xs"
  by (simp add: keeps_def)

lemma keeps_trans: "keeps sw sh xs ys \<Longrightarrow> keeps sw sh ys zs \<Longrightarrow> keeps sw sh xs zs"
  by (simp add: keeps_def)

lemma keeps_screen: "keeps sw sh xs ys \<Longrightarrow> \<forall>r \<in> set ys. on_screen sw sh r"
  by (simp add: keeps_def)

lemma merge_step_keeps:
  assumes "screen_ok sw sh" and scr: "\<forall>r \<in> set xs. on_screen sw sh r"
    and "i < length xs" and "j < length xs" and "i \<noteq> j"
  defines "u \<equiv> rect_union (xs ! i) (xs ! j)"
  shows "keeps sw sh xs (swap_remove (xs[i := u]) j)"
proof -
  let ?ys = "xs[i := u]"
  have ou: "on_screen sw sh u"
    unfolding u_def using assms by (intro rect_union_screen(1)) auto
  have "\<forall>r \<in> set ?ys. on_screen sw sh r"
    using scr ou by (auto dest: set_update_subset_insert [THEN subsetD])
  then have 1: "\<forall>r \<in> set (swap_remove ?ys j). on_screen sw sh r"
    using swap_remove_subset [of j ?ys] assms(4) by auto
  have uin: "u \<in> set (swap_remove ?ys j)"
    using nth_in_swap_remove [of i ?ys j] assms(3-5) by simp
  have "covered (swap_remove ?ys j) p" if cov: "covered xs p" for p
  proof -
    obtain k where k: "k < length xs" "in_rect (xs ! k) p"
      using cov by (auto simp: covered_def in_set_conv_nth)
    show ?thesis
    proof (cases "k = i \<or> k = j")
      case True
      then have "in_rect u p"
        unfolding u_def using k assms scr by (intro rect_union_screen(2)) auto
      with uin show ?thesis by (auto simp: covered_def)
    next
      case False
      then have "xs ! k \<in> set (swap_remove ?ys j)"
        using nth_in_swap_remove [of k ?ys j] k(1) assms(4) by simp
      with k(2) show ?thesis by (auto simp: covered_def)
    qed
  qed
  with 1 show ?thesis by (simp add: keeps_def)
qed

lemma merge_row_keeps:
  "merge_row test xs i j m = (ys, m') \<Longrightarrow> screen_ok sw sh \<Longrightarrow> \<forall>r \<in> set xs. on_screen sw sh r \<Longrightarrow>
    i < j \<Longrightarrow> keeps sw sh xs ys"
proof (induction test xs i j m rule: merge_row.induct)
  case (1 test xs i j m)
  show ?case
  proof (cases "j < length xs \<and> test (xs ! i) (xs ! j)")
    case True
    let ?zs = "swap_remove (xs[i := rect_union (xs ! i) (xs ! j)]) j"
    have k: "keeps sw sh xs ?zs"
      using True "1.prems" by (intro merge_step_keeps) auto
    have "merge_row test ?zs i j True = (ys, m')"
      using True "1.prems"(1) by (simp add: merge_row.simps [of test xs i j])
    then have "keeps sw sh ?zs ys"
      using True "1.prems"(2,4) keeps_screen [OF k] by (intro "1.IH"(1)) auto
    with k show ?thesis by (rule keeps_trans)
  next
    case False
    show ?thesis
    proof (cases "j < length xs")
      case True
      with False "1.prems" show ?thesis
        by (intro "1.IH"(2)) (auto simp: merge_row.simps [of test xs i j])
    next
      case False
      with "1.prems" show ?thesis
        by (auto simp: merge_row.simps [of test xs i j] intro: keeps_refl)
    qed
  qed
qed

lemma merge_rows_keeps:
  "merge_rows test xs i m = (ys, m') \<Longrightarrow> screen_ok sw sh \<Longrightarrow> \<forall>r \<in> set xs. on_screen sw sh r \<Longrightarrow>
    keeps sw sh xs ys"
proof (induction test xs i m rule: merge_rows.induct)
  case (1 test xs i m)
  show ?case
  proof (cases "i < length xs")
    case True
    obtain zs m1 where r: "merge_row test xs i (i + 1) m = (zs, m1)" by fastforce
    have k: "keeps sw sh xs zs"
      by (rule merge_row_keeps [OF r "1.prems"(2,3)]) simp
    have "merge_rows test zs (i + 1) m1 = (ys, m')"
      using True r "1.prems"(1) by (simp add: merge_rows.simps [of test xs i])
    from "1.IH" [OF True r [symmetric] this "1.prems"(2) keeps_screen [OF k]] k
    show ?thesis by (blast intro: keeps_trans)
  next
    case False
    with "1.prems" show ?thesis
      by (auto simp: merge_rows.simps [of test xs i] intro: keeps_refl)
  qed
qed

lemma merge_all_keeps:
  "screen_ok sw sh \<Longrightarrow> \<forall>r \<in> set xs. on_screen sw sh r \<Longrightarrow> keeps sw sh xs (merge_all test xs)"
proof (induction test xs rule: merge_all.induct)
  case (1 test xs)
  obtain zs m where r: "merge_rows test xs 0 False = (zs, m)" by fastforce
  have k: "keeps sw sh xs zs" by (rule merge_rows_keeps [OF r "1.prems"])
  show ?case
  proof (cases m)
    case True
    with "1.IH" [OF r [symmetric] True "1.prems"(1) keeps_screen [OF k]] r k show ?thesis
      by (simp add: merge_all.simps [of test xs]) (blast intro: keeps_trans)
  next
    case False
    with r k show ?thesis by (simp add: merge_all.simps [of test xs])
  qed
qed


lemma covered_swap_remove:
  assumes "i < length xs" and "\<not> in_rect (xs ! i) p"
  shows "covered (swap_remove xs i) p = covered xs p"
proof
  assume "covered (swap_remove xs i) p"
  then show "covered xs p" using swap_remove_subset [OF assms(1)] by (auto simp: covered_def)
next
  assume "covered xs p"
  then obtain k where k: "k < length xs" "in_rect (xs ! k) p"
    by (auto simp: covered_def in_set_conv_nth)
  with assms(2) have "k \<noteq> i" by auto
  from nth_in_swap_remove [OF k(1) this assms(1)] k(2) show "covered (swap_remove xs i) p"
    by (auto simp: covered_def)
qed

lemma covered_update:
  assumes "i < length xs" and "in_rect r p = in_rect (xs ! i) p"
  shows "covered (xs[i := r]) p = covered xs p"
proof -
  have "(\<exists>k < length xs. in_rect (xs[i := r] ! k) p) = (\<exists>k < length xs. in_rect (xs ! k) p)"
    using assms by (metis nth_list_update)
  then show ?thesis unfolding covered_def by (simp add: set_conv_nth) metis
qed

lemma clip_all_screen:
  "screen_ok sw sh \<Longrightarrow> \<forall>k < i. k < length xs \<longrightarrow> on_screen sw sh (xs ! k) \<Longrightarrow>
    (\<forall>r \<in> set (clip_all xs sw sh i). on_screen sw sh r) \<and>
    length (clip_all xs sw sh i) \<le> length xs \<and>
    (\<forall>p. screen_pt sw sh p \<longrightarrow> covered (clip_all xs sw sh i) p = covered xs p)"
proof (induction xs sw sh i rule: clip_all.induct)
  case (1 xs sw sh i)
  show ?case
  proof (cases "i < length xs")
    case True
    show ?thesis
    proof (cases "clip_rect_to_screen (xs ! i) sw sh")
      case None
      have "\<forall>k < i. k < length (swap_remove xs i) \<longrightarrow> on_screen sw sh (swap_remove xs i ! k)"
        using "1.prems"(2) True by (auto simp: swap_remove_def nth_butlast)
      note IH = "1.IH"(1) [OF True None "1.prems"(1) this]
      have "covered (swap_remove xs i) p = covered xs p" if "screen_pt sw sh p" for p
        using clip_rect_screen [OF "1.prems"(1), of "xs ! i" p] None that True
        by (intro covered_swap_remove) auto
      with IH True None show ?thesis by (auto simp: clip_all.simps [of xs])
    next
      case (Some r)
      have "on_screen sw sh r" using clip_rect_screen [OF "1.prems"(1), of "xs ! i"] Some by simp
      then have "\<forall>k < i + 1. k < length (xs[i := r]) \<longrightarrow> on_screen sw sh (xs[i := r] ! k)"
        using "1.prems"(2) True by (auto simp: nth_list_update less_Suc_eq)
      note IH = "1.IH"(2) [OF True Some "1.prems"(1) this]
      have "covered (xs[i := r]) p = covered xs p" if "screen_pt sw sh p" for p
        using clip_rect_screen [OF "1.prems"(1), of "xs ! i" p] Some that True
        by (intro covered_update) auto
      with IH True Some show ?thesis by (auto simp: clip_all.simps [of xs])
    qed
  next
    case False
    then show ?thesis
      using "1.prems"(2) by (auto simp: clip_all.simps [of xs] in_set_conv_nth)
  qed
qed

lemma foldl_union_keeps:
  "screen_ok sw sh \<Longrightarrow> on_screen sw sh b \<Longrightarrow> \<forall>r \<in> set xs. on_screen sw sh r \<Longrightarrow>
    on_screen sw sh (foldl rect_union b xs) \<and>
    (in_rect b p \<or> covered xs p \<longrightarrow> in_rect (foldl rect_union b xs) p)"
proof (induction xs arbitrary: b)
  case (Cons r xs)
  have u: "on_screen sw sh (rect_union b r)" using Cons.prems by (intro rect_union_screen) auto
  have "in_rect (rect_union b r) p" if "in_rect b p \<or> in_rect r p"
    using Cons.prems that by (intro rect_union_screen(2)) auto
  with Cons.IH [OF Cons.prems(1) u] Cons.prems(3) show ?case by (auto simp: covered_def)
qed (simp add: covered_def)

lemma bounding_keeps:
  assumes "screen_ok sw sh" and "xs \<noteq> []" and "\<forall>r \<in> set xs. on_screen sw sh r"
  shows "keeps sw sh xs [bounding xs]"
  using assms foldl_union_keeps [of sw sh "hd xs" "tl xs"]
  by (cases xs) (auto simp: keeps_def bounding_def covered_def)

section \<open>Merging reaches a fixed point\<close>

lemma merge_row_no_merge:
  "merge_row test xs i j m = (ys, False) \<Longrightarrow>
    ys = xs \<and> \<not> m \<and> (\<forall>k. j \<le> k \<and> k < length xs \<longrightarrow> \<not> test (xs ! i) (xs ! k))"
proof (induction test xs i j m rule: merge_row.induct)
  case (1 test xs i j m)
  show ?case
  proof (cases "j < length xs")
    case True
    show ?thesis
    proof (cases "test (xs ! i) (xs ! j)")
      case t: True
      let ?zs = "swap_remove (xs[i := rect_union (xs ! i) (xs ! j)]) j"
      have "merge_row test ?zs i j True = (ys, False)"
        using "1.prems" True t by (simp add: merge_row.simps [of test xs i j])
      from "1.IH"(1) [OF True t this] show ?thesis by simp
    next
      case f: False
      have "merge_row test xs i (j + 1) m = (ys, False)"
        using "1.prems" True f by (simp add: merge_row.simps [of test xs i j])
      from "1.IH"(2) [OF True f this] f show ?thesis
        by (metis Suc_eq_plus1 le_antisym not_less_eq_eq)
    qed
  next
    case False
    with "1.prems" show ?thesis by (auto simp: merge_row.simps [of test xs i j])
  qed
qed

lemma merge_rows_no_merge:
  "merge_rows test xs i m = (ys, False) \<Longrightarrow>
    ys = xs \<and> \<not> m \<and> (\<forall>a b. i \<le> a \<and> a < b \<and> b < length xs \<longrightarrow> \<not> test (xs ! a) (xs ! b))"
proof (induction test xs i m rule: merge_rows.induct)
  case (1 test xs i m)
  show ?case
  proof (cases "i < length xs")
    case True
    obtain zs m1 where r: "merge_row test xs i (i + 1) m = (zs, m1)" by fastforce
    have "merge_rows test zs (i + 1) m1 = (ys, False)"
      using True r "1.prems" by (simp add: merge_rows.simps [of test xs i])
    note IH = "1.IH" [OF True r [symmetric] this]
    with r have "merge_row test xs i (i + 1) m = (zs, False)" by simp
    note R = merge_row_no_merge [OF this]
    have "\<not> test (xs ! a) (xs ! b)" if "i \<le> a" "a < b" "b < length xs" for a b
    proof (cases "a = i")
      case True
      with R that show ?thesis by auto
    next
      case False
      with IH R that show ?thesis by auto
    qed
    with IH R show ?thesis by auto
  next
    case False
    with "1.prems" show ?thesis by (auto simp: merge_rows.simps [of test xs i])
  qed
qed

lemma merge_all_fixed:
  "a < b \<Longrightarrow> b < length (merge_all test xs) \<Longrightarrow> \<not> test (merge_all test xs ! a) (merge_all test xs ! b)"
proof (induction test xs rule: merge_all.induct)
  case (1 test xs)
  obtain zs m where r: "merge_rows test xs 0 False = (zs, m)" by fastforce
  show ?case
  proof (cases m)
    case True
    with "1.IH" [OF r [symmetric] True] "1.prems" r show ?thesis
      by (simp add: merge_all.simps [of test xs])
  next
    case False
    with r merge_rows_no_merge [of test xs 0 False zs] "1.prems" show ?thesis
      by (simp add: merge_all.simps [of test xs])
  qed
qed


section \<open>Properties\<close>

definition rect_i32 :: "DirtyRect \<Rightarrow> bool" where
  "rect_i32 r \<longleftrightarrow>
     INT32_MIN \<le> rx r \<and> INT32_MIN \<le> ry r \<and> rw r \<le> INT32_MAX \<and> rh r \<le> INT32_MAX \<and>
     rect_right_i64 r \<le> INT32_MAX \<and> rect_bottom_i64 r \<le> INT32_MAX"

lemma rect_intersection_minmax:
  "rect_intersection a b =
    (let x1 = max (rx a) (rx b); y1 = max (ry a) (ry b);
         x2 = min (rect_right_i64 a) (rect_right_i64 b); y2 = min (rect_bottom_i64 a) (rect_bottom_i64 b)
     in if 0 < rw a \<and> 0 < rh a \<and> 0 < rw b \<and> 0 < rh b \<and> x1 < x2 \<and> y1 < y2
        then Some (mk_rect x1 y1 x2 y2) else None)"
proof -
  have e: "(if x > y then x else y) = max x y" "(if x < y then x else y) = min x y" for x y :: int
    by auto
  have "(if rw a \<le> 0 \<or> rh a \<le> 0 \<or> rw b \<le> 0 \<or> rh b \<le> 0 then None
      else if x2 \<le> x1 \<or> y2 \<le> y1 then None else Some q) =
    (if 0 < rw a \<and> 0 < rh a \<and> 0 < rw b \<and> 0 < rh b \<and> x1 < x2 \<and> y1 < y2 then Some q else None)"
    for x1 x2 y1 y2 :: int and q :: DirtyRect by auto
  then show ?thesis unfolding rect_intersection_def Let_def e by blast
qed

lemma rect_intersection_coords:
  assumes "rect_i32 a" and "rect_i32 b" and "rect_intersection a b = Some r"
  shows "rx r = max (rx a) (rx b)" "ry r = max (ry a) (ry b)"
    "rect_right_i64 r = min (rect_right_i64 a) (rect_right_i64 b)"
    "rect_bottom_i64 r = min (rect_bottom_i64 a) (rect_bottom_i64 b)"
    "rx r < rect_right_i64 r" "ry r < rect_bottom_i64 r" "0 < rw a" "0 < rh a" "0 < rw b" "0 < rh b"
proof -
  let ?x1 = "max (rx a) (rx b)" and ?y1 = "max (ry a) (ry b)"
    and ?x2 = "min (rect_right_i64 a) (rect_right_i64 b)" and ?y2 = "min (rect_bottom_i64 a) (rect_bottom_i64 b)"
  have g: "0 < rw a" "0 < rh a" "0 < rw b" "0 < rh b" "?x1 < ?x2" "?y1 < ?y2" "r = mk_rect ?x1 ?y1 ?x2 ?y2"
    using assms(3) by (simp_all add: rect_intersection_minmax Let_def split: if_splits)
  have c: "rx r = ?x1 \<and> ry r = ?y1 \<and> rect_right_i64 r = ?x2 \<and> rect_bottom_i64 r = ?y2"
    unfolding g(7)
    by (intro conjI mk_rect_coords; insert assms(1,2) g(1-6);
        unfold rect_i32_def rect_right_i64_def rect_bottom_i64_def; linarith)
  then show "rx r = ?x1" "ry r = ?y1" "rect_right_i64 r = ?x2" "rect_bottom_i64 r = ?y2"
    "rx r < rect_right_i64 r" "ry r < rect_bottom_i64 r" using g(5,6) by simp_all
qed (use assms(3) in \<open>simp_all add: rect_intersection_minmax Let_def split: if_splits\<close>)

text \<open>
  C27.  \<open>normalize_dirty_rects\<close> loses no damage: every point of the screen that a rectangle of the
  input covers is covered by a rectangle of the result.  All rectangles of the result lie on the
  screen, there are at most 24 of them (16 when not interactive), and no two of them could still be
  merged at less than 1.5 times their area.  Its merge loops terminate.
\<close>

theorem normalize_dirty_rects_correct:
  fixes xs :: "DirtyRect list" and ia :: bool
  assumes "screen_ok sw sh"
  defines "ys \<equiv> normalize_dirty_rects xs sw sh ia"
  shows "(\<forall>r \<in> set ys. on_screen sw sh r) \<and>
    (\<forall>p. screen_pt sw sh p \<and> covered xs p \<longrightarrow> covered ys p) \<and>
    length ys \<le> (if ia then 24 else 16) \<and>
    (\<forall>a b. a < b \<and> b < length ys \<longrightarrow> \<not> cheap_union (ys ! a) (ys ! b))"
proof (cases "xs = []")
  case True
  then show ?thesis by (simp add: ys_def normalize_dirty_rects_def covered_def)
next
  case False
  define r1 where "r1 = clip_all xs sw sh 0"
  define r2 where "r2 = merge_all rect_touch_or_overlap r1"
  define r3 where "r3 = merge_all cheap_union r2"
  have c1: "\<forall>r \<in> set r1. on_screen sw sh r" "\<And>p. screen_pt sw sh p \<Longrightarrow> covered xs p \<Longrightarrow> covered r1 p"
    using clip_all_screen [OF assms(1), of 0 xs] by (auto simp: r1_def)
  have k2: "keeps sw sh r1 r2" unfolding r2_def by (rule merge_all_keeps [OF assms(1) c1(1)])
  have k3: "keeps sw sh r2 r3" unfolding r3_def by (rule merge_all_keeps [OF assms(1) keeps_screen [OF k2]])
  have one: ?thesis if "keeps sw sh r1 ys" "length ys \<le> 1"
    using that c1(2) by (auto simp: keeps_def)
  have ys: "ys = (if length r1 \<le> 1 then r1 else if length r2 \<le> 1 then r2
      else if length r3 > (if ia then 24 else 16) then [bounding r3] else r3)"
    using False by (simp add: ys_def normalize_dirty_rects_def Let_def r1_def r2_def r3_def)
  consider "length r1 \<le> 1" "ys = r1" | "length r2 \<le> 1" "ys = r2"
    | "length r3 > (if ia then 24 else 16)" "ys = [bounding r3]"
    | "length r3 \<le> (if ia then 24 else 16)" "ys = r3"
    using ys by (metis (full_types) not_le)
  then show ?thesis
  proof cases
    case 1
    then show ?thesis using keeps_refl [OF c1(1)] by (intro one) auto
  next
    case 2
    then show ?thesis using k2 by (intro one) auto
  next
    case 3
    then have "r3 \<noteq> []" by auto
    from bounding_keeps [OF assms(1) this keeps_screen [OF k3]] k2 k3 3 show ?thesis
      by (intro one) (auto intro: keeps_trans)
  next
    case 4
    have "keeps sw sh r1 ys" using k2 k3 4 by (auto intro: keeps_trans)
    moreover have "\<forall>a b. a < b \<and> b < length ys \<longrightarrow> \<not> cheap_union (ys ! a) (ys ! b)"
      unfolding 4(2) r3_def by (simp add: merge_all_fixed)
    ultimately show ?thesis using c1(2) 4 by (auto simp: keeps_def)
  qed
qed

lemma normalize_dirty_rects_correct_witness:
  "length (normalize_dirty_rects [\<lparr>rx = -5, ry = 0, rw = 15, rh = 10\<rparr>, \<lparr>rx = 900, ry = 0, rw = 5, rh = 5\<rparr>,
     \<lparr>rx = 10, ry = 2, rw = 4, rh = 4\<rparr>, \<lparr>rx = 100, ry = 90, rw = 4, rh = 4\<rparr>] 800 600 True) = 2 \<and>
   covered (normalize_dirty_rects [\<lparr>rx = -5, ry = 0, rw = 15, rh = 10\<rparr>, \<lparr>rx = 900, ry = 0, rw = 5, rh = 5\<rparr>,
     \<lparr>rx = 10, ry = 2, rw = 4, rh = 4\<rparr>, \<lparr>rx = 100, ry = 90, rw = 4, rh = 4\<rparr>] 800 600 True) (13, 5)"
proof -
  let ?xs = "[\<lparr>rx = -5, ry = 0, rw = 15, rh = 10\<rparr>, \<lparr>rx = 900, ry = 0, rw = 5, rh = 5\<rparr>,
     \<lparr>rx = 10, ry = 2, rw = 4, rh = 4\<rparr>, \<lparr>rx = 100, ry = 90, rw = 4, rh = 4\<rparr>] :: DirtyRect list"
  have v: "length (normalize_dirty_rects ?xs 800 600 True) = 2" "covered ?xs (13, 5)" by code_simp+
  have s: "screen_ok 800 600" by (simp add: rect_defs)
  show ?thesis
    using normalize_dirty_rects_correct [OF s, of ?xs True] v by (auto simp: screen_pt_def)
qed

lemma merge_into_keeps:
  "merge_into xs inc = Some ys \<Longrightarrow> screen_ok sw sh \<Longrightarrow> \<forall>r \<in> set (inc # xs). on_screen sw sh r \<Longrightarrow>
    keeps sw sh (inc # xs) ys \<and> length ys = length xs"
proof (induction xs arbitrary: ys)
  case (Cons r xs)
  show ?case
  proof (cases "rect_touch_or_overlap r inc")
    case True
    then have ys: "ys = rect_union r inc # xs" using Cons.prems(1) by simp
    have "on_screen sw sh (rect_union r inc)" using Cons.prems by (intro rect_union_screen(1)) auto
    moreover have "in_rect (rect_union r inc) p" if "in_rect r p \<or> in_rect inc p" for p
      using Cons.prems that by (intro rect_union_screen(2)) auto
    ultimately show ?thesis using Cons.prems by (auto simp: ys keeps_def covered_def)
  next
    case False
    then obtain zs where zs: "merge_into xs inc = Some zs" "ys = r # zs"
      using Cons.prems(1) by auto
    from Cons.IH [OF zs(1) Cons.prems(2)] Cons.prems(3) show ?thesis
      by (auto simp: zs(2) keeps_def covered_def)
  qed
qed simp

text \<open>
  \<open>enqueue_damage_rect\<close> on a queue of rectangles on the screen keeps them on the screen and
  within the capacity, and keeps every point that the queue covered and every point of the screen
  that the new rectangle covers, also when the queue overflows into its bounding rectangle.
\<close>

theorem enqueue_damage_rect_correct:
  assumes "screen_ok sw sh" and "\<forall>r \<in> set xs. on_screen sw sh r" and "length xs \<le> cap" and "0 < cap"
  shows "(\<forall>r \<in> set (enqueue_damage_rect xs cap sw sh inc). on_screen sw sh r) \<and>
    length (enqueue_damage_rect xs cap sw sh inc) \<le> cap \<and>
    (\<forall>p. covered xs p \<or> screen_pt sw sh p \<and> in_rect inc p \<longrightarrow>
       covered (enqueue_damage_rect xs cap sw sh inc) p)"
proof (cases "clip_rect_to_screen inc sw sh")
  case None
  with assms clip_rect_screen [OF assms(1), of inc] show ?thesis
    by (auto simp: enqueue_damage_rect_def)
next
  case (Some r)
  let ?ys = "enqueue_damage_rect xs cap sw sh inc"
  have r: "on_screen sw sh r" "\<And>p. in_rect r p = (in_rect inc p \<and> screen_pt sw sh p)"
    using clip_rect_screen [OF assms(1), of inc] Some by simp_all
  have scr: "\<forall>q \<in> set (r # xs). on_screen sw sh q" using r(1) assms(2) by simp
  have "keeps sw sh (r # xs) ?ys \<and> length ?ys \<le> cap"
  proof (cases "rx r = 0 \<and> ry r = 0 \<and> rw r = sw \<and> rh r = sh")
    case full: True
    then have ys: "?ys = [r]" using Some assms(4) by (simp add: enqueue_damage_rect_def)
    have "in_rect r p" if "covered xs p" for p
      using that assms(2) full by (fastforce simp: covered_def in_rect_def on_screen_def
          rect_right_i64_def rect_bottom_i64_def)
    with ys r(1) assms(4) show ?thesis by (auto simp: keeps_def covered_def)
  next
    case part: False
    show ?thesis
    proof (cases "merge_into xs r")
      case None
      have b: "keeps sw sh (r # xs) [rect_union (bounding xs) r]" if "xs \<noteq> []"
      proof -
        note k = bounding_keeps [OF assms(1) that assms(2)]
        have o: "on_screen sw sh (bounding xs)" using keeps_screen [OF k] by simp
        note u = rect_union_screen [OF assms(1) o r(1)]
        show ?thesis using u k by (auto simp: keeps_def covered_def)
      qed
      have "?ys = (if length xs < cap then xs @ [r] else [rect_union (bounding xs) r])"
        using Some None assms(4) by (simp add: enqueue_damage_rect_def if_not_P [OF part])
      then show ?thesis using b assms scr by (auto simp: keeps_def covered_def)
    next
      case m: (Some zs)
      have "?ys = zs" using Some m assms(4) by (simp add: enqueue_damage_rect_def if_not_P [OF part])
      with merge_into_keeps [OF m assms(1) scr] assms(3) show ?thesis by simp
    qed
  qed
  with r(2) show ?thesis by (auto simp: keeps_def covered_def)
qed

lemma enqueue_damage_rect_correct_witness:
  "covered (enqueue_damage_rect [\<lparr>rx = 0, ry = 0, rw = 4, rh = 4\<rparr>, \<lparr>rx = 50, ry = 50, rw = 4, rh = 4\<rparr>]
     2 800 600 \<lparr>rx = 790, ry = 590, rw = 50, rh = 50\<rparr>) (799, 599)"
proof -
  let ?xs = "[\<lparr>rx = 0, ry = 0, rw = 4, rh = 4\<rparr>, \<lparr>rx = 50, ry = 50, rw = 4, rh = 4\<rparr>] :: DirtyRect list"
  let ?inc = "\<lparr>rx = 790, ry = 590, rw = 50, rh = 50\<rparr> :: DirtyRect"
  have a: "screen_ok 800 600" "\<forall>r \<in> set ?xs. on_screen 800 600 r" "length ?xs \<le> 2" "0 < (2 :: nat)"
    by (simp_all add: rect_defs)
  have p: "screen_pt 800 600 (799, 599)" "in_rect ?inc (799, 599)"
    by (simp_all add: screen_pt_def rect_defs)
  show ?thesis using enqueue_damage_rect_correct [OF a, of ?inc] p by blast
qed

text \<open>
  The strips above, below, left and right of the overlap, as \<open>compute_exposed_transition_damage\<close> has them.
\<close>

definition strips :: "DirtyRect \<Rightarrow> DirtyRect \<Rightarrow> int \<times> int \<Rightarrow> bool list" where
  "strips old ov p =
     [ry old < ry ov \<and> rx old \<le> fst p \<and> fst p < rect_right_i64 old \<and> ry old \<le> snd p \<and> snd p < ry ov,
      rect_bottom_i64 ov < rect_bottom_i64 old \<and> rx old \<le> fst p \<and> fst p < rect_right_i64 old \<and>
        rect_bottom_i64 ov \<le> snd p \<and> snd p < rect_bottom_i64 old,
      rx old < rx ov \<and> rx old \<le> fst p \<and> fst p < rx ov \<and> ry ov \<le> snd p \<and> snd p < rect_bottom_i64 ov,
      rect_right_i64 ov < rect_right_i64 old \<and> rect_right_i64 ov \<le> fst p \<and> fst p < rect_right_i64 old \<and>
        ry ov \<le> snd p \<and> snd p < rect_bottom_i64 ov]"

lemma exposed_strips:
  assumes "rect_i32 old" "rect_i32 new" and Some: "rect_intersection old new = Some ov" and part: "\<not> rect_contains ov old"
  shows "length (filter (\<lambda>r. in_rect r p) (compute_exposed_transition_damage old new)) = length (filter id (strips old ov p))"
proof -
  note O = rect_intersection_coords [OF assms(1,2) Some]
  have cl: "clamp_i64_to_i32 (rect_bottom_i64 ov) = rect_bottom_i64 ov"
    "clamp_i64_to_i32 (rect_right_i64 ov) = rect_right_i64 ov"
    "rect_bottom_i64 ov < rect_bottom_i64 old \<Longrightarrow>
      clamp_i64_to_i32 (rect_bottom_i64 old - rect_bottom_i64 ov) = rect_bottom_i64 old - rect_bottom_i64 ov"
    "rect_right_i64 ov < rect_right_i64 old \<Longrightarrow>
      clamp_i64_to_i32 (rect_right_i64 old - rect_right_i64 ov) = rect_right_i64 old - rect_right_i64 ov"
    by (intro clamp_id; insert assms O;
        unfold rect_i32_def rect_right_i64_def rect_bottom_i64_def INT32_MIN_def INT32_MAX_def; linarith)+
  have one: "length (filter (\<lambda>r. in_rect r p) (if c then [r] else [])) = (if c \<and> in_rect r p then 1 else 0)" for c r
    by simp
  have cons: "length (filter id (c # cs)) = (if c then 1 else 0) + length (filter id cs)" for c cs by simp
  show ?thesis
    unfolding compute_exposed_transition_damage_def Some option.case if_not_P [OF part] filter_append length_append one strips_def cons
    using cl by (simp add: in_rect_def rect_right_i64_def rect_bottom_i64_def cong: conj_cong if_cong)
qed

text \<open>
  C30.  When a window moves from one place to another, \<open>compute_exposed_transition_damage\<close> returns at
  most four rectangles, no two of which overlap, that cover exactly the points of the old place that the new
  place does not cover, for rectangles whose edges fit into 32 bits: at every point the number of
  rectangles that contain it is one if it is exposed, and zero if it is not.
\<close>

theorem exposed_damage_exact:
  assumes "rect_i32 old" and "rect_i32 new"
  shows "length (compute_exposed_transition_damage old new) \<le> 4 \<and>
    (covered (compute_exposed_transition_damage old new) p \<longleftrightarrow> in_rect old p \<and> \<not> in_rect new p) \<and>
    length (filter (\<lambda>r. in_rect r p) (compute_exposed_transition_damage old new)) =
      (if in_rect old p \<and> \<not> in_rect new p then 1 else 0)"
proof -
  let ?xs = "compute_exposed_transition_damage old new"
  have "length ?xs \<le> 4 \<and> length (filter (\<lambda>r. in_rect r p) ?xs) = (if in_rect old p \<and> \<not> in_rect new p then 1 else 0)"
  proof (cases "rect_intersection old new")
    case None
    then have "\<not> (in_rect old p \<and> in_rect new p)"
      by (auto simp: rect_intersection_minmax Let_def in_rect_def rect_right_i64_def rect_bottom_i64_def
          split: if_splits)
    with None show ?thesis by (auto simp: compute_exposed_transition_damage_def)
  next
    case (Some ov)
    note O = rect_intersection_coords [OF assms Some]
    have inov: "in_rect ov p \<longleftrightarrow> in_rect old p \<and> in_rect new p"
      unfolding in_rect_def O by auto
    show ?thesis
    proof (cases "rect_contains ov old")
      case True
      then have "in_rect old p \<longrightarrow> in_rect ov p"
        by (auto simp: rect_contains_def in_rect_def split: if_splits)
      with Some True inov show ?thesis by (auto simp: compute_exposed_transition_damage_def)
    next
      case False
      have "rx old \<le> rx ov" "ry old \<le> ry ov" "rect_right_i64 ov \<le> rect_right_i64 old"
        "rect_bottom_i64 ov \<le> rect_bottom_i64 old" unfolding O by simp_all
      then have "length (filter id (strips old ov p)) = (if in_rect old p \<and> \<not> in_rect ov p then 1 else 0)"
        using O(5,6) unfolding in_rect_def strips_def by auto
      moreover have "length ?xs \<le> 4" using Some False by (simp add: compute_exposed_transition_damage_def)
      ultimately show ?thesis using inov exposed_strips [OF assms Some False] by auto
    qed
  qed
  moreover have "covered ?xs p \<longleftrightarrow> length (filter (\<lambda>r. in_rect r p) ?xs) \<noteq> 0"
    by (auto simp: covered_def filter_empty_conv)
  ultimately show ?thesis by simp
qed

lemma exposed_damage_exact_witness:
  "covered (compute_exposed_transition_damage \<lparr>rx = 10, ry = 10, rw = 100, rh = 80\<rparr>
     \<lparr>rx = 30, ry = 20, rw = 100, rh = 80\<rparr>) (15, 70)"
proof -
  have r: "rect_i32 \<lparr>rx = 10, ry = 10, rw = 100, rh = 80\<rparr>" "rect_i32 \<lparr>rx = 30, ry = 20, rw = 100, rh = 80\<rparr>"
    by (simp_all add: rect_i32_def rect_right_i64_def rect_bottom_i64_def INT32_MIN_def INT32_MAX_def)
  show ?thesis
    using exposed_damage_exact [OF r, of "(15, 70)"]
    by (simp add: in_rect_def rect_right_i64_def rect_bottom_i64_def)
qed

text \<open>
  Waiting for the sequence number \<open>completion_target_for_available_slot\<close> frees a slot of the
  presentation queue: once the completed sequence has reached it, fewer presentations are pending
  than the limit allows, and \<open>choose_present_policy\<close> submits.
\<close>

theorem completion_target_frees_slot:
  assumes "0 < limit" and "completion_target_for_available_slot last_submitted limit \<le> completed"
  shows "pending_presents last_submitted completed < limit \<and>
    choose_present_policy \<lparr>pending = pending_presents last_submitted completed, queue_limit = limit,
      strict_sync = ss, interactive = ia, copy_path = cp, active_manipulation = am\<rparr> = Submit"
proof -
  have "pending_presents last_submitted completed < limit"
  proof (cases "limit \<le> 1 \<or> last_submitted \<le> completed")
    case True
    with assms show ?thesis
      by (auto simp: pending_presents_def completion_target_for_available_slot_def split: if_splits)
  next
    case False
    then have le: "completed \<le> last_submitted" by (meson linear)
    show ?thesis
    proof (cases "last_submitted < limit")
      case True
      have "last_submitted - completed \<le> last_submitted"
        using False by (simp add: word_le_nat_alt unat_sub)
      with True False show ?thesis by (simp add: pending_presents_def)
    next
      case less: False
      then have t: "last_submitted - limit + 1 \<le> completed"
        using assms(2) False by (simp add: completion_target_for_available_slot_def)
      have "unat (last_submitted - limit) = unat last_submitted - unat limit"
        using less by (simp add: unat_sub)
      moreover have "unat (last_submitted - limit + 1) = unat (last_submitted - limit) + 1"
      proof -
        have "last_submitted - limit < last_submitted"
          using assms(1) less by (simp add: word_less_nat_alt unat_sub word_le_nat_alt)
        then show ?thesis by (rule unat_succ_less)
      qed
      ultimately have "unat last_submitted - unat limit + 1 \<le> unat completed"
        using t by (simp add: word_le_nat_alt)
      moreover have "unat (last_submitted - completed) = unat last_submitted - unat completed"
        using le by (rule unat_sub)
      ultimately have "unat (last_submitted - completed) < unat limit"
        using assms(1) by (simp add: word_less_nat_alt)
      with False show ?thesis by (simp add: pending_presents_def word_less_nat_alt)
    qed
  qed
  then show ?thesis by (simp add: choose_present_policy_def)
qed

lemma completion_target_frees_slot_witness:
  "pending_presents 10 (completion_target_for_available_slot 10 3) < 3"
  using completion_target_frees_slot [of 3 10 "completion_target_for_available_slot 10 3"] by simp

end
