(* ===== verification/Net_Bytes.thy ===== *)
theory Net_Bytes
  imports Prelude
begin

text \<open>
  Byte order and the Internet checksum: \<open>htons\<close>, \<open>htonl\<close> of \<open>src/net/ethernet.cpp\<close> and
  \<open>ipv4_checksum\<close> of \<open>src/net/ipv4.cpp\<close>.  A packed header is the list of its bytes; a field is
  written by \<open>le_bytes\<close> and read by \<open>load16\<close>, \<open>load32\<close>, the native order of x86-64, so that the
  \<open>htons\<close> of the source stays visible.
\<close>

section \<open>Fields of packed structures\<close>

fun le_bytes :: "nat \<Rightarrow> 'a::len word \<Rightarrow> u8 list" where
  "le_bytes 0 w = []"
| "le_bytes (Suc n) w = ucast w # le_bytes n (drop_bit 8 w)"

definition load16 :: "u8 list \<Rightarrow> nat \<Rightarrow> u16" where
  "load16 bs off = le_word (take 2 (drop off bs))"

definition load32 :: "u8 list \<Rightarrow> nat \<Rightarrow> u32" where
  "load32 bs off = le_word (take 4 (drop off bs))"

definition htons :: "u16 \<Rightarrow> u16" where
  "htons value = push_bit 8 (value AND 255) OR (drop_bit 8 value AND 255)"

definition ntohs :: "u16 \<Rightarrow> u16" where
  "ntohs value = htons value"

definition htonl :: "u32 \<Rightarrow> u32" where
  "htonl value =
     push_bit 24 (value AND 0xFF) OR push_bit 8 (value AND 0xFF00) OR
     (drop_bit 8 value AND 0xFF00) OR (drop_bit 24 value AND 0xFF)"

definition ntohl :: "u32 \<Rightarrow> u32" where
  "ntohl value = htonl value"

lemma length_le_bytes [simp]: "length (le_bytes n w) = n"
  by (induction n arbitrary: w) auto

lemma bit_le_bytes:
  "k < n \<Longrightarrow> bit (le_bytes n w ! k) j \<longleftrightarrow> j < 8 \<and> bit w (8 * k + j)"
proof (induction n arbitrary: w k)
  case (Suc n)
  show ?case
  proof (cases k)
    case 0
    then show ?thesis by (auto simp: bit_simps)
  next
    case (Suc m)
    then show ?thesis
      using Suc.IH [of m "drop_bit 8 w"] Suc.prems by (auto simp: bit_simps ac_simps)
  qed
qed simp

lemma le_word_le_bytes:
  assumes "LENGTH('a) = 8 * n"
  shows "le_word (le_bytes n (w :: 'a::len word)) = w"
proof (rule bit_word_eqI)
  fix i assume i: "i < LENGTH('a)"
  then have "i div 8 < n" using assms by auto
  then show "bit (le_word (le_bytes n w) :: 'a word) i = bit w i"
    using i by (simp add: bit_le_word bit_le_bytes)
qed

lemma and_byte_mask: "(w :: 'a::len word) AND 255 = take_bit 8 w"
proof -
  have "(255 :: 'a word) = mask 8" by (simp add: mask_eq_exp_minus_1)
  then show ?thesis by (simp only: take_bit_eq_mask)
qed

lemma and_byte1_mask: "(w :: 'a::len word) AND 0xFF00 = push_bit 8 (take_bit 8 (drop_bit 8 w))"
proof -
  have e: "(0xFF00 :: 'a word) = push_bit 8 (mask 8)" by (simp add: mask_eq_exp_minus_1 push_bit_eq_mult)
  show ?thesis
    unfolding e by (rule bit_word_eqI) (auto simp: bit_simps)
qed

lemma bit_htons: "bit (htons w) n \<longleftrightarrow> n < 16 \<and> bit w (if n < 8 then n + 8 else n - 8)"
  unfolding htons_def and_byte_mask by (auto simp: bit_simps add.commute dest: bit_imp_le_length)

lemma htons_htons [simp]: "htons (htons w) = w"
  by (rule bit_word_eqI) (auto simp: bit_htons)

lemma bit_htonl:
  "bit (htonl w) n \<longleftrightarrow> n < 32 \<and>
    bit w (if n < 8 then n + 24 else if n < 16 then n + 8 else if n < 24 then n - 8 else n - 24)"
  unfolding htonl_def and_byte_mask and_byte1_mask
  by (auto simp: bit_simps add.commute dest: bit_imp_le_length)

lemma htonl_htonl [simp]: "htonl (htonl w) = w"
  by (rule bit_word_eqI) (auto simp: bit_htonl)

lemma load16_field:
  "length pre = off \<Longrightarrow> load16 (pre @ le_bytes 2 w @ post) off = w"
  by (simp add: load16_def le_word_le_bytes)

lemma load32_field:
  "length pre = off \<Longrightarrow> load32 (pre @ le_bytes 4 w @ post) off = w"
  by (simp add: load32_def le_word_le_bytes)

section \<open>The Internet checksum\<close>

text \<open>
  The sum of \<open>ipv4_checksum\<close> over at most 65535 bytes stays below \<open>2 ^ 32\<close>, so the 32-bit
  accumulator does not wrap and is a natural number here.
\<close>

fun sum16 :: "u8 list \<Rightarrow> nat" where
  "sum16 [] = 0"
| "sum16 [b] = unat b"
| "sum16 (a # b # bs) = unat (le_word [a, b] :: u16) + sum16 bs"

function fold16 :: "nat \<Rightarrow> nat" where
  "fold16 s = (if s div 65536 \<noteq> 0 then fold16 (s mod 65536 + s div 65536) else s)"
  by pat_completeness auto
termination
proof (relation "measure id")
  fix s :: nat
  assume "s div 65536 \<noteq> 0"
  then have "0 < s div 65536" by simp
  moreover have "s mod 65536 + 65536 * (s div 65536) = s" by (rule mod_mult_div_eq)
  ultimately have "s mod 65536 + s div 65536 < s" by linarith
  then show "(s mod 65536 + s div 65536, s) \<in> measure id" by simp
qed simp

declare fold16.simps [simp del]

definition ipv4_checksum :: "u8 list \<Rightarrow> u16" where
  "ipv4_checksum data = NOT (of_nat (fold16 (sum16 data)))"

lemma sum16_bound: "sum16 bs \<le> 65535 * ((length bs + 1) div 2)"
proof (induction bs rule: sum16.induct)
  case (2 b)
  have "unat b < 2 ^ LENGTH(8)" by (rule unsigned_less)
  then show ?case by simp
next
  case (3 a b bs)
  have "unat (le_word [a, b] :: u16) < 2 ^ LENGTH(16)" by (rule unsigned_less)
  with 3 show ?case by simp
qed simp

lemma sum16_accumulator: "length bs \<le> 65535 \<Longrightarrow> sum16 bs < 2 ^ 32"
proof -
  assume "length bs \<le> 65535"
  then have "65535 * ((length bs + 1) div 2) \<le> 65535 * 32768" by (intro mult_le_mono2) simp
  with sum16_bound [of bs] show ?thesis by simp
qed

lemma sum16_append: "even (length xs) \<Longrightarrow> sum16 (xs @ ys) = sum16 xs + sum16 ys"
  by (induction xs rule: sum16.induct) auto

lemma fold16_mod: "fold16 s mod 65535 = s mod 65535 \<and> fold16 s \<le> 65535 \<and> (fold16 s = 0 \<longleftrightarrow> s = 0)"
proof (induction s rule: fold16.induct)
  case (1 s)
  show ?case
  proof (cases "s div 65536 = 0")
    case True
    then show ?thesis by (auto simp: fold16.simps [of s] div_eq_0_iff)
  next
    case False
    have split: "(a + b * 65536) mod 65535 = (a + b) mod 65535" for a b :: nat
    proof -
      have "a + b * 65536 = (a + b) + b * 65535" by simp
      then show ?thesis by (metis mod_mult_self1)
    qed
    have "s mod 65535 = (s mod 65536 + s div 65536 * 65536) mod 65535"
      by (simp only: mod_div_mult_eq)
    also have "\<dots> = (s mod 65536 + s div 65536) mod 65535" by (rule split)
    finally show ?thesis using "1.IH" [OF False] False by (auto simp: fold16.simps [of s])
  qed
qed

lemma fold16_cases: "fold16 s = (if s = 0 then 0 else if s mod 65535 = 0 then 65535 else s mod 65535)"
  using fold16_mod [of s] by (cases "fold16 s = 65535") auto

lemma unat_not16: "unat (NOT (w :: u16)) = 65535 - unat w"
proof -
  have "NOT w = - 1 - w" by (simp add: not_eq_complement)
  moreover have "unat (- 1 - w) = unat (- 1 :: u16) - unat w" by (rule unat_sub) simp
  moreover have "unat (- 1 :: u16) = 65535" by (simp add: unsigned_minus_1_eq_mask mask_eq_exp_minus_1)
  ultimately show ?thesis by simp
qed

lemma unat_checksum: "unat (ipv4_checksum data) = 65535 - fold16 (sum16 data)"
proof -
  have "unat (of_nat (fold16 (sum16 data)) :: u16) = fold16 (sum16 data)"
    using fold16_mod [of "sum16 data"] by (intro unat_of_nat_small) auto
  then show ?thesis by (simp add: ipv4_checksum_def unat_not16)
qed

lemma sum16_field:
  assumes "even (length pre)"
  shows "sum16 (pre @ le_bytes 2 (c :: u16) @ post) = sum16 (pre @ [0, 0] @ post) + unat c"
proof -
  obtain a b where ab: "le_bytes 2 c = [a, b]" by (simp add: numeral_2_eq_2)
  then have "le_word [a, b] = c" using le_word_le_bytes [where w = c and n = 2] by simp
  then have "sum16 (le_bytes 2 c @ post) = unat c + sum16 post" by (simp add: ab)
  moreover have "sum16 ([0, 0] @ post) = sum16 post" by simp
  ultimately show ?thesis using assms by (simp add: sum16_append)
qed

text \<open>
  A block whose checksum field, at an even offset, holds the checksum of the block with a zero field
  has checksum 0.
\<close>

lemma checksum_verifies:
  assumes "even (length pre)" and "c = ipv4_checksum (pre @ [0, 0] @ post)"
  shows "ipv4_checksum (pre @ le_bytes 2 c @ post) = 0"
proof -
  let ?s = "sum16 (pre @ [0, 0] @ post)"
  have s: "sum16 (pre @ le_bytes 2 c @ post) = ?s + unat c" by (rule sum16_field [OF assms(1)])
  have "unat c = 65535 - fold16 ?s" unfolding assms(2) by (rule unat_checksum)
  moreover have "(?s + (65535 - fold16 ?s)) mod 65535 = (fold16 ?s + (65535 - fold16 ?s)) mod 65535"
    by (rule mod_add_cong) (use fold16_mod [of ?s] in auto)
  ultimately have "(?s + unat c) mod 65535 = 0 \<and> ?s + unat c \<noteq> 0"
    using fold16_mod [of ?s] by (cases "?s = 0") auto
  then have "fold16 (sum16 (pre @ le_bytes 2 c @ post)) = 65535"
    unfolding s by (simp add: fold16_cases)
  then have "unat (ipv4_checksum (pre @ le_bytes 2 c @ post)) = 0" by (simp add: unat_checksum)
  then show ?thesis by (simp add: unat_eq_zero)
qed

text \<open>The same when a zero checksum is sent as all ones, as UDP does.\<close>

lemma checksum_verifies_ones:
  assumes even: "even (length pre)" and c: "ipv4_checksum (pre @ [0, 0] @ post) = 0"
  shows "ipv4_checksum (pre @ le_bytes 2 (0xFFFF :: u16) @ post) = 0"
proof -
  let ?s = "sum16 (pre @ [0, 0] @ post)"
  have "65535 - fold16 ?s = 0" using c unat_checksum [of "pre @ [0, 0] @ post"] by simp
  then have "fold16 ?s = 65535" using fold16_mod [of ?s] by auto
  then have "?s mod 65535 = 0" using fold16_mod [of ?s] by simp
  then have "fold16 (?s + 65535) = 65535" by (simp add: fold16_cases)
  then have "unat (ipv4_checksum (pre @ le_bytes 2 (0xFFFF :: u16) @ post)) = 0"
    using sum16_field [OF even, of "0xFFFF" post] by (simp add: unat_checksum)
  then show ?thesis by (simp add: unat_eq_zero)
qed

section \<open>Reading fields of a packet\<close>

named_theorems wire

lemma load16_here [wire]: "load16 (le_bytes 2 w @ post) 0 = w" "load16 (le_bytes 2 w) 0 = w"
  using load16_field [of "[]" 0 w post] load16_field [of "[]" 0 w "[]"] by simp_all

lemma load32_here [wire]: "load32 (le_bytes 4 w @ post) 0 = w" "load32 (le_bytes 4 w) 0 = w"
  using load32_field [of "[]" 0 w post] load32_field [of "[]" 0 w "[]"] by simp_all

lemma load_skip [wire]:
  "length xs \<le> off \<Longrightarrow> load16 (xs @ ys) off = load16 ys (off - length xs)"
  "length xs \<le> off \<Longrightarrow> load32 (xs @ ys) off = load32 ys (off - length xs)"
  by (simp_all add: load16_def load32_def)

lemma load_skip_Cons [wire]:
  "0 < off \<Longrightarrow> load16 (x # ys) off = load16 ys (off - 1)"
  "0 < off \<Longrightarrow> load32 (x # ys) off = load32 ys (off - 1)"
  by (simp_all add: load16_def load32_def drop_Cons')

lemma load_within [wire]:
  "off + 2 \<le> length xs \<Longrightarrow> load16 (xs @ ys) off = load16 xs off"
  "off + 4 \<le> length xs \<Longrightarrow> load32 (xs @ ys) off = load32 xs off"
  by (simp_all add: load16_def load32_def)

lemma ntohs_htons [wire]: "ntohs (htons w) = w"
  by (simp add: ntohs_def)

lemma ntohl_htonl [wire]: "ntohl (htonl w) = w"
  by (simp add: ntohl_def)

end
