(* ===== verification/Link.thy ===== *)
theory Link
  imports Net_Bytes
begin

text \<open>
  Ethernet and ARP, \<open>src/net/ethernet.cpp\<close> and \<open>src/net/arp.cpp\<close>.  \<open>link\<close> holds the ARP variables
  and the configuration that \<open>net_get_mac\<close> and \<open>net_get_ip\<close> return.  The network card is an input:
  \<open>nic_results\<close> are the results of the successive calls of \<open>net_send_raw\<close> (an exhausted list means
  that the card sends nothing any more), \<open>frames_out\<close> the frames passed to it.  A MAC address is
  the list of its six bytes.
\<close>

section \<open>State\<close>

type_synonym mac = "u8 list"

record ArpEntry =
  a_ip :: u32
  a_mac :: mac
  a_valid :: bool

record link =
  arp_table :: "ArpEntry list"
  arp_waiting :: bool
  arp_waiting_ip :: u32
  arp_waiting_mac :: mac
  arp_resolved :: bool
  our_mac :: mac
  our_ip :: u32
  netmask :: u32
  gateway :: u32
  nic_results :: "bool list"
  frames_out :: "u8 list list"

section \<open>Ethernet\<close>

definition ETH_BROADCAST_MAC :: mac where "ETH_BROADCAST_MAC = replicate 6 255"
definition ETH_HLEN :: nat where "ETH_HLEN = 14"
definition ETH_DATA_LEN :: nat where "ETH_DATA_LEN = 1500"
definition ETH_MIN_PAYLOAD_LEN :: nat where "ETH_MIN_PAYLOAD_LEN = 46"
definition ETH_TYPE_IPV4 :: u16 where "ETH_TYPE_IPV4 = 0x0800"
definition ETH_TYPE_ARP :: u16 where "ETH_TYPE_ARP = 0x0806"

definition eth_mac_equals :: "mac \<Rightarrow> mac \<Rightarrow> bool" where
  "eth_mac_equals mac1 mac2 = list_all (\<lambda>i. mac1 ! i = mac2 ! i) [0 ..< 6]"

definition eth_mac_is_broadcast :: "mac \<Rightarrow> bool" where
  "eth_mac_is_broadcast m = eth_mac_equals m ETH_BROADCAST_MAC"

definition eth_mac_is_zero :: "mac \<Rightarrow> bool" where
  "eth_mac_is_zero m = list_all (\<lambda>i. m ! i = 0) [0 ..< 6]"

definition eth_mac_copy :: "mac \<Rightarrow> mac" where
  "eth_mac_copy src = take 6 src"

definition net_send_raw :: "link \<Rightarrow> u8 list \<Rightarrow> bool \<times> link" where
  "net_send_raw l frame =
     (let l' = l\<lparr>frames_out := frames_out l @ [frame]\<rparr> in
      case nic_results l of
        [] \<Rightarrow> (False, l')
      | b # bs \<Rightarrow> (b, l'\<lparr>nic_results := bs\<rparr>))"

definition ethernet_frame :: "mac \<Rightarrow> mac \<Rightarrow> u16 \<Rightarrow> u8 list \<Rightarrow> u8 list" where
  "ethernet_frame dst_mac src_mac ethertype data =
     eth_mac_copy dst_mac @ src_mac @ le_bytes 2 (htons ethertype) @ data @
     replicate (ETH_MIN_PAYLOAD_LEN - length data) 0"

definition ethernet_send :: "link \<Rightarrow> mac \<Rightarrow> u16 \<Rightarrow> u8 list \<Rightarrow> bool \<times> link" where
  "ethernet_send l dst_mac ethertype data =
     (if eth_mac_is_zero dst_mac then (False, l)
      else if length data > ETH_DATA_LEN then (False, l)
      else net_send_raw l (ethernet_frame dst_mac (our_mac l) ethertype data))"

section \<open>ARP\<close>

definition ARP_TABLE_SIZE :: nat where "ARP_TABLE_SIZE = 32"
definition ARP_OP_REQUEST :: u16 where "ARP_OP_REQUEST = 1"
definition ARP_OP_REPLY :: u16 where "ARP_OP_REPLY = 2"

definition arp_mac_is_unusable :: "mac \<Rightarrow> bool" where
  "arp_mac_is_unusable m \<longleftrightarrow>
     list_all (\<lambda>i. m ! i = 0) [0 ..< 6] \<or> list_all (\<lambda>i. m ! i = 255) [0 ..< 6]"

definition arp_init :: "link \<Rightarrow> link" where
  "arp_init l = l\<lparr>arp_table := map (\<lambda>e. e\<lparr>a_valid := False\<rparr>) (arp_table l)\<rparr>"

definition arp_add_entry :: "link \<Rightarrow> u32 \<Rightarrow> mac \<Rightarrow> link" where
  "arp_add_entry l ip mac =
     (if ip = 0 \<or> ip = 0xFFFFFFFF \<or> arp_mac_is_unusable mac then l
      else
        case find_idx (\<lambda>e. a_valid e \<and> a_ip e = ip) (arp_table l) of
          Some i \<Rightarrow>
            l\<lparr>arp_table := (arp_table l)[i := (arp_table l ! i)\<lparr>a_mac := eth_mac_copy mac\<rparr>]\<rparr>
        | None \<Rightarrow>
            (let e = \<lparr>a_ip = ip, a_mac = eth_mac_copy mac, a_valid = True\<rparr> in
             case find_idx (\<lambda>e. \<not> a_valid e) (arp_table l) of
               Some i \<Rightarrow> l\<lparr>arp_table := (arp_table l)[i := e]\<rparr>
             | None \<Rightarrow> l\<lparr>arp_table := (arp_table l)[0 := e]\<rparr>))"

definition arp_lookup :: "link \<Rightarrow> u32 \<Rightarrow> mac option" where
  "arp_lookup l ip =
     (if ip = 0 then None
      else
        case find_idx (\<lambda>e. a_valid e \<and> a_ip e = ip) (arp_table l) of
          None \<Rightarrow> None
        | Some i \<Rightarrow> Some (eth_mac_copy (a_mac (arp_table l ! i))))"

definition arp_packet :: "u16 \<Rightarrow> mac \<Rightarrow> u32 \<Rightarrow> mac \<Rightarrow> u32 \<Rightarrow> u8 list" where
  "arp_packet operation sender_mac sender_ip target_mac target_ip =
     le_bytes 2 (htons 1) @ le_bytes 2 (htons ETH_TYPE_IPV4) @ [6, 4] @ le_bytes 2 (htons operation) @
     sender_mac @ le_bytes 4 sender_ip @ target_mac @ le_bytes 4 target_ip"

definition arp_send_request :: "link \<Rightarrow> u32 \<Rightarrow> link" where
  "arp_send_request l target_ip =
     (if target_ip = 0 \<or> target_ip = 0xFFFFFFFF then l
      else snd (ethernet_send l ETH_BROADCAST_MAC ETH_TYPE_ARP
                  (arp_packet ARP_OP_REQUEST (our_mac l) (our_ip l) (replicate 6 0) target_ip)))"

definition arp_send_reply :: "link \<Rightarrow> u32 \<Rightarrow> mac \<Rightarrow> link" where
  "arp_send_reply l target_ip target_mac =
     (if target_ip = 0 \<or> arp_mac_is_unusable target_mac then l
      else snd (ethernet_send l target_mac ETH_TYPE_ARP
                  (arp_packet ARP_OP_REPLY (our_mac l) (our_ip l) (eth_mac_copy target_mac) target_ip)))"

definition arp_receive :: "link \<Rightarrow> u8 list \<Rightarrow> link" where
  "arp_receive l data =
     (if length data < 28 then l
      else if ntohs (load16 data 0) \<noteq> 1 \<or> ntohs (load16 data 2) \<noteq> ETH_TYPE_IPV4 \<or>
              data ! 4 \<noteq> 6 \<or> data ! 5 \<noteq> 4 then l
      else
        let sender_mac = take 6 (drop 8 data); sender_ip = load32 data 14;
            target_ip = load32 data 24;
            l1 = arp_add_entry l sender_ip sender_mac;
            l2 = (if arp_waiting l1 \<and> sender_ip = arp_waiting_ip l1
                  then l1\<lparr>arp_waiting_mac := eth_mac_copy sender_mac, arp_resolved := True\<rparr> else l1)
        in if ntohs (load16 data 6) = ARP_OP_REQUEST \<and> target_ip = our_ip l2
           then arp_send_reply l2 sender_ip sender_mac else l2)"

text \<open>A received frame changes the ARP state, or is handed to IPv4, or is dropped.\<close>

definition ethernet_receive :: "link \<Rightarrow> u8 list \<Rightarrow> u8 list option \<times> link" where
  "ethernet_receive l frame =
     (if length frame < ETH_HLEN then (None, l)
      else
        let dst = take 6 frame; payload = drop ETH_HLEN frame in
        if \<not> eth_mac_equals dst (our_mac l) \<and> \<not> eth_mac_is_broadcast dst then (None, l)
        else
          let ethertype = ntohs (load16 frame 12) in
          if ethertype = ETH_TYPE_ARP then (None, arp_receive l payload)
          else if ethertype = ETH_TYPE_IPV4 then (Some payload, l)
          else (None, l))"

text \<open>
  The wait of \<open>arp_resolve\<close>: \<open>polls\<close> are the frames that the successive calls of \<open>net_poll\<close>
  deliver before the timeout; after them the time runs out.  The IPv4 payloads among them are
  returned for the upper layers.
\<close>

fun receive_all :: "link \<Rightarrow> u8 list list \<Rightarrow> u8 list list \<times> link" where
  "receive_all l [] = ([], l)"
| "receive_all l (f # fs) =
     (let (p, l1) = ethernet_receive l f; (ps, l2) = receive_all l1 fs
      in (case p of None \<Rightarrow> ps | Some d \<Rightarrow> d # ps, l2))"

fun arp_wait :: "link \<Rightarrow> u8 list list list \<Rightarrow> u8 list list \<times> link" where
  "arp_wait l [] = ([], l)"
| "arp_wait l (fs # polls) =
     (if arp_resolved l then ([], l)
      else
        let (ps, l1) = receive_all l fs; (qs, l2) = arp_wait l1 polls in (ps @ qs, l2))"

definition arp_resolve :: "link \<Rightarrow> u32 \<Rightarrow> u8 list list list \<Rightarrow> mac option \<times> u8 list list \<times> link" where
  "arp_resolve l ip polls =
     (if ip = 0 then (None, [], l)
      else if ip = 0xFFFFFFFF then (Some ETH_BROADCAST_MAC, [], l)
      else
        case arp_lookup l ip of
          Some m \<Rightarrow> (Some m, [], l)
        | None \<Rightarrow>
            (let l1 = arp_send_request
                   (l\<lparr>arp_waiting := True, arp_waiting_ip := ip, arp_resolved := False\<rparr>) ip;
                 (ps, l2) = arp_wait l1 polls;
                 l3 = l2\<lparr>arp_waiting := False\<rparr>
             in if arp_resolved l3 then (Some (eth_mac_copy (arp_waiting_mac l3)), ps, l3)
                else (None, ps, l3)))"


section \<open>The ARP table\<close>

text \<open>
  The table keeps its 32 entries, every address at most once, and only usable bindings.
\<close>

definition arp_inv :: "link \<Rightarrow> bool" where
  "arp_inv l \<longleftrightarrow>
     length (arp_table l) = ARP_TABLE_SIZE \<and>
     (\<forall>i < ARP_TABLE_SIZE. a_valid (arp_table l ! i) \<longrightarrow>
        a_ip (arp_table l ! i) \<noteq> 0 \<and> length (a_mac (arp_table l ! i)) = 6 \<and>
        \<not> arp_mac_is_unusable (a_mac (arp_table l ! i)) \<and>
        (\<forall>j < ARP_TABLE_SIZE. a_valid (arp_table l ! j) \<and> a_ip (arp_table l ! j) = a_ip (arp_table l ! i) \<longrightarrow>
           j = i))"

definition usable_binding :: "u32 \<Rightarrow> mac \<Rightarrow> bool" where
  "usable_binding ip m \<longleftrightarrow> ip \<noteq> 0 \<and> ip \<noteq> 0xFFFFFFFF \<and> length m = 6 \<and> \<not> arp_mac_is_unusable m"

lemma arp_lookup_Some:
  assumes "arp_inv l"
  shows "arp_lookup l ip = Some m \<longleftrightarrow>
    (\<exists>i < ARP_TABLE_SIZE. a_valid (arp_table l ! i) \<and> a_ip (arp_table l ! i) = ip \<and> a_mac (arp_table l ! i) = m)"
    (is "?L \<longleftrightarrow> ?R")
proof
  assume ?L
  then show ?R
    using assms unfolding arp_lookup_def arp_inv_def
    by (auto split: if_splits option.splits simp: find_idx_Some eth_mac_copy_def)
next
  assume ?R
  then obtain i where i: "i < ARP_TABLE_SIZE" "a_valid (arp_table l ! i)" "a_ip (arp_table l ! i) = ip"
    "a_mac (arp_table l ! i) = m" by blast
  let ?P = "\<lambda>e. a_valid e \<and> a_ip e = ip"
  have len: "length (arp_table l) = ARP_TABLE_SIZE" using assms by (simp add: arp_inv_def)
  have u: "\<And>j. j < ARP_TABLE_SIZE \<Longrightarrow> ?P (arp_table l ! j) \<Longrightarrow> j = i"
    using assms i unfolding arp_inv_def by auto
  have p: "ip \<noteq> 0" "length m = 6" using assms i unfolding arp_inv_def by auto
  have "find_idx ?P (arp_table l) = Some i"
    by (rule find_idx_unique) (use i len in simp_all, rule u, simp_all)
  then show ?L using p i by (simp add: arp_lookup_def eth_mac_copy_def)
qed

lemma arp_inv_update:
  assumes inv: "arp_inv l" and i: "i < ARP_TABLE_SIZE" and e: "a_ip e = ip" "a_valid e" "a_mac e = m"
    and u: "usable_binding ip m"
    and new: "\<And>j. j < ARP_TABLE_SIZE \<Longrightarrow> a_valid (arp_table l ! j) \<Longrightarrow> a_ip (arp_table l ! j) = ip \<Longrightarrow> j = i"
  shows "arp_inv (l\<lparr>arp_table := (arp_table l)[i := e]\<rparr>)"
  using inv i e u new
  unfolding arp_inv_def usable_binding_def by (auto simp: nth_list_update)


lemma arp_add_slot:
  assumes inv: "arp_inv l" and u: "usable_binding ip m"
  obtains i where "i < ARP_TABLE_SIZE"
    and "arp_add_entry l ip m = l\<lparr>arp_table := (arp_table l)[i := \<lparr>a_ip = ip, a_mac = m, a_valid = True\<rparr>]\<rparr>"
    and "\<And>j. j < ARP_TABLE_SIZE \<Longrightarrow> a_valid (arp_table l ! j) \<Longrightarrow> a_ip (arp_table l ! j) = ip \<Longrightarrow> j = i"
    and "a_valid (arp_table l ! i) \<Longrightarrow> a_ip (arp_table l ! i) \<noteq> ip \<Longrightarrow>
           i = 0 \<and> (\<forall>j < ARP_TABLE_SIZE. a_valid (arp_table l ! j) \<and> a_ip (arp_table l ! j) \<noteq> ip)"
    and "a_valid (arp_table l ! i) \<and> a_ip (arp_table l ! i) = ip \<or>
           (\<forall>j < ARP_TABLE_SIZE. a_valid (arp_table l ! j) \<longrightarrow> a_ip (arp_table l ! j) \<noteq> ip)"
    and "i = 0 \<or> a_ip (arp_table l ! i) = ip \<or> \<not> a_valid (arp_table l ! i)"
proof -
  let ?P = "\<lambda>e. a_valid e \<and> a_ip e = ip"
  let ?t = "arp_table l"
  let ?e = "\<lparr>a_ip = ip, a_mac = m, a_valid = True\<rparr>"
  have len: "length ?t = ARP_TABLE_SIZE" using inv by (simp add: arp_inv_def)
  have c: "eth_mac_copy m = m" "\<not> (ip = 0 \<or> ip = 0xFFFFFFFF \<or> arp_mac_is_unusable m)"
    using u by (auto simp: usable_binding_def eth_mac_copy_def)
  show ?thesis
  proof (cases "find_idx ?P ?t")
    case (Some i)
    then have i: "i < ARP_TABLE_SIZE" "?P (?t ! i)" using len by (auto simp: find_idx_Some)
    have e: "(?t ! i)\<lparr>a_mac := m\<rparr> = ?e" using i by (intro ArpEntry.equality) auto
    have eq: "arp_add_entry l ip m = l\<lparr>arp_table := ?t[i := ?e]\<rparr>"
      using c Some by (simp add: arp_add_entry_def e)
    have "j = i" if "j < ARP_TABLE_SIZE" "a_valid (?t ! j)" "a_ip (?t ! j) = ip" for j
      using inv i that unfolding arp_inv_def by simp
    then show ?thesis by (rule that [OF i(1) eq]) (use i in simp_all)
  next
    case None
    then have none: "\<And>j. j < ARP_TABLE_SIZE \<Longrightarrow> a_valid (?t ! j) \<Longrightarrow> a_ip (?t ! j) \<noteq> ip"
      using len by (auto simp: find_idx_None)
    show ?thesis
    proof (cases "find_idx (\<lambda>e. \<not> a_valid e) ?t")
      case (Some i)
      then have "i < ARP_TABLE_SIZE" "\<not> a_valid (?t ! i)" using len by (auto simp: find_idx_Some)
      then show ?thesis
        by (intro that [of i]) (use none c None Some in \<open>auto simp: arp_add_entry_def Let_def\<close>)
    next
      case full: None
      then have "\<And>j. j < ARP_TABLE_SIZE \<Longrightarrow> a_valid (?t ! j)" using len by (auto simp: find_idx_None)
      then show ?thesis
        by (intro that [of 0]) (use none c None full in \<open>auto simp: arp_add_entry_def Let_def ARP_TABLE_SIZE_def\<close>)
    qed
  qed
qed

lemma arp_add_inv:
  assumes inv: "arp_inv l" and u: "usable_binding ip m"
  shows "arp_inv (arp_add_entry l ip m)"
proof -
  obtain i where i: "i < ARP_TABLE_SIZE"
    "arp_add_entry l ip m = l\<lparr>arp_table := (arp_table l)[i := \<lparr>a_ip = ip, a_mac = m, a_valid = True\<rparr>]\<rparr>"
    and new: "\<And>j. j < ARP_TABLE_SIZE \<Longrightarrow> a_valid (arp_table l ! j) \<Longrightarrow> a_ip (arp_table l ! j) = ip \<Longrightarrow> j = i"
    by (rule arp_add_slot [OF inv u]) (rule that; assumption)
  show ?thesis
    unfolding i(2) by (rule arp_inv_update [OF inv i(1) _ _ _ u new]) simp_all
qed

lemma arp_add_lookup:
  assumes inv: "arp_inv l" and u: "usable_binding ip m"
  shows "arp_lookup (arp_add_entry l ip m) ip = Some m"
proof -
  obtain i where i: "i < ARP_TABLE_SIZE"
    "arp_add_entry l ip m = l\<lparr>arp_table := (arp_table l)[i := \<lparr>a_ip = ip, a_mac = m, a_valid = True\<rparr>]\<rparr>"
    by (rule arp_add_slot [OF inv u]) (rule that; assumption)
  have "length (arp_table l) = ARP_TABLE_SIZE" using inv by (simp add: arp_inv_def)
  then show ?thesis
    unfolding arp_lookup_Some [OF arp_add_inv [OF inv u]] using i by (intro exI [of _ i]) auto
qed

definition arp_evicted :: "link \<Rightarrow> u32 \<Rightarrow> u32 \<Rightarrow> bool" where
  "arp_evicted l ip ip' \<longleftrightarrow>
     (\<forall>j < ARP_TABLE_SIZE. a_valid (arp_table l ! j) \<and> a_ip (arp_table l ! j) \<noteq> ip) \<and>
     ip' = a_ip (arp_table l ! 0)"

lemma arp_add_other:
  assumes inv: "arp_inv l" and u: "usable_binding ip m" and ne: "ip' \<noteq> ip"
  shows "arp_lookup (arp_add_entry l ip m) ip' = (if arp_evicted l ip ip' then None else arp_lookup l ip')"
proof -
  obtain i where i: "i < ARP_TABLE_SIZE"
    "arp_add_entry l ip m = l\<lparr>arp_table := (arp_table l)[i := \<lparr>a_ip = ip, a_mac = m, a_valid = True\<rparr>]\<rparr>"
    and ev: "a_valid (arp_table l ! i) \<Longrightarrow> a_ip (arp_table l ! i) \<noteq> ip \<Longrightarrow>
           i = 0 \<and> (\<forall>j < ARP_TABLE_SIZE. a_valid (arp_table l ! j) \<and> a_ip (arp_table l ! j) \<noteq> ip)"
    and hit: "a_valid (arp_table l ! i) \<and> a_ip (arp_table l ! i) = ip \<or>
           (\<forall>j < ARP_TABLE_SIZE. a_valid (arp_table l ! j) \<longrightarrow> a_ip (arp_table l ! j) \<noteq> ip)"
    and z: "i = 0 \<or> a_ip (arp_table l ! i) = ip \<or> \<not> a_valid (arp_table l ! i)"
    by (rule arp_add_slot [OF inv u]) (rule that; assumption)
  have len: "length (arp_table l) = ARP_TABLE_SIZE" using inv by (simp add: arp_inv_def)
  have rw: "arp_lookup (arp_add_entry l ip m) ip' = Some m' \<longleftrightarrow>
      \<not> arp_evicted l ip ip' \<and> arp_lookup l ip' = Some m'" for m'
  proof -
    have "arp_lookup (arp_add_entry l ip m) ip' = Some m' \<longleftrightarrow>
        (\<exists>j < ARP_TABLE_SIZE. j \<noteq> i \<and> a_valid (arp_table l ! j) \<and> a_ip (arp_table l ! j) = ip' \<and>
            a_mac (arp_table l ! j) = m')"
      unfolding arp_lookup_Some [OF arp_add_inv [OF inv u]] using i len ne
      by (auto simp: nth_list_update)
    moreover have "\<not> arp_evicted l ip ip'" if "j < ARP_TABLE_SIZE" "j \<noteq> i" "a_valid (arp_table l ! j)" "a_ip (arp_table l ! j) = ip'" for j
    proof
      assume e: "arp_evicted l ip ip'"
      then have "i = 0" using z i by (auto simp: arp_evicted_def)
      moreover have "j = 0" using that e inv unfolding arp_inv_def arp_evicted_def
        by (metis (no_types, lifting) ARP_TABLE_SIZE_def zero_less_numeral)
      ultimately show False using that by simp
    qed
    moreover have "arp_evicted l ip ip'" if "a_valid (arp_table l ! i)" "a_ip (arp_table l ! i) = ip'"
      using ev that ne by (auto simp: arp_evicted_def)
    ultimately show ?thesis unfolding arp_lookup_Some [OF inv] by auto
  qed
  show ?thesis
    by (rule option_ext) (simp only: rw split: if_split, simp)
qed


section \<open>Frames\<close>

lemma eth_mac_equals_iff: "length m = 6 \<Longrightarrow> length n = 6 \<Longrightarrow> eth_mac_equals m n \<longleftrightarrow> m = n"
  by (auto simp: eth_mac_equals_def list_eq_iff_nth_eq list_all_iff)

lemma eth_mac_is_zero_iff: "length m = 6 \<Longrightarrow> eth_mac_is_zero m \<longleftrightarrow> m = replicate 6 0"
  by (auto simp: eth_mac_is_zero_def list_eq_iff_nth_eq list_all_iff)

lemma usable_not_zero: "\<not> arp_mac_is_unusable m \<Longrightarrow> \<not> eth_mac_is_zero m"
  by (simp add: arp_mac_is_unusable_def eth_mac_is_zero_def)

abbreviation padding :: "u8 list \<Rightarrow> u8 list" where
  "padding data \<equiv> replicate (ETH_MIN_PAYLOAD_LEN - length data) 0"

lemma ethernet_receive_frame:
  assumes "length dst = 6" "length src = 6" "length (our_mac l) = 6"
  shows "ethernet_receive l (ethernet_frame dst src ty data) =
    (if dst \<noteq> our_mac l \<and> dst \<noteq> ETH_BROADCAST_MAC then (None, l)
     else if ty = ETH_TYPE_ARP then (None, arp_receive l (data @ padding data))
     else if ty = ETH_TYPE_IPV4 then (Some (data @ padding data), l)
     else (None, l))"
  using assms
  by (simp add: ethernet_receive_def ethernet_frame_def eth_mac_copy_def ETH_HLEN_def Let_def wire
      eth_mac_is_broadcast_def eth_mac_equals_iff ETH_BROADCAST_MAC_def)

lemma arp_receive_packet:
  assumes "length sm = 6" "length tm = 6"
  shows "arp_receive l (arp_packet op' sm sip tm tip @ pad) =
    (let l1 = arp_add_entry l sip sm;
         l2 = (if arp_waiting l1 \<and> sip = arp_waiting_ip l1
               then l1\<lparr>arp_waiting_mac := sm, arp_resolved := True\<rparr> else l1)
     in if op' = ARP_OP_REQUEST \<and> tip = our_ip l2 then arp_send_reply l2 sip sm else l2)"
  using assms
  by (simp add: arp_receive_def arp_packet_def wire nth_append eth_mac_copy_def cong: if_cong)


lemma arp_add_frame [simp]:
  "our_mac (arp_add_entry l ip m) = our_mac l" "our_ip (arp_add_entry l ip m) = our_ip l"
  "arp_waiting (arp_add_entry l ip m) = arp_waiting l"
  "arp_waiting_ip (arp_add_entry l ip m) = arp_waiting_ip l"
  "arp_resolved (arp_add_entry l ip m) = arp_resolved l"
  "frames_out (arp_add_entry l ip m) = frames_out l"
  by (simp_all add: arp_add_entry_def Let_def split: option.splits)

lemma ethernet_send_frame [simp]:
  "arp_table (snd (ethernet_send l d ty p)) = arp_table l"
  "our_mac (snd (ethernet_send l d ty p)) = our_mac l"
  "our_ip (snd (ethernet_send l d ty p)) = our_ip l"
  "arp_waiting (snd (ethernet_send l d ty p)) = arp_waiting l"
  "arp_waiting_ip (snd (ethernet_send l d ty p)) = arp_waiting_ip l"
  "arp_resolved (snd (ethernet_send l d ty p)) = arp_resolved l"
  "arp_waiting_mac (snd (ethernet_send l d ty p)) = arp_waiting_mac l"
  by (simp_all add: ethernet_send_def net_send_raw_def Let_def split: list.splits)

lemma ethernet_send_out:
  "\<not> eth_mac_is_zero d \<Longrightarrow> length p \<le> ETH_DATA_LEN \<Longrightarrow>
     frames_out (snd (ethernet_send l d ty p)) = frames_out l @ [ethernet_frame d (our_mac l) ty p]"
  by (simp add: ethernet_send_def net_send_raw_def Let_def split: list.splits)

lemma arp_lookup_cong: "arp_table l = arp_table l' \<Longrightarrow> arp_lookup l ip = arp_lookup l' ip"
  unfolding arp_lookup_def by metis

lemma arp_inv_cong: "arp_table l = arp_table l' \<Longrightarrow> arp_inv l = arp_inv l'"
  by (simp add: arp_inv_def)

definition host_ok :: "link \<Rightarrow> bool" where
  "host_ok l \<longleftrightarrow> arp_inv l \<and> usable_binding (our_ip l) (our_mac l)"

lemma length_arp_packet [simp]:
  "length sm = 6 \<Longrightarrow> length tm = 6 \<Longrightarrow> length (arp_packet op' sm sip tm tip) = 28"
  by (simp add: arp_packet_def)

lemma broadcast_not_zero [simp]: "\<not> eth_mac_is_zero ETH_BROADCAST_MAC" "length ETH_BROADCAST_MAC = 6"
  by (simp_all add: eth_mac_is_zero_def ETH_BROADCAST_MAC_def upt_rec)

text \<open>The request of a host that is waiting, at the host that owns the address: a reply, and the
  requester's binding learnt.\<close>

lemma arp_request_answered:
  assumes a: "usable_binding ipa ma" and b: "host_ok b"
  defines "b' \<equiv> snd (ethernet_receive b (ethernet_frame ETH_BROADCAST_MAC ma ETH_TYPE_ARP
                   (arp_packet ARP_OP_REQUEST ma ipa (replicate 6 0) (our_ip b))))"
  shows "last (frames_out b') = ethernet_frame ma (our_mac b) ETH_TYPE_ARP
           (arp_packet ARP_OP_REPLY (our_mac b) (our_ip b) ma ipa)"
    and "arp_lookup b' ipa = Some ma" and "arp_inv b'"
proof -
  let ?b1 = "arp_add_entry b ipa ma"
  let ?b2 = "if arp_waiting b \<and> ipa = arp_waiting_ip b
             then ?b1\<lparr>arp_waiting_mac := ma, arp_resolved := True\<rparr> else ?b1"
  have u: "length ma = 6" "\<not> arp_mac_is_unusable ma" "ipa \<noteq> 0" "length (our_mac b) = 6"
    using a b by (auto simp: usable_binding_def host_ok_def)
  have b': "b' = snd (ethernet_send ?b2 ma ETH_TYPE_ARP
      (arp_packet ARP_OP_REPLY (our_mac b) (our_ip b) ma ipa))"
    unfolding b'_def using u
    by (simp add: ethernet_receive_frame arp_receive_packet arp_send_reply_def eth_mac_copy_def Let_def)
  show "last (frames_out b') = ethernet_frame ma (our_mac b) ETH_TYPE_ARP
      (arp_packet ARP_OP_REPLY (our_mac b) (our_ip b) ma ipa)"
    unfolding b' using u by (simp add: ethernet_send_out usable_not_zero ETH_DATA_LEN_def)
  have t: "arp_table b' = arp_table ?b1" unfolding b' by simp
  show "arp_lookup b' ipa = Some ma" "arp_inv b'"
    using arp_add_lookup arp_add_inv a b arp_lookup_cong [OF t] arp_inv_cong [OF t]
    by (auto simp: host_ok_def)
qed


lemma arp_reply_resolves:
  assumes w: "arp_waiting a" "arp_waiting_ip a = ipb" "length (our_mac a) = 6"
    and b: "usable_binding ipb mb"
  shows "receive_all a [ethernet_frame (our_mac a) mb ETH_TYPE_ARP
           (arp_packet ARP_OP_REPLY mb ipb (our_mac a) ipa)] =
         ([], (arp_add_entry a ipb mb)\<lparr>arp_waiting_mac := mb, arp_resolved := True\<rparr>)"
proof -
  have "length mb = 6" using b by (simp add: usable_binding_def)
  then show ?thesis
    using w
    by (simp add: ethernet_receive_frame arp_receive_packet Let_def ARP_OP_REPLY_def ARP_OP_REQUEST_def)
qed

text \<open>
  C25.  Address resolution on one Ethernet segment: when host \<open>a\<close> does not know host \<open>b\<close> and asks
  for it, the broadcast request makes \<open>b\<close> learn \<open>a\<close>'s binding and send a reply, and with that reply
  \<open>arp_resolve\<close> on \<open>a\<close> returns \<open>b\<close>'s MAC address, keeps it in the table, and ends with no request
  pending.
\<close>

theorem arp_exchange:
  assumes a: "host_ok a" and b: "host_ok b" and miss: "arp_lookup a (our_ip b) = None"
  shows "\<exists>req rep b' a'.
    frames_out (arp_send_request a (our_ip b)) = frames_out a @ [req] \<and>
    ethernet_receive b req = (None, b') \<and> arp_inv b' \<and>
    arp_lookup b' (our_ip a) = Some (our_mac a) \<and> last (frames_out b') = rep \<and>
    arp_resolve a (our_ip b) [[rep]] = (Some (our_mac b), [], a') \<and>
    arp_inv a' \<and> arp_lookup a' (our_ip b) = Some (our_mac b) \<and> \<not> arp_waiting a'"
proof -
  let ?P = "arp_packet ARP_OP_REQUEST (our_mac a) (our_ip a) (replicate 6 0) (our_ip b)"
  let ?req = "ethernet_frame ETH_BROADCAST_MAC (our_mac a) ETH_TYPE_ARP ?P"
  let ?b' = "snd (ethernet_receive b ?req)"
  let ?w = "arp_send_request (a\<lparr>arp_waiting := True, arp_waiting_ip := our_ip b, arp_resolved := False\<rparr>) (our_ip b)"
  let ?a' = "(arp_add_entry ?w (our_ip b) (our_mac b))
     \<lparr>arp_waiting_mac := our_mac b, arp_resolved := True, arp_waiting := False\<rparr>"
  have ua: "usable_binding (our_ip a) (our_mac a)" and ub: "usable_binding (our_ip b) (our_mac b)"
    using a b by (auto simp: host_ok_def)
  then have len: "length (our_mac a) = 6" "length (our_mac b) = 6" "our_ip b \<noteq> 0" "our_ip b \<noteq> 0xFFFFFFFF"
    by (auto simp: usable_binding_def)
  have fr: "frames_out (arp_send_request a (our_ip b)) = frames_out a @ [?req]"
    using len by (simp add: arp_send_request_def ethernet_send_out ETH_DATA_LEN_def)
  have rb: "ethernet_receive b ?req = (None, ?b')"
    using len by (simp add: ethernet_receive_frame)
  note ans = arp_request_answered [OF ua b]
  have w: "arp_waiting ?w" "arp_waiting_ip ?w = our_ip b" "our_mac ?w = our_mac a" "arp_table ?w = arp_table a"
    "\<not> arp_resolved ?w"
    using len by (simp_all add: arp_send_request_def)
  note res = arp_reply_resolves [OF w(1,2) _ ub, of "our_ip a"]
  have r: "arp_resolve a (our_ip b) [[last (frames_out ?b')]] = (Some (our_mac b), [], ?a')"
    unfolding ans(1) using res w len miss by (simp add: arp_resolve_def eth_mac_copy_def)
  have t: "arp_table ?a' = arp_table (arp_add_entry ?w (our_ip b) (our_mac b))" by simp
  have "arp_inv ?w" using a arp_inv_cong [OF w(4)] by (simp add: host_ok_def)
  then have "arp_inv ?a'" "arp_lookup ?a' (our_ip b) = Some (our_mac b)"
    using arp_add_inv ub arp_add_lookup arp_inv_cong [OF t] arp_lookup_cong [OF t] by auto
  then show ?thesis
    using fr rb ans(2,3) r by (intro exI [of _ ?req] exI [of _ "last (frames_out ?b')"] exI [of _ ?b'] exI [of _ ?a']) simp
qed

text \<open>
  The ARP table is a cache: adding a usable binding makes \<open>arp_lookup\<close> return it, leaves every
  other address as it was, and only when the table is full and the address is new forgets the
  address of entry 0; the table keeps at most one entry for an address and only usable bindings.
  An unusable binding (address 0 or all ones, MAC all zeros or all ones) is never stored.
\<close>

theorem arp_add_correct:
  assumes "arp_inv l" and "length m = 6"
  shows "arp_inv (arp_add_entry l ip m) \<and>
    (usable_binding ip m \<longrightarrow> arp_lookup (arp_add_entry l ip m) ip = Some m) \<and>
    (\<not> usable_binding ip m \<longrightarrow> arp_add_entry l ip m = l) \<and>
    (\<forall>ip'. ip' \<noteq> ip \<longrightarrow> arp_lookup (arp_add_entry l ip m) ip' =
       (if usable_binding ip m \<and> arp_evicted l ip ip' then None else arp_lookup l ip'))"
proof (cases "usable_binding ip m")
  case True
  then show ?thesis using arp_add_inv arp_add_lookup arp_add_other assms by simp
next
  case False
  then have "arp_add_entry l ip m = l" using assms by (simp add: arp_add_entry_def usable_binding_def)
  then show ?thesis using False assms by simp
qed

definition demo_host :: "u8 \<Rightarrow> u32 \<Rightarrow> link" where
  "demo_host n ip = \<lparr>arp_table = replicate 32 \<lparr>a_ip = 0, a_mac = [], a_valid = False\<rparr>, arp_waiting = False,
     arp_waiting_ip = 0, arp_waiting_mac = replicate 6 0, arp_resolved = False,
     our_mac = [2, 0, 0, 0, 0, n], our_ip = ip, netmask = 0x00FFFFFF, gateway = 0,
     nic_results = [True], frames_out = []\<rparr>"

lemma demo_host_ok: "ip \<noteq> 0 \<Longrightarrow> ip \<noteq> 0xFFFFFFFF \<Longrightarrow> host_ok (demo_host n ip)"
  by (simp add: host_ok_def demo_host_def arp_inv_def usable_binding_def ARP_TABLE_SIZE_def
      arp_mac_is_unusable_def upt_rec)

lemma demo_host_lookup: "arp_lookup (demo_host n ip) ip' = None"
proof -
  have "find_idx (\<lambda>e. a_valid e \<and> a_ip e = ip') (arp_table (demo_host n ip)) = None"
    by (simp add: find_idx_None demo_host_def)
  then show ?thesis by (simp add: arp_lookup_def)
qed

theorem arp_exchange_witness:
  "host_ok (demo_host 1 0x0100000A) \<and> host_ok (demo_host 2 0x0200000A) \<and>
   arp_lookup (demo_host 1 0x0100000A) (our_ip (demo_host 2 0x0200000A)) = None \<and>
   (\<exists>rep a'. arp_resolve (demo_host 1 0x0100000A) 0x0200000A [[rep]] = (Some [2, 0, 0, 0, 0, 2], [], a'))"
proof -
  let ?a = "demo_host 1 0x0100000A" and ?b = "demo_host 2 0x0200000A"
  have h: "host_ok ?a" "host_ok ?b" "arp_lookup ?a (our_ip ?b) = None"
    by (simp_all add: demo_host_ok demo_host_lookup)
  have o: "our_ip ?b = 0x0200000A" "our_mac ?b = [2, 0, 0, 0, 0, 2]" by (simp_all add: demo_host_def)
  show ?thesis using arp_exchange [OF h] h unfolding o by blast
qed

theorem arp_add_correct_witness:
  "arp_inv (demo_host 1 0x0100000A) \<and> usable_binding 0x0200000A [2, 0, 0, 0, 0, 2] \<and>
   arp_lookup (arp_add_entry (demo_host 1 0x0100000A) 0x0200000A [2, 0, 0, 0, 0, 2]) 0x0200000A =
     Some [2, 0, 0, 0, 0, 2]"
proof -
  have h: "arp_inv (demo_host 1 0x0100000A)" using demo_host_ok [of "0x0100000A" 1] by (simp add: host_ok_def)
  have u: "usable_binding 0x0200000A [2, 0, 0, 0, 0, 2]"
    by (simp add: usable_binding_def arp_mac_is_unusable_def upt_rec)
  show ?thesis using arp_add_correct [OF h, of "[2, 0, 0, 0, 0, 2]" "0x0200000A"] h u by simp
qed

end
