(* ===== verification/Ipv4.thy ===== *)
theory Ipv4
  imports Link
begin

text \<open>
  IPv4, \<open>src/net/ipv4.cpp\<close>: \<open>ipv4_send\<close> chooses the next hop, resolves it, builds the header and
  hands the packet to Ethernet; \<open>ipv4_receive\<close> checks a packet and hands its payload to ICMP, UDP or
  TCP.  The handler that a packet goes to is a value of \<open>delivery\<close>.  A \<open>static\<close> send buffer is written
  in full before it is sent, so it is not part of the state.
\<close>

section \<open>Operations\<close>

record ip_state =
  lnk :: link
  ip_id_counter :: u16

datatype delivery = To_icmp "u8 list" u32 | To_udp "u8 list" u32 u32 | To_tcp "u8 list" u32 u32

definition IP_PROTO_ICMP :: u8 where "IP_PROTO_ICMP = 1"
definition IP_PROTO_TCP :: u8 where "IP_PROTO_TCP = 6"
definition IP_PROTO_UDP :: u8 where "IP_PROTO_UDP = 17"
definition IPV4_HEADER_SIZE :: nat where "IPV4_HEADER_SIZE = 20"
definition IPV4_DEFAULT_TTL :: u8 where "IPV4_DEFAULT_TTL = 64"

definition ipv4_init :: "ip_state \<Rightarrow> ip_state" where
  "ipv4_init s = s\<lparr>ip_id_counter := 0\<rparr>"

definition ip_make :: "u8 \<Rightarrow> u8 \<Rightarrow> u8 \<Rightarrow> u8 \<Rightarrow> u32" where
  "ip_make a b c d =
     ucast a OR push_bit 8 (ucast b) OR push_bit 16 (ucast c) OR push_bit 24 (ucast d)"

definition append_num :: "u8 \<Rightarrow> nat list" where
  "append_num n =
     (let n = unat n in
      (if n \<ge> 100 then [48 + n div 100] else []) @
      (if n \<ge> 10 then [48 + n div 10 mod 10] else []) @ [48 + n mod 10])"

definition ip_format :: "u32 \<Rightarrow> nat list" where
  "ip_format ip =
     append_num (ucast (ip AND 0xFF)) @ [46] @ append_num (ucast (drop_bit 8 ip AND 0xFF)) @ [46] @
     append_num (ucast (drop_bit 16 ip AND 0xFF)) @ [46] @ append_num (ucast (drop_bit 24 ip AND 0xFF)) @ [0]"

definition deliver :: "u8 \<Rightarrow> u8 list \<Rightarrow> u32 \<Rightarrow> u32 \<Rightarrow> delivery option" where
  "deliver protocol payload src dst =
     (if protocol = IP_PROTO_ICMP then Some (To_icmp payload src)
      else if protocol = IP_PROTO_UDP then Some (To_udp payload src dst)
      else if protocol = IP_PROTO_TCP then Some (To_tcp payload src dst)
      else None)"

definition ipv4_receive :: "u32 \<Rightarrow> u8 list \<Rightarrow> delivery option" where
  "ipv4_receive our data =
     (if length data < IPV4_HEADER_SIZE then None
      else if drop_bit 4 (data ! 0) AND 0x0F \<noteq> 4 then None
      else
        let ihl = unat ((data ! 0 AND 0x0F) * 4) in
        if ihl < 20 \<or> ihl > length data then None
        else
          let orig_checksum = load16 data 10; header_copy = take 10 data @ [0, 0] @ drop 12 (take ihl data) in
          if orig_checksum \<noteq> 0 \<and> ipv4_checksum header_copy \<noteq> orig_checksum then None
          else
            let dst_ip = load32 data 16 in
            if dst_ip \<noteq> our \<and> dst_ip \<noteq> 0xFFFFFFFF \<and> dst_ip AND 0xFF000000 \<noteq> 0xFF000000 then None
            else
              let total_length = unat (ntohs (load16 data 2)) in
              if total_length < ihl \<or> total_length > length data then None
              else deliver (data ! 9) (take (total_length - ihl) (drop ihl data)) (load32 data 12) dst_ip)"

definition ipv4_header :: "u16 \<Rightarrow> u16 \<Rightarrow> u8 \<Rightarrow> u16 \<Rightarrow> u32 \<Rightarrow> u32 \<Rightarrow> u8 list" where
  "ipv4_header total_length identification protocol checksum src_ip dst_ip =
     [0x45, 0] @ le_bytes 2 (htons total_length) @ le_bytes 2 (htons identification) @ le_bytes 2 (0 :: u16) @
     [IPV4_DEFAULT_TTL, protocol] @ le_bytes 2 checksum @ le_bytes 4 src_ip @ le_bytes 4 dst_ip"

definition ipv4_packet :: "u16 \<Rightarrow> u8 \<Rightarrow> u32 \<Rightarrow> u32 \<Rightarrow> u8 list \<Rightarrow> u8 list" where
  "ipv4_packet identification protocol src_ip dst_ip data =
     (let total_length = of_nat (IPV4_HEADER_SIZE + length data);
          checksum = ipv4_checksum (ipv4_header total_length identification protocol 0 src_ip dst_ip)
      in ipv4_header total_length identification protocol checksum src_ip dst_ip @ data)"

definition next_hop :: "link \<Rightarrow> u32 \<Rightarrow> u32" where
  "next_hop l dst_ip =
     (if dst_ip = 0xFFFFFFFF then dst_ip
      else if dst_ip AND netmask l = our_ip l AND netmask l then dst_ip
      else if gateway l \<noteq> 0 then gateway l
      else dst_ip)"

definition ipv4_send ::
  "ip_state \<Rightarrow> u32 \<Rightarrow> u8 \<Rightarrow> u8 list \<Rightarrow> u8 list list list \<Rightarrow> bool \<times> u8 list list \<times> ip_state" where
  "ipv4_send s dst_ip protocol data polls =
     (if dst_ip = 0 then (False, [], s)
      else if length data > 1480 then (False, [], s)
      else
        case arp_resolve (lnk s) (next_hop (lnk s) dst_ip) polls of
          (None, ps, l) \<Rightarrow> (False, ps, s\<lparr>lnk := l\<rparr>)
        | (Some dst_mac, ps, l) \<Rightarrow>
            let (r, l') = ethernet_send l dst_mac ETH_TYPE_IPV4
                            (ipv4_packet (ip_id_counter s) protocol (our_ip l) dst_ip data)
            in (r, ps, s\<lparr>lnk := l', ip_id_counter := ip_id_counter s + 1\<rparr>))"

section \<open>Addresses\<close>

lemma le_bytes_ip_make: "le_bytes 4 (ip_make a b c d) = [a, b, c, d]"
proof (rule nth_equalityI)
  fix k assume "k < length (le_bytes 4 (ip_make a b c d))"
  then have k: "k < 4" by simp
  then have "k = 0 \<or> k = 1 \<or> k = 2 \<or> k = 3" by linarith
  then show "le_bytes 4 (ip_make a b c d) ! k = [a, b, c, d] ! k"
    using k by (intro bit_word_eqI) (auto simp: bit_le_bytes ip_make_def bit_simps dest: bit_imp_le_length)
qed simp

section \<open>Round trip\<close>

lemma length_ipv4_header [simp]: "length (ipv4_header n i p c s d) = 20"
  by (simp add: ipv4_header_def)

lemma le_bytes_0 [simp]: "le_bytes 2 (0 :: u16) = [0, 0]"
  by (simp add: numeral_2_eq_2)

lemma ihl_0x45: "unat ((0x45 AND 0x0F :: u8) * 4) = 20" "drop_bit 4 (0x45 :: u8) AND 0x0F = 4"
  by simp_all

lemma ipv4_receive_header:
  assumes t: "unat t = 20 + length data" and c: "c = ipv4_checksum (ipv4_header t ident proto 0 src dst)"
    and dst: "dst = our \<or> dst = 0xFFFFFFFF"
  shows "ipv4_receive our (ipv4_header t ident proto c src dst @ data @ pad) = deliver proto data src dst"
proof -
  let ?h = "ipv4_header t ident proto c src dst"
  have f: "load16 ?h 10 = c" "load16 ?h 2 = htons t" "load32 ?h 12 = src" "load32 ?h 16 = dst" "?h ! 9 = proto"
    "?h ! 0 = 0x45"
    by (simp_all add: ipv4_header_def wire nth_append)
  have z: "take 10 ?h @ [0, 0] @ drop 12 ?h = ipv4_header t ident proto 0 src dst"
    by (simp add: ipv4_header_def take_Cons' drop_Cons')
  have g: "(?h @ data @ pad) ! 9 = proto" "(?h @ data @ pad) ! 0 = 0x45"
    using f by (simp_all add: nth_append)
  show ?thesis
    unfolding ipv4_receive_def Let_def g ihl_0x45
    using dst z c [symmetric] by (simp add: wire f t IPV4_HEADER_SIZE_def) blast
qed

lemma ipv4_receive_packet:
  assumes len: "length data \<le> 1480" and dst: "dst = our \<or> dst = 0xFFFFFFFF"
  shows "ipv4_receive our (ipv4_packet ident proto src dst data @ pad) = deliver proto data src dst"
proof -
  have "unat (of_nat (IPV4_HEADER_SIZE + length data) :: u16) = 20 + length data"
    using len by (subst unat_of_nat_small) (auto simp: IPV4_HEADER_SIZE_def)
  from ipv4_receive_header [OF this refl dst] show ?thesis
    by (simp only: ipv4_packet_def Let_def append_assoc)
qed


lemma arp_resolve_cached:
  "ip \<noteq> 0 \<Longrightarrow> ip \<noteq> 0xFFFFFFFF \<Longrightarrow> arp_lookup l ip = Some m \<Longrightarrow> arp_resolve l ip polls = (Some m, [], l)"
  by (simp add: arp_resolve_def)

lemma length_ipv4_packet [simp]: "length (ipv4_packet i p s d data) = 20 + length data"
  by (simp add: ipv4_packet_def Let_def)

text \<open>What \<open>ipv4_send\<close> puts on the wire when the next hop is in the ARP table.\<close>

lemma ipv4_send_cached:
  assumes "dst \<noteq> 0" "next_hop (lnk a) dst \<noteq> 0" "next_hop (lnk a) dst \<noteq> 0xFFFFFFFF" "length data \<le> 1480"
    and "arp_lookup (lnk a) (next_hop (lnk a) dst) = Some m" and "\<not> eth_mac_is_zero m"
  shows "ipv4_send a dst proto data polls =
    (let (r, l) = net_send_raw (lnk a) (ethernet_frame m (our_mac (lnk a)) ETH_TYPE_IPV4
                     (ipv4_packet (ip_id_counter a) proto (our_ip (lnk a)) dst data))
     in (r, [], a\<lparr>lnk := l, ip_id_counter := ip_id_counter a + 1\<rparr>))"
  using assms by (simp add: ipv4_send_def arp_resolve_cached ethernet_send_def ETH_DATA_LEN_def)

text \<open>The frame that carries a payload from host \<open>a\<close> to host \<open>b\<close>, and its two ends.\<close>

abbreviation ipv4_frame :: "ip_state \<Rightarrow> link \<Rightarrow> u8 \<Rightarrow> u8 list \<Rightarrow> u8 list" where
  "ipv4_frame a b proto data \<equiv>
     ethernet_frame (our_mac b) (our_mac (lnk a)) ETH_TYPE_IPV4
       (ipv4_packet (ip_id_counter a) proto (our_ip (lnk a)) (our_ip b) data)"

definition reaches :: "ip_state \<Rightarrow> link \<Rightarrow> bool" where
  "reaches a b \<longleftrightarrow> host_ok (lnk a) \<and> host_ok b \<and> next_hop (lnk a) (our_ip b) = our_ip b \<and>
     arp_lookup (lnk a) (our_ip b) = Some (our_mac b)"

lemma ipv4_send_frame:
  assumes r: "reaches a b" and len: "length data \<le> 1480"
  obtains r l where "ipv4_send a (our_ip b) proto data polls = (r, [], a\<lparr>lnk := l, ip_id_counter := ip_id_counter a + 1\<rparr>)"
    and "frames_out l = frames_out (lnk a) @ [ipv4_frame a b proto data]"
proof -
  obtain r l where raw: "net_send_raw (lnk a) (ipv4_frame a b proto data) = (r, l)" by fastforce
  have u: "our_ip b \<noteq> 0" "our_ip b \<noteq> 0xFFFFFFFF" "\<not> eth_mac_is_zero (our_mac b)"
    using r usable_not_zero by (auto simp: reaches_def host_ok_def usable_binding_def)
  have "ipv4_send a (our_ip b) proto data polls = (r, [], a\<lparr>lnk := l, ip_id_counter := ip_id_counter a + 1\<rparr>)"
    using u r len raw by (subst ipv4_send_cached) (auto simp: reaches_def)
  moreover have "frames_out l = frames_out (lnk a) @ [ipv4_frame a b proto data]"
    using raw by (auto simp: net_send_raw_def Let_def split: list.splits)
  ultimately show ?thesis by (rule that)
qed

lemma ipv4_frame_received:
  assumes r: "reaches a b" and len: "length data \<le> 1480"
  obtains packet where "ethernet_receive b (ipv4_frame a b proto data) = (Some packet, b)"
    and "ipv4_receive (our_ip b) packet = deliver proto data (our_ip (lnk a)) (our_ip b)"
proof -
  let ?p = "ipv4_packet (ip_id_counter a) proto (our_ip (lnk a)) (our_ip b) data"
  have u: "length (our_mac b) = 6" "length (our_mac (lnk a)) = 6"
    using r by (auto simp: reaches_def host_ok_def usable_binding_def)
  have "ethernet_receive b (ipv4_frame a b proto data) = (Some (?p @ padding ?p), b)"
    using u by (simp add: ethernet_receive_frame ETH_TYPE_IPV4_def ETH_TYPE_ARP_def)
  moreover have "ipv4_receive (our_ip b) (?p @ padding ?p) = deliver proto data (our_ip (lnk a)) (our_ip b)"
    using len by (intro ipv4_receive_packet) simp_all
  ultimately show ?thesis by (rule that)
qed

text \<open>
  C20.  A packet crosses one Ethernet segment unchanged: when \<open>ipv4_send\<close> on host \<open>a\<close> sends a payload of at
  most 1480 bytes to the address of host \<open>b\<close>, which is on the same network and in \<open>a\<close>'s ARP table, then
  exactly one frame is handed to the card, \<open>b\<close> accepts that frame, and \<open>ipv4_receive\<close> on \<open>b\<close> hands exactly
  the payload, without the Ethernet padding, to the protocol's handler with \<open>a\<close>'s address as the
  source.  A longer payload is refused before anything is sent.
\<close>

theorem ipv4_roundtrip:
  assumes r: "reaches a b"
  shows "if length data \<le> 1480
    then \<exists>r frame packet a'. ipv4_send a (our_ip b) proto data polls = (r, [], a') \<and>
      frames_out (lnk a') = frames_out (lnk a) @ [frame] \<and> ip_id_counter a' = ip_id_counter a + 1 \<and>
      ethernet_receive b frame = (Some packet, b) \<and>
      ipv4_receive (our_ip b) packet = deliver proto data (our_ip (lnk a)) (our_ip b)
    else ipv4_send a (our_ip b) proto data polls = (False, [], a)"
proof (cases "length data \<le> 1480")
  case len: True
  obtain r l where s: "ipv4_send a (our_ip b) proto data polls = (r, [], a\<lparr>lnk := l, ip_id_counter := ip_id_counter a + 1\<rparr>)"
    "frames_out l = frames_out (lnk a) @ [ipv4_frame a b proto data]"
    by (rule ipv4_send_frame [OF r len])
  obtain packet where p: "ethernet_receive b (ipv4_frame a b proto data) = (Some packet, b)"
    "ipv4_receive (our_ip b) packet = deliver proto data (our_ip (lnk a)) (our_ip b)"
    by (rule ipv4_frame_received [OF r len])
  have "\<exists>r frame packet a'. ipv4_send a (our_ip b) proto data polls = (r, [], a') \<and>
      frames_out (lnk a') = frames_out (lnk a) @ [frame] \<and> ip_id_counter a' = ip_id_counter a + 1 \<and>
      ethernet_receive b frame = (Some packet, b) \<and>
      ipv4_receive (our_ip b) packet = deliver proto data (our_ip (lnk a)) (our_ip b)"
    using s p by (intro exI conjI) auto
  then show ?thesis using len by simp
next
  case False
  then show ?thesis by (simp add: ipv4_send_def)
qed

definition demo_ip :: "u8 \<Rightarrow> u32 \<Rightarrow> u32 \<Rightarrow> mac \<Rightarrow> ip_state" where
  "demo_ip n ip ip' m = \<lparr>lnk = arp_add_entry (demo_host n ip) ip' m, ip_id_counter = 7\<rparr>"

lemma demo_ip_ok:
  assumes "ip \<noteq> 0" "ip \<noteq> 0xFFFFFFFF" "usable_binding ip' m"
  shows "host_ok (lnk (demo_ip n ip ip' m))" "arp_lookup (lnk (demo_ip n ip ip' m)) ip' = Some m"
proof -
  have h: "arp_inv (demo_host n ip)" "usable_binding ip (our_mac (demo_host n ip))" "our_ip (demo_host n ip) = ip"
    using demo_host_ok [OF assms(1,2), of n] by (auto simp: host_ok_def demo_host_def)
  show "host_ok (lnk (demo_ip n ip ip' m))"
    using arp_add_inv [OF h(1) assms(3)] h by (simp add: host_ok_def demo_ip_def)
  show "arp_lookup (lnk (demo_ip n ip ip' m)) ip' = Some m"
    using arp_add_lookup [OF h(1) assms(3)] by (simp add: demo_ip_def)
qed

lemma demo_binding: "usable_binding 0x0200000A [2, 0, 0, 0, 0, 2]"
  by (simp add: usable_binding_def arp_mac_is_unusable_def upt_rec)

lemma demo_next_hop: "next_hop (lnk (demo_ip 1 0x0100000A 0x0200000A [2, 0, 0, 0, 0, 2])) 0x0200000A = 0x0200000A"
  by (simp add: next_hop_def demo_ip_def arp_add_entry_def demo_host_def Let_def split: option.splits)

lemma demo_reaches:
  "reaches (demo_ip 1 0x0100000A 0x0200000A [2, 0, 0, 0, 0, 2]) (demo_host 2 0x0200000A)"
proof -
  have o: "our_ip (demo_host 2 0x0200000A) = 0x0200000A" "our_mac (demo_host 2 0x0200000A) = [2, 0, 0, 0, 0, 2]"
    by (simp_all add: demo_host_def)
  show ?thesis
    using demo_ip_ok [OF _ _ demo_binding, of "0x0100000A" 1] demo_host_ok demo_next_hop
    by (simp add: reaches_def o)
qed

theorem ipv4_roundtrip_witness:
  "reaches (demo_ip 1 0x0100000A 0x0200000A [2, 0, 0, 0, 0, 2]) (demo_host 2 0x0200000A) \<and>
   (\<exists>packet. ipv4_receive (our_ip (demo_host 2 0x0200000A)) packet =
      Some (To_udp [1, 2, 3] (our_ip (lnk (demo_ip 1 0x0100000A 0x0200000A [2, 0, 0, 0, 0, 2])))
              (our_ip (demo_host 2 0x0200000A))))"
  using ipv4_roundtrip [OF demo_reaches, of "[1, 2, 3]" IP_PROTO_UDP "[]"] demo_reaches
  by (auto simp: deliver_def IP_PROTO_UDP_def IP_PROTO_ICMP_def)

end
