(* ===== verification/Udp.thy ===== *)
theory Udp
  imports Ipv4
begin

text \<open>
  UDP, \<open>src/net/udp.cpp\<close>: sixteen sockets with one receive buffer each, on top of \<open>ipv4_send\<close>.  A
  datagram for the DHCP client port with no socket bound to it is returned for \<open>dhcp_receive\<close>.
\<close>

section \<open>State and operations\<close>

record UdpSocket =
  u_in_use :: bool
  u_port :: u16
  u_bound :: bool
  u_rx_buffer :: "u8 list"
  u_rx_length :: nat
  u_rx_src_ip :: u32
  u_rx_src_port :: u16
  u_rx_ready :: bool

record udp_state =
  u_sockets :: "UdpSocket list"
  u_ip :: ip_state

definition UDP_HEADER_SIZE :: nat where "UDP_HEADER_SIZE = 8"
definition UDP_MAX_SOCKETS :: nat where "UDP_MAX_SOCKETS = 16"
definition UDP_RX_SIZE :: nat where "UDP_RX_SIZE = 1500"

definition udp_init :: "udp_state \<Rightarrow> udp_state" where
  "udp_init s = s\<lparr>u_sockets := map (\<lambda>k. k\<lparr>u_in_use := False, u_bound := False, u_rx_ready := False\<rparr>) (u_sockets s)\<rparr>"

definition udp_pseudo_header :: "u32 \<Rightarrow> u32 \<Rightarrow> nat \<Rightarrow> u8 list" where
  "udp_pseudo_header src_ip dst_ip len =
     le_bytes 4 src_ip @ le_bytes 4 dst_ip @ [0, IP_PROTO_UDP] @ le_bytes 2 (htons (of_nat len))"

definition udp_checksum :: "u32 \<Rightarrow> u32 \<Rightarrow> u8 list \<Rightarrow> u16" where
  "udp_checksum src_ip dst_ip udp_data =
     ipv4_checksum (udp_pseudo_header src_ip dst_ip (length udp_data) @ udp_data)"

definition udp_store :: "UdpSocket \<Rightarrow> u8 list \<Rightarrow> u32 \<Rightarrow> u16 \<Rightarrow> UdpSocket" where
  "udp_store k payload src_ip src_port =
     (let stored = take UDP_RX_SIZE payload in
      k\<lparr>u_rx_buffer := stored @ drop (length stored) (u_rx_buffer k), u_rx_length := length stored,
        u_rx_src_ip := src_ip, u_rx_src_port := src_port, u_rx_ready := True\<rparr>)"

abbreviation bound_to :: "u16 \<Rightarrow> UdpSocket \<Rightarrow> bool" where
  "bound_to port k \<equiv> u_in_use k \<and> u_bound k \<and> u_port k = port"

definition udp_receive :: "udp_state \<Rightarrow> u8 list \<Rightarrow> u32 \<Rightarrow> u8 list option \<times> udp_state" where
  "udp_receive s data src_ip =
     (if length data < UDP_HEADER_SIZE then (None, s)
      else
        let src_port = ntohs (load16 data 0); dst_port = ntohs (load16 data 2);
            udp_len = unat (ntohs (load16 data 4)) in
        if udp_len < UDP_HEADER_SIZE \<or> udp_len > length data then (None, s)
        else
          let payload = take (udp_len - UDP_HEADER_SIZE) (drop UDP_HEADER_SIZE data) in
          case find_idx (bound_to dst_port) (u_sockets s) of
            Some i \<Rightarrow>
              (None, s\<lparr>u_sockets := (u_sockets s)[i := udp_store (u_sockets s ! i) payload src_ip src_port]\<rparr>)
          | None \<Rightarrow> (if dst_port = 68 then Some payload else None, s))"

definition udp_header :: "u16 \<Rightarrow> u16 \<Rightarrow> nat \<Rightarrow> u16 \<Rightarrow> u8 list" where
  "udp_header src_port dst_port len checksum =
     le_bytes 2 (htons src_port) @ le_bytes 2 (htons dst_port) @
     le_bytes 2 (htons (of_nat (UDP_HEADER_SIZE + len))) @ le_bytes 2 checksum"

definition udp_packet :: "u32 \<Rightarrow> u32 \<Rightarrow> u16 \<Rightarrow> u16 \<Rightarrow> u8 list \<Rightarrow> u8 list" where
  "udp_packet src_ip dst_ip src_port dst_port data =
     (let c = udp_checksum src_ip dst_ip (udp_header src_port dst_port (length data) 0 @ data)
      in udp_header src_port dst_port (length data) (if c = 0 then 0xFFFF else c) @ data)"

definition udp_send ::
  "udp_state \<Rightarrow> u32 \<Rightarrow> u16 \<Rightarrow> u16 \<Rightarrow> u8 list \<Rightarrow> u8 list list list \<Rightarrow> bool \<times> u8 list list \<times> udp_state" where
  "udp_send s dst_ip src_port dst_port data polls =
     (if dst_ip = 0 \<or> src_port = 0 \<or> dst_port = 0 then (False, [], s)
      else if length data > 1472 then (False, [], s)
      else
        let (r, ps, ip) = ipv4_send (u_ip s) dst_ip IP_PROTO_UDP
              (udp_packet (our_ip (lnk (u_ip s))) dst_ip src_port dst_port data) polls
        in (r, ps, s\<lparr>u_ip := ip\<rparr>))"

definition udp_socket :: "udp_state \<Rightarrow> int \<times> udp_state" where
  "udp_socket s =
     (case find_idx (\<lambda>k. \<not> u_in_use k) (u_sockets s) of
        None \<Rightarrow> (-1, s)
      | Some i \<Rightarrow>
          (int i, s\<lparr>u_sockets := (u_sockets s)[i := (u_sockets s ! i)
             \<lparr>u_in_use := True, u_bound := False, u_rx_ready := False\<rparr>]\<rparr>))"

definition udp_bad :: "udp_state \<Rightarrow> int \<Rightarrow> bool" where
  "udp_bad s sock \<longleftrightarrow> sock < 0 \<or> sock \<ge> int UDP_MAX_SOCKETS \<or> \<not> u_in_use (u_sockets s ! nat sock)"

definition udp_bind :: "udp_state \<Rightarrow> int \<Rightarrow> u16 \<Rightarrow> bool \<times> udp_state" where
  "udp_bind s sock port =
     (if udp_bad s sock then (False, s)
      else if find_idx (bound_to port) (u_sockets s) \<noteq> None then (False, s)
      else (True, s\<lparr>u_sockets := (u_sockets s)[nat sock := (u_sockets s ! nat sock)
              \<lparr>u_port := port, u_bound := True, u_rx_ready := False\<rparr>]\<rparr>))"

definition udp_sendto ::
  "udp_state \<Rightarrow> int \<Rightarrow> u32 \<Rightarrow> u16 \<Rightarrow> u8 list \<Rightarrow> u8 list list list \<Rightarrow> bool \<times> u8 list list \<times> udp_state" where
  "udp_sendto s sock dst_ip dst_port data polls =
     (if udp_bad s sock then (False, [], s)
      else
        let k = u_sockets s ! nat sock; src_port = (if u_bound k then u_port k else 49152)
        in udp_send s dst_ip src_port dst_port data polls)"

text \<open>The result of \<open>udp_recvfrom\<close>: the return value, the bytes written to the buffer, and the sender
  written through the pointers.\<close>

definition udp_recvfrom :: "udp_state \<Rightarrow> int \<Rightarrow> nat \<Rightarrow> (int \<times> u8 list \<times> (u32 \<times> u16) option) \<times> udp_state" where
  "udp_recvfrom s sock max_len =
     (if udp_bad s sock \<or> \<not> u_bound (u_sockets s ! nat sock) then ((-1, [], None), s)
      else
        let k = u_sockets s ! nat sock in
        if \<not> u_rx_ready k then ((0, [], None), s)
        else
          let n = min (u_rx_length k) max_len in
          ((int n, take n (u_rx_buffer k), Some (u_rx_src_ip k, u_rx_src_port k)),
           s\<lparr>u_sockets := (u_sockets s)[nat sock := k\<lparr>u_rx_ready := False\<rparr>]\<rparr>))"

definition udp_close :: "udp_state \<Rightarrow> int \<Rightarrow> udp_state" where
  "udp_close s sock =
     (if sock \<ge> 0 \<and> sock < int UDP_MAX_SOCKETS
      then s\<lparr>u_sockets := (u_sockets s)[nat sock := (u_sockets s ! nat sock)
              \<lparr>u_in_use := False, u_bound := False, u_rx_ready := False\<rparr>]\<rparr>
      else s)"


section \<open>Datagrams\<close>

lemma length_udp_header [simp]: "length (udp_header sp dp n c) = 8"
  by (simp add: udp_header_def)

lemma length_udp_packet [simp]: "length (udp_packet si di sp dp data) = 8 + length data"
  by (simp add: udp_packet_def Let_def)

lemma udp_packet_header:
  obtains c where "udp_packet si di sp dp data = udp_header sp dp (length data) c @ data"
  by (auto simp: udp_packet_def Let_def)

lemma udp_packet_checksum:
  "udp_checksum si di (udp_packet si di sp dp data) = 0"
proof -
  let ?pre = "udp_pseudo_header si di (8 + length data) @ le_bytes 2 (htons sp) @ le_bytes 2 (htons dp) @
     le_bytes 2 (htons (of_nat (UDP_HEADER_SIZE + length data)))"
  have even: "even (length ?pre)" by (simp add: udp_pseudo_header_def)
  have f: "udp_pseudo_header si di (8 + length data) @ udp_header sp dp (length data) c @ data =
      ?pre @ le_bytes 2 c @ data" for c
    by (simp add: udp_header_def)
  let ?c = "udp_checksum si di (udp_header sp dp (length data) 0 @ data)"
  have n: "length (udp_header sp dp (length data) c @ data) = 8 + length data" for c
    by (simp add: add.commute)
  have c: "?c = ipv4_checksum (?pre @ [0, 0] @ data)"
    unfolding udp_checksum_def n using f [of 0] by (simp only: le_bytes_0)
  have "ipv4_checksum (?pre @ le_bytes 2 (if ?c = 0 then 0xFFFF else ?c) @ data) = 0"
    using checksum_verifies [OF even c] checksum_verifies_ones [OF even, of data] c by auto
  then show ?thesis
    unfolding f [symmetric] udp_packet_def Let_def udp_checksum_def [of _ _ "_ @ data"] n .
qed

lemma udp_receive_packet:
  assumes "length data \<le> 1472"
  shows "udp_receive s (udp_packet si di sp dp data) src =
    (case find_idx (bound_to dp) (u_sockets s) of
       Some i \<Rightarrow> (None, s\<lparr>u_sockets := (u_sockets s)[i := udp_store (u_sockets s ! i) data src sp]\<rparr>)
     | None \<Rightarrow> (if dp = 68 then Some data else None, s))"
proof -
  have l: "unat (of_nat (UDP_HEADER_SIZE + length data) :: u16) = 8 + length data"
    using assms by (subst unat_of_nat_small) (auto simp: UDP_HEADER_SIZE_def)
  obtain c where p: "udp_packet si di sp dp data = udp_header sp dp (length data) c @ data"
    by (rule udp_packet_header)
  have f: "load16 (udp_header sp dp (length data) c @ data) 0 = htons sp"
    "load16 (udp_header sp dp (length data) c @ data) 2 = htons dp"
    "ntohs (load16 (udp_header sp dp (length data) c @ data) 4) = of_nat (UDP_HEADER_SIZE + length data)"
    by (simp_all only: udp_header_def append_assoc) (simp_all add: wire)
  show ?thesis
    unfolding p udp_receive_def f l Let_def
    by (simp add: wire UDP_HEADER_SIZE_def cong: option.case_cong)
qed

section \<open>The socket table\<close>

definition udp_inv :: "udp_state \<Rightarrow> bool" where
  "udp_inv s \<longleftrightarrow>
     length (u_sockets s) = UDP_MAX_SOCKETS \<and>
     (\<forall>i < UDP_MAX_SOCKETS. length (u_rx_buffer (u_sockets s ! i)) = UDP_RX_SIZE) \<and>
     (\<forall>i < UDP_MAX_SOCKETS. u_rx_ready (u_sockets s ! i) \<longrightarrow> u_rx_length (u_sockets s ! i) \<le> UDP_RX_SIZE) \<and>
     (\<forall>i < UDP_MAX_SOCKETS. \<forall>j < UDP_MAX_SOCKETS.
        bound_to (u_port (u_sockets s ! i)) (u_sockets s ! i) \<and>
        bound_to (u_port (u_sockets s ! i)) (u_sockets s ! j) \<longrightarrow> i = j)"

lemma udp_inv_init:
  assumes "length (u_sockets s) = UDP_MAX_SOCKETS" "\<forall>k \<in> set (u_sockets s). length (u_rx_buffer k) = UDP_RX_SIZE"
  shows "udp_inv (udp_init s)"
  using assms by (auto simp: udp_inv_def udp_init_def)

text \<open>Every operation changes one socket: it keeps the invariant when the new socket is well formed
  and its port, if it is bound, is either its old one or free.\<close>

lemma udp_inv_update:
  assumes inv: "udp_inv s"
    and k: "length (u_rx_buffer k) = UDP_RX_SIZE" "u_rx_ready k \<Longrightarrow> u_rx_length k \<le> UDP_RX_SIZE"
    and p: "u_in_use k \<and> u_bound k \<Longrightarrow> i < UDP_MAX_SOCKETS \<Longrightarrow>
       bound_to (u_port k) (u_sockets s ! i) \<or> find_idx (bound_to (u_port k)) (u_sockets s) = None"
  shows "udp_inv (s\<lparr>u_sockets := (u_sockets s)[i := k]\<rparr>)"
proof (cases "i < UDP_MAX_SOCKETS")
  case i: True
  have len: "length (u_sockets s) = UDP_MAX_SOCKETS" using inv by (simp add: udp_inv_def)
  have one: "j = i" if j: "j < UDP_MAX_SOCKETS" "bound_to (u_port k) (u_sockets s ! j)" "u_in_use k" "u_bound k" for j
    using p
  proof
    assume "bound_to (u_port k) (u_sockets s ! i)"
    with j i inv show ?thesis unfolding udp_inv_def by simp
  next
    assume "find_idx (bound_to (u_port k)) (u_sockets s) = None"
    with j len show ?thesis by (auto simp: find_idx_None)
  qed (use that i in auto)
  let ?t = "(u_sockets s)[i := k]"
  have "a = b" if ab: "a < UDP_MAX_SOCKETS" "b < UDP_MAX_SOCKETS"
      "bound_to (u_port (?t ! a)) (?t ! a) \<and> bound_to (u_port (?t ! a)) (?t ! b)" for a b
  proof -
    consider "a = i" | "b = i" | "a \<noteq> i" "b \<noteq> i" by blast
    then show ?thesis
    proof cases
      case 1
      have "b = i"
      proof (rule ccontr)
        assume "b \<noteq> i"
        then have "bound_to (u_port k) (u_sockets s ! b)" "u_in_use k" "u_bound k" using ab 1 i len by simp_all
        then show False using one ab(2) \<open>b \<noteq> i\<close> by blast
      qed
      then show ?thesis using 1 by simp
    next
      case 2
      have "a = i"
      proof (rule ccontr)
        assume "a \<noteq> i"
        then have "bound_to (u_port k) (u_sockets s ! a)" "u_in_use k" "u_bound k" using ab 2 i len by simp_all
        then show False using one ab(1) \<open>a \<noteq> i\<close> by blast
      qed
      then show ?thesis using 2 by simp
    next
      case 3
      then show ?thesis using ab inv unfolding udp_inv_def by simp
    qed
  qed
  moreover have "length (u_rx_buffer (?t ! a)) = UDP_RX_SIZE \<and> (u_rx_ready (?t ! a) \<longrightarrow> u_rx_length (?t ! a) \<le> UDP_RX_SIZE)"
    if "a < UDP_MAX_SOCKETS" for a
    using inv k i len that unfolding udp_inv_def by (cases "a = i") auto
  ultimately show ?thesis
    unfolding udp_inv_def by (simp add: len)
next
  case False
  then have "(u_sockets s)[i := k] = u_sockets s" using inv by (intro list_update_beyond) (simp add: udp_inv_def)
  then show ?thesis using inv by simp
qed


text \<open>The steps of the table: the calls of user programs and the arrival of a datagram.\<close>

inductive udp_step :: "udp_state \<Rightarrow> udp_state \<Rightarrow> bool" where
  step_socket: "udp_step s (snd (udp_socket s))"
| step_bind: "udp_step s (snd (udp_bind s sock port))"
| step_recv: "udp_step s (snd (udp_recvfrom s sock n))"
| step_close: "udp_step s (udp_close s sock)"
| step_send: "udp_step s (snd (snd (udp_sendto s sock ip port data polls)))"
| step_receive: "udp_step s (snd (udp_receive s data src))"

inductive udp_reachable :: "udp_state \<Rightarrow> udp_state \<Rightarrow> bool" for s0 where
  reach_start: "udp_reachable s0 (udp_init s0)"
| reach_step: "udp_reachable s0 s \<Longrightarrow> udp_step s t \<Longrightarrow> udp_reachable s0 t"

lemma udp_good: "udp_inv s \<Longrightarrow> \<not> udp_bad s sock \<Longrightarrow>
    nat sock < UDP_MAX_SOCKETS \<and> u_in_use (u_sockets s ! nat sock)"
  by (auto simp: udp_bad_def)

lemma udp_inv_socket:
  assumes "udp_inv s" "i < UDP_MAX_SOCKETS"
  shows "length (u_rx_buffer (u_sockets s ! i)) = UDP_RX_SIZE"
    "u_rx_ready (u_sockets s ! i) \<Longrightarrow> u_rx_length (u_sockets s ! i) \<le> UDP_RX_SIZE"
  using assms by (auto simp: udp_inv_def)

lemma udp_store_buffer:
  "length (u_rx_buffer k) = UDP_RX_SIZE \<Longrightarrow> length (u_rx_buffer (udp_store k p ip sp)) = UDP_RX_SIZE"
  "u_rx_length (udp_store k p ip sp) \<le> UDP_RX_SIZE"
  by (auto simp: udp_store_def Let_def)

lemma udp_socket_inv: "udp_inv s \<Longrightarrow> udp_inv (snd (udp_socket s))"
  by (auto simp: udp_socket_def find_idx_Some udp_inv_def [THEN iffD1, THEN conjunct1] udp_inv_socket
      split: option.split intro!: udp_inv_update)

lemma udp_bind_inv:
  assumes inv: "udp_inv s"
  shows "udp_inv (snd (udp_bind s sock port))"
proof (cases "udp_bad s sock")
  case False
  then have "nat sock < UDP_MAX_SOCKETS" using udp_good inv by blast
  then show ?thesis
    using inv udp_inv_socket [OF inv, of "nat sock"]
    by (auto simp: udp_bind_def Let_def udp_bad_def intro!: udp_inv_update)
qed (simp add: udp_bind_def inv)

lemma udp_recvfrom_inv:
  assumes inv: "udp_inv s"
  shows "udp_inv (snd (udp_recvfrom s sock n))"
proof (cases "udp_bad s sock")
  case False
  then have "nat sock < UDP_MAX_SOCKETS" using udp_good inv by blast
  then show ?thesis
    using inv udp_inv_socket [OF inv, of "nat sock"]
    by (auto simp: udp_recvfrom_def Let_def udp_bad_def intro!: udp_inv_update)
qed (simp add: udp_recvfrom_def inv)

lemma udp_close_inv: "udp_inv s \<Longrightarrow> udp_inv (udp_close s sock)"
  by (auto simp: udp_close_def udp_inv_socket nat_less_iff intro!: udp_inv_update)

lemma udp_sendto_sockets: "u_sockets (snd (snd (udp_sendto s sock ip port data polls))) = u_sockets s"
  by (simp add: udp_sendto_def udp_send_def Let_def split: prod.split)

lemma udp_receive_inv: "udp_inv s \<Longrightarrow> udp_inv (snd (udp_receive s data src))"
  by (auto simp: udp_receive_def Let_def find_idx_Some udp_inv_def [THEN iffD1, THEN conjunct1] udp_inv_socket
      udp_store_buffer udp_store_def split: option.split intro!: udp_inv_update)

lemma udp_step_inv: "udp_step s t \<Longrightarrow> udp_inv s \<Longrightarrow> udp_inv t"
proof (induction rule: udp_step.induct)
  case (step_send s sock ip port data polls)
  then show ?case using udp_sendto_sockets [of s sock ip port data polls] by (simp add: udp_inv_def)
qed (auto simp: udp_socket_inv udp_bind_inv udp_recvfrom_inv udp_close_inv udp_receive_inv)


text \<open>
  C12.  A UDP port belongs to one socket: in every state that the socket calls and the arrival of
  datagrams can reach after \<open>udp_init\<close>, two bound sockets never have the same port; and \<open>udp_bind\<close>
  succeeds exactly on an open socket and a port that no bound socket has.
\<close>

theorem udp_port_exclusive:
  assumes reach: "udp_reachable s0 s"
    and table: "length (u_sockets s0) = UDP_MAX_SOCKETS" "\<forall>k \<in> set (u_sockets s0). length (u_rx_buffer k) = UDP_RX_SIZE"
  shows "(\<forall>i < UDP_MAX_SOCKETS. \<forall>j < UDP_MAX_SOCKETS.
            bound_to p (u_sockets s ! i) \<and> bound_to p (u_sockets s ! j) \<longrightarrow> i = j) \<and>
         (fst (udp_bind s sock p) \<longleftrightarrow>
            0 \<le> sock \<and> sock < int UDP_MAX_SOCKETS \<and> u_in_use (u_sockets s ! nat sock) \<and>
            (\<forall>i < UDP_MAX_SOCKETS. \<not> bound_to p (u_sockets s ! i)))"
proof -
  from reach have inv: "udp_inv s"
  proof (induction rule: udp_reachable.induct)
    case reach_start
    then show ?case using table by (rule udp_inv_init)
  next
    case (reach_step s t)
    then show ?case by (blast intro: udp_step_inv)
  qed
  then have len: "length (u_sockets s) = UDP_MAX_SOCKETS" by (simp add: udp_inv_def)
  have "find_idx (bound_to p) (u_sockets s) = None \<longleftrightarrow> (\<forall>i < UDP_MAX_SOCKETS. \<not> bound_to p (u_sockets s ! i))"
    using len by (simp add: find_idx_None all_set_conv_all_nth)
  then have "fst (udp_bind s sock p) \<longleftrightarrow>
      0 \<le> sock \<and> sock < int UDP_MAX_SOCKETS \<and> u_in_use (u_sockets s ! nat sock) \<and>
      (\<forall>i < UDP_MAX_SOCKETS. \<not> bound_to p (u_sockets s ! i))"
    by (auto simp: udp_bind_def udp_bad_def)
  moreover have "i = j" if "i < UDP_MAX_SOCKETS" "j < UDP_MAX_SOCKETS" "bound_to p (u_sockets s ! i)" "bound_to p (u_sockets s ! j)" for i j
    using inv that unfolding udp_inv_def by simp
  ultimately show ?thesis by blast
qed

lemma udp_recv_stored:
  assumes inv: "udp_inv s" and i: "i < UDP_MAX_SOCKETS" "bound_to dp (u_sockets s ! i)" and len: "length data \<le> UDP_RX_SIZE"
    and s'_def: "s' = s\<lparr>u_sockets := (u_sockets s)[i := udp_store (u_sockets s ! i) data src sp]\<rparr>"
  shows "fst (udp_recvfrom s' (int i) n) = (int (min (length data) n), take n data, Some (src, sp))"
    and "fst (udp_recvfrom (snd (udp_recvfrom s' (int i) n)) (int i) m) = (0, [], None)"
proof -
  have l: "length (u_sockets s) = UDP_MAX_SOCKETS" using inv by (simp add: udp_inv_def)
  have good: "\<not> udp_bad s' (int i)" using i l by (simp add: udp_bad_def s'_def udp_store_def Let_def)
  have t: "take (length data) (data @ xs) = data" for xs :: "u8 list" by simp
  show "fst (udp_recvfrom s' (int i) n) = (int (min (length data) n), take n data, Some (src, sp))"
    using good i l len by (simp add: udp_recvfrom_def s'_def udp_store_def Let_def min_def)
  show "fst (udp_recvfrom (snd (udp_recvfrom s' (int i) n)) (int i) m) = (0, [], None)"
    using good i l by (simp add: udp_recvfrom_def s'_def udp_store_def udp_bad_def Let_def)
qed

text \<open>
  C22.  A UDP datagram end to end: \<open>udp_sendto\<close> on a socket bound to port \<open>sp\<close> of host \<open>a\<close> puts one frame on the
  wire; host \<open>b\<close>'s Ethernet and IPv4 layers hand the datagram in it to \<open>udp_receive\<close>, with a checksum
  that verifies over the pseudo-header; the socket of \<open>b\<close> bound to the destination port then returns
  exactly the bytes sent (as many as its caller's buffer holds), with \<open>a\<close>'s address and port, once.
\<close>

theorem udp_end_to_end:
  assumes r: "reaches (u_ip a) (lnk (u_ip b))" and inv: "udp_inv b"
    and snd_ok: "\<not> udp_bad a sock" "bound_to sp (u_sockets a ! nat sock)" "sp \<noteq> 0"
    and rcv_ok: "i < UDP_MAX_SOCKETS" "bound_to dp (u_sockets b ! i)" "dp \<noteq> 0" and len: "length data \<le> 1472"
  defines "src \<equiv> our_ip (lnk (u_ip a))" and "dst \<equiv> our_ip (lnk (u_ip b))"
  shows "\<exists>r frame packet dgram a' b'.
    udp_sendto a sock dst dp data polls = (r, [], a') \<and>
    frames_out (lnk (u_ip a')) = frames_out (lnk (u_ip a)) @ [frame] \<and>
    ethernet_receive (lnk (u_ip b)) frame = (Some packet, lnk (u_ip b)) \<and>
    ipv4_receive dst packet = Some (To_udp dgram src dst) \<and> udp_checksum src dst dgram = 0 \<and>
    udp_receive b dgram src = (None, b') \<and>
    fst (udp_recvfrom b' (int i) n) = (int (min (length data) n), take n data, Some (src, sp)) \<and>
    fst (udp_recvfrom (snd (udp_recvfrom b' (int i) n)) (int i) m) = (0, [], None)"
proof -
  let ?d = "udp_packet src dst sp dp data"
  let ?b' = "b\<lparr>u_sockets := (u_sockets b)[i := udp_store (u_sockets b ! i) data src sp]\<rparr>"
  have dl: "length ?d \<le> 1480" using len by simp
  obtain r l where s: "ipv4_send (u_ip a) dst IP_PROTO_UDP ?d polls =
      (r, [], (u_ip a)\<lparr>lnk := l, ip_id_counter := ip_id_counter (u_ip a) + 1\<rparr>)"
    "frames_out l = frames_out (lnk (u_ip a)) @ [ipv4_frame (u_ip a) (lnk (u_ip b)) IP_PROTO_UDP ?d]"
    unfolding dst_def by (rule ipv4_send_frame [OF r dl [unfolded dst_def]])
  obtain packet where p: "ethernet_receive (lnk (u_ip b)) (ipv4_frame (u_ip a) (lnk (u_ip b)) IP_PROTO_UDP ?d) = (Some packet, lnk (u_ip b))"
    "ipv4_receive dst packet = deliver IP_PROTO_UDP ?d src dst"
    unfolding dst_def src_def by (rule ipv4_frame_received [OF r dl [unfolded dst_def src_def]])
  have "dst \<noteq> 0" using r by (simp add: reaches_def host_ok_def usable_binding_def dst_def)
  then have st: "udp_sendto a sock dst dp data polls =
      (r, [], a\<lparr>u_ip := (u_ip a)\<lparr>lnk := l, ip_id_counter := ip_id_counter (u_ip a) + 1\<rparr>\<rparr>)"
    using snd_ok rcv_ok len s by (simp add: udp_sendto_def udp_send_def Let_def src_def)
  have d: "deliver IP_PROTO_UDP ?d src dst = Some (To_udp ?d src dst)"
    by (simp add: deliver_def IP_PROTO_UDP_def IP_PROTO_ICMP_def)
  have "find_idx (bound_to dp) (u_sockets b) = Some i"
  proof (rule find_idx_unique)
    show "j = i" if "j < length (u_sockets b)" "bound_to dp (u_sockets b ! j)" for j
      using inv rcv_ok that unfolding udp_inv_def by simp
  qed (use inv rcv_ok in \<open>simp_all add: udp_inv_def\<close>)
  then have rc: "udp_receive b ?d src = (None, ?b')" using udp_receive_packet [OF len] by simp
  have "length data \<le> UDP_RX_SIZE" using len by (simp add: UDP_RX_SIZE_def)
  note rs = udp_recv_stored [OF inv rcv_ok(1,2) this refl]
  show ?thesis
    using s p st d rc rs udp_packet_checksum [of src dst sp dp data] by (intro exI conjI) (auto simp: d)
qed


definition demo_udp_socket :: "bool \<Rightarrow> u16 \<Rightarrow> UdpSocket" where
  "demo_udp_socket b port = \<lparr>u_in_use = b, u_port = port, u_bound = b, u_rx_buffer = replicate 1500 0,
     u_rx_length = 0, u_rx_src_ip = 0, u_rx_src_port = 0, u_rx_ready = False\<rparr>"

definition demo_udp :: "ip_state \<Rightarrow> u16 \<Rightarrow> udp_state" where
  "demo_udp ip port = \<lparr>u_sockets = demo_udp_socket True port # replicate 15 (demo_udp_socket False 0), u_ip = ip\<rparr>"

lemma demo_udp_inv: "udp_inv (demo_udp ip port)"
  by (auto simp: udp_inv_def demo_udp_def demo_udp_socket_def UDP_MAX_SOCKETS_def UDP_RX_SIZE_def nth_Cons
      split: nat.splits)

theorem udp_port_exclusive_witness:
  "\<exists>s. udp_reachable (demo_udp \<lparr>lnk = demo_host 2 1, ip_id_counter = 0\<rparr> 5000) s \<and> fst (udp_bind s 0 53)"
proof -
  let ?z = "demo_udp \<lparr>lnk = demo_host 2 1, ip_id_counter = 0\<rparr> 5000"
  let ?s = "snd (udp_socket (udp_init ?z))"
  have r: "udp_reachable ?z ?s" by (rule reach_step [OF reach_start step_socket])
  have t: "length (u_sockets ?z) = UDP_MAX_SOCKETS" "\<forall>k \<in> set (u_sockets ?z). length (u_rx_buffer k) = UDP_RX_SIZE"
    by (simp_all add: demo_udp_def demo_udp_socket_def UDP_MAX_SOCKETS_def UDP_RX_SIZE_def)
  have u: "u_in_use (u_sockets ?s ! 0)" "\<forall>i < UDP_MAX_SOCKETS. \<not> bound_to 53 (u_sockets ?s ! i)"
    by (auto simp: udp_socket_def udp_init_def demo_udp_def demo_udp_socket_def UDP_MAX_SOCKETS_def nth_Cons split: nat.splits)
  have "fst (udp_bind ?s 0 53)"
    using udp_port_exclusive [OF r t, of 53 0] u by (simp add: UDP_MAX_SOCKETS_def)
  then show ?thesis using r by blast
qed

theorem udp_end_to_end_witness:
  "\<exists>packet dgram b'.
     ipv4_receive 0x0200000A packet = Some (To_udp dgram 0x0100000A 0x0200000A) \<and>
     udp_receive (demo_udp \<lparr>lnk = demo_host 2 0x0200000A, ip_id_counter = 0\<rparr> 53) dgram 0x0100000A = (None, b') \<and>
     fst (udp_recvfrom b' (int 0) 2) = (2, [7, 8], Some (0x0100000A, 5000))"
proof -
  let ?a = "demo_udp (demo_ip 1 0x0100000A 0x0200000A [2, 0, 0, 0, 0, 2]) 5000"
  let ?b = "demo_udp \<lparr>lnk = demo_host 2 0x0200000A, ip_id_counter = 0\<rparr> 53"
  have o: "our_ip (lnk (u_ip ?a)) = 0x0100000A" "our_ip (lnk (u_ip ?b)) = 0x0200000A"
    by (simp_all add: demo_udp_def demo_ip_def demo_host_def)
  have h1: "reaches (u_ip ?a) (lnk (u_ip ?b))" "udp_inv ?b"
    using demo_reaches by (simp add: demo_udp_def) (rule demo_udp_inv)
  have h2: "\<not> udp_bad ?a 0" "bound_to 5000 (u_sockets ?a ! nat 0)"
    "(5000 :: u16) \<noteq> 0" "0 < UDP_MAX_SOCKETS" "bound_to 53 (u_sockets ?b ! 0)" "(53 :: u16) \<noteq> 0"
    "length [7, 8, 9 :: u8] \<le> 1472"
    by (simp_all add: udp_bad_def demo_udp_def demo_udp_socket_def UDP_MAX_SOCKETS_def)
  show ?thesis
    using udp_end_to_end [OF h1 h2, of "[]" 2 0] unfolding o by auto
qed

end
