(* ===== verification/Tcp.thy ===== *)
theory Tcp
  imports Ipv4 Bounded_Fifo
begin

text \<open>
  TCP, \<open>src/net/tcp.cpp\<close>.  The file-scope variables are the record \<open>tcp_state\<close>; a socket is named by
  its index in the table of 32.  A socket's lock is held from its lookup to the end of a call, so a
  call, or one round of a waiting loop, is one step.  The clock (\<open>t_ticks\<close>, \<open>t_freq\<close>) and the outcomes
  of \<open>malloc\<close> are inputs.  Segments are sent with \<open>ipv4_send\<close>, with no frame arriving while an address
  is resolved.
\<close>

section \<open>State\<close>

datatype TcpState =
    TCP_CLOSED | TCP_LISTEN | TCP_SYN_SENT | TCP_SYN_RECEIVED | TCP_ESTABLISHED | TCP_FIN_WAIT_1
  | TCP_FIN_WAIT_2 | TCP_CLOSE_WAIT | TCP_CLOSING | TCP_LAST_ACK | TCP_TIME_WAIT

record RetransmitPacket =
  r_in_use :: bool
  r_seq_num :: u32
  r_length :: nat
  r_flags :: u8
  r_sent_time :: u64
  r_retries :: u32
  r_rto_ms :: u32
  r_data :: "u8 list"

record TcpSocket =
  in_use :: bool
  state :: TcpState
  local_port :: u16
  remote_port :: u16
  remote_ip :: u32
  seq_num :: u32
  ack_num :: u32
  send_next :: u32
  send_una :: u32
  rx_buffer :: "u8 list"
  rx_head :: nat
  rx_tail :: nat
  pending_ack :: bool
  last_activity :: u64
  retransmit :: RetransmitPacket

record tcp_state =
  sockets :: "TcpSocket list"
  tcp_isn_secret :: u32
  next_ephemeral_port :: u16
  t_ticks :: u64
  t_freq :: u32
  t_mallocs :: heap_oracle
  t_ip :: ip_state

definition TCP_FLAG_FIN :: u8 where "TCP_FLAG_FIN = 0x01"
definition TCP_FLAG_SYN :: u8 where "TCP_FLAG_SYN = 0x02"
definition TCP_FLAG_RST :: u8 where "TCP_FLAG_RST = 0x04"
definition TCP_FLAG_PSH :: u8 where "TCP_FLAG_PSH = 0x08"
definition TCP_FLAG_ACK :: u8 where "TCP_FLAG_ACK = 0x10"

definition TCP_HEADER_SIZE :: nat where "TCP_HEADER_SIZE = 20"
definition TCP_MAX_SOCKETS :: nat where "TCP_MAX_SOCKETS = 32"
definition TCP_WINDOW_SIZE :: u16 where "TCP_WINDOW_SIZE = 65535"
definition TCP_RX_BUFFER_SIZE :: nat where "TCP_RX_BUFFER_SIZE = 65536"
definition EPHEMERAL_PORT_MIN :: u16 where "EPHEMERAL_PORT_MIN = 49152"

definition has_flag :: "u8 \<Rightarrow> u8 \<Rightarrow> bool" where
  "has_flag flags f \<longleftrightarrow> flags AND f \<noteq> 0"

definition upd_sock :: "tcp_state \<Rightarrow> nat \<Rightarrow> (TcpSocket \<Rightarrow> TcpSocket) \<Rightarrow> tcp_state" where
  "upd_sock s i f = s\<lparr>sockets := (sockets s)[i := f (sockets s ! i)]\<rparr>"

abbreviation sock_at :: "tcp_state \<Rightarrow> nat \<Rightarrow> TcpSocket" where
  "sock_at s i \<equiv> sockets s ! i"

abbreviation tcp_our_ip :: "tcp_state \<Rightarrow> u32" where
  "tcp_our_ip s \<equiv> our_ip (lnk (t_ip s))"

section \<open>Sequence numbers and ports\<close>

fun fnv_hash :: "u32 \<Rightarrow> u8 list \<Rightarrow> u32" where
  "fnv_hash h [] = h"
| "fnv_hash h (b # bs) = fnv_hash ((h XOR ucast b) * 16777619) bs"

definition tcp_generate_isn :: "tcp_state \<Rightarrow> u32 \<Rightarrow> u32 \<Rightarrow> u16 \<Rightarrow> u16 \<Rightarrow> u32" where
  "tcp_generate_isn s l_ip r_ip l_port r_port =
     fnv_hash 2166136261
       (le_bytes 4 l_ip @ le_bytes 4 r_ip @ le_bytes 2 l_port @ le_bytes 2 r_port @ le_bytes 4 (tcp_isn_secret s))
     + ucast (t_ticks s AND 0xFFFFFFFF)"

definition port_in_use :: "TcpSocket list \<Rightarrow> u16 \<Rightarrow> bool" where
  "port_in_use socks port = list_ex (\<lambda>k. in_use k \<and> local_port k = port) socks"

definition port_after :: "u16 \<Rightarrow> u16" where
  "port_after port = (let n = port + 1 in if n = 0 then EPHEMERAL_PORT_MIN else n)"

text \<open>The loop over the ports, which the code leaves by \<open>return\<close> only: not returning is \<open>None\<close>.\<close>

partial_function (option) ephemeral_loop :: "TcpSocket list \<Rightarrow> u16 \<Rightarrow> u16 \<Rightarrow> (u16 \<times> u16) option" where
  "ephemeral_loop socks start port =
     (if \<not> port_in_use socks port then Some (port, port_after port)
      else if port_after port = start then Some (0, port_after port)
      else ephemeral_loop socks start (port_after port))"

definition get_ephemeral_port :: "tcp_state \<Rightarrow> (u16 \<times> tcp_state) option" where
  "get_ephemeral_port s =
     (let start = (if next_ephemeral_port s < EPHEMERAL_PORT_MIN then EPHEMERAL_PORT_MIN else next_ephemeral_port s)
      in case ephemeral_loop (sockets s) start start of
           None \<Rightarrow> None
         | Some (port, n) \<Rightarrow> Some (port, s\<lparr>next_ephemeral_port := n\<rparr>))"

definition tcp_init :: "tcp_state \<Rightarrow> u64 \<Rightarrow> tcp_state" where
  "tcp_init s tsc =
     s\<lparr>sockets := map (\<lambda>k. k\<lparr>in_use := False, state := TCP_CLOSED,
                            retransmit := (retransmit k)\<lparr>r_in_use := False\<rparr>\<rparr>) (sockets s),
       tcp_isn_secret := ucast (tsc XOR drop_bit 32 tsc XOR t_ticks s)\<rparr>"

section \<open>Segments\<close>

definition tcp_pseudo_header :: "u32 \<Rightarrow> u32 \<Rightarrow> nat \<Rightarrow> u8 list" where
  "tcp_pseudo_header src_ip dst_ip len =
     le_bytes 4 src_ip @ le_bytes 4 dst_ip @ [0, IP_PROTO_TCP] @ le_bytes 2 (htons (of_nat len))"

definition tcp_checksum :: "u32 \<Rightarrow> u32 \<Rightarrow> u8 list \<Rightarrow> u16" where
  "tcp_checksum src_ip dst_ip tcp_data =
     (if length tcp_data = 0 \<or> 12 + length tcp_data > 1600 then 0
      else ipv4_checksum (tcp_pseudo_header src_ip dst_ip (length tcp_data) @ tcp_data))"

definition tcp_header :: "u16 \<Rightarrow> u16 \<Rightarrow> u32 \<Rightarrow> u32 \<Rightarrow> u8 \<Rightarrow> u16 \<Rightarrow> u8 list" where
  "tcp_header src_port dst_port seq ack flags checksum =
     le_bytes 2 (htons src_port) @ le_bytes 2 (htons dst_port) @ le_bytes 4 (htonl seq) @
     le_bytes 4 (if has_flag flags TCP_FLAG_ACK then htonl ack else 0) @ [0x50, flags] @
     le_bytes 2 (htons TCP_WINDOW_SIZE) @ le_bytes 2 checksum @ le_bytes 2 (0 :: u16)"

definition tcp_packet ::
  "u32 \<Rightarrow> u32 \<Rightarrow> u16 \<Rightarrow> u16 \<Rightarrow> u32 \<Rightarrow> u32 \<Rightarrow> u8 \<Rightarrow> u8 list \<Rightarrow> u8 list" where
  "tcp_packet src_ip dst_ip src_port dst_port seq ack flags data =
     (let c = tcp_checksum src_ip dst_ip (tcp_header src_port dst_port seq ack flags 0 @ data)
      in tcp_header src_port dst_port seq ack flags c @ data)"

definition consumes :: "u8 \<Rightarrow> u32" where
  "consumes flags = (if has_flag flags (TCP_FLAG_SYN OR TCP_FLAG_FIN) then 1 else 0)"

text \<open>The socket after a segment was sent: the sequence numbers it used, and the copy for retransmission.\<close>

definition tcp_sent :: "u64 \<Rightarrow> TcpSocket \<Rightarrow> u8 \<Rightarrow> u8 list \<Rightarrow> TcpSocket" where
  "tcp_sent now k flags data =
     (let packet_seq = send_next k;
          k1 = k\<lparr>send_next := packet_seq + of_nat (length data) + consumes flags, last_activity := now\<rparr>
      in if length data > 0 \<or> consumes flags \<noteq> 0
         then k1\<lparr>retransmit :=
                \<lparr>r_in_use = True, r_seq_num = packet_seq, r_length = length data, r_flags = flags,
                 r_sent_time = now, r_retries = 0, r_rto_ms = 500,
                 r_data = data @ drop (length data) (r_data (retransmit k))\<rparr>\<rparr>
         else k1)"

definition tcp_send_segment :: "tcp_state \<Rightarrow> nat \<Rightarrow> u8 \<Rightarrow> u8 list \<Rightarrow> bool \<times> tcp_state" where
  "tcp_send_segment s i flags data =
     (if length data > 1460 then (False, s)
      else
        let (ok, ms) = malloc_ok (t_mallocs s); s = s\<lparr>t_mallocs := ms\<rparr> in
        if \<not> ok then (False, s)
        else
          let k = sock_at s i;
              packet = tcp_packet (tcp_our_ip s) (remote_ip k) (local_port k) (remote_port k) (send_next k)
                         (ack_num k) flags data;
              (result, ps, ip) = ipv4_send (t_ip s) (remote_ip k) IP_PROTO_TCP packet [];
              s = s\<lparr>t_ip := ip\<rparr>
          in (result, if result then upd_sock s i (\<lambda>k. tcp_sent (t_ticks s) k flags data) else s))"

definition tcp_find_socket :: "tcp_state \<Rightarrow> u32 \<Rightarrow> u16 \<Rightarrow> u16 \<Rightarrow> nat option" where
  "tcp_find_socket s src_ip src_port dst_port =
     (case find_idx (\<lambda>k. in_use k \<and> state k \<noteq> TCP_LISTEN \<and> local_port k = dst_port \<and>
                         remote_port k = src_port \<and> remote_ip k = src_ip) (sockets s) of
        Some i \<Rightarrow> Some i
      | None \<Rightarrow> find_idx (\<lambda>k. in_use k \<and> state k = TCP_LISTEN \<and> local_port k = dst_port) (sockets s))"


section \<open>Receiving\<close>

text \<open>The loop that stores a payload in the receive ring: the number of bytes stored.\<close>

fun rx_store :: "TcpSocket \<Rightarrow> u8 list \<Rightarrow> nat \<times> TcpSocket" where
  "rx_store k [] = (0, k)"
| "rx_store k (b # bs) =
     (let next = (rx_head k + 1) mod TCP_RX_BUFFER_SIZE in
      if next = rx_tail k then (0, k)
      else
        let (stored, k') = rx_store (k\<lparr>rx_buffer := (rx_buffer k)[rx_head k := b], rx_head := next\<rparr>) bs
        in (stored + 1, k'))"

definition tcp_acknowledge :: "TcpSocket \<Rightarrow> u8 \<Rightarrow> u32 \<Rightarrow> TcpSocket" where
  "tcp_acknowledge k flags ack =
     (if has_flag flags TCP_FLAG_ACK then
        let k1 = k\<lparr>send_una := ack\<rparr>; r = retransmit k in
        if r_in_use r \<and> sint (ack - (r_seq_num r + of_nat (r_length r) + consumes (r_flags r))) \<ge> 0
        then k1\<lparr>retransmit := r\<lparr>r_in_use := False\<rparr>\<rparr> else k1
      else k)"

definition tcp_on_listen :: "tcp_state \<Rightarrow> u32 \<Rightarrow> u32 \<Rightarrow> u16 \<Rightarrow> u16 \<Rightarrow> u32 \<Rightarrow> u8 \<Rightarrow> tcp_state" where
  "tcp_on_listen s src_ip dst_ip src_port dst_port seq flags =
     (if has_flag flags TCP_FLAG_SYN then
        (case find_idx (\<lambda>k. \<not> in_use k) (sockets s) of
           None \<Rightarrow> s
         | Some j \<Rightarrow>
             let isn = tcp_generate_isn s dst_ip src_ip dst_port src_port;
                 s1 = upd_sock s j (\<lambda>k. k\<lparr>in_use := True, state := TCP_SYN_RECEIVED, local_port := dst_port,
                        remote_port := src_port, remote_ip := src_ip, ack_num := seq + 1, seq_num := isn,
                        send_next := isn, rx_head := 0, rx_tail := 0,
                        retransmit := (retransmit k)\<lparr>r_in_use := False\<rparr>\<rparr>)
             in snd (tcp_send_segment s1 j (TCP_FLAG_SYN OR TCP_FLAG_ACK) []))
      else s)"

text \<open>The three parts of the branch ESTABLISHED: the payload, a FIN, a pending acknowledgement.\<close>

definition tcp_store_payload :: "tcp_state \<Rightarrow> nat \<Rightarrow> u32 \<Rightarrow> u8 list \<Rightarrow> tcp_state" where
  "tcp_store_payload s i seq payload =
     (if length payload > 0 then
        let (stored, k) = rx_store (sock_at s i) payload in
        upd_sock s i (\<lambda>_. if stored > 0 then k\<lparr>ack_num := seq + of_nat stored, pending_ack := True\<rparr> else k)
      else s)"

definition tcp_on_fin :: "tcp_state \<Rightarrow> nat \<Rightarrow> u32 \<Rightarrow> u8 \<Rightarrow> nat \<Rightarrow> tcp_state" where
  "tcp_on_fin s i seq flags payload_len =
     (if has_flag flags TCP_FLAG_FIN then
        snd (tcp_send_segment
          (upd_sock s i (\<lambda>k. k\<lparr>ack_num := seq + of_nat payload_len + 1, state := TCP_CLOSE_WAIT\<rparr>)) i TCP_FLAG_ACK [])
      else s)"

definition tcp_flush_ack :: "tcp_state \<Rightarrow> nat \<Rightarrow> tcp_state" where
  "tcp_flush_ack s i =
     (if pending_ack (sock_at s i)
      then upd_sock (snd (tcp_send_segment s i TCP_FLAG_ACK [])) i (\<lambda>k. k\<lparr>pending_ack := False\<rparr>)
      else s)"

definition tcp_on_established :: "tcp_state \<Rightarrow> nat \<Rightarrow> u32 \<Rightarrow> u8 \<Rightarrow> u8 list \<Rightarrow> tcp_state" where
  "tcp_on_established s i seq flags payload =
     tcp_flush_ack (tcp_on_fin (tcp_store_payload s i seq payload) i seq flags (length payload)) i"

definition ack_fin :: "tcp_state \<Rightarrow> nat \<Rightarrow> u32 \<Rightarrow> TcpState \<Rightarrow> tcp_state" where
  "ack_fin s i seq st =
     upd_sock (snd (tcp_send_segment (upd_sock s i (\<lambda>k. k\<lparr>ack_num := seq + 1\<rparr>)) i TCP_FLAG_ACK [])) i
       (\<lambda>k. k\<lparr>state := st\<rparr>)"

definition tcp_dispatch ::
  "tcp_state \<Rightarrow> nat \<Rightarrow> u32 \<Rightarrow> u32 \<Rightarrow> u16 \<Rightarrow> u16 \<Rightarrow> u32 \<Rightarrow> u32 \<Rightarrow> u8 \<Rightarrow> u8 list \<Rightarrow> tcp_state" where
  "tcp_dispatch s i src_ip dst_ip src_port dst_port seq ack flags payload =
     (let k = sock_at s i in
      case state k of
        TCP_LISTEN \<Rightarrow> tcp_on_listen s src_ip dst_ip src_port dst_port seq flags
      | TCP_SYN_SENT \<Rightarrow>
          if flags AND (TCP_FLAG_SYN OR TCP_FLAG_ACK) = TCP_FLAG_SYN OR TCP_FLAG_ACK \<and> ack = send_next k
          then snd (tcp_send_segment (upd_sock s i (\<lambda>k. k\<lparr>ack_num := seq + 1, state := TCP_ESTABLISHED\<rparr>))
                      i TCP_FLAG_ACK [])
          else s
      | TCP_SYN_RECEIVED \<Rightarrow>
          if has_flag flags TCP_FLAG_ACK then upd_sock s i (\<lambda>k. k\<lparr>state := TCP_ESTABLISHED\<rparr>) else s
      | TCP_ESTABLISHED \<Rightarrow> tcp_on_established s i seq flags payload
      | TCP_FIN_WAIT_1 \<Rightarrow>
          if has_flag flags TCP_FLAG_ACK \<and> has_flag flags TCP_FLAG_FIN then ack_fin s i seq TCP_TIME_WAIT
          else if has_flag flags TCP_FLAG_ACK then upd_sock s i (\<lambda>k. k\<lparr>state := TCP_FIN_WAIT_2\<rparr>)
          else if has_flag flags TCP_FLAG_FIN then ack_fin s i seq TCP_CLOSING
          else s
      | TCP_FIN_WAIT_2 \<Rightarrow> if has_flag flags TCP_FLAG_FIN then ack_fin s i seq TCP_TIME_WAIT else s
      | TCP_CLOSING \<Rightarrow> if has_flag flags TCP_FLAG_ACK then upd_sock s i (\<lambda>k. k\<lparr>state := TCP_TIME_WAIT\<rparr>) else s
      | TCP_LAST_ACK \<Rightarrow>
          if has_flag flags TCP_FLAG_ACK then upd_sock s i (\<lambda>k. k\<lparr>state := TCP_CLOSED, in_use := False\<rparr>) else s
      | TCP_TIME_WAIT \<Rightarrow>
          if has_flag flags TCP_FLAG_FIN then snd (tcp_send_segment s i TCP_FLAG_ACK []) else s
      | _ \<Rightarrow> s)"

definition tcp_receive :: "tcp_state \<Rightarrow> u8 list \<Rightarrow> u32 \<Rightarrow> u32 \<Rightarrow> tcp_state" where
  "tcp_receive s data src_ip dst_ip =
     (if length data < TCP_HEADER_SIZE then s
      else
        let src_port = ntohs (load16 data 0); dst_port = ntohs (load16 data 2);
            seq = ntohl (load32 data 4); ack = ntohl (load32 data 8); flags = data ! 13;
            header_len = unat (drop_bit 4 (data ! 12) * 4) in
        if header_len < TCP_HEADER_SIZE \<or> header_len > length data then s
        else if load16 data 16 \<noteq> 0 \<and> tcp_checksum src_ip dst_ip data \<noteq> 0 then s
        else
          case tcp_find_socket s src_ip src_port dst_port of
            None \<Rightarrow> s
          | Some i \<Rightarrow>
              if has_flag flags TCP_FLAG_RST
              then upd_sock s i (\<lambda>k. k\<lparr>state := TCP_CLOSED, in_use := False,
                     retransmit := (retransmit k)\<lparr>r_in_use := False\<rparr>\<rparr>)
              else tcp_dispatch (upd_sock s i (\<lambda>k. tcp_acknowledge k flags ack)) i
                     src_ip dst_ip src_port dst_port seq ack flags (drop header_len data))"

section \<open>The socket calls\<close>

definition tcp_range :: "int \<Rightarrow> bool" where
  "tcp_range sock \<longleftrightarrow> 0 \<le> sock \<and> sock < int TCP_MAX_SOCKETS"

definition tcp_socket :: "tcp_state \<Rightarrow> int \<times> tcp_state" where
  "tcp_socket s =
     (case find_idx (\<lambda>k. \<not> in_use k) (sockets s) of
        None \<Rightarrow> (-1, s)
      | Some i \<Rightarrow> (int i, upd_sock s i (\<lambda>k. k\<lparr>in_use := True, state := TCP_CLOSED, rx_head := 0, rx_tail := 0,
                     pending_ack := False, retransmit := (retransmit k)\<lparr>r_in_use := False\<rparr>\<rparr>)))"

definition tcp_bind :: "tcp_state \<Rightarrow> int \<Rightarrow> u16 \<Rightarrow> bool \<times> tcp_state" where
  "tcp_bind s sock port =
     (if \<not> tcp_range sock \<or> port = 0 then (False, s)
      else if \<not> in_use (sock_at s (nat sock)) then (False, s)
      else if list_ex (\<lambda>i. i \<noteq> nat sock \<and> in_use (sock_at s i) \<and> local_port (sock_at s i) = port \<and>
                           state (sock_at s i) \<noteq> TCP_CLOSED) [0 ..< TCP_MAX_SOCKETS]
      then (False, s)
      else (True, upd_sock s (nat sock) (\<lambda>k. k\<lparr>local_port := port\<rparr>)))"

definition tcp_listen :: "tcp_state \<Rightarrow> int \<Rightarrow> bool \<times> tcp_state" where
  "tcp_listen s sock =
     (if \<not> tcp_range sock then (False, s)
      else if \<not> in_use (sock_at s (nat sock)) \<or> local_port (sock_at s (nat sock)) = 0 then (False, s)
      else (True, upd_sock s (nat sock) (\<lambda>k. k\<lparr>state := TCP_LISTEN\<rparr>)))"

definition tcp_accept :: "tcp_state \<Rightarrow> int \<Rightarrow> int" where
  "tcp_accept s sock =
     (if \<not> tcp_range sock then -1
      else
        let k = sock_at s (nat sock) in
        if \<not> in_use k \<or> state k \<noteq> TCP_LISTEN then -1
        else
          case find_idx (\<lambda>i. i \<noteq> nat sock \<and> in_use (sock_at s i) \<and> local_port (sock_at s i) = local_port k \<and>
                             state (sock_at s i) = TCP_ESTABLISHED) [0 ..< TCP_MAX_SOCKETS] of
            None \<Rightarrow> -1
          | Some i \<Rightarrow> int i)"


section \<open>Retransmission\<close>

definition tcp_expired :: "tcp_state \<Rightarrow> TcpSocket \<Rightarrow> bool" where
  "tcp_expired s k \<longleftrightarrow>
     t_ticks s - r_sent_time (retransmit k) \<ge> ucast (r_rto_ms (retransmit k) * t_freq s div 1000)"

definition tcp_poll_sock :: "tcp_state \<Rightarrow> nat \<Rightarrow> tcp_state" where
  "tcp_poll_sock s i =
     (let k = sock_at s i; r = retransmit k in
      if \<not> in_use k \<or> state k = TCP_CLOSED \<or> state k = TCP_LISTEN then s
      else if \<not> r_in_use r \<or> \<not> tcp_expired s k then s
      else if r_retries r \<ge> 5
      then upd_sock s i (\<lambda>k. k\<lparr>state := TCP_CLOSED, in_use := False, retransmit := r\<lparr>r_in_use := False\<rparr>\<rparr>)
      else
        let rto = r_rto_ms r * 2;
            s1 = upd_sock s i (\<lambda>k. k\<lparr>retransmit := r\<lparr>r_retries := r_retries r + 1,
                   r_rto_ms := (if rto > 10000 then 10000 else rto), r_sent_time := t_ticks s\<rparr>\<rparr>);
            (ok, ms) = malloc_ok (t_mallocs s1); s2 = s1\<lparr>t_mallocs := ms\<rparr>
        in if \<not> ok then s2
           else
             let packet = tcp_packet (tcp_our_ip s2) (remote_ip k) (local_port k) (remote_port k) (r_seq_num r)
                            (ack_num k) (r_flags r) (take (r_length r) (r_data r));
                 (res, ps, ip) = ipv4_send (t_ip s2) (remote_ip k) IP_PROTO_TCP packet []
             in s2\<lparr>t_ip := ip\<rparr>)"

definition tcp_poll :: "tcp_state \<Rightarrow> tcp_state" where
  "tcp_poll s = foldl tcp_poll_sock s [0 ..< TCP_MAX_SOCKETS]"

section \<open>Waiting\<close>

text \<open>
  What a waiting loop sees: the segments that \<open>net_poll\<close> delivers, its call of \<open>tcp_poll\<close>, and time.
  One round of the loop is a list of these; when the rounds are used up the call is still waiting.
\<close>

datatype tcp_event = Segment "u8 list" u32 u32 | Poll | Tick u64

fun tcp_react :: "tcp_state \<Rightarrow> tcp_event \<Rightarrow> tcp_state" where
  "tcp_react s (Segment data src dst) = tcp_receive s data src dst"
| "tcp_react s Poll = tcp_poll s"
| "tcp_react s (Tick n) = s\<lparr>t_ticks := t_ticks s + n\<rparr>"

definition tcp_round :: "tcp_state \<Rightarrow> tcp_event list \<Rightarrow> tcp_state" where
  "tcp_round s es = foldl tcp_react s es"

fun connect_wait :: "tcp_state \<Rightarrow> nat \<Rightarrow> u64 \<Rightarrow> u64 \<Rightarrow> tcp_event list list \<Rightarrow> bool \<times> tcp_state" where
  "connect_wait s i start timeout rounds =
     (if state (sock_at s i) = TCP_SYN_SENT \<and> t_ticks s - start < timeout then
        (case rounds of
           [] \<Rightarrow> (False, s)
         | es # rounds' \<Rightarrow> connect_wait (tcp_round s es) i start timeout rounds')
      else (True, s))"

text \<open>
  \<open>tcp_connect\<close> up to the wait, and the whole call: \<open>None\<close> when it has not returned yet.  The loop over
  the ports always returns (shown below), so its \<open>None\<close> case is never taken.
\<close>

definition tcp_connect_start :: "tcp_state \<Rightarrow> nat \<Rightarrow> u32 \<Rightarrow> u16 \<Rightarrow> bool \<times> tcp_state" where
  "tcp_connect_start s i dst_ip dst_port =
     (let s0 = upd_sock s i (\<lambda>k. k\<lparr>remote_ip := dst_ip, remote_port := dst_port\<rparr>) in
      case get_ephemeral_port s0 of
        None \<Rightarrow> (False, s0)
      | Some (port, s1) \<Rightarrow>
          if port = 0 then (False, s1)
          else
            let isn = tcp_generate_isn s1 (tcp_our_ip s1) dst_ip port dst_port;
                s2 = upd_sock s1 i (\<lambda>k. k\<lparr>local_port := port, seq_num := isn, send_next := isn, send_una := isn,
                       ack_num := 0, pending_ack := False, state := TCP_SYN_SENT,
                       retransmit := (retransmit k)\<lparr>r_in_use := False\<rparr>\<rparr>);
                (ok, s3) = tcp_send_segment s2 i TCP_FLAG_SYN []
            in if ok then (True, s3)
               else (False, upd_sock s3 i (\<lambda>k. k\<lparr>state := TCP_CLOSED, local_port := 0\<rparr>)))"

definition tcp_connect ::
  "tcp_state \<Rightarrow> int \<Rightarrow> u32 \<Rightarrow> u16 \<Rightarrow> tcp_event list list \<Rightarrow> bool option \<times> tcp_state" where
  "tcp_connect s sock dst_ip dst_port rounds =
     (if \<not> tcp_range sock \<or> dst_ip = 0 \<or> dst_port = 0 then (Some False, s)
      else if \<not> in_use (sock_at s (nat sock)) then (Some False, s)
      else
        let i = nat sock; (started, s1) = tcp_connect_start s i dst_ip dst_port in
        if \<not> started then (Some False, s1)
        else
          let (returned, s2) = connect_wait s1 i (t_ticks s1) (ucast (5000 * t_freq s1 div 1000)) rounds in
          if \<not> returned then (None, s2)
          else if state (sock_at s2 i) \<noteq> TCP_ESTABLISHED
          then (Some False, upd_sock s2 i (\<lambda>k. k\<lparr>state := TCP_CLOSED, local_port := 0,
                  retransmit := (retransmit k)\<lparr>r_in_use := False\<rparr>\<rparr>))
          else (Some True, s2))"

abbreviation sendable :: "tcp_state \<Rightarrow> nat \<Rightarrow> bool" where
  "sendable s i \<equiv> in_use (sock_at s i) \<and> state (sock_at s i) = TCP_ESTABLISHED"

datatype wait_result = Ready | Broken | Waiting

fun send_wait :: "tcp_state \<Rightarrow> nat \<Rightarrow> tcp_event list list \<Rightarrow> wait_result \<times> tcp_state \<times> tcp_event list list" where
  "send_wait s i rounds =
     (if r_in_use (retransmit (sock_at s i)) then
        (case rounds of
           [] \<Rightarrow> (Waiting, s, [])
         | es # rounds' \<Rightarrow>
             let s1 = tcp_round s es in
             if \<not> sendable s1 i then (Broken, s1, rounds') else send_wait s1 i rounds')
      else (Ready, s, rounds))"

function send_loop :: "tcp_state \<Rightarrow> nat \<Rightarrow> u8 list \<Rightarrow> nat \<Rightarrow> tcp_event list list \<Rightarrow> int option \<times> tcp_state" where
  "send_loop s i src sent rounds =
     (if sent \<ge> length src then (Some (int sent), s)
      else
        let stop = (if sent > 0 then int sent else -1) in
        if \<not> sendable s i then (Some stop, s)
        else
          case send_wait s i rounds of
            (Waiting, s1, rs) \<Rightarrow> (None, s1)
          | (Broken, s1, rs) \<Rightarrow> (Some stop, s1)
          | (Ready, s1, rs) \<Rightarrow>
              let chunk_len = min (length src - sent) 1400;
                  (ok, s2) = tcp_send_segment s1 i (TCP_FLAG_ACK OR TCP_FLAG_PSH) (take chunk_len (drop sent src))
              in if \<not> ok then (Some stop, s2) else send_loop s2 i src (sent + chunk_len) rs)"
  by pat_completeness auto
termination
  by (relation "measure (\<lambda>(s, i, src, sent, rs). length src - sent)") auto

definition tcp_send :: "tcp_state \<Rightarrow> int \<Rightarrow> u8 list \<Rightarrow> tcp_event list list \<Rightarrow> int option \<times> tcp_state" where
  "tcp_send s sock data rounds =
     (if \<not> tcp_range sock then (Some (-1), s)
      else if length data = 0 then (Some 0, s)
      else send_loop s (nat sock) data 0 rounds)"

declare connect_wait.simps [simp del] send_wait.simps [simp del] send_loop.simps [simp del]

section \<open>Reading and closing\<close>

function rx_take :: "TcpSocket \<Rightarrow> nat \<Rightarrow> u8 list \<times> TcpSocket" where
  "rx_take k n =
     (if n > 0 \<and> rx_head k \<noteq> rx_tail k then
        let (bs, k') = rx_take (k\<lparr>rx_tail := (rx_tail k + 1) mod TCP_RX_BUFFER_SIZE\<rparr>) (n - 1)
        in (rx_buffer k ! rx_tail k # bs, k')
      else ([], k))"
  by pat_completeness auto
termination
  by (relation "measure snd") auto

declare rx_take.simps [simp del]

definition tcp_recv :: "tcp_state \<Rightarrow> int \<Rightarrow> nat \<Rightarrow> (int \<times> u8 list) \<times> tcp_state" where
  "tcp_recv s sock max_len =
     (if \<not> tcp_range sock \<or> max_len = 0 then ((-1, []), s)
      else if \<not> in_use (sock_at s (nat sock)) then ((-1, []), s)
      else
        let (bs, k) = rx_take (sock_at s (nat sock)) max_len
        in ((int (length bs), bs), upd_sock s (nat sock) (\<lambda>_. k)))"

definition tcp_close :: "tcp_state \<Rightarrow> int \<Rightarrow> tcp_state" where
  "tcp_close s sock =
     (if \<not> tcp_range sock then s
      else
        let i = nat sock; k = sock_at s i in
        if \<not> in_use k then s
        else if state k = TCP_ESTABLISHED then
          snd (tcp_send_segment (upd_sock s i (\<lambda>k. k\<lparr>state := TCP_FIN_WAIT_1\<rparr>)) i (TCP_FLAG_FIN OR TCP_FLAG_ACK) [])
        else if state k = TCP_CLOSE_WAIT then
          snd (tcp_send_segment (upd_sock s i (\<lambda>k. k\<lparr>state := TCP_LAST_ACK\<rparr>)) i (TCP_FLAG_FIN OR TCP_FLAG_ACK) [])
        else upd_sock s i (\<lambda>k. k\<lparr>state := TCP_CLOSED, in_use := False,
               retransmit := (retransmit k)\<lparr>r_in_use := False\<rparr>\<rparr>))"

definition tcp_get_state :: "tcp_state \<Rightarrow> int \<Rightarrow> TcpState" where
  "tcp_get_state s sock = (if \<not> tcp_range sock then TCP_CLOSED else state (sock_at s (nat sock)))"

end
