(* ===== verification/Tcp_Stream.thy ===== *)
theory Tcp_Stream
  imports Tcp
begin

text \<open>
  The parts of TCP below the connection: the choice of an ephemeral port, the receive ring as a
  bounded queue of bytes, and the segments that \<open>tcp_send_segment\<close> builds and \<open>tcp_receive\<close> parses.
\<close>

section \<open>Ephemeral ports\<close>

definition port_of :: "nat \<Rightarrow> u16" where
  "port_of j = of_nat (49152 + j mod 16384)"

lemma unat_port_of: "unat (port_of j) = 49152 + j mod 16384"
proof -
  have "j mod 16384 < 16384" by simp
  then show ?thesis unfolding port_of_def by (intro unat_of_nat_small) simp
qed

lemma port_of_eq: "port_of j = port_of k \<longleftrightarrow> j mod 16384 = k mod 16384"
  by (metis unat_port_of add_left_cancel word_unat_eq_iff)

lemma port_after_of: "port_after (port_of j) = port_of (Suc j)"
proof -
  have u: "unat (port_of j + 1) = (49153 + j mod 16384) mod 65536"
    by (simp add: unat_word_ariths unat_port_of)
  show ?thesis
  proof (cases "j mod 16384 = 16383")
    case True
    then have "port_of j + 1 = 0" using u by (simp add: unat_eq_zero)
    moreover have "Suc j mod 16384 = 0" using True by (simp add: mod_Suc)
    ultimately show ?thesis by (simp add: port_after_def EPHEMERAL_PORT_MIN_def port_of_def)
  next
    case False
    then have l: "j mod 16384 < 16383" using mod_less_divisor [of 16384 j] by linarith
    then have n: "unat (port_of j + 1) = 49153 + j mod 16384" using u by simp
    then have "port_of j + 1 \<noteq> 0" by auto
    moreover have "Suc j mod 16384 = Suc (j mod 16384)" using False by (simp add: mod_Suc)
    then have "unat (port_of (Suc j)) = unat (port_of j + 1)" using n by (simp add: unat_port_of)
    ultimately show ?thesis by (simp add: port_after_def Let_def word_unat_eq_iff)
  qed
qed

lemma ephemeral_loop_found:
  assumes used: "\<And>k. k < m \<Longrightarrow> port_in_use socks (port_of (a + k))"
    and free: "\<not> port_in_use socks (port_of (a + m))" and m: "m < 16384"
  shows "n \<le> m \<Longrightarrow> ephemeral_loop socks (port_of a) (port_of (a + (m - n))) = Some (port_of (a + m), port_of (a + m + 1))"
proof (induction n)
  case 0
  then show ?case using free by (simp add: ephemeral_loop.simps [of _ _ "port_of (a + m)"] port_after_of)
next
  case (Suc n)
  let ?j = "a + (m - Suc n)"
  have s: "Suc ?j = a + (m - n)" using Suc.prems by simp
  have "(a + (m - n)) mod 16384 \<noteq> a mod 16384"
  proof
    assume "(a + (m - n)) mod 16384 = a mod 16384"
    then have "16384 dvd a + (m - n) - a" by (simp add: mod_eq_dvd_iff_nat)
    then have "16384 \<le> m - n" using Suc.prems by (intro dvd_imp_le) auto
    with m show False by simp
  qed
  then have "port_of (Suc ?j) \<noteq> port_of a" unfolding s by (simp add: port_of_eq)
  then show ?case
    using used [of "m - Suc n"] Suc
    by (simp add: ephemeral_loop.simps [of _ _ "port_of ?j"] port_after_of s del: add_diff_assoc)
qed

lemma some_port_free:
  assumes "length socks < 16384"
  obtains m where "m \<le> length socks" and "\<not> port_in_use socks (port_of (a + m))"
proof -
  let ?f = "\<lambda>k. port_of (a + k)"
  have "\<not> ?f ` {..length socks} \<subseteq> local_port ` set socks"
  proof
    assume sub: "?f ` {..length socks} \<subseteq> local_port ` set socks"
    have inj: "inj_on ?f {..length socks}"
    proof (rule inj_onI)
      fix x y assume xy: "x \<in> {..length socks}" "y \<in> {..length socks}" "?f x = ?f y"
      then have "(a + x) mod 16384 = (a + y) mod 16384" by (simp add: port_of_eq)
      then show "x = y"
        using xy assms by (metis atMost_iff add_left_imp_eq le_less_trans linorder_neqE_nat mod_less nat_mod_eq_iff
          add.commute ring_slots_differ)
    qed
    have "card (?f ` {..length socks}) \<le> card (local_port ` set socks)"
      by (intro card_mono sub) simp
    also have "\<dots> \<le> length socks" by (meson card_image_le card_length finite_set le_trans)
    finally show False using card_image [OF inj] by simp
  qed
  then obtain m where "m \<le> length socks" "?f m \<notin> local_port ` set socks" by auto
  then show ?thesis by (intro that [of m]) (auto simp: port_in_use_def list_ex_iff intro: rev_image_eqI)
qed


lemma ephemeral_loop_returns:
  assumes "length socks < 16384"
  obtains j where "ephemeral_loop socks (port_of a) (port_of a) = Some (port_of j, port_of (j + 1))"
    and "\<not> port_in_use socks (port_of j)"
proof -
  let ?free = "\<lambda>m. \<not> port_in_use socks (port_of (a + m))"
  obtain m where m: "m \<le> length socks" "?free m" by (rule some_port_free [OF assms])
  have l: "?free (LEAST m. ?free m)" "(LEAST m. ?free m) < 16384"
    using LeastI [of ?free, OF m(2)] Least_le [of ?free, OF m(2)] m(1) assms by simp_all
  have "port_in_use socks (port_of (a + k))" if "k < (LEAST m. ?free m)" for k
    using not_less_Least [OF that] by simp
  from ephemeral_loop_found [OF this l, of "LEAST m. ?free m"] l(1) that show ?thesis by simp
qed

lemma port_of_range: "EPHEMERAL_PORT_MIN \<le> p \<Longrightarrow> p = port_of (unat p - 49152)"
proof -
  assume "EPHEMERAL_PORT_MIN \<le> p"
  then have "49152 \<le> unat p" by (simp add: EPHEMERAL_PORT_MIN_def word_le_nat_alt)
  moreover have "unat p < 2 ^ LENGTH(16)" by (rule unsigned_less)
  ultimately show ?thesis by (simp add: word_unat_eq_iff unat_port_of)
qed

lemma get_ephemeral_returns:
  assumes "length (sockets s) < 16384"
  obtains port n where "get_ephemeral_port s = Some (port, s\<lparr>next_ephemeral_port := n\<rparr>)"
    and "EPHEMERAL_PORT_MIN \<le> port" and "EPHEMERAL_PORT_MIN \<le> n" and "port \<noteq> 0"
    and "\<And>k. k \<in> set (sockets s) \<Longrightarrow> in_use k \<Longrightarrow> local_port k \<noteq> port"
proof -
  let ?start = "if next_ephemeral_port s < EPHEMERAL_PORT_MIN then EPHEMERAL_PORT_MIN else next_ephemeral_port s"
  have "EPHEMERAL_PORT_MIN \<le> ?start" by auto
  then obtain a where a: "?start = port_of a" using port_of_range by blast
  obtain j where j: "ephemeral_loop (sockets s) ?start ?start = Some (port_of j, port_of (j + 1))"
    "\<not> port_in_use (sockets s) (port_of j)"
    unfolding a by (rule ephemeral_loop_returns [OF assms])
  have r: "EPHEMERAL_PORT_MIN \<le> port_of i \<and> port_of i \<noteq> 0" for i
    using unat_port_of [of i] by (auto simp: EPHEMERAL_PORT_MIN_def word_le_nat_alt)
  have "get_ephemeral_port s = Some (port_of j, s\<lparr>next_ephemeral_port := port_of (j + 1)\<rparr>)"
    unfolding get_ephemeral_port_def Let_def j(1) by simp
  then show ?thesis
    using r j(2) by (intro that) (auto simp: port_in_use_def list_ex_iff)
qed

text \<open>
  C31.  The search for an ephemeral port always ends and always succeeds, whatever the value of the
  counter: it returns a port from 49152 to 65535 that no open socket has as its local port, changes
  nothing but the counter, and leaves the counter in the same range.
\<close>

theorem ephemeral_port_found:
  assumes "length (sockets s) = TCP_MAX_SOCKETS"
  shows "\<exists>port n. get_ephemeral_port s = Some (port, s\<lparr>next_ephemeral_port := n\<rparr>) \<and>
    EPHEMERAL_PORT_MIN \<le> port \<and> EPHEMERAL_PORT_MIN \<le> n \<and> port \<noteq> 0 \<and>
    (\<forall>k \<in> set (sockets s). in_use k \<longrightarrow> local_port k \<noteq> port)"
proof -
  have "length (sockets s) < 16384" using assms by (simp add: TCP_MAX_SOCKETS_def)
  then obtain port n where "get_ephemeral_port s = Some (port, s\<lparr>next_ephemeral_port := n\<rparr>)"
    "EPHEMERAL_PORT_MIN \<le> port" "EPHEMERAL_PORT_MIN \<le> n" "port \<noteq> 0"
    "\<And>k. k \<in> set (sockets s) \<Longrightarrow> in_use k \<Longrightarrow> local_port k \<noteq> port"
    by (rule get_ephemeral_returns) auto
  then show ?thesis by blast
qed

section \<open>The receive ring\<close>

definition rx_count :: "TcpSocket \<Rightarrow> nat" where
  "rx_count k = (rx_head k + TCP_RX_BUFFER_SIZE - rx_tail k) mod TCP_RX_BUFFER_SIZE"

definition rx_inv :: "TcpSocket \<Rightarrow> bool" where
  "rx_inv k \<longleftrightarrow> ring_inv TCP_RX_BUFFER_SIZE (rx_buffer k) (rx_tail k) (rx_head k) (rx_count k)"

definition rx_contents :: "TcpSocket \<Rightarrow> u8 list" where
  "rx_contents k = ring_contents TCP_RX_BUFFER_SIZE (rx_buffer k) (rx_tail k) (rx_count k)"

lemma rx_count_less: "rx_count k < TCP_RX_BUFFER_SIZE"
  by (simp add: rx_count_def TCP_RX_BUFFER_SIZE_def)

lemma rx_invI:
  assumes "ring_inv TCP_RX_BUFFER_SIZE (rx_buffer k) (rx_tail k) (rx_head k) n" and "n < TCP_RX_BUFFER_SIZE"
  shows "rx_inv k" and "rx_count k = n"
  using ring_count(1) [OF assms] assms by (simp_all add: rx_inv_def rx_count_def)

lemma rx_push:
  fixes b :: u8
  assumes inv: "rx_inv k" and room: "(rx_head k + 1) mod TCP_RX_BUFFER_SIZE \<noteq> rx_tail k"
  defines "k' \<equiv> k\<lparr>rx_buffer := (rx_buffer k)[rx_head k := b], rx_head := (rx_head k + 1) mod TCP_RX_BUFFER_SIZE\<rparr>"
  shows "rx_inv k'" and "rx_contents k' = rx_contents k @ [b]" and "rx_count k' = rx_count k + 1"
proof -
  note r = inv [unfolded rx_inv_def]
  have n: "rx_count k + 1 < TCP_RX_BUFFER_SIZE"
    using ring_count(3) [OF r rx_count_less] room rx_count_less [of k] by simp
  note p = ring_push [OF r rx_count_less]
  have "ring_inv TCP_RX_BUFFER_SIZE (rx_buffer k') (rx_tail k') (rx_head k') (rx_count k + 1)"
    using p(1) by (simp add: k'_def)
  from rx_invI [OF this n] show "rx_inv k'" "rx_count k' = rx_count k + 1" .
  then show "rx_contents k' = rx_contents k @ [b]"
    using p(2) by (simp add: rx_contents_def k'_def)
qed

lemma rx_pop:
  assumes inv: "rx_inv k" and some: "rx_head k \<noteq> rx_tail k"
  defines "k' \<equiv> k\<lparr>rx_tail := (rx_tail k + 1) mod TCP_RX_BUFFER_SIZE\<rparr>"
  shows "rx_inv k'" and "rx_contents k = rx_buffer k ! rx_tail k # rx_contents k'"
proof -
  note r = inv [unfolded rx_inv_def]
  have n: "0 < rx_count k" using ring_count(2) [OF r rx_count_less] some by simp
  note p = ring_pop [OF r n]
  have "ring_inv TCP_RX_BUFFER_SIZE (rx_buffer k') (rx_tail k') (rx_head k') (rx_count k - 1)"
    using p(1) by (simp add: k'_def)
  from rx_invI [OF this] have c: "rx_inv k'" "rx_count k' = rx_count k - 1"
    using rx_count_less [of k] by simp_all
  then show "rx_inv k'" by simp
  show "rx_contents k = rx_buffer k ! rx_tail k # rx_contents k'"
    using p(2) c by (simp add: rx_contents_def k'_def)
qed

lemma length_rx_contents: "length (rx_contents k) = rx_count k"
  by (simp add: rx_contents_def)

lemma rx_store_spec:
  "rx_inv k \<Longrightarrow> rx_store k bs = (n, k') \<Longrightarrow>
     rx_inv k' \<and> n = min (length bs) (65535 - length (rx_contents k)) \<and>
     rx_contents k' = rx_contents k @ take n bs"
proof (induction bs arbitrary: k n k')
  case (Cons b bs)
  show ?case
  proof (cases "(rx_head k + 1) mod TCP_RX_BUFFER_SIZE = rx_tail k")
    case True
    then have "rx_count k + 1 = TCP_RX_BUFFER_SIZE"
      using ring_count(3) [OF Cons.prems(1) [unfolded rx_inv_def] rx_count_less] by simp
    then show ?thesis using True Cons.prems by (simp add: length_rx_contents TCP_RX_BUFFER_SIZE_def)
  next
    case False
    let ?k = "k\<lparr>rx_buffer := (rx_buffer k)[rx_head k := b], rx_head := (rx_head k + 1) mod TCP_RX_BUFFER_SIZE\<rparr>"
    obtain m where m: "rx_store ?k bs = (m, k')" "n = m + 1"
      using Cons.prems(2) False by (auto simp: Let_def split: prod.splits)
    note p = rx_push [OF Cons.prems(1) False, of b]
    have "rx_count ?k < TCP_RX_BUFFER_SIZE" by (rule rx_count_less)
    then have "rx_count k < 65535" unfolding p(3) by (simp add: TCP_RX_BUFFER_SIZE_def)
    then show ?thesis
      using Cons.IH [OF p(1) m(1)] m(2) p(2,3) by (simp add: length_rx_contents)
  qed
qed simp

lemma rx_take_spec:
  "rx_inv k \<Longrightarrow> rx_take k n = (ys, k') \<Longrightarrow>
     rx_inv k' \<and> ys = take n (rx_contents k) \<and> rx_contents k' = drop n (rx_contents k)"
proof (induction n arbitrary: k ys)
  case 0
  then show ?case by (simp add: rx_take.simps [of k 0])
next
  case (Suc n)
  show ?case
  proof (cases "rx_head k = rx_tail k")
    case True
    then have "rx_count k = 0"
      using ring_count(2) [OF Suc.prems(1) [unfolded rx_inv_def] rx_count_less] by simp
    then have "rx_contents k = []" by (simp add: rx_contents_def)
    then show ?thesis using True Suc.prems by (simp add: rx_take.simps [of k])
  next
    case False
    let ?k = "k\<lparr>rx_tail := (rx_tail k + 1) mod TCP_RX_BUFFER_SIZE\<rparr>"
    obtain zs where z: "rx_take ?k n = (zs, k')" "ys = rx_buffer k ! rx_tail k # zs"
      using Suc.prems(2) False by (auto simp: rx_take.simps [of k] split: prod.splits)
    note p = rx_pop [OF Suc.prems(1) False]
    show ?thesis using Suc.IH [OF p(1) z(1)] z(2) p(2) by simp
  qed
qed

interpretation rx_fifo: bounded_fifo rx_inv rx_contents 65535 rx_store rx_take
proof unfold_locales
  show "length (rx_contents k) \<le> 65535" for k
    using rx_count_less [of k] by (simp add: length_rx_contents TCP_RX_BUFFER_SIZE_def)
qed (use rx_store_spec rx_take_spec in blast)+

text \<open>
  C26.  The receive buffer of a TCP socket is a first-in first-out queue of at most 65535 bytes: over any
  sequence of stores of arriving payloads and reads by the application, the bytes read, followed by
  the bytes still in the ring, are the bytes that were in the ring followed by the bytes stored, in
  order and without loss or duplication.
\<close>

theorem tcp_rx_stream:
  assumes "rx_inv k" and "fifo_run rx_store rx_take k ops = (stored, delivered, k')"
  shows "rx_inv k' \<and> rx_contents k @ stored = delivered @ rx_contents k' \<and> length (rx_contents k') \<le> 65535"
  using rx_fifo.stream [OF assms] rx_fifo.bounded by blast


section \<open>Segments\<close>

lemma length_tcp_header [simp]: "length (tcp_header sp dp sq ak fl c) = 20"
  by (simp add: tcp_header_def)

lemma length_tcp_packet [simp]: "length (tcp_packet si di sp dp sq ak fl data) = 20 + length data"
  by (simp add: tcp_packet_def Let_def)

lemma tcp_packet_checksum:
  assumes len: "length data \<le> 1460"
  shows "tcp_checksum si di (tcp_packet si di sp dp sq ak fl data) = 0"
proof -
  let ?pre = "tcp_pseudo_header si di (20 + length data) @ le_bytes 2 (htons sp) @ le_bytes 2 (htons dp) @
     le_bytes 4 (htonl sq) @ le_bytes 4 (if has_flag fl TCP_FLAG_ACK then htonl ak else 0) @ [0x50, fl] @
     le_bytes 2 (htons TCP_WINDOW_SIZE)"
  let ?post = "le_bytes 2 (0 :: u16) @ data"
  have even: "even (length ?pre)" by (simp add: tcp_pseudo_header_def)
  have n: "length (tcp_header sp dp sq ak fl c @ data) = 20 + length data" for c by simp
  have f: "tcp_checksum si di (tcp_header sp dp sq ak fl c @ data) = ipv4_checksum (?pre @ le_bytes 2 c @ ?post)" for c
  proof -
    have "tcp_pseudo_header si di (20 + length data) @ tcp_header sp dp sq ak fl c @ data =
        ?pre @ le_bytes 2 c @ ?post"
      by (simp only: tcp_header_def append_assoc)
    then show ?thesis using len unfolding tcp_checksum_def n by (simp del: append.simps)
  qed
  have "tcp_checksum si di (tcp_header sp dp sq ak fl 0 @ data) = ipv4_checksum (?pre @ [0, 0] @ ?post)"
    using f [of 0] by (simp only: le_bytes_0)
  from checksum_verifies [OF even this] show ?thesis
    unfolding tcp_packet_def Let_def f .
qed

lemma ntohl_0 [simp]: "ntohl 0 = 0"
  by (simp add: ntohl_def htonl_def)

text \<open>\<open>tcp_receive\<close> on a segment that \<open>tcp_packet\<close> built: the fields it was built from.\<close>

lemma tcp_receive_packet:
  assumes len: "length data \<le> 1460"
  shows "tcp_receive s (tcp_packet si di sp dp sq ak fl data) si di =
    (case tcp_find_socket s si sp dp of
       None \<Rightarrow> s
     | Some i \<Rightarrow>
         if has_flag fl TCP_FLAG_RST
         then upd_sock s i (\<lambda>k. k\<lparr>state := TCP_CLOSED, in_use := False,
                retransmit := (retransmit k)\<lparr>r_in_use := False\<rparr>\<rparr>)
         else let ack = if has_flag fl TCP_FLAG_ACK then ak else 0
              in tcp_dispatch (upd_sock s i (\<lambda>k. tcp_acknowledge k fl ack)) i si di sp dp sq ack fl data)"
proof -
  obtain c where c: "tcp_packet si di sp dp sq ak fl data = tcp_header sp dp sq ak fl c @ data"
    by (simp add: tcp_packet_def Let_def)
  let ?p = "tcp_header sp dp sq ak fl c @ data"
  have f: "load16 ?p 0 = htons sp" "load16 ?p 2 = htons dp" "load32 ?p 4 = htonl sq"
    "load32 ?p 8 = (if has_flag fl TCP_FLAG_ACK then htonl ak else 0)" "?p ! 13 = fl" "?p ! 12 = 0x50"
    by (simp_all only: tcp_header_def append_assoc) (simp_all add: wire nth_append)
  have h: "unat (drop_bit 4 (0x50 :: u8) * 4) = 20" by simp
  have z: "tcp_checksum si di ?p = 0" using tcp_packet_checksum [OF len, of si di sp dp sq ak fl] c by simp
  have a: "ntohl (if b then htonl ak else 0) = (if b then ak else 0)" for b by (simp add: wire)
  show ?thesis
    unfolding c tcp_receive_def f h z a Let_def
    unfolding ntohs_htons ntohl_htonl by (simp add: TCP_HEADER_SIZE_def split: option.split)
qed

end
