(* ===== verification/Tcp_Conn.thy ===== *)
theory Tcp_Conn
  imports Tcp_Stream
begin

text \<open>
  TCP connections between two hosts on one Ethernet segment: the three-way handshake, the transfer of
  data, and the state machine of a socket.  A frame reaches TCP through \<open>host_input\<close>, the receiving half
  of \<open>net_poll\<close> in \<open>src/net/net.cpp\<close>.
\<close>

section \<open>Hosts\<close>

definition host_input :: "tcp_state \<Rightarrow> u8 list \<Rightarrow> tcp_state" where
  "host_input s frame =
     (case ethernet_receive (lnk (t_ip s)) frame of
        (p, l) \<Rightarrow>
          let s1 = s\<lparr>t_ip := (t_ip s)\<lparr>lnk := l\<rparr>\<rparr> in
          case p of
            None \<Rightarrow> s1
          | Some packet \<Rightarrow>
              (case ipv4_receive (our_ip l) packet of
                 Some (To_tcp data src dst) \<Rightarrow> tcp_receive s1 data src dst
               | _ \<Rightarrow> s1))"

definition same_host :: "link \<Rightarrow> link \<Rightarrow> bool" where
  "same_host l l' \<longleftrightarrow> arp_table l = arp_table l' \<and> our_mac l = our_mac l' \<and> our_ip l = our_ip l' \<and>
     netmask l = netmask l' \<and> gateway l = gateway l'"

lemma same_host_refl [simp]: "same_host l l"
  by (simp add: same_host_def)

lemma same_host_trans: "same_host l l' \<Longrightarrow> same_host l' l'' \<Longrightarrow> same_host l l''"
  by (simp add: same_host_def)

lemma reaches_same:
  assumes "same_host (lnk a) (lnk a')" and "same_host b b'" and "reaches a b"
  shows "reaches a' b'"
proof -
  have "arp_inv (lnk a) = arp_inv (lnk a')" "arp_inv b = arp_inv b'"
    "arp_lookup (lnk a) ip = arp_lookup (lnk a') ip" "next_hop (lnk a) ip = next_hop (lnk a') ip" for ip
    using assms by (auto intro!: arp_inv_cong arp_lookup_cong simp: same_host_def next_hop_def)
  then show ?thesis using assms by (simp add: reaches_def host_ok_def same_host_def)
qed

lemma net_send_raw_same: "net_send_raw l f = (r, l') \<Longrightarrow> same_host l l'"
  by (auto simp: net_send_raw_def Let_def same_host_def split: list.splits)

text \<open>A host that can send \<open>n\<close> more segments to \<open>b\<close>: \<open>b\<close> is in its ARP table, and memory and the card do
  not fail.\<close>

definition ready :: "nat \<Rightarrow> tcp_state \<Rightarrow> link \<Rightarrow> bool" where
  "ready n s b \<longleftrightarrow> reaches (t_ip s) b \<and>
     (\<exists>ms ns. t_mallocs s = replicate n True @ ms \<and> nic_results (lnk (t_ip s)) = replicate n True @ ns)"

lemma ready_same: "ready n s b \<Longrightarrow> same_host b b' \<Longrightarrow> ready n s b'"
  unfolding ready_def using reaches_same same_host_refl by blast

lemma ready_upd [simp]: "ready n (upd_sock s i f) b = ready n s b" "t_ip (upd_sock s i f) = t_ip s"
  by (simp_all add: ready_def upd_sock_def)

abbreviation tcp_frame :: "tcp_state \<Rightarrow> link \<Rightarrow> TcpSocket \<Rightarrow> u8 \<Rightarrow> u8 list \<Rightarrow> u8 list" where
  "tcp_frame s b k flags data \<equiv> ipv4_frame (t_ip s) b IP_PROTO_TCP
     (tcp_packet (tcp_our_ip s) (our_ip b) (local_port k) (remote_port k) (send_next k) (ack_num k) flags data)"

lemma tcp_send_ready:
  assumes ready: "ready (Suc n) s b" and ip: "remote_ip (sock_at s i) = our_ip b" and len: "length data \<le> 1460"
  shows "\<exists>t. tcp_send_segment s i flags data = (True, t) \<and>
    sockets t = (sockets s)[i := tcp_sent (t_ticks s) (sock_at s i) flags data] \<and>
    frames_out (lnk (t_ip t)) = frames_out (lnk (t_ip s)) @ [tcp_frame s b (sock_at s i) flags data] \<and>
    ready n t b \<and> same_host (lnk (t_ip s)) (lnk (t_ip t)) \<and>
    t_ticks t = t_ticks s \<and> t_freq t = t_freq s \<and> tcp_isn_secret t = tcp_isn_secret s"
proof -
  let ?k = "sock_at s i"
  let ?p = "tcp_packet (tcp_our_ip s) (our_ip b) (local_port ?k) (remote_port ?k) (send_next ?k) (ack_num ?k) flags data"
  obtain ms ns where o: "t_mallocs s = True # replicate n True @ ms"
    "nic_results (lnk (t_ip s)) = True # replicate n True @ ns" and r: "reaches (t_ip s) b"
    using ready by (auto simp: ready_def)
  have pl: "length ?p \<le> 1480" using len by simp
  let ?l = "(lnk (t_ip s))\<lparr>frames_out := frames_out (lnk (t_ip s)) @ [tcp_frame s b ?k flags data],
     nic_results := replicate n True @ ns\<rparr>"
  have u: "our_ip b \<noteq> 0" "our_ip b \<noteq> 0xFFFFFFFF" "\<not> eth_mac_is_zero (our_mac b)"
    using r usable_not_zero by (auto simp: reaches_def host_ok_def usable_binding_def)
  have "net_send_raw (lnk (t_ip s)) (tcp_frame s b ?k flags data) = (True, ?l)"
    using o by (simp add: net_send_raw_def)
  then have send: "ipv4_send (t_ip s) (our_ip b) IP_PROTO_TCP ?p [] =
      (True, [], (t_ip s)\<lparr>lnk := ?l, ip_id_counter := ip_id_counter (t_ip s) + 1\<rparr>)"
    using u r pl by (subst ipv4_send_cached) (auto simp: reaches_def)
  let ?t = "s\<lparr>t_mallocs := replicate n True @ ms,
     t_ip := (t_ip s)\<lparr>lnk := ?l, ip_id_counter := ip_id_counter (t_ip s) + 1\<rparr>,
     sockets := (sockets s)[i := tcp_sent (t_ticks s) ?k flags data]\<rparr>"
  have "tcp_send_segment s i flags data = (True, ?t)"
    using len o send ip by (simp add: tcp_send_segment_def upd_sock_def Let_def)
  moreover have "same_host (lnk (t_ip s)) (lnk (t_ip ?t))" by (simp add: same_host_def)
  moreover from this have "ready n ?t b"
    using reaches_same [OF _ same_host_refl r] by (auto simp: ready_def)
  ultimately show ?thesis by (intro exI [of _ ?t]) auto
qed

lemmas tcp_send_ready_empty = tcp_send_ready [where data = "[]", simplified list.size, OF _ _ le0]

lemma host_input_frame:
  assumes r: "reaches a (lnk (t_ip s))" and len: "length p \<le> 1480"
  shows "host_input s (ipv4_frame a (lnk (t_ip s)) IP_PROTO_TCP p) = tcp_receive s p (our_ip (lnk a)) (tcp_our_ip s)"
proof -
  obtain packet where "ethernet_receive (lnk (t_ip s)) (ipv4_frame a (lnk (t_ip s)) IP_PROTO_TCP p) = (Some packet, lnk (t_ip s))"
    "ipv4_receive (tcp_our_ip s) packet = deliver IP_PROTO_TCP p (our_ip (lnk a)) (tcp_our_ip s)"
    by (rule ipv4_frame_received [OF r len])
  then show ?thesis
    by (simp add: host_input_def deliver_def IP_PROTO_TCP_def IP_PROTO_UDP_def IP_PROTO_ICMP_def)
qed


section \<open>The three-way handshake\<close>

lemmas tcp_flags = has_flag_def TCP_FLAG_FIN_def TCP_FLAG_SYN_def TCP_FLAG_RST_def TCP_FLAG_PSH_def TCP_FLAG_ACK_def

lemma flag_facts [simp]:
  "has_flag TCP_FLAG_SYN TCP_FLAG_SYN" "\<not> has_flag TCP_FLAG_SYN TCP_FLAG_ACK" "\<not> has_flag TCP_FLAG_SYN TCP_FLAG_RST"
  "has_flag (TCP_FLAG_SYN OR TCP_FLAG_ACK) TCP_FLAG_ACK" "\<not> has_flag (TCP_FLAG_SYN OR TCP_FLAG_ACK) TCP_FLAG_RST"
  "(TCP_FLAG_SYN OR TCP_FLAG_ACK) AND (TCP_FLAG_SYN OR TCP_FLAG_ACK) = TCP_FLAG_SYN OR TCP_FLAG_ACK"
  "has_flag TCP_FLAG_ACK TCP_FLAG_ACK" "\<not> has_flag TCP_FLAG_ACK TCP_FLAG_RST" "\<not> has_flag TCP_FLAG_ACK TCP_FLAG_FIN"
  "has_flag (TCP_FLAG_ACK OR TCP_FLAG_PSH) TCP_FLAG_ACK" "\<not> has_flag (TCP_FLAG_ACK OR TCP_FLAG_PSH) TCP_FLAG_RST"
  "\<not> has_flag (TCP_FLAG_ACK OR TCP_FLAG_PSH) TCP_FLAG_FIN"
  by (simp_all add: tcp_flags)

lemma consumes_facts [simp]:
  "consumes TCP_FLAG_SYN = 1" "consumes (TCP_FLAG_SYN OR TCP_FLAG_ACK) = 1" "consumes TCP_FLAG_ACK = 0"
  "consumes (TCP_FLAG_ACK OR TCP_FLAG_PSH) = 0"
  by (simp_all add: consumes_def tcp_flags)

lemma upd_sock_id: "i < length (sockets s) \<Longrightarrow> f (sock_at s i) = sock_at s i \<Longrightarrow> upd_sock s i f = s"
  by (simp add: upd_sock_def)

lemma sock_upd [simp]:
  "i < length (sockets s) \<Longrightarrow> sock_at (upd_sock s i f) i = f (sock_at s i)"
  "j \<noteq> i \<Longrightarrow> sock_at (upd_sock s i f) j = sock_at s j"
  "sockets (upd_sock s i f) = (sockets s)[i := f (sock_at s i)]"
  "t_ticks (upd_sock s i f) = t_ticks s" "t_freq (upd_sock s i f) = t_freq s"
  "tcp_isn_secret (upd_sock s i f) = tcp_isn_secret s"
  by (simp_all add: upd_sock_def)

text \<open>The socket of a connection is found when no other open socket has the same three addresses.\<close>

lemma tcp_find_connection:
  assumes i: "i < length (sockets s)" "in_use (sock_at s i)" "state (sock_at s i) \<noteq> TCP_LISTEN"
    "local_port (sock_at s i) = dp" "remote_port (sock_at s i) = sp" "remote_ip (sock_at s i) = ip"
    and other: "\<And>j. j < length (sockets s) \<Longrightarrow> in_use (sock_at s j) \<Longrightarrow> state (sock_at s j) \<noteq> TCP_LISTEN \<Longrightarrow>
      local_port (sock_at s j) = dp \<Longrightarrow> remote_port (sock_at s j) = sp \<Longrightarrow> remote_ip (sock_at s j) = ip \<Longrightarrow> j = i"
  shows "tcp_find_socket s ip sp dp = Some i"
proof -
  have "find_idx (\<lambda>k. in_use k \<and> state k \<noteq> TCP_LISTEN \<and> local_port k = dp \<and> remote_port k = sp \<and> remote_ip k = ip)
      (sockets s) = Some i"
  proof (rule find_idx_unique)
    fix j
    assume "j < length (sockets s)" and "in_use (sock_at s j) \<and> state (sock_at s j) \<noteq> TCP_LISTEN \<and>
      local_port (sock_at s j) = dp \<and> remote_port (sock_at s j) = sp \<and> remote_ip (sock_at s j) = ip"
    then show "j = i" by (intro other) simp_all
  qed (use i in simp_all)
  then show ?thesis by (simp add: tcp_find_socket_def)
qed

definition new_connection :: "tcp_state \<Rightarrow> TcpSocket \<Rightarrow> u32 \<Rightarrow> u32 \<Rightarrow> u16 \<Rightarrow> u16 \<Rightarrow> u32 \<Rightarrow> TcpSocket" where
  "new_connection s k src dst sp dp seq =
     (let isn = tcp_generate_isn s dst src dp sp in
      k\<lparr>in_use := True, state := TCP_SYN_RECEIVED, local_port := dp, remote_port := sp, remote_ip := src,
        ack_num := seq + 1, seq_num := isn, send_next := isn, rx_head := 0, rx_tail := 0,
        retransmit := (retransmit k)\<lparr>r_in_use := False\<rparr>\<rparr>)"

lemma server_syn:
  fixes sp :: u16 and seq ak :: u32
  assumes ready: "ready (Suc n) b a" and m: "find_idx (\<lambda>k. \<not> in_use k) (sockets b) = Some m"
    and listen: "find_idx (\<lambda>k. in_use k \<and> state k = TCP_LISTEN \<and> local_port k = dp) (sockets b) = Some j"
    and none: "\<And>k. k \<in> set (sockets b) \<Longrightarrow> in_use k \<Longrightarrow> state k \<noteq> TCP_LISTEN \<Longrightarrow> remote_ip k \<noteq> our_ip a"
  defines "k \<equiv> new_connection b (sock_at b m) (our_ip a) (tcp_our_ip b) sp dp seq"
  defines "t \<equiv> tcp_receive b (tcp_packet (our_ip a) (tcp_our_ip b) sp dp seq ak TCP_FLAG_SYN []) (our_ip a) (tcp_our_ip b)"
  shows "sockets t = (sockets b)[m := tcp_sent (t_ticks b) k (TCP_FLAG_SYN OR TCP_FLAG_ACK) []] \<and>
    frames_out (lnk (t_ip t)) = frames_out (lnk (t_ip b)) @ [tcp_frame b a k (TCP_FLAG_SYN OR TCP_FLAG_ACK) []] \<and>
    ready n t a \<and> same_host (lnk (t_ip b)) (lnk (t_ip t))"
proof -
  let ?s = "upd_sock b m (\<lambda>_. k)"
  have j: "j < length (sockets b)" "in_use (sock_at b j)" "state (sock_at b j) = TCP_LISTEN"
    using listen by (auto simp: find_idx_Some)
  have ml: "m < length (sockets b)" using m by (simp add: find_idx_Some)
  have "find_idx (\<lambda>k. in_use k \<and> state k \<noteq> TCP_LISTEN \<and> local_port k = dp \<and> remote_port k = sp \<and> remote_ip k = our_ip a)
      (sockets b) = None"
    using none by (auto simp: find_idx_None)
  then have find: "tcp_find_socket b (our_ip a) sp dp = Some j"
    using listen by (simp add: tcp_find_socket_def)
  have r: "ready (Suc n) ?s a" using ready by simp
  have ip: "remote_ip (sock_at ?s m) = our_ip a" using ml by (simp add: k_def new_connection_def Let_def)
  have "t = snd (tcp_send_segment ?s m (TCP_FLAG_SYN OR TCP_FLAG_ACK) [])"
    using find j m unfolding t_def
    by (simp add: tcp_receive_packet tcp_acknowledge_def upd_sock_id tcp_dispatch_def tcp_on_listen_def
        k_def new_connection_def Let_def upd_sock_def)
  with tcp_send_ready_empty [OF r ip, of "TCP_FLAG_SYN OR TCP_FLAG_ACK"] ml show ?thesis by auto
qed


lemma client_start:
  assumes ready: "ready (Suc n) a b" and len: "length (sockets a) = TCP_MAX_SOCKETS" and i: "i < TCP_MAX_SOCKETS"
  obtains port k t where "tcp_connect_start a i (our_ip b) dp = (True, t)"
    and "sockets t = (sockets a)[i := tcp_sent (t_ticks a) k TCP_FLAG_SYN []]"
    and "state k = TCP_SYN_SENT" "local_port k = port" "remote_port k = dp" "remote_ip k = our_ip b"
      "in_use k = in_use (sock_at a i)" "send_next k = seq_num k" "port \<noteq> 0"
      "rx_contents k = rx_contents (sock_at a i)" "rx_inv k = rx_inv (sock_at a i)"
    and "\<And>j. j < TCP_MAX_SOCKETS \<Longrightarrow> j \<noteq> i \<Longrightarrow> in_use (sock_at a j) \<Longrightarrow> local_port (sock_at a j) \<noteq> port"
    and "frames_out (lnk (t_ip t)) = frames_out (lnk (t_ip a)) @ [tcp_frame a b k TCP_FLAG_SYN []]"
    and "ready n t b" and "same_host (lnk (t_ip a)) (lnk (t_ip t))" "t_ticks t = t_ticks a" "t_freq t = t_freq a"
proof -
  let ?au = "upd_sock a i (\<lambda>k. k\<lparr>remote_ip := our_ip b, remote_port := dp\<rparr>)"
  have "length (sockets ?au) < 16384" using len by (simp add: TCP_MAX_SOCKETS_def)
  then obtain port c where p: "get_ephemeral_port ?au = Some (port, ?au\<lparr>next_ephemeral_port := c\<rparr>)" "port \<noteq> 0"
    "\<And>k. k \<in> set (sockets ?au) \<Longrightarrow> in_use k \<Longrightarrow> local_port k \<noteq> port"
    by (rule get_ephemeral_returns) (rule that; assumption)
  let ?a1 = "?au\<lparr>next_ephemeral_port := c\<rparr>"
  let ?isn = "tcp_generate_isn ?a1 (tcp_our_ip ?a1) (our_ip b) port dp"
  let ?k = "(sock_at ?au i)\<lparr>local_port := port, seq_num := ?isn, send_next := ?isn, send_una := ?isn,
     ack_num := 0, pending_ack := False, state := TCP_SYN_SENT,
     retransmit := (retransmit (sock_at ?au i))\<lparr>r_in_use := False\<rparr>\<rparr>"
  let ?a2 = "upd_sock ?a1 i (\<lambda>_. ?k)"
  have il: "i < length (sockets a)" using len i by simp
  have r: "ready (Suc n) ?a2 b" using ready by (simp add: ready_def upd_sock_def)
  have ip: "remote_ip (sock_at ?a2 i) = our_ip b" using il by simp
  obtain t where t: "tcp_send_segment ?a2 i TCP_FLAG_SYN [] = (True, t)"
    "sockets t = (sockets ?a2)[i := tcp_sent (t_ticks ?a2) (sock_at ?a2 i) TCP_FLAG_SYN []]"
    "frames_out (lnk (t_ip t)) = frames_out (lnk (t_ip ?a2)) @ [tcp_frame ?a2 b (sock_at ?a2 i) TCP_FLAG_SYN []]"
    "ready n t b" "same_host (lnk (t_ip ?a2)) (lnk (t_ip t))" "t_ticks t = t_ticks ?a2" "t_freq t = t_freq ?a2"
    using tcp_send_ready_empty [OF r ip] by blast
  have st: "tcp_connect_start a i (our_ip b) dp = (True, t)"
    using p t(1) il by (simp add: tcp_connect_start_def Let_def upd_sock_def)
  have fresh: "local_port (sock_at a j) \<noteq> port" if "j < TCP_MAX_SOCKETS" "j \<noteq> i" "in_use (sock_at a j)" for j
  proof -
    have "sockets ?au ! j \<in> set (sockets ?au)" using that len by (intro nth_mem) simp
    then show ?thesis using p(3) [of "sockets ?au ! j"] that by simp
  qed
  show ?thesis
    using st t p(2) il fresh by (intro that [of t ?k port]) (auto simp: rx_contents_def rx_inv_def rx_count_def tcp_sent_def)
qed


text \<open>An acknowledgement of everything sent ends the retransmission.\<close>

definition acked :: "TcpSocket \<Rightarrow> u32 \<Rightarrow> TcpSocket" where
  "acked k ack = k\<lparr>send_una := ack, retransmit := (retransmit k)\<lparr>r_in_use := False\<rparr>\<rparr>"

lemma tcp_acknowledge_all:
  assumes "has_flag fl TCP_FLAG_ACK"
    and "r_seq_num (retransmit k) + of_nat (r_length (retransmit k)) + consumes (r_flags (retransmit k)) = ack"
  shows "tcp_acknowledge k fl ack = acked k ack"
  using assms by (cases "r_in_use (retransmit k)") (auto simp: tcp_acknowledge_def acked_def Let_def)

lemma client_synack:
  fixes seq :: u32
  assumes ready: "ready (Suc n) s b" and i: "i < length (sockets s)"
    and k: "in_use (sock_at s i)" "state (sock_at s i) = TCP_SYN_SENT" "remote_ip (sock_at s i) = our_ip b"
    and other: "\<And>j. j < length (sockets s) \<Longrightarrow> j \<noteq> i \<Longrightarrow> in_use (sock_at s j) \<Longrightarrow>
      local_port (sock_at s j) \<noteq> local_port (sock_at s i)"
    and rt: "r_seq_num (retransmit (sock_at s i)) + of_nat (r_length (retransmit (sock_at s i))) +
      consumes (r_flags (retransmit (sock_at s i))) = send_next (sock_at s i)"
  defines "k' \<equiv> (acked (sock_at s i) (send_next (sock_at s i)))\<lparr>ack_num := seq + 1, state := TCP_ESTABLISHED\<rparr>"
  defines "t \<equiv> tcp_receive s (tcp_packet (our_ip b) (tcp_our_ip s) (remote_port (sock_at s i)) (local_port (sock_at s i))
     seq (send_next (sock_at s i)) (TCP_FLAG_SYN OR TCP_FLAG_ACK) []) (our_ip b) (tcp_our_ip s)"
  shows "sockets t = (sockets s)[i := tcp_sent (t_ticks s) k' TCP_FLAG_ACK []] \<and>
    frames_out (lnk (t_ip t)) = frames_out (lnk (t_ip s)) @ [tcp_frame s b k' TCP_FLAG_ACK []] \<and>
    ready n t b \<and> same_host (lnk (t_ip s)) (lnk (t_ip t)) \<and> t_ticks t = t_ticks s"
proof -
  let ?k = "sock_at s i" and ?s = "upd_sock s i (\<lambda>_. k')"
  have find: "tcp_find_socket s (our_ip b) (remote_port ?k) (local_port ?k) = Some i"
    by (rule tcp_find_connection) (use i k other in auto)
  have r: "ready (Suc n) ?s b" using ready by simp
  have ip: "remote_ip (sock_at ?s i) = our_ip b" using i k by (simp add: k'_def acked_def)
  have "t = snd (tcp_send_segment ?s i TCP_FLAG_ACK [])"
    using find i k unfolding t_def
    by (simp add: tcp_receive_packet tcp_acknowledge_all [OF _ rt] tcp_dispatch_def k'_def acked_def upd_sock_def Let_def)
  with tcp_send_ready_empty [OF r ip, of TCP_FLAG_ACK] i show ?thesis by auto
qed

lemma server_ack:
  fixes seq :: u32
  assumes m: "m < length (sockets s)"
    and k: "in_use (sock_at s m)" "state (sock_at s m) = TCP_SYN_RECEIVED"
    and other: "\<And>j. j < length (sockets s) \<Longrightarrow> j \<noteq> m \<Longrightarrow> in_use (sock_at s j) \<Longrightarrow> state (sock_at s j) \<noteq> TCP_LISTEN \<Longrightarrow>
      remote_ip (sock_at s j) \<noteq> remote_ip (sock_at s m)"
    and rt: "r_seq_num (retransmit (sock_at s m)) + of_nat (r_length (retransmit (sock_at s m))) +
      consumes (r_flags (retransmit (sock_at s m))) = send_next (sock_at s m)"
  shows "tcp_receive s (tcp_packet (remote_ip (sock_at s m)) dst (remote_port (sock_at s m)) (local_port (sock_at s m))
      seq (send_next (sock_at s m)) TCP_FLAG_ACK []) (remote_ip (sock_at s m)) dst =
    upd_sock s m (\<lambda>k. (acked k (send_next k))\<lparr>state := TCP_ESTABLISHED\<rparr>)"
proof -
  let ?k = "sock_at s m"
  have find: "tcp_find_socket s (remote_ip ?k) (remote_port ?k) (local_port ?k) = Some m"
    by (rule tcp_find_connection) (use m k in simp_all, use other in blast)
  show ?thesis
    using find m k
    by (simp add: tcp_receive_packet tcp_acknowledge_all [OF _ rt] tcp_dispatch_def acked_def upd_sock_def Let_def)
qed


lemma host_input_same:
  assumes "reaches a b" and "same_host b (lnk (t_ip s))" and "length p \<le> 1480"
  shows "host_input s (ipv4_frame a b IP_PROTO_TCP p) = tcp_receive s p (our_ip (lnk a)) (our_ip b)"
proof -
  have "ipv4_frame a b IP_PROTO_TCP p = ipv4_frame a (lnk (t_ip s)) IP_PROTO_TCP p" "our_ip b = tcp_our_ip s"
    using assms(2) by (simp_all add: same_host_def)
  moreover have "reaches a (lnk (t_ip s))" using reaches_same [OF same_host_refl assms(2,1)] .
  ultimately show ?thesis using host_input_frame assms(3) by simp
qed

lemma ready_reaches: "ready n s b \<Longrightarrow> reaches (t_ip s) b"
  by (simp add: ready_def)

definition connected :: "TcpSocket \<Rightarrow> u32 \<Rightarrow> TcpSocket \<Rightarrow> u32 \<Rightarrow> bool" where
  "connected ka ip_a kb ip_b \<longleftrightarrow>
     in_use ka \<and> in_use kb \<and> state ka = TCP_ESTABLISHED \<and> state kb = TCP_ESTABLISHED \<and>
     remote_ip ka = ip_b \<and> remote_ip kb = ip_a \<and>
     local_port ka = remote_port kb \<and> remote_port ka = local_port kb \<and>
     ack_num kb = send_next ka \<and> ack_num ka = send_next kb \<and>
     \<not> r_in_use (retransmit ka) \<and> \<not> r_in_use (retransmit kb)"

lemma tcp_sent_simps [simp]:
  "in_use (tcp_sent now k fl d) = in_use k" "state (tcp_sent now k fl d) = state k"
  "local_port (tcp_sent now k fl d) = local_port k" "remote_port (tcp_sent now k fl d) = remote_port k"
  "remote_ip (tcp_sent now k fl d) = remote_ip k" "ack_num (tcp_sent now k fl d) = ack_num k"
  "send_next (tcp_sent now k fl d) = send_next k + of_nat (length d) + consumes fl"
  "rx_buffer (tcp_sent now k fl d) = rx_buffer k" "rx_head (tcp_sent now k fl d) = rx_head k"
  "rx_tail (tcp_sent now k fl d) = rx_tail k" "pending_ack (tcp_sent now k fl d) = pending_ack k"
  by (simp_all add: tcp_sent_def Let_def)

lemma tcp_sent_retransmit:
  "length d > 0 \<or> consumes fl \<noteq> 0 \<Longrightarrow>
     retransmit (tcp_sent now k fl d) = \<lparr>r_in_use = True, r_seq_num = send_next k, r_length = length d, r_flags = fl,
       r_sent_time = now, r_retries = 0, r_rto_ms = 500, r_data = d @ drop (length d) (r_data (retransmit k))\<rparr>"
  "length d = 0 \<Longrightarrow> consumes fl = 0 \<Longrightarrow> retransmit (tcp_sent now k fl d) = retransmit k"
  by (auto simp: tcp_sent_def Let_def)

lemma acked_simps [simp]:
  "in_use (acked k x) = in_use k" "state (acked k x) = state k" "local_port (acked k x) = local_port k"
  "remote_port (acked k x) = remote_port k" "remote_ip (acked k x) = remote_ip k" "ack_num (acked k x) = ack_num k"
  "send_next (acked k x) = send_next k" "\<not> r_in_use (retransmit (acked k x))"
  by (simp_all add: acked_def)

text \<open>
  C9.  The three-way handshake: when an open socket of host \<open>a\<close> connects to a port of host \<open>b\<close> on which a
  socket listens, and memory and the card do not fail, then \<open>a\<close>'s SYN makes \<open>b\<close> take its first unused
  socket for the connection and answer SYN-ACK, the SYN-ACK makes \<open>a\<close> established and answer ACK, and
  the ACK makes \<open>b\<close> established.  Both ends then agree on the addresses and ports, each acknowledges
  exactly what the other has sent, and neither has a segment left to retransmit.
\<close>

theorem tcp_handshake:
  assumes a: "ready 2 a (lnk (t_ip b))" "length (sockets a) = TCP_MAX_SOCKETS" "i < TCP_MAX_SOCKETS" "in_use (sock_at a i)"
    and b: "ready 1 b (lnk (t_ip a))"
    and listen: "find_idx (\<lambda>k. in_use k \<and> state k = TCP_LISTEN \<and> local_port k = p) (sockets b) = Some j"
    and free: "find_idx (\<lambda>k. \<not> in_use k) (sockets b) = Some m"
    and none: "\<And>k. k \<in> set (sockets b) \<Longrightarrow> in_use k \<Longrightarrow> state k \<noteq> TCP_LISTEN \<Longrightarrow> remote_ip k \<noteq> tcp_our_ip a"
  shows "\<exists>a1 syn synack ack.
    let b1 = host_input b syn; a2 = host_input a1 synack; b2 = host_input b1 ack in
    tcp_connect_start a i (tcp_our_ip b) p = (True, a1) \<and>
    frames_out (lnk (t_ip a1)) = frames_out (lnk (t_ip a)) @ [syn] \<and>
    frames_out (lnk (t_ip b1)) = frames_out (lnk (t_ip b)) @ [synack] \<and>
    frames_out (lnk (t_ip a2)) = frames_out (lnk (t_ip a1)) @ [ack] \<and>
    connected (sock_at a2 i) (tcp_our_ip a) (sock_at b2 m) (tcp_our_ip b)"
proof -
  let ?la = "lnk (t_ip a)" and ?lb = "lnk (t_ip b)"
  have a2: "ready (Suc 1) a ?lb" using a(1) by (simp add: numeral_2_eq_2)
  obtain port k t where st: "tcp_connect_start a i (our_ip ?lb) p = (True, t)"
    and t: "sockets t = (sockets a)[i := tcp_sent (t_ticks a) k TCP_FLAG_SYN []]"
    and k: "state k = TCP_SYN_SENT" "local_port k = port" "remote_port k = p" "remote_ip k = our_ip ?lb"
      "in_use k = in_use (sock_at a i)"
    and fresh: "\<And>j. j < TCP_MAX_SOCKETS \<Longrightarrow> j \<noteq> i \<Longrightarrow> in_use (sock_at a j) \<Longrightarrow> local_port (sock_at a j) \<noteq> port"
    and fa: "frames_out (lnk (t_ip t)) = frames_out ?la @ [tcp_frame a ?lb k TCP_FLAG_SYN []]"
    and rt: "ready 1 t ?lb" and ha: "same_host ?la (lnk (t_ip t))"
    by (rule client_start [OF a2 a(2,3)]) (rule that; assumption)
  let ?syn = "tcp_frame a ?lb k TCP_FLAG_SYN []"
  let ?b1 = "host_input b ?syn"
  have ml: "m < length (sockets b)" using free by (simp add: find_idx_Some)
  let ?kb = "new_connection b (sock_at b m) (our_ip ?la) (tcp_our_ip b) port p (send_next k)"
  have in1: "?b1 = tcp_receive b (tcp_packet (our_ip ?la) (our_ip ?lb) port p (send_next k) (ack_num k) TCP_FLAG_SYN []) (our_ip ?la) (our_ip ?lb)"
    using host_input_same [OF ready_reaches [OF a(1)]] k by simp
  have b1: "sockets ?b1 = (sockets b)[m := tcp_sent (t_ticks b) ?kb (TCP_FLAG_SYN OR TCP_FLAG_ACK) []]"
    "frames_out (lnk (t_ip ?b1)) = frames_out ?lb @ [tcp_frame b ?la ?kb (TCP_FLAG_SYN OR TCP_FLAG_ACK) []]"
    "ready 0 ?b1 ?la" "same_host ?lb (lnk (t_ip ?b1))"
    using server_syn [OF b [unfolded One_nat_def] free listen none, of port "send_next k" "ack_num k"] unfolding in1 by auto
  let ?synack = "tcp_frame b ?la ?kb (TCP_FLAG_SYN OR TCP_FLAG_ACK) []"
  let ?a2 = "host_input t ?synack"
  have sk: "sock_at t i = tcp_sent (t_ticks a) k TCP_FLAG_SYN []" "i < length (sockets t)" using t a(2,3) by auto
  have ipt: "tcp_our_ip t = our_ip ?la" using ha by (simp add: same_host_def)
  have kb: "local_port ?kb = p" "remote_port ?kb = port" "ack_num ?kb = send_next k + 1" "in_use ?kb"
    "state ?kb = TCP_SYN_RECEIVED" "remote_ip ?kb = our_ip ?la"
    by (simp_all add: new_connection_def Let_def)
  have in2: "?a2 = tcp_receive t (tcp_packet (our_ip ?lb) (tcp_our_ip t) (remote_port (sock_at t i)) (local_port (sock_at t i))
      (send_next ?kb) (send_next (sock_at t i)) (TCP_FLAG_SYN OR TCP_FLAG_ACK) []) (our_ip ?lb) (tcp_our_ip t)"
    unfolding ipt sk using host_input_same [OF ready_reaches [OF b] ha] k kb by simp
  let ?ka = "(acked (sock_at t i) (send_next (sock_at t i)))\<lparr>ack_num := send_next ?kb + 1, state := TCP_ESTABLISHED\<rparr>"
  have oth: "local_port (sock_at t j) \<noteq> local_port (sock_at t i)"
    if "j < length (sockets t)" "j \<noteq> i" "in_use (sock_at t j)" for j
    using fresh [of j] that t a(2,3) sk k by simp
  have "sockets ?a2 = (sockets t)[i := tcp_sent (t_ticks t) ?ka TCP_FLAG_ACK []] \<and>
      frames_out (lnk (t_ip ?a2)) = frames_out (lnk (t_ip t)) @ [tcp_frame t ?lb ?ka TCP_FLAG_ACK []] \<and>
      ready 0 ?a2 ?lb \<and> same_host (lnk (t_ip t)) (lnk (t_ip ?a2)) \<and> t_ticks ?a2 = t_ticks t"
    unfolding in2
    by (rule client_synack [OF rt [unfolded One_nat_def] sk(2) _ _ _ oth])
      (use sk k a(4) in \<open>simp_all add: tcp_sent_retransmit\<close>)
  then have a2: "sockets ?a2 = (sockets t)[i := tcp_sent (t_ticks t) ?ka TCP_FLAG_ACK []]"
      "frames_out (lnk (t_ip ?a2)) = frames_out (lnk (t_ip t)) @ [tcp_frame t ?lb ?ka TCP_FLAG_ACK []]"
    by auto
  let ?ack = "tcp_frame t ?lb ?ka TCP_FLAG_ACK []"
  let ?b2 = "host_input ?b1 ?ack"
  have sm: "sock_at ?b1 m = tcp_sent (t_ticks b) ?kb (TCP_FLAG_SYN OR TCP_FLAG_ACK) []" "m < length (sockets ?b1)"
    using b1(1) ml by auto
  have in3: "?b2 = tcp_receive ?b1 (tcp_packet (remote_ip (sock_at ?b1 m)) (our_ip ?lb) (remote_port (sock_at ?b1 m))
      (local_port (sock_at ?b1 m)) (send_next ?ka) (send_next (sock_at ?b1 m)) TCP_FLAG_ACK []) (remote_ip (sock_at ?b1 m)) (our_ip ?lb)"
    unfolding sm using host_input_same [OF ready_reaches [OF rt] b1(4)] k kb sk ipt by simp
  have othb: "remote_ip (sock_at ?b1 j) \<noteq> remote_ip (sock_at ?b1 m)"
    if "j < length (sockets ?b1)" "j \<noteq> m" "in_use (sock_at ?b1 j)" "state (sock_at ?b1 j) \<noteq> TCP_LISTEN" for j
    using none [of "sock_at b j"] that b1(1) sm kb by simp
  have b2: "?b2 = upd_sock ?b1 m (\<lambda>k. (acked k (send_next k))\<lparr>state := TCP_ESTABLISHED\<rparr>)"
    unfolding in3 by (rule server_ack [OF sm(2) _ _ othb]) (use sm kb in \<open>simp_all add: tcp_sent_retransmit\<close>)
  have "connected (sock_at ?a2 i) (our_ip ?la) (sock_at ?b2 m) (our_ip ?lb)"
    unfolding b2 connected_def using a2 sk sm kb k a(4) by (simp add: tcp_sent_retransmit)
  then show ?thesis
    using st fa b1(2) a2(2) by (intro exI [of _ t] exI [of _ ?syn] exI [of _ ?synack] exI [of _ ?ack]) (simp only: Let_def simp_thms)
qed


section \<open>Data\<close>

lemma rx_store_frame: "rx_store k bs = (n, k') \<Longrightarrow> \<exists>buf h. k' = k\<lparr>rx_buffer := buf, rx_head := h\<rparr>"
proof (induction bs arbitrary: k n k')
  case Nil
  then have "k' = k\<lparr>rx_buffer := rx_buffer k, rx_head := rx_head k\<rparr>" by simp
  then show ?case by blast
next
  case (Cons b bs)
  show ?case
  proof (cases "(rx_head k + 1) mod TCP_RX_BUFFER_SIZE = rx_tail k")
    case True
    then have "k' = k\<lparr>rx_buffer := rx_buffer k, rx_head := rx_head k\<rparr>" using Cons.prems by simp
    then show ?thesis by blast
  next
    case False
    then obtain m where "rx_store (k\<lparr>rx_buffer := (rx_buffer k)[rx_head k := b],
        rx_head := (rx_head k + 1) mod TCP_RX_BUFFER_SIZE\<rparr>) bs = (m, k')"
      using Cons.prems by (auto simp: Let_def split: prod.splits)
    from Cons.IH [OF this] show ?thesis by auto
  qed
qed

lemma rx_cong:
  "rx_buffer k = rx_buffer k' \<Longrightarrow> rx_head k = rx_head k' \<Longrightarrow> rx_tail k = rx_tail k' \<Longrightarrow>
     rx_inv k = rx_inv k' \<and> rx_contents k = rx_contents k'"
  by (simp add: rx_inv_def rx_contents_def rx_count_def)

definition same_conn :: "TcpSocket \<Rightarrow> TcpSocket \<Rightarrow> bool" where
  "same_conn k k' \<longleftrightarrow> in_use k = in_use k' \<and> state k = state k' \<and> local_port k = local_port k' \<and>
     remote_port k = remote_port k' \<and> remote_ip k = remote_ip k'"

lemma tcp_find_same:
  "same_conn k (sock_at s m) \<Longrightarrow> sockets t = (sockets s)[m := k] \<Longrightarrow>
     tcp_find_socket t ip sp dp = tcp_find_socket s ip sp dp"
  by (simp add: tcp_find_socket_def find_idx_update same_conn_def split: option.split)

text \<open>A data segment at an established socket with room for it: the bytes are appended to the receive
  ring, whatever the sequence number is, and one acknowledgement is sent.\<close>

lemma receive_data:
  fixes seq ak :: u32
  assumes ready: "ready (Suc n) s a" and m: "m < length (sockets s)"
    and find: "tcp_find_socket s (our_ip a) sp dp = Some m"
    and k: "state (sock_at s m) = TCP_ESTABLISHED" "remote_ip (sock_at s m) = our_ip a" "rx_inv (sock_at s m)"
      "\<not> r_in_use (retransmit (sock_at s m))"
    and len: "0 < length data" "length data \<le> 1460" "length (rx_contents (sock_at s m)) + length data \<le> 65535"
  defines "t \<equiv> tcp_receive s (tcp_packet (our_ip a) (tcp_our_ip s) sp dp seq ak (TCP_FLAG_ACK OR TCP_FLAG_PSH) data)
                 (our_ip a) (tcp_our_ip s)"
  shows "\<exists>k'. sockets t = (sockets s)[m := k'] \<and> same_conn k' (sock_at s m) \<and>
    rx_inv k' \<and> rx_contents k' = rx_contents (sock_at s m) @ data \<and>
    ack_num k' = seq + of_nat (length data) \<and> send_next k' = send_next (sock_at s m) \<and> \<not> pending_ack k' \<and>
    retransmit k' = retransmit (sock_at s m) \<and>
    frames_out (lnk (t_ip t)) = frames_out (lnk (t_ip s)) @ [tcp_frame s a k' TCP_FLAG_ACK []] \<and>
    ready n t a \<and> same_host (lnk (t_ip s)) (lnk (t_ip t))"
proof -
  let ?fl = "TCP_FLAG_ACK OR TCP_FLAG_PSH" and ?k = "sock_at s m"
  let ?ku = "?k\<lparr>send_una := ak\<rparr>"
  have ack: "tcp_acknowledge ?k ?fl ak = ?ku" using k(4) by (simp add: tcp_acknowledge_def Let_def)
  obtain st k1 where st: "rx_store ?ku data = (st, k1)" by fastforce
  have c0: "rx_inv ?ku" "rx_contents ?ku = rx_contents ?k" using rx_cong [of ?ku ?k] k(3) by auto
  note sp = rx_store_spec [OF c0(1) st]
  then have n: "st = length data" "rx_inv k1" "rx_contents k1 = rx_contents ?k @ data" using c0(2) len by auto
  obtain buf h where k1: "k1 = ?ku\<lparr>rx_buffer := buf, rx_head := h\<rparr>" using rx_store_frame [OF st] by blast
  let ?k2 = "k1\<lparr>ack_num := seq + of_nat (length data), pending_ack := True\<rparr>"
  let ?s = "upd_sock s m (\<lambda>_. ?k2)"
  have r: "ready (Suc n) ?s a" using ready by simp
  have ip: "remote_ip (sock_at ?s m) = our_ip a" using m k k1 by simp
  obtain t' where t': "tcp_send_segment ?s m TCP_FLAG_ACK [] = (True, t')"
    "sockets t' = (sockets ?s)[m := tcp_sent (t_ticks ?s) (sock_at ?s m) TCP_FLAG_ACK []]"
    "frames_out (lnk (t_ip t')) = frames_out (lnk (t_ip ?s)) @ [tcp_frame ?s a (sock_at ?s m) TCP_FLAG_ACK []]"
    "ready n t' a" "same_host (lnk (t_ip ?s)) (lnk (t_ip t'))"
    using tcp_send_ready_empty [OF r ip] by blast
  have "t = upd_sock (snd (tcp_send_segment ?s m TCP_FLAG_ACK [])) m (\<lambda>k. k\<lparr>pending_ack := False\<rparr>)"
    unfolding t_def tcp_receive_packet [OF len(2)]
    using find m k st n len by (simp add: ack tcp_dispatch_def tcp_on_established_def tcp_store_payload_def tcp_on_fin_def tcp_flush_ack_def Let_def upd_sock_def)
  then have t: "t = upd_sock t' m (\<lambda>k. k\<lparr>pending_ack := False\<rparr>)" using t'(1) by simp
  let ?k3 = "(tcp_sent (t_ticks s) ?k2 TCP_FLAG_ACK [])\<lparr>pending_ack := False\<rparr>"
  have "sockets t = (sockets s)[m := ?k3]" unfolding t using t'(2) m by simp
  moreover have "rx_inv ?k3 = rx_inv k1 \<and> rx_contents ?k3 = rx_contents k1" by (rule rx_cong) simp_all
  moreover have "frames_out (lnk (t_ip t)) = frames_out (lnk (t_ip s)) @ [tcp_frame s a ?k3 TCP_FLAG_ACK []]"
    unfolding t using t'(3) m by simp
  ultimately show ?thesis
    using t t'(4,5) k1 n by (intro exI [of _ ?k3]) (auto simp: same_conn_def tcp_sent_retransmit)
qed


lemma receive_ack:
  fixes seq :: u32
  assumes i: "i < length (sockets s)" and find: "tcp_find_socket s ip sp dp = Some i"
    and k: "state (sock_at s i) = TCP_ESTABLISHED" "\<not> pending_ack (sock_at s i)"
    and rt: "r_seq_num (retransmit (sock_at s i)) + of_nat (r_length (retransmit (sock_at s i))) +
      consumes (r_flags (retransmit (sock_at s i))) = ak"
  shows "tcp_receive s (tcp_packet ip dst sp dp seq ak TCP_FLAG_ACK []) ip dst = upd_sock s i (\<lambda>k. acked k ak)"
  using i find k tcp_acknowledge_all [OF _ rt]
  by (simp add: tcp_receive_packet tcp_dispatch_def tcp_on_established_def tcp_store_payload_def tcp_on_fin_def tcp_flush_ack_def acked_def upd_sock_def Let_def)

lemma tcp_send_one:
  assumes ready: "ready (Suc n) s b" and i: "i < TCP_MAX_SOCKETS" "length (sockets s) = TCP_MAX_SOCKETS"
    and k: "in_use (sock_at s i)" "state (sock_at s i) = TCP_ESTABLISHED" "remote_ip (sock_at s i) = our_ip b"
      "\<not> r_in_use (retransmit (sock_at s i))"
    and len: "0 < length data" "length data \<le> 1400"
  shows "\<exists>t. tcp_send s (int i) data [] = (Some (int (length data)), t) \<and>
    sockets t = (sockets s)[i := tcp_sent (t_ticks s) (sock_at s i) (TCP_FLAG_ACK OR TCP_FLAG_PSH) data] \<and>
    frames_out (lnk (t_ip t)) = frames_out (lnk (t_ip s)) @ [tcp_frame s b (sock_at s i) (TCP_FLAG_ACK OR TCP_FLAG_PSH) data] \<and>
    ready n t b \<and> same_host (lnk (t_ip s)) (lnk (t_ip t))"
proof -
  have l: "length data \<le> 1460" using len by simp
  obtain t where t: "tcp_send_segment s i (TCP_FLAG_ACK OR TCP_FLAG_PSH) data = (True, t)"
    "sockets t = (sockets s)[i := tcp_sent (t_ticks s) (sock_at s i) (TCP_FLAG_ACK OR TCP_FLAG_PSH) data]"
    "frames_out (lnk (t_ip t)) = frames_out (lnk (t_ip s)) @ [tcp_frame s b (sock_at s i) (TCP_FLAG_ACK OR TCP_FLAG_PSH) data]"
    "ready n t b" "same_host (lnk (t_ip s)) (lnk (t_ip t))"
    using tcp_send_ready [OF ready k(3) l] by blast
  have w: "send_wait s i [] = (Ready, s, [])" using k by (simp add: send_wait.simps)
  have "send_loop s i data 0 [] = (Some (int (length data)), t)"
    using k len t(1) by (simp add: send_loop.simps [of s] send_loop.simps [of t] w min_def)
  then have "tcp_send s (int i) data [] = (Some (int (length data)), t)"
    using i len by (simp add: tcp_send_def tcp_range_def)
  then show ?thesis using t by blast
qed

lemma tcp_recv_result:
  assumes "m < TCP_MAX_SOCKETS" "in_use (sock_at s m)" "rx_inv (sock_at s m)" "n > 0"
  shows "fst (tcp_recv s (int m) n) = (int (length (take n (rx_contents (sock_at s m)))), take n (rx_contents (sock_at s m)))"
proof -
  obtain ys k where r: "rx_take (sock_at s m) n = (ys, k)" by fastforce
  with rx_take_spec [OF assms(3) r] assms show ?thesis by (simp add: tcp_recv_def tcp_range_def)
qed

text \<open>
  C10.  Data over an established connection: \<open>tcp_send\<close> of up to 1400 bytes on one end puts one segment on
  the wire; the other end appends exactly these bytes to its receive ring and acknowledges them; the
  acknowledgement ends the sender's retransmission, and both ends are again in agreement, each
  acknowledging exactly what the other has sent.  The bytes are what \<open>tcp_recv\<close> then returns.
\<close>

theorem tcp_transfer:
  assumes a: "ready 1 a (lnk (t_ip b))" "i < TCP_MAX_SOCKETS" "length (sockets a) = TCP_MAX_SOCKETS"
    and b: "ready 1 b (lnk (t_ip a))" "m < TCP_MAX_SOCKETS" "length (sockets b) = TCP_MAX_SOCKETS"
    and conn: "connected (sock_at a i) (tcp_our_ip a) (sock_at b m) (tcp_our_ip b)"
    and fa: "tcp_find_socket a (tcp_our_ip b) (remote_port (sock_at a i)) (local_port (sock_at a i)) = Some i"
    and fb: "tcp_find_socket b (tcp_our_ip a) (remote_port (sock_at b m)) (local_port (sock_at b m)) = Some m"
    and rx: "rx_inv (sock_at b m)" "length (rx_contents (sock_at b m)) + length data \<le> 65535"
    and idle: "\<not> pending_ack (sock_at a i)" and len: "0 < length data" "length data \<le> 1400"
  shows "\<exists>a1 seg ack.
    let b1 = host_input b seg; a2 = host_input a1 ack in
    tcp_send a (int i) data [] = (Some (int (length data)), a1) \<and>
    frames_out (lnk (t_ip a1)) = frames_out (lnk (t_ip a)) @ [seg] \<and>
    frames_out (lnk (t_ip b1)) = frames_out (lnk (t_ip b)) @ [ack] \<and>
    rx_contents (sock_at b1 m) = rx_contents (sock_at b m) @ data \<and>
    connected (sock_at a2 i) (tcp_our_ip a) (sock_at b1 m) (tcp_our_ip b) \<and>
    (\<forall>n > 0. fst (tcp_recv b1 (int m) n) =
       (int (length (take n (rx_contents (sock_at b m) @ data))), take n (rx_contents (sock_at b m) @ data)))"
proof -
  let ?la = "lnk (t_ip a)" and ?lb = "lnk (t_ip b)" and ?fl = "TCP_FLAG_ACK OR TCP_FLAG_PSH"
  note c = conn [unfolded connected_def]
  obtain t where t: "tcp_send a (int i) data [] = (Some (int (length data)), t)"
    "sockets t = (sockets a)[i := tcp_sent (t_ticks a) (sock_at a i) ?fl data]"
    "frames_out (lnk (t_ip t)) = frames_out ?la @ [tcp_frame a ?lb (sock_at a i) ?fl data]"
    "same_host ?la (lnk (t_ip t))"
    using tcp_send_one [OF a(1) [unfolded One_nat_def] a(2,3)] c len by blast
  let ?seg = "tcp_frame a ?lb (sock_at a i) ?fl data"
  let ?b1 = "host_input b ?seg"
  have in1: "?b1 = tcp_receive b (tcp_packet (our_ip ?la) (tcp_our_ip b) (remote_port (sock_at b m)) (local_port (sock_at b m))
      (send_next (sock_at a i)) (ack_num (sock_at a i)) ?fl data) (our_ip ?la) (tcp_our_ip b)"
    using host_input_same [OF ready_reaches [OF a(1)]] c len by simp
  have h: "m < length (sockets b)" "state (sock_at b m) = TCP_ESTABLISHED" "remote_ip (sock_at b m) = our_ip ?la"
    "\<not> r_in_use (retransmit (sock_at b m))" "length data \<le> 1460"
    using b c len by auto
  obtain k where k: "sockets ?b1 = (sockets b)[m := k]" "same_conn k (sock_at b m)" "rx_inv k"
    "rx_contents k = rx_contents (sock_at b m) @ data" "ack_num k = send_next (sock_at a i) + of_nat (length data)"
    "send_next k = send_next (sock_at b m)" "retransmit k = retransmit (sock_at b m)"
    "frames_out (lnk (t_ip ?b1)) = frames_out ?lb @ [tcp_frame b ?la k TCP_FLAG_ACK []]"
    using receive_data [OF b(1) [unfolded One_nat_def] h(1) fb h(2,3) rx(1) h(4) len(1) h(5) rx(2)] unfolding in1 by blast
  let ?ack = "tcp_frame b ?la k TCP_FLAG_ACK []"
  let ?a2 = "host_input t ?ack"
  have il: "i < length (sockets t)" "sock_at t i = tcp_sent (t_ticks a) (sock_at a i) ?fl data" using t(2) a by auto
  have "tcp_find_socket t (tcp_our_ip b) (remote_port (sock_at a i)) (local_port (sock_at a i)) = Some i"
    using tcp_find_same [OF _ t(2)] fa by (simp add: same_conn_def)
  then have "tcp_receive t (tcp_packet (tcp_our_ip b) (our_ip ?la) (remote_port (sock_at a i)) (local_port (sock_at a i))
      (send_next k) (ack_num k) TCP_FLAG_ACK []) (tcp_our_ip b) (our_ip ?la) = upd_sock t i (\<lambda>s. acked s (ack_num k))"
    using il c idle len k by (intro receive_ack) (simp_all add: tcp_sent_retransmit)
  then have a2: "?a2 = upd_sock t i (\<lambda>s. acked s (ack_num k))"
    using host_input_same [OF ready_reaches [OF b(1)] t(4)] c k(2) by (simp add: same_conn_def)
  have bm: "sock_at ?b1 m = k" using k(1) b by simp
  have "connected (sock_at ?a2 i) (our_ip ?la) (sock_at ?b1 m) (tcp_our_ip b)"
    unfolding a2 bm using il c k by (simp add: connected_def same_conn_def)
  moreover have "fst (tcp_recv ?b1 (int m) n) = (int (length (take n (rx_contents k))), take n (rx_contents k))"
    if "n > 0" for n
    using tcp_recv_result [of m ?b1 n] that b(2) k(2,3) c unfolding bm by (simp add: same_conn_def)
  ultimately show ?thesis
    using t(1,3) k(4,8) bm by (intro exI [of _ t] exI [of _ ?seg] exI [of _ ?ack]) (auto simp: Let_def)
qed


section \<open>Example hosts\<close>

definition idle_socket :: TcpSocket where
  "idle_socket = \<lparr>in_use = False, state = TCP_CLOSED, local_port = 0, remote_port = 0, remote_ip = 0, seq_num = 0,
     ack_num = 0, send_next = 0, send_una = 0, rx_buffer = replicate TCP_RX_BUFFER_SIZE 0, rx_head = 0, rx_tail = 0,
     pending_ack = False, last_activity = 0,
     retransmit = \<lparr>r_in_use = False, r_seq_num = 0, r_length = 0, r_flags = 0, r_sent_time = 0, r_retries = 0,
                   r_rto_ms = 0, r_data = replicate 1460 0\<rparr>\<rparr>"

definition demo_net :: "u8 \<Rightarrow> u32 \<Rightarrow> u8 \<Rightarrow> u32 \<Rightarrow> ip_state" where
  "demo_net n ip n' ip' =
     (let i = demo_ip n ip ip' [2, 0, 0, 0, 0, n'] in i\<lparr>lnk := (lnk i)\<lparr>nic_results := replicate 5 True\<rparr>\<rparr>)"

definition demo_tcp :: "ip_state \<Rightarrow> TcpSocket \<Rightarrow> tcp_state" where
  "demo_tcp ip k = \<lparr>sockets = k # idle_socket # replicate 30 idle_socket, tcp_isn_secret = 1,
     next_ephemeral_port = EPHEMERAL_PORT_MIN, t_ticks = 10, t_freq = 1000, t_mallocs = replicate 5 True, t_ip = ip\<rparr>"

definition client :: "TcpSocket \<Rightarrow> tcp_state" where
  "client k = demo_tcp (demo_net 1 0x0100000A 2 0x0200000A) k"

definition server :: "TcpSocket \<Rightarrow> tcp_state" where
  "server k = demo_tcp (demo_net 2 0x0200000A 1 0x0100000A) k"

lemma demo_net_same: "same_host (lnk (demo_ip n ip ip' [2, 0, 0, 0, 0, n'])) (lnk (demo_net n ip n' ip'))"
  by (simp add: same_host_def demo_net_def Let_def)

lemma demo_net_fields:
  "our_ip (lnk (demo_net n ip n' ip')) = ip" "our_mac (lnk (demo_net n ip n' ip')) = [2, 0, 0, 0, 0, n]"
  "nic_results (lnk (demo_net n ip n' ip')) = replicate 5 True"
  by (simp_all add: demo_net_def demo_ip_def demo_host_def Let_def)

lemma demo_net_reaches:
  assumes ip: "ip \<noteq> 0" "ip \<noteq> 0xFFFFFFFF" "ip' \<noteq> 0" "ip' \<noteq> 0xFFFFFFFF"
  shows "reaches (demo_net n ip n' ip') (lnk (demo_net n' ip' n ip))"
proof -
  have u: "usable_binding x [2, 0, 0, 0, 0, y]" if "x \<noteq> 0" "x \<noteq> 0xFFFFFFFF" for x y
    using that by (simp add: usable_binding_def arp_mac_is_unusable_def upt_rec)
  let ?a = "demo_ip n ip ip' [2, 0, 0, 0, 0, n']" and ?b = "demo_ip n' ip' ip [2, 0, 0, 0, 0, n]"
  have "next_hop (lnk ?a) ip' = ip'"
    by (simp add: next_hop_def demo_ip_def arp_add_entry_def demo_host_def Let_def split: option.splits)
  moreover have "our_ip (lnk ?b) = ip'" "our_mac (lnk ?b) = [2, 0, 0, 0, 0, n']"
    by (simp_all add: demo_ip_def demo_host_def)
  ultimately have "reaches ?a (lnk ?b)"
    using demo_ip_ok [OF ip(1,2) u [OF ip(3,4)]] demo_ip_ok [OF ip(3,4) u [OF ip(1,2)]] by (simp add: reaches_def)
  then show ?thesis by (rule reaches_same [OF demo_net_same demo_net_same])
qed

lemma demo_ready:
  assumes "n \<le> 5"
  shows "ready n (client k) (lnk (t_ip (server k')))" "ready n (server k') (lnk (t_ip (client k)))"
proof -
  have "replicate 5 True = replicate n True @ replicate (5 - n) True"
    using assms by (simp flip: replicate_add)
  then show "ready n (client k) (lnk (t_ip (server k')))" "ready n (server k') (lnk (t_ip (client k)))"
    unfolding ready_def client_def server_def demo_tcp_def using demo_net_reaches by (auto simp: demo_net_fields)
qed

lemma demo_ips: "tcp_our_ip (client k) = 0x0100000A" "tcp_our_ip (server k) = 0x0200000A"
  by (simp_all add: client_def server_def demo_tcp_def demo_net_fields)

lemma demo_sockets:
  "sockets (client k) = k # idle_socket # replicate 30 idle_socket" "sockets (server k) = k # idle_socket # replicate 30 idle_socket"
  by (simp_all add: client_def server_def demo_tcp_def)

lemma idle_simps [simp]:
  "in_use idle_socket = False" "rx_contents idle_socket = []" "rx_inv idle_socket" "\<not> r_in_use (retransmit idle_socket)"
  by (simp_all add: idle_socket_def rx_contents_def rx_inv_def rx_count_def ring_inv_def ring_contents_def TCP_RX_BUFFER_SIZE_def)

text \<open>A connected pair of sockets.\<close>

definition end_a :: TcpSocket where
  "end_a = idle_socket\<lparr>in_use := True, state := TCP_ESTABLISHED, local_port := 50000, remote_port := 80,
     remote_ip := 0x0200000A, send_next := 100, ack_num := 200\<rparr>"

definition end_b :: TcpSocket where
  "end_b = idle_socket\<lparr>in_use := True, state := TCP_ESTABLISHED, local_port := 80, remote_port := 50000,
     remote_ip := 0x0100000A, send_next := 200, ack_num := 100\<rparr>"

theorem tcp_handshake_witness:
  "\<exists>a1 syn synack ack.
    let a = client (idle_socket\<lparr>in_use := True\<rparr>); b = server (idle_socket\<lparr>in_use := True, state := TCP_LISTEN, local_port := 80\<rparr>);
        b1 = host_input b syn; a2 = host_input a1 synack; b2 = host_input b1 ack in
    tcp_connect_start a 0 0x0200000A 80 = (True, a1) \<and>
    connected (sock_at a2 0) 0x0100000A (sock_at b2 1) 0x0200000A"
proof -
  let ?a = "client (idle_socket\<lparr>in_use := True\<rparr>)"
  let ?b = "server (idle_socket\<lparr>in_use := True, state := TCP_LISTEN, local_port := 80\<rparr>)"
  have r: "ready 2 ?a (lnk (t_ip ?b))" "ready 1 ?b (lnk (t_ip ?a))" by (rule demo_ready, simp)+
  have a: "length (sockets ?a) = TCP_MAX_SOCKETS" "0 < TCP_MAX_SOCKETS" "in_use (sock_at ?a 0)"
    by (simp_all add: demo_sockets TCP_MAX_SOCKETS_def)
  have b: "find_idx (\<lambda>k. in_use k \<and> state k = TCP_LISTEN \<and> local_port k = 80) (sockets ?b) = Some 0"
    "find_idx (\<lambda>k. \<not> in_use k) (sockets ?b) = Some 1"
    by (simp_all add: demo_sockets)
  have n: "remote_ip k \<noteq> tcp_our_ip ?a" if "k \<in> set (sockets ?b)" "in_use k" "state k \<noteq> TCP_LISTEN" for k
    using that by (auto simp: demo_sockets)
  show ?thesis
    using tcp_handshake [OF r(1) a r(2) b n] unfolding Let_def demo_ips by blast
qed

theorem tcp_transfer_witness:
  "\<exists>a1 seg ack. let b1 = host_input (server end_b) seg in
     tcp_send (client end_a) 0 [1, 2, 3] [] = (Some 3, a1) \<and>
     connected (sock_at (host_input a1 ack) 0) 0x0100000A (sock_at b1 0) 0x0200000A \<and>
     fst (tcp_recv b1 0 2) = (2, [1, 2])"
proof -
  have c: "connected (sock_at (client end_a) 0) (tcp_our_ip (client end_a)) (sock_at (server end_b) 0) (tcp_our_ip (server end_b))"
    by (simp add: connected_def demo_sockets demo_ips) (simp add: end_a_def end_b_def)
  have f: "tcp_find_socket (client end_a) (tcp_our_ip (server end_b)) (remote_port (sock_at (client end_a) 0)) (local_port (sock_at (client end_a) 0)) = Some 0"
    "tcp_find_socket (server end_b) (tcp_our_ip (client end_a)) (remote_port (sock_at (server end_b) 0)) (local_port (sock_at (server end_b) 0)) = Some 0"
    by (simp_all add: tcp_find_socket_def demo_sockets demo_ips) (simp_all add: end_a_def end_b_def)
  have r: "rx_inv end_b" "rx_contents end_b = []" "\<not> pending_ack end_a"
    using rx_cong [of end_b idle_socket] by (simp_all add: end_b_def end_a_def) (simp add: idle_socket_def)
  have l: "length (sockets (client end_a)) = TCP_MAX_SOCKETS" "length (sockets (server end_b)) = TCP_MAX_SOCKETS" "0 < TCP_MAX_SOCKETS"
    by (simp_all add: demo_sockets TCP_MAX_SOCKETS_def)
  have s: "sock_at (client end_a) 0 = end_a" "sock_at (server end_b) 0 = end_b" by (simp_all add: demo_sockets)
  have d: "ready 1 (client end_a) (lnk (t_ip (server end_b)))" "ready 1 (server end_b) (lnk (t_ip (client end_a)))"
    by (rule demo_ready, simp)+
  have x: "rx_inv (sock_at (server end_b) 0)" "length (rx_contents (sock_at (server end_b) 0)) + length [1, 2, 3 :: u8] \<le> 65535"
    "\<not> pending_ack (sock_at (client end_a) 0)" "0 < length [1, 2, 3 :: u8]" "length [1, 2, 3 :: u8] \<le> 1400"
    using r by (simp_all add: s)
  obtain a1 seg ack where "tcp_send (client end_a) (int 0) [1, 2, 3] [] = (Some (int (length [1, 2, 3 :: u8])), a1)"
    "connected (sock_at (host_input a1 ack) 0) (tcp_our_ip (client end_a)) (sock_at (host_input (server end_b) seg) 0) (tcp_our_ip (server end_b))"
    "\<forall>n > 0. fst (tcp_recv (host_input (server end_b) seg) (int 0) n) =
       (int (length (take n (rx_contents (sock_at (server end_b) 0) @ [1, 2, 3]))), take n (rx_contents (sock_at (server end_b) 0) @ [1, 2, 3]))"
    using tcp_transfer [OF d(1) l(3,1) d(2) l(3,2) c f x] unfolding Let_def by blast
  then show ?thesis
    unfolding Let_def s r(2) demo_ips by (intro exI [of _ a1] exI [of _ seg] exI [of _ ack]) simp
qed


theorem ephemeral_port_found_witness:
  "\<exists>port n. get_ephemeral_port (client idle_socket) = Some (port, (client idle_socket)\<lparr>next_ephemeral_port := n\<rparr>)"
proof -
  have "length (sockets (client idle_socket)) = TCP_MAX_SOCKETS" by (simp add: demo_sockets TCP_MAX_SOCKETS_def)
  from ephemeral_port_found [OF this] show ?thesis by blast
qed

theorem tcp_rx_stream_witness:
  "\<exists>k. rx_inv idle_socket \<and> fifo_run rx_store rx_take idle_socket [PutOp [1, 2], GetOp 1] = ([1, 2], [1], k) \<and> rx_contents k = [2]"
proof -
  obtain n k1 where s: "rx_store idle_socket [1, 2] = (n, k1)" by fastforce
  then have n: "n = 2" "rx_inv k1" "rx_contents k1 = [1, 2]" using rx_store_spec [OF _ s] by auto
  obtain ys k2 where t: "rx_take k1 1 = (ys, k2)" by fastforce
  then have "ys = [1]" using rx_take_spec [OF n(2) t] n(3) by simp
  then have r: "fifo_run rx_store rx_take idle_socket [PutOp [1, 2], GetOp 1] = ([1, 2], [1], k2)" using s t n(1) by simp
  from tcp_rx_stream [OF _ r] r show ?thesis by auto
qed

end
