(* ===== verification/Tcp_States.thy ===== *)
theory Tcp_States
  imports Tcp_Conn
begin

text \<open>
  The states of a TCP socket under the events of the network: the transitions that an arriving segment
  or the retransmission timer can cause, and what the state TIME_WAIT and a repeated segment do.
\<close>

section \<open>Transitions\<close>

text \<open>The state of a table entry; an unused entry is closed.\<close>

definition conn_state :: "tcp_state \<Rightarrow> nat \<Rightarrow> TcpState" where
  "conn_state s i = (if in_use (sock_at s i) then state (sock_at s i) else TCP_CLOSED)"

text \<open>The edges of the TCP state diagram that the network causes.  A new connection takes an unused
  entry, so the diagram's edge from LISTEN to SYN_RECEIVED starts at CLOSED.\<close>

inductive tcp_edge :: "TcpState \<Rightarrow> TcpState \<Rightarrow> bool" where
  "tcp_edge TCP_CLOSED TCP_SYN_RECEIVED"
| "tcp_edge TCP_SYN_SENT TCP_ESTABLISHED"
| "tcp_edge TCP_SYN_RECEIVED TCP_ESTABLISHED"
| "tcp_edge TCP_ESTABLISHED TCP_CLOSE_WAIT"
| "tcp_edge TCP_FIN_WAIT_1 TCP_FIN_WAIT_2"
| "tcp_edge TCP_FIN_WAIT_1 TCP_CLOSING"
| "tcp_edge TCP_FIN_WAIT_1 TCP_TIME_WAIT"
| "tcp_edge TCP_FIN_WAIT_2 TCP_TIME_WAIT"
| "tcp_edge TCP_CLOSING TCP_TIME_WAIT"
| edge_closed: "tcp_edge st TCP_CLOSED"

definition moves :: "tcp_state \<Rightarrow> tcp_state \<Rightarrow> bool" where
  "moves s t \<longleftrightarrow> length (sockets t) = length (sockets s) \<and>
     (\<forall>i < length (sockets s). conn_state t i = conn_state s i \<or> tcp_edge (conn_state s i) (conn_state t i))"

lemma moves_refl [simp]: "moves s s"
  by (simp add: moves_def)

text \<open>Sending keeps every state; it changes the sending socket only.\<close>

lemma send_segment_sockets:
  "\<exists>k. sockets (snd (tcp_send_segment s j fl d)) = (sockets s)[j := k] \<and> in_use k = in_use (sock_at s j) \<and>
       state k = state (sock_at s j) \<and> (d = [] \<longrightarrow> consumes fl = 0 \<longrightarrow> retransmit k = retransmit (sock_at s j))"
proof -
  have "sockets (snd (tcp_send_segment s j fl d)) = sockets s \<or>
      sockets (snd (tcp_send_segment s j fl d)) = (sockets s)[j := tcp_sent (t_ticks s) (sock_at s j) fl d]"
    by (auto simp: tcp_send_segment_def Let_def upd_sock_def split: prod.split)
  then show ?thesis
  proof
    assume "sockets (snd (tcp_send_segment s j fl d)) = sockets s"
    then show ?thesis by (intro exI [of _ "sock_at s j"]) simp
  next
    assume "sockets (snd (tcp_send_segment s j fl d)) = (sockets s)[j := tcp_sent (t_ticks s) (sock_at s j) fl d]"
    then show ?thesis by (intro exI [of _ "tcp_sent (t_ticks s) (sock_at s j) fl d"]) (simp add: tcp_sent_retransmit)
  qed
qed

lemma moves_one:
  assumes "sockets t = (sockets s)[j := k]"
    and "j < length (sockets s) \<Longrightarrow> in_use k \<Longrightarrow> in_use (sock_at s j) \<Longrightarrow>
      state k = state (sock_at s j) \<or> tcp_edge (state (sock_at s j)) (state k)"
    and "j < length (sockets s) \<Longrightarrow> in_use k \<Longrightarrow> \<not> in_use (sock_at s j) \<Longrightarrow> state k = TCP_SYN_RECEIVED"
  shows "moves s t"
  unfolding moves_def
proof (intro conjI allI impI)
  fix i assume i: "i < length (sockets s)"
  show "conn_state t i = conn_state s i \<or> tcp_edge (conn_state s i) (conn_state t i)"
    using assms i by (cases "i = j") (auto simp: conn_state_def intro: tcp_edge.intros)
qed (simp add: assms(1))

lemma moves_upd_send:
  assumes "in_use (f (sock_at s j)) \<Longrightarrow> in_use (sock_at s j) \<Longrightarrow>
      state (f (sock_at s j)) = state (sock_at s j) \<or> tcp_edge (state (sock_at s j)) (state (f (sock_at s j)))"
    and "in_use (f (sock_at s j)) \<Longrightarrow> \<not> in_use (sock_at s j) \<Longrightarrow> state (f (sock_at s j)) = TCP_SYN_RECEIVED"
  shows "moves s (snd (tcp_send_segment (upd_sock s j f) j fl d))" and "moves s (upd_sock s j f)"
proof -
  obtain k where k: "sockets (snd (tcp_send_segment (upd_sock s j f) j fl d)) = (sockets (upd_sock s j f))[j := k]"
    "in_use k = in_use (sock_at (upd_sock s j f) j)" "state k = state (sock_at (upd_sock s j f) j)"
    using send_segment_sockets by blast
  show "moves s (snd (tcp_send_segment (upd_sock s j f) j fl d))"
    by (rule moves_one [of _ _ j k]) (use k assms in \<open>auto simp del: sock_upd(1,2)\<close>)
  show "moves s (upd_sock s j f)"
    by (rule moves_one [of _ _ j "f (sock_at s j)"]) (use assms in auto)
qed


lemma moves_same:
  assumes "length (sockets s') = length (sockets s)" and "\<And>i. conn_state s' i = conn_state s i" and "moves s' t"
  shows "moves s t"
  using assms by (simp add: moves_def)

text \<open>The branch ESTABLISHED changes its own socket only, and leaves it in the state or in CLOSE_WAIT.\<close>

lemma rx_store_conn: "rx_store k bs = (n, k') \<Longrightarrow> in_use k' = in_use k \<and> state k' = state k"
  using rx_store_frame by fastforce

definition one_sock :: "tcp_state \<Rightarrow> nat \<Rightarrow> tcp_state \<Rightarrow> TcpState set \<Rightarrow> bool" where
  "one_sock s i t S \<longleftrightarrow> (\<exists>k. sockets t = (sockets s)[i := k] \<and> in_use k = in_use (sock_at s i) \<and>
     state k \<in> insert (state (sock_at s i)) S)"

lemma one_sock_trans:
  assumes i: "i < length (sockets s)" and "one_sock s i t S" and "one_sock t i u S"
  shows "one_sock s i u S"
proof -
  obtain k where k: "sockets t = (sockets s)[i := k]" "in_use k = in_use (sock_at s i)" "state k \<in> insert (state (sock_at s i)) S"
    using assms(2) by (auto simp: one_sock_def)
  obtain k' where k': "sockets u = (sockets t)[i := k']" "in_use k' = in_use (sock_at t i)" "state k' \<in> insert (state (sock_at t i)) S"
    using assms(3) by (auto simp: one_sock_def)
  have "sock_at t i = k" using k i by simp
  then show ?thesis using k k' by (auto simp: one_sock_def intro!: exI [of _ k'])
qed

lemma one_sock_send: "one_sock s i (snd (tcp_send_segment s i fl d)) S"
  using send_segment_sockets [of s i fl d] unfolding one_sock_def by auto

lemma one_sock_upd:
  "in_use (f (sock_at s i)) = in_use (sock_at s i) \<Longrightarrow> state (f (sock_at s i)) \<in> insert (state (sock_at s i)) S \<Longrightarrow>
     one_sock s i (upd_sock s i f) S"
  unfolding one_sock_def by auto

lemma one_sock_refl: "one_sock s i s S"
  unfolding one_sock_def by (intro exI [of _ "sock_at s i"]) simp

lemma one_sock_upd_send:
  assumes "i < length (sockets s)" "in_use (f (sock_at s i)) = in_use (sock_at s i)"
    "state (f (sock_at s i)) \<in> insert (state (sock_at s i)) S"
  shows "one_sock s i (snd (tcp_send_segment (upd_sock s i f) i fl d)) S"
  by (rule one_sock_trans [OF assms(1) one_sock_upd [where f = f, OF assms(2,3)] one_sock_send])

lemma one_sock_length: "one_sock s i t S \<Longrightarrow> length (sockets t) = length (sockets s)"
  by (auto simp: one_sock_def)

lemma on_established_socket:
  assumes i: "i < length (sockets s)"
  shows "one_sock s i (tcp_on_established s i seq fl d) {TCP_CLOSE_WAIT}"
proof -
  let ?s1 = "tcp_store_payload s i seq d"
  let ?s2 = "tcp_on_fin ?s1 i seq fl (length d)"
  obtain n k where k: "rx_store (sock_at s i) d = (n, k)" by fastforce
  have 1: "one_sock s i ?s1 {TCP_CLOSE_WAIT}"
    using rx_store_conn [OF k] by (auto simp: tcp_store_payload_def k intro!: one_sock_upd one_sock_refl)
  have 2: "one_sock ?s1 i ?s2 {TCP_CLOSE_WAIT}"
    using i one_sock_length [OF 1] by (auto simp: tcp_on_fin_def intro!: one_sock_upd_send one_sock_refl)
  have l: "i < length (sockets ?s2)" using i one_sock_length [OF 1] one_sock_length [OF 2] by simp
  have 3: "one_sock ?s2 i (tcp_flush_ack ?s2 i) {TCP_CLOSE_WAIT}"
    by (auto simp: tcp_flush_ack_def intro!: one_sock_refl one_sock_trans [OF l one_sock_send] one_sock_upd)
  show ?thesis
    unfolding tcp_on_established_def by (rule one_sock_trans [OF i one_sock_trans [OF i 1 2] 3])
qed


lemma one_sock_moves:
  assumes "one_sock s i t S" and "\<And>st. st \<in> S \<Longrightarrow> tcp_edge (state (sock_at s i)) st"
  shows "moves s t"
proof -
  obtain k where "sockets t = (sockets s)[i := k]" "in_use k = in_use (sock_at s i)" "state k \<in> insert (state (sock_at s i)) S"
    using assms(1) by (auto simp: one_sock_def)
  then show ?thesis using assms(2) by (intro moves_one [of t s i k]) auto
qed

lemma ack_fin_socket:
  assumes i: "i < length (sockets s)"
  shows "one_sock s i (ack_fin s i seq st) {st}"
proof -
  let ?s = "snd (tcp_send_segment (upd_sock s i (\<lambda>k. k\<lparr>ack_num := seq + 1\<rparr>)) i TCP_FLAG_ACK [])"
  have "one_sock s i ?s {st}" using i by (intro one_sock_upd_send) auto
  moreover have "one_sock ?s i (upd_sock ?s i (\<lambda>k. k\<lparr>state := st\<rparr>)) {st}" by (intro one_sock_upd) auto
  ultimately show ?thesis unfolding ack_fin_def by (rule one_sock_trans [OF i])
qed

lemma on_listen_moves: "moves s (tcp_on_listen s si di sp dp seq fl)"
proof (cases "find_idx (\<lambda>k. \<not> in_use k) (sockets s)")
  case None
  then show ?thesis by (simp add: tcp_on_listen_def)
next
  case (Some j)
  then have "\<not> in_use (sock_at s j)" by (simp add: find_idx_Some)
  then show ?thesis
    using Some by (auto simp: tcp_on_listen_def Let_def intro!: moves_upd_send(1))
qed

lemma dispatch_moves:
  assumes i: "i < length (sockets s)"
  shows "moves s (tcp_dispatch s i si di sp dp seq ack fl d)"
proof (cases "state (sock_at s i)")
  case TCP_LISTEN
  then show ?thesis by (simp add: tcp_dispatch_def Let_def on_listen_moves)
next
  case TCP_SYN_SENT
  then show ?thesis by (auto simp: tcp_dispatch_def Let_def intro!: moves_upd_send(1) tcp_edge.intros)
next
  case TCP_SYN_RECEIVED
  then show ?thesis by (auto simp: tcp_dispatch_def Let_def intro!: moves_upd_send(2) tcp_edge.intros)
next
  case TCP_ESTABLISHED
  then show ?thesis
    by (auto simp: tcp_dispatch_def Let_def intro!: one_sock_moves [OF on_established_socket [OF i]] tcp_edge.intros)
next
  case TCP_FIN_WAIT_1
  then show ?thesis
    by (auto simp: tcp_dispatch_def Let_def intro!: one_sock_moves [OF ack_fin_socket [OF i]] moves_upd_send(2) tcp_edge.intros)
next
  case TCP_FIN_WAIT_2
  then show ?thesis
    by (auto simp: tcp_dispatch_def Let_def intro!: one_sock_moves [OF ack_fin_socket [OF i]] tcp_edge.intros)
next
  case TCP_CLOSING
  then show ?thesis by (auto simp: tcp_dispatch_def Let_def intro!: moves_upd_send(2) tcp_edge.intros)
next
  case TCP_LAST_ACK
  then show ?thesis by (auto simp: tcp_dispatch_def Let_def intro!: moves_upd_send(2) tcp_edge.intros)
next
  case TCP_TIME_WAIT
  then show ?thesis
    by (auto simp: tcp_dispatch_def Let_def intro!: one_sock_moves [OF one_sock_send, where S = "{}"])
qed (simp_all add: tcp_dispatch_def Let_def)

lemma tcp_acknowledge_conn [simp]:
  "in_use (tcp_acknowledge k fl ack) = in_use k" "state (tcp_acknowledge k fl ack) = state k"
  by (simp_all add: tcp_acknowledge_def Let_def)

lemma tcp_find_bound: "tcp_find_socket s ip sp dp = Some i \<Longrightarrow> i < length (sockets s) \<and> in_use (sock_at s i)"
  by (auto simp: tcp_find_socket_def find_idx_Some split: option.splits)

lemma receive_moves: "moves s (tcp_receive s data si di)"
proof -
  have d: "moves s (tcp_dispatch (upd_sock s i (\<lambda>k. tcp_acknowledge k fl ack)) i si di sp dp seq ack fl d)"
    if "i < length (sockets s)" for i sp dp seq ack fl d
  proof (rule moves_same)
    show "conn_state (upd_sock s i (\<lambda>k. tcp_acknowledge k fl ack)) j = conn_state s j" for j
      using that by (cases "j = i") (simp_all add: conn_state_def del: sock_upd(3))
  qed (use that in \<open>auto intro: dispatch_moves\<close>)
  show ?thesis
    using d by (auto simp: tcp_receive_def Let_def dest: tcp_find_bound intro!: moves_upd_send(2) split: option.split)
qed

text \<open>The timer only closes sockets.\<close>

lemma poll_sock_socket:
  "\<exists>k. sockets (tcp_poll_sock s i) = (sockets s)[i := k] \<and> (in_use k \<longrightarrow> in_use (sock_at s i) \<and> state k = state (sock_at s i))"
proof (cases "in_use (sock_at s i) \<and> state (sock_at s i) \<noteq> TCP_CLOSED \<and> state (sock_at s i) \<noteq> TCP_LISTEN \<and>
    r_in_use (retransmit (sock_at s i)) \<and> tcp_expired s (sock_at s i)")
  case True
  then show ?thesis
    by (auto simp: tcp_poll_sock_def Let_def split: prod.split intro!: exI)
next
  case False
  then have "tcp_poll_sock s i = s" by (auto simp: tcp_poll_sock_def Let_def)
  then show ?thesis by (intro exI [of _ "sock_at s i"]) simp
qed

lemma poll_sock_closes:
  "length (sockets (tcp_poll_sock s i)) = length (sockets s) \<and>
   (\<forall>j < length (sockets s). conn_state (tcp_poll_sock s i) j \<in> {conn_state s j, TCP_CLOSED})"
proof -
  obtain k where k: "sockets (tcp_poll_sock s i) = (sockets s)[i := k]" "in_use k \<longrightarrow> in_use (sock_at s i) \<and> state k = state (sock_at s i)"
    using poll_sock_socket by blast
  have "conn_state (tcp_poll_sock s i) j \<in> {conn_state s j, TCP_CLOSED}" if "j < length (sockets s)" for j
    using k that by (cases "j = i") (auto simp: conn_state_def)
  with k show ?thesis by simp
qed

lemma poll_closes:
  "length (sockets (foldl tcp_poll_sock s is)) = length (sockets s) \<and>
   (\<forall>j < length (sockets s). conn_state (foldl tcp_poll_sock s is) j \<in> {conn_state s j, TCP_CLOSED})"
proof (induction "is" arbitrary: s)
  case (Cons i ys)
  have l: "length (sockets (tcp_poll_sock s i)) = length (sockets s)" using poll_sock_closes by blast
  have "conn_state (foldl tcp_poll_sock s (i # ys)) j \<in> {conn_state s j, TCP_CLOSED}" if j: "j < length (sockets s)" for j
  proof -
    have "conn_state (foldl tcp_poll_sock (tcp_poll_sock s i) ys) j \<in> {conn_state (tcp_poll_sock s i) j, TCP_CLOSED}"
      using Cons.IH [of "tcp_poll_sock s i"] j l by simp
    moreover have "conn_state (tcp_poll_sock s i) j \<in> {conn_state s j, TCP_CLOSED}" using poll_sock_closes j by blast
    ultimately show ?thesis by auto
  qed
  then show ?case using Cons.IH [of "tcp_poll_sock s i"] l by simp
qed simp

text \<open>
  C21.  Whatever arrives from the network (a segment with any content and addresses, the retransmission
  timer, the passing of time), every socket stays in its state or moves along one edge of the TCP state
  diagram; no event takes a socket anywhere else.
\<close>

theorem tcp_follows_diagram: "moves s (tcp_react s e)"
proof (cases e)
  case (Segment data si di)
  then show ?thesis by (simp add: receive_moves)
next
  case Poll
  have "conn_state (tcp_poll s) i = conn_state s i \<or> tcp_edge (conn_state s i) (conn_state (tcp_poll s) i)"
    if "i < length (sockets s)" for i
  proof -
    have "conn_state (tcp_poll s) i \<in> {conn_state s i, TCP_CLOSED}" using poll_closes that by (simp add: tcp_poll_def)
    then show ?thesis using edge_closed by fastforce
  qed
  then have "moves s (tcp_poll s)" using poll_closes by (simp add: moves_def tcp_poll_def)
  then show ?thesis using Poll by simp
next
  case (Tick n)
  then show ?thesis by (simp add: moves_def conn_state_def)
qed


section \<open>TIME_WAIT\<close>

definition held :: "tcp_state \<Rightarrow> nat \<Rightarrow> bool" where
  "held s i \<longleftrightarrow> i < length (sockets s) \<and> in_use (sock_at s i) \<and> state (sock_at s i) = TCP_TIME_WAIT \<and>
     \<not> r_in_use (retransmit (sock_at s i))"

lemma held_other: "held s i \<Longrightarrow> j \<noteq> i \<Longrightarrow> sockets t = (sockets s)[j := k] \<Longrightarrow> held t i"
  by (simp add: held_def)

lemma held_ack: "held s i \<Longrightarrow> held (snd (tcp_send_segment s i TCP_FLAG_ACK [])) i"
  using send_segment_sockets [of s i TCP_FLAG_ACK "[]"] by (auto simp: held_def)

lemma held_upd_send:
  assumes "held s i" "m \<noteq> i"
  shows "held (snd (tcp_send_segment (upd_sock s m f) m fl d)) i"
proof -
  obtain k where "sockets (snd (tcp_send_segment (upd_sock s m f) m fl d)) = (sockets (upd_sock s m f))[m := k]"
    using send_segment_sockets by blast
  then show ?thesis using held_other [OF assms] by simp
qed

lemma dispatch_only:
  assumes j: "j < length (sockets s)" "state (sock_at s j) \<noteq> TCP_LISTEN"
  shows "\<exists>k. sockets (tcp_dispatch s j si di sp dp seq ack fl d) = (sockets s)[j := k]"
proof -
  have one: "\<exists>k. sockets t = (sockets s)[j := k]" if "one_sock s j t S" for t S
    using that by (auto simp: one_sock_def)
  have send: "\<exists>k. sockets (snd (tcp_send_segment (upd_sock s j f) j fl' d')) = (sockets s)[j := k]" for f fl' d'
    using send_segment_sockets [of "upd_sock s j f" j fl' d'] by auto
  have upd: "\<exists>k. sockets (upd_sock s j f) = (sockets s)[j := k]" for f by auto
  have same: "\<exists>k. sockets s = (sockets s)[j := k]" by (metis list_update_id)
  show ?thesis
    using j(2) one [OF on_established_socket [OF j(1)]] one [OF ack_fin_socket [OF j(1)]] send upd same one [OF one_sock_send]
    by (cases "state (sock_at s j)") (simp_all add: tcp_dispatch_def Let_def del: sock_upd)
qed

lemma held_dispatch:
  assumes h: "held s i" and j: "j < length (sockets s)"
  shows "held (tcp_dispatch s j si di sp dp seq ack fl d) i"
proof (cases "j = i")
  case True
  then show ?thesis using h held_ack by (simp add: tcp_dispatch_def held_def Let_def)
next
  case ne: False
  show ?thesis
  proof (cases "state (sock_at s j) = TCP_LISTEN")
    case True
    have "held (tcp_on_listen s si di sp dp seq fl) i"
    proof (cases "find_idx (\<lambda>k. \<not> in_use k) (sockets s)")
      case (Some m)
      then have "m \<noteq> i" using h by (auto simp: find_idx_Some held_def)
      then show ?thesis using h Some by (auto simp: tcp_on_listen_def Let_def intro: held_upd_send)
    qed (simp add: tcp_on_listen_def h)
    then show ?thesis using True by (simp add: tcp_dispatch_def Let_def)
  next
    case False
    then show ?thesis using dispatch_only [OF j] held_other [OF h ne] by blast
  qed
qed


lemma held_acknowledge: "held s i \<Longrightarrow> held (upd_sock s j (\<lambda>k. tcp_acknowledge k fl ack)) i"
  by (cases "j = i") (auto simp: held_def tcp_acknowledge_def Let_def)

definition no_reset :: "tcp_event \<Rightarrow> bool" where
  "no_reset e = (case e of Segment data src dst \<Rightarrow> \<not> has_flag (data ! 13) TCP_FLAG_RST | _ \<Rightarrow> True)"

lemma held_receive:
  assumes "held s i" "\<not> has_flag (data ! 13) TCP_FLAG_RST"
  shows "held (tcp_receive s data si di) i"
  using assms held_dispatch [OF held_acknowledge [OF assms(1)]]
  by (auto simp: tcp_receive_def Let_def dest: tcp_find_bound split: option.split)

lemma held_poll: "held s i \<Longrightarrow> held (foldl tcp_poll_sock s is) i"
proof (induction "is" arbitrary: s)
  case (Cons j js)
  have "held (tcp_poll_sock s j) i"
  proof (cases "j = i")
    case True
    then show ?thesis using Cons.prems by (simp add: tcp_poll_sock_def held_def Let_def)
  next
    case False
    then show ?thesis using poll_sock_socket [of s j] held_other [OF Cons.prems] by blast
  qed
  from Cons.IH [OF this] show ?case by simp
qed simp

lemma held_react: "held s i \<Longrightarrow> no_reset e \<Longrightarrow> held (tcp_react s e) i"
proof (cases e)
  case (Tick n)
  then show "held s i \<Longrightarrow> no_reset e \<Longrightarrow> held (tcp_react s e) i" by (simp add: held_def)
qed (simp_all add: no_reset_def held_receive tcp_poll_def held_poll)

text \<open>
  TIME_WAIT has no end: a socket in TIME_WAIT with nothing to retransmit stays there and stays in use
  through every sequence of segments without RST, retransmission polls and passing of time, so its
  table entry is never given out by \<open>tcp_socket\<close> again.
\<close>

theorem tcp_time_wait_held:
  assumes "i < length (sockets s)" "in_use (sock_at s i)" "state (sock_at s i) = TCP_TIME_WAIT"
    and "\<not> r_in_use (retransmit (sock_at s i))" and "list_all no_reset es"
  shows "let t = foldl tcp_react s es in
    in_use (sock_at t i) \<and> state (sock_at t i) = TCP_TIME_WAIT \<and> fst (tcp_socket t) \<noteq> int i"
proof -
  have "held s i \<Longrightarrow> list_all no_reset es \<Longrightarrow> held (foldl tcp_react s es) i"
    by (induction es arbitrary: s) (simp_all add: held_react)
  then have h: "held (foldl tcp_react s es) i" using assms by (simp add: held_def)
  then have "fst (tcp_socket (foldl tcp_react s es)) \<noteq> int i"
    by (auto simp: tcp_socket_def held_def find_idx_Some split: option.split)
  with h show ?thesis by (simp add: held_def Let_def)
qed

section \<open>Repeated segments\<close>

text \<open>
  C32.  The receiver does not look at sequence numbers: when a data segment arrives a second time, as it
  does when its acknowledgement was lost and the sender retransmits it, its bytes are appended to the
  receive ring a second time, and the application reads them twice.
\<close>

theorem tcp_duplicate_delivered:
  fixes seq ak :: u32
  assumes ready: "ready 2 s a" and m: "m < length (sockets s)"
    and find: "tcp_find_socket s (our_ip a) sp dp = Some m"
    and k: "state (sock_at s m) = TCP_ESTABLISHED" "remote_ip (sock_at s m) = our_ip a" "rx_inv (sock_at s m)"
      "\<not> r_in_use (retransmit (sock_at s m))"
    and len: "0 < length data" "length data \<le> 1460" "length (rx_contents (sock_at s m)) + 2 * length data \<le> 65535"
  defines "seg \<equiv> tcp_packet (our_ip a) (tcp_our_ip s) sp dp seq ak (TCP_FLAG_ACK OR TCP_FLAG_PSH) data"
  defines "t \<equiv> tcp_receive s seg (our_ip a) (tcp_our_ip s)"
  shows "rx_contents (sock_at (tcp_receive t seg (our_ip a) (tcp_our_ip s)) m) = rx_contents (sock_at s m) @ data @ data"
proof -
  have r: "ready (Suc (Suc 0)) s a" using ready by (simp add: numeral_2_eq_2)
  have l: "length (rx_contents (sock_at s m)) + length data \<le> 65535" using len by simp
  obtain k where k1: "sockets t = (sockets s)[m := k]" "same_conn k (sock_at s m)" "rx_inv k"
    "rx_contents k = rx_contents (sock_at s m) @ data" "retransmit k = retransmit (sock_at s m)"
    "ready (Suc 0) t a" "same_host (lnk (t_ip s)) (lnk (t_ip t))"
    using receive_data [OF r m find k len(1,2) l, of seq ak] unfolding t_def seg_def by blast
  have ip: "tcp_our_ip s = tcp_our_ip t" using k1(7) by (simp add: same_host_def)
  have sk: "sock_at t m = k" "m < length (sockets t)" using k1(1) m by auto
  have f: "tcp_find_socket t (our_ip a) sp dp = Some m" using tcp_find_same [OF k1(2,1)] find by simp
  have h: "state (sock_at t m) = TCP_ESTABLISHED" "remote_ip (sock_at t m) = our_ip a" "rx_inv (sock_at t m)"
    "\<not> r_in_use (retransmit (sock_at t m))" "length (rx_contents (sock_at t m)) + length data \<le> 65535"
    using k1 k sk len by (auto simp: same_conn_def)
  from receive_data [OF k1(6) sk(2) f h(1-4) len(1,2) h(5), of seq ak] show ?thesis
    using k1(4) sk unfolding seg_def ip by auto
qed


theorem tcp_time_wait_held_witness:
  "let s = client (idle_socket\<lparr>in_use := True, state := TCP_TIME_WAIT\<rparr>);
       es = [Poll, Tick 1000000, Segment (replicate 20 0) 0x0200000A 0x0100000A, Poll]; t = foldl tcp_react s es
   in list_all no_reset es \<and> state (sock_at t 0) = TCP_TIME_WAIT \<and> fst (tcp_socket t) \<noteq> 0"
proof -
  let ?s = "client (idle_socket\<lparr>in_use := True, state := TCP_TIME_WAIT\<rparr>)"
  let ?es = "[Poll, Tick 1000000, Segment (replicate 20 0) 0x0200000A 0x0100000A, Poll]"
  have h: "0 < length (sockets ?s)" "in_use (sock_at ?s 0)" "state (sock_at ?s 0) = TCP_TIME_WAIT"
    "\<not> r_in_use (retransmit (sock_at ?s 0))"
    by (simp_all add: demo_sockets)
  have e: "list_all no_reset ?es" by (simp add: no_reset_def has_flag_def)
  obtain t where t: "t = foldl tcp_react ?s ?es" by blast
  show ?thesis using tcp_time_wait_held [OF h e] e unfolding Let_def t [symmetric] by simp
qed

theorem tcp_duplicate_delivered_witness:
  "let seg = tcp_packet 0x0100000A 0x0200000A 50000 80 100 200 (TCP_FLAG_ACK OR TCP_FLAG_PSH) [1, 2];
       t = tcp_receive (server end_b) seg 0x0100000A 0x0200000A
   in rx_contents (sock_at (tcp_receive t seg 0x0100000A 0x0200000A) 0) = [1, 2, 1, 2]"
proof -
  have d: "ready 2 (server end_b) (lnk (t_ip (client end_a)))" by (rule demo_ready) simp
  have r: "rx_inv end_b" "rx_contents end_b = []" using rx_cong [of end_b idle_socket] by (simp_all add: end_b_def)
  have s: "sock_at (server end_b) 0 = end_b" "0 < length (sockets (server end_b))" by (simp_all add: demo_sockets)
  have f: "tcp_find_socket (server end_b) (our_ip (lnk (t_ip (client end_a)))) 50000 80 = Some 0"
    by (simp add: tcp_find_socket_def demo_sockets demo_ips) (simp add: end_b_def)
  have h: "state (sock_at (server end_b) 0) = TCP_ESTABLISHED" "remote_ip (sock_at (server end_b) 0) = our_ip (lnk (t_ip (client end_a)))"
    "rx_inv (sock_at (server end_b) 0)" "\<not> r_in_use (retransmit (sock_at (server end_b) 0))"
    "0 < length [1, 2 :: u8]" "length [1, 2 :: u8] \<le> 1460"
    "length (rx_contents (sock_at (server end_b) 0)) + 2 * length [1, 2 :: u8] \<le> 65535"
    using r by (simp_all add: s demo_ips) (simp_all add: end_b_def)
  show ?thesis
    using tcp_duplicate_delivered [OF d s(2) f h, of 100 200] r unfolding s demo_ips Let_def by simp
qed

end
