(* ===== verification/Kstring.thy ===== *)
theory Kstring
  imports Prelude
begin

text \<open>
  The kernel's string and memory routines, \<open>include/libk/kstring.h\<close>.  The \<open>mem\<close> routines work on
  memory, a function from addresses to bytes, and are written with the loops of the code: bytes up to
  an 8-byte boundary, 64-bit words, the remaining bytes, or the \<open>rep\<close> instructions when the processor
  has them.  The \<open>str\<close> routines work on the bytes from a pointer to the end of its object, where a byte
  past the end reads as the terminator.  Objects do not wrap around the end of the address space.
\<close>

type_synonym mem = "nat \<Rightarrow> u8"

section \<open>Memory\<close>

definition load64 :: "mem \<Rightarrow> nat \<Rightarrow> u64" where
  "load64 m a = le_word (map m [a..<a + 8])"

definition store64 :: "mem \<Rightarrow> nat \<Rightarrow> u64 \<Rightarrow> mem" where
  "store64 m a v = (\<lambda>x. if a \<le> x \<and> x < a + 8 then ucast (drop_bit (8 * (x - a)) v) else m x)"

text \<open>The loops of \<open>memset\<close>.\<close>

fun set_bytes :: "mem \<Rightarrow> nat \<Rightarrow> nat \<Rightarrow> u8 \<Rightarrow> mem" where
  "set_bytes m d 0 c = m"
| "set_bytes m d (Suc n) c = set_bytes (m(d := c)) (d + 1) n c"

fun set_to_boundary :: "mem \<Rightarrow> nat \<Rightarrow> nat \<Rightarrow> u8 \<Rightarrow> mem \<times> nat \<times> nat" where
  "set_to_boundary m d 0 c = (m, d, 0)"
| "set_to_boundary m d (Suc n) c =
     (if d mod 8 \<noteq> 0 then set_to_boundary (m(d := c)) (d + 1) n c else (m, d, Suc n))"

function set_words :: "mem \<Rightarrow> nat \<Rightarrow> nat \<Rightarrow> u64 \<Rightarrow> mem \<times> nat \<times> nat" where
  "set_words m d n v = (if n \<ge> 8 then set_words (store64 m d v) (d + 8) (n - 8) v else (m, d, n))"
  by pat_completeness auto
termination
  by (relation "measure (\<lambda>(m, d, n, v). n)") auto

declare set_words.simps [simp del]

text \<open>The byte \<open>c\<close> in every byte of a 64-bit word, as the shifts of the code build it.\<close>

definition val64 :: "u8 \<Rightarrow> u64" where
  "val64 c = (let v = ucast c :: u64 in
     push_bit 56 v OR push_bit 48 v OR push_bit 40 v OR push_bit 32 v OR
     push_bit 24 v OR push_bit 16 v OR push_bit 8 v OR v)"

text \<open>
  \<open>memset\<close> returns the memory and the returned pointer.  The operand \<open>"+D"(dst)\<close> makes \<open>rep stosb\<close>
  leave \<open>dst\<close> behind the region it has filled.
\<close>

definition memset :: "bool \<Rightarrow> mem \<Rightarrow> nat \<Rightarrow> u32 \<Rightarrow> nat \<Rightarrow> mem \<times> nat" where
  "memset erms m dst c n =
     (if n \<ge> 64 \<and> erms then (set_bytes m dst n (ucast c), dst + n)
      else
        let (m, d, n) = set_to_boundary m dst n (ucast c);
            (m, d, n) = set_words m d n (val64 (ucast c))
        in (set_bytes m d n (ucast c), dst))"

text \<open>The loops of \<open>memcpy\<close>, also those of \<open>memmove\<close> when it copies forward.\<close>

fun copy_up :: "mem \<Rightarrow> nat \<Rightarrow> nat \<Rightarrow> nat \<Rightarrow> mem" where
  "copy_up m d s 0 = m"
| "copy_up m d s (Suc n) = copy_up (m(d := m s)) (d + 1) (s + 1) n"

fun copy_to_boundary :: "mem \<Rightarrow> nat \<Rightarrow> nat \<Rightarrow> nat \<Rightarrow> mem \<times> nat \<times> nat \<times> nat" where
  "copy_to_boundary m d s 0 = (m, d, s, 0)"
| "copy_to_boundary m d s (Suc n) =
     (if d mod 8 \<noteq> 0 then copy_to_boundary (m(d := m s)) (d + 1) (s + 1) n else (m, d, s, Suc n))"

function copy_words :: "mem \<Rightarrow> nat \<Rightarrow> nat \<Rightarrow> nat \<Rightarrow> mem \<times> nat \<times> nat \<times> nat" where
  "copy_words m d s n =
     (if n \<ge> 8 then copy_words (store64 m d (load64 m s)) (d + 8) (s + 8) (n - 8) else (m, d, s, n))"
  by pat_completeness auto
termination
  by (relation "measure (\<lambda>(m, d, s, n). n)") auto

declare copy_words.simps [simp del]

definition copy_forward :: "mem \<Rightarrow> nat \<Rightarrow> nat \<Rightarrow> nat \<Rightarrow> mem" where
  "copy_forward m d s n =
     (let (m, d, s, n) =
        (if d mod 8 = s mod 8 then
           let (m, d, s, n) = copy_to_boundary m d s n in copy_words m d s n
         else (m, d, s, n))
      in copy_up m d s n)"

definition memcpy :: "bool \<Rightarrow> mem \<Rightarrow> nat \<Rightarrow> nat \<Rightarrow> nat \<Rightarrow> mem \<times> nat" where
  "memcpy erms m dst src n =
     (if n \<ge> 64 \<and> erms then (copy_up m dst src n, dst + n) else (copy_forward m dst src n, dst))"

text \<open>
  The loops of \<open>memmove\<close> that copy backward: \<open>d\<close> and \<open>s\<close> point behind the bytes left to copy.
\<close>

fun copy_down :: "mem \<Rightarrow> nat \<Rightarrow> nat \<Rightarrow> nat \<Rightarrow> mem" where
  "copy_down m d s 0 = m"
| "copy_down m d s (Suc n) = copy_down (m(d - 1 := m (s - 1))) (d - 1) (s - 1) n"

fun down_to_boundary :: "mem \<Rightarrow> nat \<Rightarrow> nat \<Rightarrow> nat \<Rightarrow> mem \<times> nat \<times> nat \<times> nat" where
  "down_to_boundary m d s 0 = (m, d, s, 0)"
| "down_to_boundary m d s (Suc n) =
     (if d mod 8 \<noteq> 0 then down_to_boundary (m(d - 1 := m (s - 1))) (d - 1) (s - 1) n
      else (m, d, s, Suc n))"

function down_words :: "mem \<Rightarrow> nat \<Rightarrow> nat \<Rightarrow> nat \<Rightarrow> mem \<times> nat \<times> nat \<times> nat" where
  "down_words m d s n =
     (if n \<ge> 8 then down_words (store64 m (d - 8) (load64 m (s - 8))) (d - 8) (s - 8) (n - 8)
      else (m, d, s, n))"
  by pat_completeness auto
termination
  by (relation "measure (\<lambda>(m, d, s, n). n)") auto

declare down_words.simps [simp del]

text \<open>\<open>std; rep movsb; cld\<close> with the pointers at the last byte: bytes from the last to the first.\<close>

fun rep_movsb_down :: "mem \<Rightarrow> nat \<Rightarrow> nat \<Rightarrow> nat \<Rightarrow> mem" where
  "rep_movsb_down m d s 0 = m"
| "rep_movsb_down m d s (Suc n) = rep_movsb_down (m(d := m s)) (d - 1) (s - 1) n"

definition memmove :: "bool \<Rightarrow> mem \<Rightarrow> nat \<Rightarrow> nat \<Rightarrow> nat \<Rightarrow> mem \<times> nat" where
  "memmove erms m dst src n =
     (if dst < src then
        (if n \<ge> 64 \<and> erms then (copy_up m dst src n, dst) else (copy_forward m dst src n, dst))
      else if dst > src then
        (if n \<ge> 64 \<and> erms then (rep_movsb_down m (dst + (n - 1)) (src + (n - 1)) n, dst)
         else
           let d = dst + n; s = src + n;
               (m, d, s, n) =
                 (if d mod 8 = s mod 8 then
                    let (m, d, s, n) = down_to_boundary m d s n in down_words m d s n
                  else (m, d, s, n))
           in (copy_down m d s n, dst))
      else (m, dst))"

fun memcmp :: "mem \<Rightarrow> nat \<Rightarrow> nat \<Rightarrow> nat \<Rightarrow> int" where
  "memcmp m a b 0 = 0"
| "memcmp m a b (Suc n) = (if m a \<noteq> m b then uint (m a) - uint (m b) else memcmp m (a + 1) (b + 1) n)"

section \<open>Strings\<close>

text \<open>The byte a pointer reads, and the string it points to, up to its terminator.\<close>

definition at0 :: "u8 list \<Rightarrow> u8" where
  "at0 s = (case s of [] \<Rightarrow> 0 | c # _ \<Rightarrow> c)"

definition cstr :: "u8 list \<Rightarrow> u8 list" where
  "cstr s = takeWhile (\<lambda>c. c \<noteq> 0) s"

fun strlen :: "u8 list \<Rightarrow> nat" where
  "strlen [] = 0"
| "strlen (c # s) = (if c \<noteq> 0 then strlen s + 1 else 0)"

fun strcmp :: "u8 list \<Rightarrow> u8 list \<Rightarrow> int" where
  "strcmp [] t = - uint (at0 t)"
| "strcmp (c # s) t = (if c \<noteq> 0 \<and> c = at0 t then strcmp s (tl t) else uint c - uint (at0 t))"

fun strncmp :: "u8 list \<Rightarrow> u8 list \<Rightarrow> nat \<Rightarrow> int" where
  "strncmp s t 0 = 0"
| "strncmp s t (Suc n) =
     (if at0 s \<noteq> 0 \<and> at0 s = at0 t then strncmp (tl s) (tl t) n else uint (at0 s) - uint (at0 t))"

text \<open>
  \<open>strncpy\<close> and \<open>strncat\<close> return the destination buffer after the call.  A write past the end of the
  buffer is dropped; the lemmas below ask for a buffer that is long enough.
\<close>

definition pad_zeros :: "u8 list \<Rightarrow> nat \<Rightarrow> u8 list" where
  "pad_zeros dst n = replicate (min n (length dst)) 0 @ drop n dst"

fun strncpy :: "u8 list \<Rightarrow> u8 list \<Rightarrow> nat \<Rightarrow> u8 list" where
  "strncpy dst src 0 = dst"
| "strncpy [] src (Suc n) = []"
| "strncpy (d # dst) src (Suc n) =
     (if at0 src \<noteq> 0 then at0 src # strncpy dst (tl src) n else pad_zeros (d # dst) (Suc n))"

fun cat_copy :: "u8 list \<Rightarrow> u8 list \<Rightarrow> nat \<Rightarrow> u8 list" where
  "cat_copy [] src n = []"
| "cat_copy (d # dst) src 0 = 0 # dst"
| "cat_copy (d # dst) src (Suc n) = (if at0 src \<noteq> 0 then at0 src # cat_copy dst (tl src) n else 0 # dst)"

fun strncat :: "u8 list \<Rightarrow> u8 list \<Rightarrow> nat \<Rightarrow> u8 list" where
  "strncat [] src n = []"
| "strncat (d # dst) src n = (if d \<noteq> 0 then d # strncat dst src n else cat_copy (d # dst) src n)"

text \<open>\<open>strchr\<close>, \<open>strrchr\<close> and \<open>strstr\<close> return the offset of the match, \<open>None\<close> for the null pointer.\<close>

fun strchr :: "u8 list \<Rightarrow> u8 \<Rightarrow> nat option" where
  "strchr [] c = (if c = 0 then Some 0 else None)"
| "strchr (b # s) c = (if b = c then Some 0 else if b = 0 then None else map_option Suc (strchr s c))"

fun strrchr :: "u8 list \<Rightarrow> u8 \<Rightarrow> nat \<Rightarrow> nat option \<Rightarrow> nat option" where
  "strrchr [] c i found = (if c = 0 then Some i else found)"
| "strrchr (b # s) c i found =
     (let found = (if b = c then Some i else found) in if b \<noteq> 0 then strrchr s c (i + 1) found else found)"

text \<open>The inner loop of \<open>strstr\<close>: whether the needle is exhausted when the comparison stops.\<close>

fun needle_here :: "u8 list \<Rightarrow> u8 list \<Rightarrow> bool" where
  "needle_here h [] = True"
| "needle_here h (n # ns) =
     (if at0 h \<noteq> 0 \<and> n \<noteq> 0 \<and> at0 h = n then needle_here (tl h) ns else n = 0)"

fun strstr_loop :: "u8 list \<Rightarrow> u8 list \<Rightarrow> nat option" where
  "strstr_loop [] needle = None"
| "strstr_loop (b # h) needle =
     (if b = 0 then None
      else if b = at0 needle \<and> needle_here (b # h) needle then Some 0
      else map_option Suc (strstr_loop h needle))"

definition strstr :: "u8 list \<Rightarrow> u8 list \<Rightarrow> nat option" where
  "strstr haystack needle = (if at0 needle = 0 then Some 0 else strstr_loop haystack needle)"

text \<open>\<open>string_view\<close> built from a C string is the string up to its terminator.\<close>

fun sv_starts_with :: "u8 list \<Rightarrow> u8 list \<Rightarrow> bool" where
  "sv_starts_with s [] = True"
| "sv_starts_with [] (c # t) = False"
| "sv_starts_with (b # s) (c # t) = (b = c \<and> sv_starts_with s t)"

section \<open>Numbers\<close>

text \<open>
  \<open>itoa\<close>: the digits are produced from the last to the first, then the buffer is reversed in place by
  two indices that meet.  The base is at least 2 (with base 1 the loop of the code would not end).
\<close>

definition digit_char :: "nat \<Rightarrow> u8" where
  "digit_char d = (if d < 10 then of_nat (48 + d) else of_nat (97 + d - 10))"

function itoa_digits :: "nat \<Rightarrow> nat \<Rightarrow> u8 list" where
  "itoa_digits base v =
     (if base \<le> 1 \<or> v div base = 0 then [digit_char (v mod base)]
      else digit_char (v mod base) # itoa_digits base (v div base))"
  by pat_completeness auto
termination
  by (relation "measure (\<lambda>(base, v). v)")
    (auto simp: not_le intro!: div_less_dividend, metis div_0 gr0I)

declare itoa_digits.simps [simp del]

function reverse_in_place :: "u8 list \<Rightarrow> nat \<Rightarrow> nat \<Rightarrow> u8 list" where
  "reverse_in_place buf i j =
     (if i < j then reverse_in_place (buf[i := buf ! j, j := buf ! i]) (i + 1) (j - 1) else buf)"
  by pat_completeness auto
termination
  by (relation "measure (\<lambda>(buf, i, j). j - i)") auto

declare reverse_in_place.simps [simp del]

definition itoa :: "int \<Rightarrow> nat \<Rightarrow> u8 list" where
  "itoa v base =
     (let negative = (v < 0 \<and> base = 10);
          uvalue = nat ((if negative then - v else v) mod 2 ^ 64);
          buf = itoa_digits base uvalue @ (if negative then [45] else [])
      in reverse_in_place buf 0 (length buf - 1))"


section \<open>Copies and fills\<close>

text \<open>The reference: all bytes of the region are read before the first one is written.\<close>

definition copied :: "mem \<Rightarrow> nat \<Rightarrow> nat \<Rightarrow> nat \<Rightarrow> mem" where
  "copied m d s n = (\<lambda>x. if d \<le> x \<and> x < d + n then m (s + (x - d)) else m x)"

definition filled :: "mem \<Rightarrow> nat \<Rightarrow> nat \<Rightarrow> u8 \<Rightarrow> mem" where
  "filled m d n c = (\<lambda>x. if d \<le> x \<and> x < d + n then c else m x)"

lemma copied_0: "copied m d s 0 = m"
  by (auto simp: copied_def fun_eq_iff)

lemma filled_0: "filled m d 0 c = m"
  by (auto simp: filled_def fun_eq_iff)

lemma copied_1: "m(d := m s) = copied m d s 1"
  by (auto simp: copied_def fun_eq_iff)

lemma filled_1: "m(d := c) = filled m d 1 c"
  by (auto simp: filled_def fun_eq_iff)

lemma filled_append: "filled (filled m d j c) (d + j) n c = filled m d (j + n) c"
  by (auto simp: filled_def fun_eq_iff)

lemma filled_Suc: "filled (filled m d (Suc 0) c) (Suc d) n c = filled m d (Suc n) c"
  using filled_append [of m d 1 c n] by simp

text \<open>A copy may be done in pieces from the front when no byte is overwritten before it is read.\<close>

lemma copied_append:
  assumes "d \<le> s \<or> s + j + n \<le> d"
  shows "copied (copied m d s j) (d + j) (s + j) n = copied m d s (j + n)"
proof
  fix x
  show "copied (copied m d s j) (d + j) (s + j) n x = copied m d s (j + n) x"
    using assms by (auto simp: copied_def)
qed

text \<open>\<dots> and from the back in the opposite case.\<close>

lemma copied_prepend:
  assumes "s \<le> d"
  shows "copied (copied m (d + n) (s + n) j) d s n = copied m d s (n + j)"
proof
  fix x
  show "copied (copied m (d + n) (s + n) j) d s n x = copied m d s (n + j) x"
    using assms by (auto simp: copied_def)
qed

lemma ucast_byte_of_le_word:
  assumes "k < length bs" and "length bs = 8"
  shows "(ucast (drop_bit (8 * k) (le_word bs :: u64)) :: u8) = bs ! k"
proof (rule bit_word_eqI)
  fix n assume n: "n < LENGTH(8)"
  then have "(8 * k + n) div 8 = k" "(8 * k + n) mod 8 = n" by simp_all
  moreover have "8 * k + n < 64" using assms n by simp
  ultimately show "bit (ucast (drop_bit (8 * k) (le_word bs :: u64)) :: u8) n = bit (bs ! k) n"
    using assms n by (simp add: bit_simps bit_le_word)
qed

lemma copied_8: "store64 m d (load64 m s) = copied m d s 8"
proof
  fix x
  show "store64 m d (load64 m s) x = copied m d s 8 x"
  proof (cases "d \<le> x \<and> x < d + 8")
    case True
    then have "ucast (drop_bit (8 * (x - d)) (load64 m s)) = map m [s..<s + 8] ! (x - d)"
      unfolding load64_def by (intro ucast_byte_of_le_word) auto
    moreover have "map m [s..<s + 8] ! (x - d) = m (s + (x - d))" using True by (subst nth_map) auto
    ultimately show ?thesis using True by (simp add: store64_def copied_def)
  qed (auto simp: store64_def copied_def)
qed

lemma val64_byte:
  assumes "k < 8"
  shows "(ucast (drop_bit (8 * k) (val64 c)) :: u8) = c"
proof -
  have b: "\<not> bit c j" if "8 \<le> j" for j using that bit_imp_le_length [of c j] by auto
  have "k \<in> {0, 1, 2, 3, 4, 5, 6, 7}" using assms by auto
  then show ?thesis
    by (elim insertE) (auto intro!: bit_word_eqI simp: val64_def Let_def bit_simps b)
qed

lemma filled_8: "store64 m d (val64 c) = filled m d 8 c"
  by (auto simp: store64_def filled_def fun_eq_iff val64_byte)

lemma set_bytes_filled: "set_bytes m d n c = filled m d n c"
proof (induction m d n c rule: set_bytes.induct)
  case (2 m d n c)
  then show ?case by (simp add: filled_1 filled_Suc)
qed (simp add: filled_0)

lemma set_to_boundary_filled:
  "set_to_boundary m d n c = (m', d', n') \<Longrightarrow>
    n' \<le> n \<and> d' = d + (n - n') \<and> m' = filled m d (n - n') c"
proof (induction m d n c rule: set_to_boundary.induct)
  case (2 m d n c)
  show ?case
  proof (cases "d mod 8 = 0")
    case False
    then have "n' \<le> n \<and> d' = d + 1 + (n - n') \<and> m' = filled (filled m d 1 c) (d + 1) (n - n') c"
      using 2 by (simp add: filled_1)
    then show ?thesis by (auto simp: filled_Suc Suc_diff_le)
  qed (use 2 in \<open>simp add: filled_0\<close>)
qed (simp add: filled_0)

lemma set_words_filled:
  "set_words m d n (val64 c) = (m', d', n') \<Longrightarrow>
    n' \<le> n \<and> d' = d + (n - n') \<and> m' = filled m d (n - n') c"
proof (induction m d n "val64 c" rule: set_words.induct)
  case (1 m d n)
  show ?case
  proof (cases "n \<ge> 8")
    case True
    then have "set_words (store64 m d (val64 c)) (d + 8) (n - 8) (val64 c) = (m', d', n')"
      using 1(2) set_words.simps [of m d n "val64 c"] by simp
    from 1(1) [OF True this]
    have "n' \<le> n - 8" "d' = d + 8 + (n - 8 - n')" "m' = filled (filled m d 8 c) (d + 8) (n - 8 - n') c"
      by (simp_all add: filled_8)
    moreover have "8 + (n - 8 - n') = n - n'" using True calculation(1) by simp
    ultimately show ?thesis using True by (simp add: filled_append)
  qed (use 1(2) in \<open>auto simp: set_words.simps [of m d n] filled_0\<close>)
qed


lemma memset_filled: "fst (memset erms m dst c n) = filled m dst n (ucast c)"
proof (cases "n \<ge> 64 \<and> erms")
  case False
  obtain m1 d1 n1 where 1: "set_to_boundary m dst n (ucast c) = (m1, d1, n1)" by (metis prod_cases3)
  obtain m2 d2 n2 where 2: "set_words m1 d1 n1 (val64 (ucast c)) = (m2, d2, n2)" by (metis prod_cases3)
  have "m1 = filled m dst (n - n1) (ucast c)" "d1 = dst + (n - n1)" "n1 \<le> n"
    "m2 = filled m1 d1 (n1 - n2) (ucast c)" "d2 = d1 + (n1 - n2)" "n2 \<le> n1"
    using set_to_boundary_filled [OF 1] set_words_filled [OF 2] by auto
  then have "filled m2 d2 n2 (ucast c) = filled m dst (n - n1 + (n1 - n2 + n2)) (ucast c)"
    by (simp only: filled_append add.assoc)
  then show ?thesis using \<open>n1 \<le> n\<close> \<open>n2 \<le> n1\<close> False 1 2 by (simp add: memset_def set_bytes_filled)
qed (simp add: memset_def set_bytes_filled)

lemma copied_Suc:
  "d \<le> s \<or> s + Suc n \<le> d \<Longrightarrow> copied (copied m d s (Suc 0)) (Suc d) (Suc s) n = copied m d s (Suc n)"
  using copied_append [of d s 1 n m] by auto

lemma copy_up_copied: "d \<le> s \<or> s + n \<le> d \<Longrightarrow> copy_up m d s n = copied m d s n"
proof (induction m d s n rule: copy_up.induct)
  case (2 m d s n)
  then show ?case by (auto simp: copied_1 copied_Suc)
qed (simp add: copied_0)

lemma copy_to_boundary_copied:
  "copy_to_boundary m d s n = (m', d', s', n') \<Longrightarrow> d \<le> s \<or> s + n \<le> d \<Longrightarrow>
    n' \<le> n \<and> d' = d + (n - n') \<and> s' = s + (n - n') \<and> m' = copied m d s (n - n')"
proof (induction m d s n rule: copy_to_boundary.induct)
  case (2 m d s n)
  show ?case
  proof (cases "d mod 8 = 0")
    case False
    have o: "d + 1 \<le> s + 1 \<or> s + 1 + n \<le> d + 1" using 2(3) by auto
    have "n' \<le> n \<and> d' = d + 1 + (n - n') \<and> s' = s + 1 + (n - n') \<and>
        m' = copied (copied m d s 1) (d + 1) (s + 1) (n - n')"
      using 2(1) [OF False _ o] 2(2) False by (simp add: copied_1)
    moreover have "d \<le> s \<or> s + Suc (n - n') \<le> d" using 2(3) by auto
    ultimately show ?thesis by (auto simp: copied_Suc Suc_diff_le)
  qed (use 2 in \<open>simp add: copied_0\<close>)
qed (simp add: copied_0)

lemma copy_words_copied:
  "copy_words m d s n = (m', d', s', n') \<Longrightarrow> d \<le> s \<or> s + n \<le> d \<Longrightarrow>
    n' \<le> n \<and> d' = d + (n - n') \<and> s' = s + (n - n') \<and> m' = copied m d s (n - n')"
proof (induction m d s n rule: copy_words.induct)
  case (1 m d s n)
  show ?case
  proof (cases "n \<ge> 8")
    case True
    then have "copy_words (store64 m d (load64 m s)) (d + 8) (s + 8) (n - 8) = (m', d', s', n')"
      using 1(2) copy_words.simps [of m d s n] by simp
    moreover have "d + 8 \<le> s + 8 \<or> s + 8 + (n - 8) \<le> d + 8" using 1(3) True by auto
    ultimately have "n' \<le> n - 8" "d' = d + 8 + (n - 8 - n')" "s' = s + 8 + (n - 8 - n')"
      "m' = copied (copied m d s 8) (d + 8) (s + 8) (n - 8 - n')"
      using 1(1) [OF True] by (simp_all add: copied_8)
    moreover have "8 + (n - 8 - n') = n - n'" "d \<le> s \<or> s + 8 + (n - 8 - n') \<le> d"
      using True calculation(1) 1(3) by auto
    ultimately show ?thesis using True by (simp add: copied_append)
  qed (use 1(2) in \<open>auto simp: copy_words.simps [of m d s n] copied_0\<close>)
qed

lemma copy_forward_copied:
  assumes "d \<le> s \<or> s + n \<le> d"
  shows "copy_forward m d s n = copied m d s n"
proof (cases "d mod 8 = s mod 8")
  case True
  obtain m1 d1 s1 n1 where 1: "copy_to_boundary m d s n = (m1, d1, s1, n1)" by (metis prod_cases4)
  obtain m2 d2 s2 n2 where 2: "copy_words m1 d1 s1 n1 = (m2, d2, s2, n2)" by (metis prod_cases4)
  have b: "n1 \<le> n" "d1 = d + (n - n1)" "s1 = s + (n - n1)" "m1 = copied m d s (n - n1)"
    using copy_to_boundary_copied [OF 1 assms] by auto
  then have o1: "d1 \<le> s1 \<or> s1 + n1 \<le> d1" using assms by auto
  have c: "n2 \<le> n1" "d2 = d1 + (n1 - n2)" "s2 = s1 + (n1 - n2)" "m2 = copied m1 d1 s1 (n1 - n2)"
    using copy_words_copied [OF 2 o1] by auto
  have o2: "d2 \<le> s2 \<or> s2 + n2 \<le> d2" using o1 c by auto
  have "copied m2 d2 s2 n2 = copied m1 d1 s1 (n1 - n2 + n2)"
    unfolding c by (rule copied_append) (use o1 c(1) in auto)
  also have "\<dots> = copied m d s (n - n1 + (n1 - n2 + n2))"
    unfolding b by (rule copied_append) (use assms b(1) c(1) in auto)
  finally show ?thesis
    using True 1 2 b(1) c(1) o2 by (simp add: copy_forward_def copy_up_copied)
qed (use assms in \<open>simp add: copy_forward_def copy_up_copied\<close>)


lemma copied_down:
  assumes "s \<le> d" "n' \<le> n"
  shows "copied (copied m (d + n) (s + n) j) (d + n') (s + n') (n - n') = copied m (d + n') (s + n') (n + j - n')"
  using copied_prepend [of "s + n'" "d + n'" m "n - n'" j] assms by simp

lemma copy_down_copied: "s \<le> d \<Longrightarrow> copy_down m (d + n) (s + n) n = copied m d s n"
proof (induction n arbitrary: m)
  case (Suc n)
  then show ?case using copied_down [of s d 0 n m 1] by (simp add: copied_1)
qed (simp add: copied_0)

lemma rep_movsb_down_copied: "s \<le> d \<Longrightarrow> rep_movsb_down m (d + (n - 1)) (s + (n - 1)) n = copied m d s n"
proof (induction n arbitrary: m)
  case (Suc n)
  have e: "d + n - 1 = d + (n - 1)" "s + n - 1 = s + (n - 1)" if "n \<noteq> 0" using that by auto
  have "rep_movsb_down (m(d + n := m (s + n))) (d + n - 1) (s + n - 1) n = copied (copied m (d + n) (s + n) 1) d s n"
    by (cases "n = 0") (use Suc in \<open>simp_all add: e copied_1 copied_0\<close>)
  then show ?case using copied_down [of s d 0 n m 1] Suc.prems by simp
qed (simp add: copied_0)

lemma down_to_boundary_copied:
  "down_to_boundary m (d + n) (s + n) n = (m', d', s', n') \<Longrightarrow> s \<le> d \<Longrightarrow>
    n' \<le> n \<and> d' = d + n' \<and> s' = s + n' \<and> m' = copied m (d + n') (s + n') (n - n')"
proof (induction n arbitrary: m)
  case (Suc n)
  show ?case
  proof (cases "(d + Suc n) mod 8 = 0")
    case False
    then have "down_to_boundary (copied m (d + n) (s + n) 1) (d + n) (s + n) n = (m', d', s', n')"
      using Suc.prems(1) by (simp add: copied_1)
    from Suc.IH [OF this Suc.prems(2)] show ?thesis using copied_down [OF Suc.prems(2), of n' n m 1] by auto
  qed (use Suc.prems in \<open>auto simp: copied_0\<close>)
qed (simp add: copied_0)

lemma down_words_copied:
  "down_words m (d + n) (s + n) n = (m', d', s', n') \<Longrightarrow> s \<le> d \<Longrightarrow>
    n' \<le> n \<and> d' = d + n' \<and> s' = s + n' \<and> m' = copied m (d + n') (s + n') (n - n')"
proof (induction n arbitrary: m rule: less_induct)
  case (less n)
  show ?case
  proof (cases "n \<ge> 8")
    case True
    then obtain k where n: "n = k + 8" by (metis add.commute le_Suc_ex)
    then have "down_words (copied m (d + k) (s + k) 8) (d + k) (s + k) k = (m', d', s', n')"
      using less.prems(1) down_words.simps [of m "d + n" "s + n" n] by (simp add: copied_8)
    from less.IH [OF _ this less.prems(2)] n
    have "n' \<le> k \<and> d' = d + n' \<and> s' = s + n' \<and>
        m' = copied (copied m (d + k) (s + k) 8) (d + n') (s + n') (k - n')" by simp
    then show ?thesis using copied_down [OF less.prems(2), of n' k m 8] n by auto
  qed (use less.prems in \<open>auto simp: down_words.simps [of m "d + n"] copied_0\<close>)
qed

lemma copy_backward_copied:
  assumes "s \<le> d"
  shows "(let (m, d, s, n) =
      (if (d + n) mod 8 = (s + n) mod 8 then
         let (m, d, s, n) = down_to_boundary m (d + n) (s + n) n in down_words m d s n
       else (m, d + n, s + n, n))
    in copy_down m d s n) = copied m d s n"
proof (cases "(d + n) mod 8 = (s + n) mod 8")
  case True
  obtain m1 d1 s1 n1 where 1: "down_to_boundary m (d + n) (s + n) n = (m1, d1, s1, n1)" by (metis prod_cases4)
  then have b: "n1 \<le> n" "d1 = d + n1" "s1 = s + n1" "m1 = copied m (d + n1) (s + n1) (n - n1)"
    using down_to_boundary_copied [OF 1 assms] by auto
  obtain m2 d2 s2 n2 where 2: "down_words m1 (d + n1) (s + n1) n1 = (m2, d2, s2, n2)" by (metis prod_cases4)
  then have c: "n2 \<le> n1" "d2 = d + n2" "s2 = s + n2" "m2 = copied m1 (d + n2) (s + n2) (n1 - n2)"
    using down_words_copied [OF 2 assms] by auto
  have "copied m2 d s n2 = copied m1 d s n1"
    using copied_down [OF assms, of 0 n2 m1 "n1 - n2"] c by simp
  also have "\<dots> = copied m d s n" using copied_down [OF assms, of 0 n1 m "n - n1"] b by simp
  finally show ?thesis using True 1 2 b c copy_down_copied [OF assms, of m2 n2] by simp
next
  case False
  then show ?thesis using assms by (simp add: copy_down_copied)
qed

text \<open>
  C18.  \<open>memmove\<close> is right for every overlap, alignment and length, with and without the \<open>rep\<close>
  instructions: the destination holds what the source held before the call, no other byte changes,
  and the destination pointer is returned.
\<close>

theorem memmove_correct: "memmove erms m dst src n = (copied m dst src n, dst)"
proof -
  consider "dst < src" | "dst > src" | "dst = src" by linarith
  then show ?thesis
  proof cases
    case 1
    then show ?thesis by (simp add: memmove_def copy_up_copied copy_forward_copied)
  next
    case 2
    then show ?thesis
      using copy_backward_copied [of src dst n m] rep_movsb_down_copied [of src dst m n]
      by (auto simp: memmove_def Let_def split: prod.splits if_splits)
  next
    case 3
    then show ?thesis by (auto simp: memmove_def copied_def fun_eq_iff)
  qed
qed

text \<open>
  \<open>memcpy\<close> between regions that do not overlap copies the source and changes nothing else.  Its
  result is the destination pointer except for 64 bytes or more on a processor with fast \<open>rep movsb\<close>:
  there it is the address behind the copied region.
\<close>

theorem memcpy_correct:
  assumes "dst + n \<le> src \<or> src + n \<le> dst"
  shows "memcpy erms m dst src n = (copied m dst src n, if n \<ge> 64 \<and> erms then dst + n else dst)"
proof -
  have "dst \<le> src \<or> src + n \<le> dst" using assms by auto
  then show ?thesis by (simp add: memcpy_def copy_up_copied copy_forward_copied)
qed

theorem memcpy_correct_witness:
  "memcpy True (\<lambda>a. of_nat a) 1000 100 64 = (copied (\<lambda>a. of_nat a) 1000 100 64, 1064)"
  using memcpy_correct [of 1000 64 100 True "\<lambda>a. of_nat a"] by simp


section \<open>What the string routines compute\<close>

lemma cstr_simps [simp]: "cstr [] = []" "cstr (c # s) = (if c \<noteq> 0 then c # cstr s else [])"
  by (simp_all add: cstr_def)

lemma cstr_no_nul: "0 \<notin> set (cstr s)"
  by (induction s) auto

lemma cstr_id: "0 \<notin> set s \<Longrightarrow> cstr s = s"
  by (induction s) auto

lemma cstr_append: "0 \<notin> set s \<Longrightarrow> cstr (s @ t) = s @ cstr t"
  by (induction s) auto

lemma cstr_replicate_0 [simp]: "cstr (replicate n 0 @ t) = (if n = 0 then cstr t else [])"
  by (cases n) auto

lemma strlen_cstr: "strlen s = length (cstr s)"
  by (induction s) auto

lemma at0_simps [simp]: "at0 [] = 0" "at0 (c # s) = c"
  by (simp_all add: at0_def)

lemma cstr_cons_at0: "cstr s = (if at0 s = 0 then [] else at0 s # cstr (tl s))"
  by (cases s) auto

lemma uint_diff_0 [simp]: "uint (a :: u8) - uint b = 0 \<longleftrightarrow> a = b" "uint a = uint b \<longleftrightarrow> a = b"
  by (simp_all add: word_uint_eq_iff)

lemma strcmp_0: "strcmp s t = 0 \<longleftrightarrow> cstr s = cstr t"
proof (induction s t rule: strcmp.induct)
  case (1 t)
  then show ?case by (cases t) (auto simp: unsigned_eq_0_iff)
next
  case (2 c s t)
  then show ?case by (cases t) (auto simp: unsigned_eq_0_iff)
qed

lemma strncmp_0: "strncmp s t n = 0 \<longleftrightarrow> take n (cstr s) = take n (cstr t)"
proof (induction s t n rule: strncmp.induct)
  case (2 s t n)
  then show ?case by (subst (1 2) cstr_cons_at0) (auto simp: unsigned_eq_0_iff)
qed simp

lemma strncpy_eq:
  "n \<le> length dst \<Longrightarrow>
    strncpy dst src n = take n (cstr src) @ replicate (n - length (cstr src)) 0 @ drop n dst"
proof (induction dst src n rule: strncpy.induct)
  case (3 d dst src n)
  then show ?case by (subst (1 2) cstr_cons_at0) (auto simp: pad_zeros_def)
qed auto

lemma cstr_strncpy:
  assumes "n < length dst" "length (cstr src) < n"
  shows "cstr (strncpy dst src n) = cstr src"
  using assms cstr_no_nul [of src] by (simp add: strncpy_eq cstr_append)

lemma length_strncpy: "length (strncpy dst src n) = length dst"
  by (induction dst src n rule: strncpy.induct) (auto simp: pad_zeros_def)

lemma cstr_cat_copy:
  "min n (length (cstr src)) < length dst \<Longrightarrow> cstr (cat_copy dst src n) = take n (cstr src)"
proof (induction dst src n rule: cat_copy.induct)
  case (3 d dst src n)
  then show ?case using cstr_cons_at0 [of src] by auto
qed auto

lemma cstr_strncat:
  "length (cstr dst) + min n (length (cstr src)) < length dst \<Longrightarrow>
    cstr (strncat dst src n) = cstr dst @ take n (cstr src)"
proof (induction dst src n rule: strncat.induct)
  case (2 d dst src n)
  then show ?case using cstr_cat_copy [of n src "d # dst"] by auto
qed simp

lemma strchr_Some:
  "c \<noteq> 0 \<Longrightarrow> strchr s c = Some i \<longleftrightarrow> i < length (cstr s) \<and> cstr s ! i = c \<and> c \<notin> set (take i (cstr s))"
proof (induction s arbitrary: i)
  case (Cons b s)
  then show ?case by (cases i) auto
qed simp

lemma strchr_None: "c \<noteq> 0 \<Longrightarrow> strchr s c = None \<longleftrightarrow> c \<notin> set (cstr s)"
  by (induction s) auto

lemma sv_starts_with_prefix: "sv_starts_with s t \<longleftrightarrow> take (length t) s = t"
  by (induction s t rule: sv_starts_with.induct) auto

lemma needle_here_prefix: "needle_here h n \<longleftrightarrow> take (length (cstr n)) (cstr h) = cstr n"
proof (induction h n rule: needle_here.induct)
  case (2 h n ns)
  then show ?case by (cases h) auto
qed simp

text \<open>\<open>strstr\<close> finds the first place where the needle occurs.\<close>

lemma strstr_loop_Some:
  assumes "at0 needle \<noteq> 0"
  shows "strstr_loop h needle = Some i \<longleftrightarrow>
    (i < length (cstr h) \<and> take (length (cstr needle)) (drop i (cstr h)) = cstr needle \<and>
     (\<forall>j < i. take (length (cstr needle)) (drop j (cstr h)) \<noteq> cstr needle))"
proof (induction h arbitrary: i)
  case (Cons b h)
  have n: "cstr needle = at0 needle # cstr (tl needle)" using assms by (subst cstr_cons_at0) simp
  show ?case
  proof (cases i)
    case 0
    then show ?thesis using n by (auto simp: needle_here_prefix)
  next
    case (Suc k)
    then show ?thesis using n Cons.IH [of k] by (auto simp: needle_here_prefix less_Suc_eq_0_disj)
  qed
qed simp

section \<open>Decimal and other numbers\<close>

lemma reverse_in_place_nth:
  assumes "j < length buf"
  shows "length (reverse_in_place buf i j) = length buf"
    and "k < length buf \<Longrightarrow>
      reverse_in_place buf i j ! k = (if i \<le> k \<and> k \<le> j then buf ! (i + j - k) else buf ! k)"
  using assms
proof (induction buf i j rule: reverse_in_place.induct)
  case (1 buf i j)
  let ?b = "buf[i := buf ! j, j := buf ! i]"
  {
    case 1
    show ?case by (cases "i < j") (use "1.IH"(1) 1 in \<open>simp_all add: reverse_in_place.simps [of buf]\<close>)
  next
    case 2
    show ?case
    proof (cases "i < j")
      case True
      then have e: "reverse_in_place buf i j = reverse_in_place ?b (i + 1) (j - 1)"
        by (simp add: reverse_in_place.simps [of buf])
      have "reverse_in_place ?b (i + 1) (j - 1) ! k =
          (if i + 1 \<le> k \<and> k \<le> j - 1 then ?b ! (i + 1 + (j - 1) - k) else ?b ! k)"
        using "1.IH"(2) [OF True] 2 by simp
      then show ?thesis using e True 2 by (auto simp: nth_list_update)
    next
      case False
      then have "i + j - k = k" if "i \<le> k" "k \<le> j" using that by simp
      then show ?thesis using False by (simp add: reverse_in_place.simps [of buf])
    qed
  }
qed

lemma reverse_in_place_rev: "reverse_in_place buf 0 (length buf - 1) = rev buf"
proof (cases buf)
  case Nil
  then show ?thesis by (simp add: reverse_in_place.simps)
next
  case Cons
  then have "length buf - 1 < length buf" by simp
  from reverse_in_place_nth [OF this] show ?thesis by (intro nth_equalityI) (auto simp: rev_nth)
qed

text \<open>Reading a number back, most significant digit first.\<close>

definition char_digit :: "u8 \<Rightarrow> nat" where
  "char_digit c = (if c < 58 then unat c - 48 else unat c - 87)"

fun number :: "nat \<Rightarrow> u8 list \<Rightarrow> int" where
  "number base [] = 0"
| "number base (c # s) = (if c = 45 then - number base s
     else int (foldl (\<lambda>a d. a * base + char_digit d) 0 (c # s)))"

lemma digit_char_bounds:
  assumes "d < 36"
  shows "char_digit (digit_char d) = d" "digit_char d \<noteq> 45"
proof -
  have u: "unat (of_nat n :: u8) = n" if "n < 256" for n using that by (simp add: unat_of_nat_small)
  have "unat (digit_char d) = (if d < 10 then 48 + d else 87 + d)"
    using assms u [of "48 + d"] u [of "87 + d"] by (simp add: digit_char_def)
  then show "char_digit (digit_char d) = d" "digit_char d \<noteq> 45"
    by (auto simp: char_digit_def word_less_nat_alt split: if_splits)
qed

lemma itoa_digits_value:
  assumes "2 \<le> base" "base \<le> 36"
  shows "foldr (\<lambda>d a. a * base + char_digit d) (itoa_digits base v) 0 = v \<and>
    45 \<notin> set (itoa_digits base v) \<and> itoa_digits base v \<noteq> []"
  using assms
proof (induction base v rule: itoa_digits.induct)
  case (1 base v)
  have "v mod base < base" using "1.prems" by simp
  then have "v mod base < 36" using "1.prems" by linarith
  then have d: "char_digit (digit_char (v mod base)) = v mod base" "digit_char (v mod base) \<noteq> 45"
    by (simp_all add: digit_char_bounds)
  show ?case
  proof (cases "base \<le> 1 \<or> v div base = 0")
    case True
    then show ?thesis using d "1.prems" div_mult_mod_eq [of v base]
      by (auto simp: itoa_digits.simps [of base v])
  next
    case False
    then show ?thesis using d "1.IH" [OF False "1.prems"] div_mult_mod_eq [of v base]
      by (auto simp: itoa_digits.simps [of base v])
  qed
qed

text \<open>
  \<open>itoa\<close> writes a number that reads back as the value: in base 10 for every 64-bit signed value, the
  least one included, with a minus sign exactly for the negative ones; in the other bases up to 36 for
  the values that are not negative.
\<close>

theorem itoa_roundtrip:
  assumes "2 \<le> base" "base \<le> 36" "- (2 ^ 63) \<le> v" "v < 2 ^ 63" "0 \<le> v \<or> base = 10"
  shows "number base (itoa v base) = v \<and> (45 \<in> set (itoa v base)) = (v < 0)"
proof -
  obtain u where u: "u = nat \<bar>v\<bar>" "nat ((if v < 0 \<and> base = 10 then - v else v) mod 2 ^ 64) = u"
    using assms(3-5) by (auto simp: mod_pos_pos_trivial)
  let ?ds = "rev (itoa_digits base u)"
  have i: "itoa v base = (if v < 0 \<and> base = 10 then 45 # ?ds else ?ds)"
    using u(2) reverse_in_place_rev [of "itoa_digits base u @ [45]"] reverse_in_place_rev [of "itoa_digits base u"]
    by (auto simp add: itoa_def Let_def)
  have ds: "45 \<notin> set ?ds" "foldl (\<lambda>a d. a * base + char_digit d) 0 ?ds = u" "?ds \<noteq> []"
    using itoa_digits_value [OF assms(1,2), of u] by (simp_all add: foldl_conv_foldr)
  then obtain c s where c: "?ds = c # s" "c \<noteq> 45" by (cases ?ds) auto
  then have "number base ?ds = int u" using ds(2) by simp
  then have "number base (itoa v base) = v" using i assms(5) u(1) by auto
  moreover have "(45 \<in> set (itoa v base)) = (v < 0)" using i ds(1) assms(5) by auto
  ultimately show ?thesis by simp
qed

theorem itoa_roundtrip_witness: "number 10 (itoa (- (2 ^ 63)) 10) = - (2 ^ 63) \<and> number 16 (itoa 255 16) = 255"
  using itoa_roundtrip [of 10 "- (2 ^ 63)"] itoa_roundtrip [of 16 255] by simp

end
