(* ===== verification/Unifs.thy ===== *)
theory Unifs
  imports Kstring
begin

text \<open>
  The RAM file system over the boot image, \<open>src/fs/unifs/unifs.cpp\<close>: the files of the image are read in
  place, every change goes to a table of 64 RAM files, and a RAM file hides the boot file of the same
  name.  Names are C strings without their terminator.  The spinlock makes each function one step.
  \<open>is_file_open\<close> of \<open>vfs.cpp\<close> is the argument \<open>is_open\<close> of the functions that call it.
\<close>

section \<open>State\<close>

datatype UnifsError = UOk | NotFound | Exists | Full | NoMemory | NameTooLong | ReadOnly | InUse

definition MAX_FILES :: nat where "MAX_FILES = 64"
definition MAX_FILENAME :: nat where "MAX_FILENAME = 63"
definition MAX_FILE_SIZE :: nat where "MAX_FILE_SIZE = 1024 * 1024"

record RAMFile =
  r_name :: "u8 list"
  r_data :: "u8 list option"
  r_size :: nat
  r_capacity :: nat
  r_used :: bool

text \<open>
  The outcome of each \<open>malloc\<close> is an input: \<open>None\<close> when it fails, otherwise what the memory it returns
  happens to hold.  \<open>malloc(0)\<close> is the null pointer.
\<close>

type_synonym mallocs = "(nat \<Rightarrow> u8) option list"

fun malloc :: "mallocs \<Rightarrow> nat \<Rightarrow> u8 list option \<times> mallocs" where
  "malloc [] n = (None, [])"
| "malloc (x # xs) n = (if n = 0 then None else map_option (\<lambda>f. map f [0..<n]) x, xs)"

record unifs =
  fs_image :: "u8 list"
  mounted :: bool
  ram_files :: "RAMFile list"
  ram_file_count :: nat
  heap :: mallocs

text \<open>A copy that leaves its destination is not a result of the code.\<close>

datatype 'a outcome = Returns 'a | Overrun

fun obind :: "'a outcome \<Rightarrow> ('a \<Rightarrow> 'b outcome) \<Rightarrow> 'b outcome" where
  "obind (Returns x) f = f x"
| "obind Overrun f = Overrun"

definition memcpy_to :: "u8 list option \<Rightarrow> nat \<Rightarrow> u8 list \<Rightarrow> u8 list option outcome" where
  "memcpy_to dst off src =
     (case dst of
        None \<Rightarrow> if src = [] then Returns None else Overrun
      | Some d \<Rightarrow> if off + length src \<le> length d then Returns (Some (copy_bytes d off src)) else Overrun)"

abbreviation file_at :: "unifs \<Rightarrow> nat \<Rightarrow> RAMFile" where
  "file_at s i \<equiv> ram_files s ! i"

definition upd_file :: "unifs \<Rightarrow> nat \<Rightarrow> (RAMFile \<Rightarrow> RAMFile) \<Rightarrow> unifs" where
  "upd_file s i f = s\<lparr>ram_files := (ram_files s)[i := f (ram_files s ! i)]\<rparr>"

text \<open>The boot image: a header of 16 bytes and entries of 80.  Memory behind the image reads as zero.\<close>

definition image_at :: "unifs \<Rightarrow> nat \<Rightarrow> u8" where
  "image_at s k = (if k < length (fs_image s) then fs_image s ! k else 0)"

definition boot_file_count :: "unifs \<Rightarrow> nat" where
  "boot_file_count s = unat (le_word (take 8 (drop 8 (fs_image s))) :: u64)"

definition entry_name :: "unifs \<Rightarrow> nat \<Rightarrow> u8 list" where
  "entry_name s i = cstr (drop (16 + 80 * i) (fs_image s))"

definition entry_offset :: "unifs \<Rightarrow> nat \<Rightarrow> nat" where
  "entry_offset s i = unat (le_word (take 8 (drop (16 + 80 * i + 64) (fs_image s))) :: u64)"

definition entry_size :: "unifs \<Rightarrow> nat \<Rightarrow> nat" where
  "entry_size s i = unat (le_word (take 8 (drop (16 + 80 * i + 72) (fs_image s))) :: u64)"

definition boot_data :: "unifs \<Rightarrow> nat \<Rightarrow> u8 list" where
  "boot_data s i = map (\<lambda>k. image_at s (entry_offset s i + k)) [0..<entry_size s i]"

section \<open>Files by name\<close>

text \<open>Backslashes of a name become slashes, in place.\<close>

fun normalize_boot_entry_name :: "u8 list \<Rightarrow> u8 list" where
  "normalize_boot_entry_name [] = []"
| "normalize_boot_entry_name (c # s) =
     (if c = 0 then c # s else (if c = 0x5C then 0x2F else c) # normalize_boot_entry_name s)"

definition find_boot_entry :: "unifs \<Rightarrow> u8 list \<Rightarrow> nat option" where
  "find_boot_entry s name =
     (if \<not> mounted s then None else find_idx (\<lambda>i. name = entry_name s i) [0..<boot_file_count s])"

definition find_ram_file :: "unifs \<Rightarrow> u8 list \<Rightarrow> nat option" where
  "find_ram_file s name = find_idx (\<lambda>f. r_used f \<and> name = r_name f) (ram_files s)"

definition find_free_slot :: "unifs \<Rightarrow> nat option" where
  "find_free_slot s = find_idx (\<lambda>f. \<not> r_used f) (ram_files s)"

definition unifs_file_exists :: "unifs \<Rightarrow> u8 list \<Rightarrow> bool" where
  "unifs_file_exists s name = (find_ram_file s name \<noteq> None \<or> find_boot_entry s name \<noteq> None)"

definition unifs_get_file_size :: "unifs \<Rightarrow> u8 list \<Rightarrow> nat" where
  "unifs_get_file_size s name =
     (case find_ram_file s name of
        Some i \<Rightarrow> r_size (file_at s i)
      | None \<Rightarrow> (case find_boot_entry s name of Some i \<Rightarrow> entry_size s i | None \<Rightarrow> 0))"

text \<open>The name and the bytes of a file; \<open>file.size\<close> is the number of bytes.\<close>

definition ram_bytes :: "RAMFile \<Rightarrow> u8 list" where
  "ram_bytes f = (case r_data f of None \<Rightarrow> [] | Some d \<Rightarrow> take (r_size f) d)"

definition unifs_open_into :: "unifs \<Rightarrow> u8 list \<Rightarrow> (u8 list \<times> u8 list) option" where
  "unifs_open_into s name =
     (case find_ram_file s name of
        Some i \<Rightarrow> Some (r_name (file_at s i), ram_bytes (file_at s i))
      | None \<Rightarrow> map_option (\<lambda>i. (entry_name s i, boot_data s i)) (find_boot_entry s name))"

definition unifs_create :: "unifs \<Rightarrow> u8 list \<Rightarrow> UnifsError \<times> unifs" where
  "unifs_create s name =
     (if name = [] then (NotFound, s)
      else if length name > MAX_FILENAME then (NameTooLong, s)
      else if find_ram_file s name \<noteq> None then (Exists, s)
      else case find_free_slot s of
        None \<Rightarrow> (Full, s)
      | Some i \<Rightarrow>
          (UOk, upd_file (s\<lparr>ram_file_count := wrap64 (ram_file_count s + 1)\<rparr>) i
             (\<lambda>f. f\<lparr>r_name := take MAX_FILENAME name, r_data := None, r_size := 0, r_capacity := 0,
                     r_used := True\<rparr>)))"

text \<open>The part of \<open>unifs_write\<close> under the lock.  \<open>data\<close> is \<open>None\<close> for the null pointer.\<close>

definition ram_overwrite :: "unifs \<Rightarrow> nat \<Rightarrow> u8 list option \<Rightarrow> nat \<Rightarrow> (UnifsError \<times> unifs) outcome" where
  "ram_overwrite s i data sz =
     (let grown =
        (if sz > r_capacity (file_at s i) then
           (case malloc (heap s) sz of
              (None, h) \<Rightarrow>
                (False, upd_file (s\<lparr>heap := h\<rparr>) i (\<lambda>f. f\<lparr>r_data := None, r_size := 0, r_capacity := 0\<rparr>))
            | (Some d, h) \<Rightarrow>
                (True, upd_file (s\<lparr>heap := h\<rparr>) i (\<lambda>f. f\<lparr>r_data := Some d, r_capacity := sz\<rparr>)))
         else (True, s))
      in case grown of
        (False, s) \<Rightarrow> Returns (NoMemory, s)
      | (True, s) \<Rightarrow>
          obind (case data of
                   Some xs \<Rightarrow> if sz > 0 then memcpy_to (r_data (file_at s i)) 0 (take sz xs)
                              else Returns (r_data (file_at s i))
                 | None \<Rightarrow> Returns (r_data (file_at s i)))
            (\<lambda>d. Returns (UOk, upd_file s i (\<lambda>f. f\<lparr>r_data := d, r_size := sz\<rparr>))))"

definition unifs_write ::
  "(u8 list \<Rightarrow> bool) \<Rightarrow> unifs \<Rightarrow> u8 list \<Rightarrow> u8 list option \<Rightarrow> nat \<Rightarrow> (UnifsError \<times> unifs) outcome"
where
  "unifs_write is_open s name data sz =
     (if sz > MAX_FILE_SIZE then Returns (NoMemory, s)
      else case find_ram_file s name of
        Some i \<Rightarrow>
          if is_open (r_name (file_at s i)) then Returns (InUse, s) else ram_overwrite s i data sz
      | None \<Rightarrow>
          (case unifs_create s name of
             (UOk, s) \<Rightarrow> (case find_ram_file s name of
                            Some i \<Rightarrow> ram_overwrite s i data sz
                          | None \<Rightarrow> Overrun)
           | (err, s) \<Rightarrow> Returns (err, s)))"

text \<open>
  The part of \<open>unifs_append\<close> under the lock, and the copy of a boot file into a fresh RAM file that
  comes before it.
\<close>

definition double_capacity :: "nat \<Rightarrow> nat" where
  "double_capacity n = (if wrap64 (n * 2) > MAX_FILE_SIZE then MAX_FILE_SIZE else wrap64 (n * 2))"

definition ram_append :: "unifs \<Rightarrow> nat \<Rightarrow> u8 list \<Rightarrow> (UnifsError \<times> unifs) outcome" where
  "ram_append s i data =
     (let f = file_at s i; new_size = wrap64 (r_size f + length data) in
      if new_size > MAX_FILE_SIZE then Returns (NoMemory, s)
      else
        obind
          (if new_size > r_capacity f then
             (let new_capacity = double_capacity new_size in
              case malloc (heap s) new_capacity of
                (None, h) \<Rightarrow> Returns (False, s\<lparr>heap := h\<rparr>)
              | (Some new_data, h) \<Rightarrow>
                  obind (case r_data f of
                           Some d \<Rightarrow> if r_size f > 0 then memcpy_to (Some new_data) 0 (take (r_size f) d)
                                    else Returns (Some new_data)
                         | None \<Rightarrow> Returns (Some new_data))
                    (\<lambda>d. Returns (True, upd_file (s\<lparr>heap := h\<rparr>) i
                           (\<lambda>f. f\<lparr>r_data := d, r_capacity := new_capacity\<rparr>))))
           else Returns (True, s))
          (\<lambda>(ok, s).
             if \<not> ok then Returns (NoMemory, s)
             else
               obind (memcpy_to (r_data (file_at s i)) (r_size (file_at s i)) data)
                 (\<lambda>d. Returns (UOk, upd_file s i (\<lambda>f. f\<lparr>r_data := d, r_size := new_size\<rparr>)))))"

definition append_copy_boot :: "unifs \<Rightarrow> nat \<Rightarrow> nat \<Rightarrow> unifs outcome" where
  "append_copy_boot s i b =
     (let boot_size = entry_size s b;
          initial_cap = double_capacity boot_size;
          initial_cap = (if initial_cap = 0 then 4096 else initial_cap)
      in case malloc (heap s) initial_cap of
           (None, h) \<Rightarrow> Returns (upd_file (s\<lparr>heap := h\<rparr>) i (\<lambda>f. f\<lparr>r_data := None\<rparr>))
         | (Some d, h) \<Rightarrow>
             obind (memcpy_to (Some d) 0 (boot_data s b))
               (\<lambda>d. Returns (upd_file (s\<lparr>heap := h\<rparr>) i
                      (\<lambda>f. f\<lparr>r_data := d, r_capacity := initial_cap, r_size := boot_size\<rparr>))))"

definition unifs_append :: "(u8 list \<Rightarrow> bool) \<Rightarrow> unifs \<Rightarrow> u8 list \<Rightarrow> u8 list \<Rightarrow> (UnifsError \<times> unifs) outcome" where
  "unifs_append is_open s name data =
     (if data = [] then Returns (UOk, s)
      else case find_ram_file s name of
        Some i \<Rightarrow>
          if is_open (r_name (file_at s i)) then Returns (InUse, s) else ram_append s i data
      | None \<Rightarrow>
          (case unifs_create s name of
             (UOk, s1) \<Rightarrow>
               (case find_ram_file s1 name of
                  None \<Rightarrow> Overrun
                | Some i \<Rightarrow>
                    (case find_boot_entry s name of
                       Some b \<Rightarrow> obind (append_copy_boot s1 i b) (\<lambda>s2. ram_append s2 i data)
                     | None \<Rightarrow> ram_append s1 i data))
           | (err, s1) \<Rightarrow> Returns (err, s1)))"

definition unifs_delete :: "(u8 list \<Rightarrow> bool) \<Rightarrow> unifs \<Rightarrow> u8 list \<Rightarrow> UnifsError \<times> unifs" where
  "unifs_delete is_open s name =
     (case find_ram_file s name of
        None \<Rightarrow> (if find_boot_entry s name \<noteq> None then UOk else NotFound, s)
      | Some i \<Rightarrow>
          if is_open (r_name (file_at s i)) then (InUse, s)
          else
            (UOk, upd_file (s\<lparr>ram_file_count := wrap64 (ram_file_count s + (2 ^ 64 - 1))\<rparr>) i
               (\<lambda>f. f\<lparr>r_data := None, r_size := 0, r_capacity := 0, r_used := False, r_name := []\<rparr>)))"

section \<open>The operations of file nodes\<close>

text \<open>
  A node of the virtual file system; \<open>n_fs_data\<close> are the bytes its driver keeps for it, here the file name
  or the prefix of a directory.  The tables of operations are known by their names.
\<close>

datatype VNodeOps = unifs_file_ops | unifs_dir_ops | fat32_file_ops | fat32_dir_ops | pipe_ops | memfd_ops | epoll_ops

record VNode =
  n_inode_id :: nat
  n_size :: nat
  n_uid :: nat
  n_mode :: nat
  n_is_dir :: bool
  n_ops :: VNodeOps
  n_fs_data :: "u8 list option"
  n_ref_count :: nat

definition VFS_DEFAULT_FILE_MODE :: nat where "VFS_DEFAULT_FILE_MODE = 0x1A4"
definition VFS_DEFAULT_DIR_MODE :: nat where "VFS_DEFAULT_DIR_MODE = 0x1ED"

definition vfs_create_vnode ::
  "unifs \<Rightarrow> nat \<Rightarrow> nat \<Rightarrow> bool \<Rightarrow> VNodeOps \<Rightarrow> u8 list \<Rightarrow> VNode option \<times> unifs"
where
  "vfs_create_vnode s inode sz dir ops fs_data =
     (case malloc (heap s) 48 of
        (None, h) \<Rightarrow> (None, s\<lparr>heap := h\<rparr>)
      | (Some _, h) \<Rightarrow>
          (Some \<lparr>n_inode_id = inode, n_size = sz, n_uid = 0,
                 n_mode = (if dir then VFS_DEFAULT_DIR_MODE else VFS_DEFAULT_FILE_MODE),
                 n_is_dir = dir, n_ops = ops, n_fs_data = Some fs_data, n_ref_count = 1\<rparr>, s\<lparr>heap := h\<rparr>))"

text \<open>The C string behind \<open>fs_data\<close>; a closed node has none, and the code does not use it again.\<close>

definition node_name :: "VNode \<Rightarrow> u8 list" where
  "node_name node = (case n_fs_data node of None \<Rightarrow> [] | Some n \<Rightarrow> n)"

text \<open>\<open>unifs_vfs_read\<close> returns the result and the bytes put into the buffer.\<close>

definition unifs_vfs_read :: "unifs \<Rightarrow> VNode \<Rightarrow> nat \<Rightarrow> nat \<Rightarrow> int \<times> u8 list" where
  "unifs_vfs_read s node sz offset =
     (if n_is_dir node then (-1, [])
      else case unifs_open_into s (node_name node) of
        None \<Rightarrow> (-1, [])
      | Some (_, bytes) \<Rightarrow>
          if offset \<ge> length bytes then (0, [])
          else
            let to_read = (if sz < length bytes - offset then sz else length bytes - offset)
            in (int to_read, take to_read (drop offset bytes)))"

definition ram_write_at :: "unifs \<Rightarrow> nat \<Rightarrow> u8 list \<Rightarrow> nat \<Rightarrow> (int \<times> unifs) outcome" where
  "ram_write_at s i buf offset =
     (let f = file_at s i; new_end = wrap64 (offset + length buf) in
      if new_end > MAX_FILE_SIZE then Returns (-1, s)
      else
        obind
          (if new_end > r_capacity f then
             (let new_cap = double_capacity new_end in
              case malloc (heap s) new_cap of
                (None, h) \<Rightarrow> Returns (False, s\<lparr>heap := h\<rparr>)
              | (Some new_data, h) \<Rightarrow>
                  obind (case r_data f of
                           Some d \<Rightarrow> memcpy_to (Some new_data) 0 (take (r_size f) d)
                         | None \<Rightarrow> Returns (Some new_data))
                    (\<lambda>d. Returns (True, upd_file (s\<lparr>heap := h\<rparr>) i
                           (\<lambda>f. f\<lparr>r_data := d, r_capacity := new_cap\<rparr>))))
           else Returns (True, s))
          (\<lambda>(ok, s).
             if \<not> ok then Returns (-1, s)
             else
               obind (memcpy_to (r_data (file_at s i)) offset buf)
                 (\<lambda>d. Returns (int (length buf), upd_file s i
                        (\<lambda>f. f\<lparr>r_data := d, r_size := (if new_end > r_size f then new_end else r_size f)\<rparr>)))))"

text \<open>Copy on write: the boot file moves into the RAM file \<open>i\<close> just created for it.\<close>

definition write_copy_boot :: "unifs \<Rightarrow> nat \<Rightarrow> nat \<Rightarrow> bool \<times> unifs" where
  "write_copy_boot s i b =
     (let sz = entry_size s b in
      if sz > 0 then
        (case malloc (heap s) sz of
           (None, h) \<Rightarrow> (False, s\<lparr>heap := h\<rparr>)
         | (Some _, h) \<Rightarrow>
             (True, upd_file (s\<lparr>heap := h\<rparr>) i
                (\<lambda>f. f\<lparr>r_data := Some (boot_data s b), r_size := sz, r_capacity := sz\<rparr>)))
      else (True, upd_file s i (\<lambda>f. f\<lparr>r_data := None, r_size := sz, r_capacity := sz\<rparr>)))"


definition unifs_vfs_write ::
  "(u8 list \<Rightarrow> bool) \<Rightarrow> unifs \<Rightarrow> VNode \<Rightarrow> u8 list \<Rightarrow> nat \<Rightarrow> bool \<Rightarrow> (int \<times> unifs) outcome"
where
  "unifs_vfs_write is_open s node buf offset has_fd =
     (if n_is_dir node then Returns (-1, s)
      else
        let name = node_name node in
        if offset = 0 \<and> has_fd then
          obind (unifs_write is_open s name (Some buf) (length buf))
            (\<lambda>(err, s). Returns (if err = UOk then int (length buf) else -1, s))
        else if has_fd \<and> is_open name then Returns (-1, s)
        else case find_ram_file s name of
          Some i \<Rightarrow> ram_write_at s i buf offset
        | None \<Rightarrow>
            (case find_boot_entry s name of
               Some b \<Rightarrow>
                 (case unifs_create s name of
                    (UOk, s1) \<Rightarrow>
                      (case find_ram_file s1 name of
                         None \<Rightarrow> Overrun
                       | Some i \<Rightarrow>
                           (case write_copy_boot s1 i b of
                              (False, s2) \<Rightarrow> Returns (-1, s2)
                            | (True, s2) \<Rightarrow> ram_write_at s2 i buf offset))
                  | (_, s1) \<Rightarrow> Returns (-1, s1))
             | None \<Rightarrow>
                 obind (unifs_append is_open s name buf)
                   (\<lambda>(err, s). Returns (if err = UOk then int (length buf) else -1, s))))"

text \<open>\<open>unifs_vfs_truncate\<close> also sets the size of the node.\<close>

definition truncate_copy_boot :: "unifs \<Rightarrow> nat \<Rightarrow> nat \<Rightarrow> nat \<Rightarrow> bool \<times> unifs" where
  "truncate_copy_boot s i b sz =
     (if sz > 0 then
        (case malloc (heap s) (entry_size s b) of
           (None, h) \<Rightarrow> (False, upd_file (s\<lparr>heap := h\<rparr>) i (\<lambda>f. f\<lparr>r_data := None\<rparr>))
         | (Some _, h) \<Rightarrow>
             (True, upd_file (s\<lparr>heap := h\<rparr>) i
                (\<lambda>f. f\<lparr>r_data := Some (boot_data s b), r_size := entry_size s b,
                        r_capacity := entry_size s b\<rparr>)))
      else (True, s))"

definition ram_truncate :: "unifs \<Rightarrow> nat \<Rightarrow> nat \<Rightarrow> (bool \<times> unifs) outcome" where
  "ram_truncate s i sz =
     (let f = file_at s i in
      if sz = 0 then Returns (True, upd_file s i (\<lambda>f. f\<lparr>r_size := 0\<rparr>))
      else if sz \<le> r_capacity f then Returns (True, upd_file s i (\<lambda>f. f\<lparr>r_size := sz\<rparr>))
      else
        case malloc (heap s) sz of
          (None, h) \<Rightarrow> Returns (False, s\<lparr>heap := h\<rparr>)
        | (Some new_data, h) \<Rightarrow>
            obind (case r_data f of
                     Some d \<Rightarrow> memcpy_to (Some new_data) 0 (take (r_size f) d)
                   | None \<Rightarrow> Returns (Some new_data))
              (\<lambda>d. Returns (True, upd_file (s\<lparr>heap := h\<rparr>) i
                     (\<lambda>f. f\<lparr>r_data := d, r_size := sz, r_capacity := sz\<rparr>))))"

definition unifs_vfs_truncate ::
  "(u8 list \<Rightarrow> bool) \<Rightarrow> unifs \<Rightarrow> VNode \<Rightarrow> nat \<Rightarrow> (int \<times> VNode \<times> unifs) outcome"
where
  "unifs_vfs_truncate is_open s node sz =
     (if n_is_dir node then Returns (-1, node, s)
      else
        let name = node_name node;
            opened =
              (case find_ram_file s name of
                 Some i \<Rightarrow> Returns (Some i, s)
               | None \<Rightarrow>
                   (case find_boot_entry s name of
                      None \<Rightarrow> Returns (None, s)
                    | Some b \<Rightarrow>
                        (case unifs_create s name of
                           (UOk, s1) \<Rightarrow>
                             (case find_ram_file s1 name of
                                None \<Rightarrow> Overrun
                              | Some i \<Rightarrow>
                                  (case truncate_copy_boot s1 i b sz of
                                     (True, s2) \<Rightarrow> Returns (Some i, s2)
                                   | (False, s2) \<Rightarrow> Returns (None, s2)))
                         | (_, s1) \<Rightarrow> Returns (None, s1))))
        in obind opened (\<lambda>(file, s).
             case file of
               None \<Rightarrow> Returns (-1, node, s)
             | Some i \<Rightarrow>
                 if is_open name then Returns (-1, node, s)
                 else obind (ram_truncate s i sz) (\<lambda>(ok, s).
                        if ok then Returns (0, node\<lparr>n_size := sz\<rparr>, s) else Returns (-1, node, s))))"

section \<open>The operations of directory nodes\<close>

text \<open>The path buffers of 256 bytes: the prefix of the directory followed by the name.\<close>

definition path_cat :: "u8 list \<Rightarrow> u8 list \<Rightarrow> u8 list" where
  "path_cat path name = strncat path name (255 - strlen path)"

definition path_copy :: "u8 list \<Rightarrow> u8 list" where
  "path_copy prefix = strncpy (replicate 256 0) prefix 255"

definition path_in :: "VNode \<Rightarrow> u8 list \<Rightarrow> u8 list" where
  "path_in dir name = path_cat (path_copy (node_name dir)) name"

definition unifs_vfs_rename ::
  "(u8 list \<Rightarrow> bool) \<Rightarrow> unifs \<Rightarrow> VNode \<Rightarrow> u8 list \<Rightarrow> VNode \<Rightarrow> u8 list \<Rightarrow> (int \<times> unifs) outcome"
where
  "unifs_vfs_rename is_open s old_dir old_name new_dir new_name =
     (let old_path = cstr (path_in old_dir old_name); new_path = cstr (path_in new_dir new_name) in
      if \<not> unifs_file_exists s old_path then Returns (-1, s)
      else
        let (err, s) = (if unifs_file_exists s new_path then unifs_delete is_open s new_path else (UOk, s)) in
        if err \<noteq> UOk then Returns (-1, s)
        else
          let (err, s) = unifs_create s new_path in
          if err \<noteq> UOk then Returns (-1, s)
          else case (find_ram_file s old_path, find_ram_file s new_path) of
            (Some i, Some j) \<Rightarrow>
              let old = file_at s i;
                  s = upd_file s j (\<lambda>f. f\<lparr>r_data := r_data old, r_size := r_size old, r_capacity := r_capacity old\<rparr>);
                  s = upd_file s i (\<lambda>f. f\<lparr>r_data := None, r_used := False\<rparr>)
              in Returns (0, snd (unifs_delete is_open s old_path))
          | _ \<Rightarrow>
              (case find_boot_entry s old_path of
                 Some b \<Rightarrow>
                   obind (unifs_write is_open s new_path (Some (boot_data s b)) (entry_size s b))
                     (\<lambda>(err, s). Returns (if err = UOk then 0 else -1, s))
               | None \<Rightarrow> Returns (-1, s)))"

definition unifs_vfs_close :: "VNode \<Rightarrow> VNode" where
  "unifs_vfs_close node = node\<lparr>n_fs_data := None\<rparr>"

definition unifs_get_file_count :: "unifs \<Rightarrow> nat" where
  "unifs_get_file_count s =
     (if mounted s then
        length (filter (\<lambda>i. find_ram_file s (entry_name s i) = None) [0..<boot_file_count s])
      else 0) + ram_file_count s"


text \<open>The \<open>index\<close>-th name that is visible: boot files that no RAM file hides, then the RAM files.\<close>

definition unifs_get_entry_name :: "unifs \<Rightarrow> nat \<Rightarrow> u8 list" where
  "unifs_get_entry_name s index =
     (let visible = (if mounted s then
            filter (\<lambda>n. find_ram_file s n = None) (map (entry_name s) [0..<boot_file_count s]) else []);
          rams = map r_name (filter r_used (ram_files s))
      in if index < length visible then visible ! index
         else if index - length visible < length rams then rams ! (index - length visible)
         else [])"

definition SLASH :: u8 where "SLASH = 0x2F"

text \<open>The name of the entry found under a path, \<open>ram->name\<close> or the name of the boot entry.\<close>

definition real_name :: "unifs \<Rightarrow> u8 list \<Rightarrow> u8 list" where
  "real_name s p =
     (case find_ram_file s p of
        Some i \<Rightarrow> r_name (file_at s i)
      | None \<Rightarrow> (case find_boot_entry s p of Some b \<Rightarrow> entry_name s b | None \<Rightarrow> []))"

text \<open>A node with its own copy of the name.\<close>

definition make_node :: "unifs \<Rightarrow> u8 list \<Rightarrow> nat \<Rightarrow> bool \<Rightarrow> VNodeOps \<Rightarrow> VNode option \<times> unifs" where
  "make_node s name sz dir ops =
     (case malloc (heap s) (length name + 1) of
        (None, h) \<Rightarrow> (None, s\<lparr>heap := h\<rparr>)
      | (Some _, h) \<Rightarrow> vfs_create_vnode (s\<lparr>heap := h\<rparr>) 0 sz dir ops name)"

definition unifs_vfs_lookup :: "unifs \<Rightarrow> VNode \<Rightarrow> u8 list \<Rightarrow> VNode option \<times> unifs" where
  "unifs_vfs_lookup s dir name =
     (if \<not> n_is_dir dir then (None, s)
      else if name = [] \<or> hd name = SLASH then (None, s)
      else
        let path = path_in dir name; p = cstr path; rn = real_name s p in
        if unifs_file_exists s p \<and> rn \<noteq> [] \<and> last rn \<noteq> SLASH
        then make_node s rn (unifs_get_file_size s p) False unifs_file_ops
        else
          let dp = cstr (path_cat (path_copy p) [SLASH]) in
          if unifs_file_exists s dp then make_node s (real_name s dp) 0 True unifs_dir_ops
          else (None, s))"

text \<open>
  \<open>unifs_vfs_readdir\<close> walks over the names of all boot entries and RAM slots.  \<open>dir_sub\<close> is the part of a
  name behind the prefix of the directory, \<open>None\<close> when the name is not in the directory; \<open>sub_len\<close> the
  length of its first component.
\<close>

definition skip_slash :: "u8 list \<Rightarrow> u8 list" where
  "skip_slash e = (if e \<noteq> [] \<and> hd e = SLASH then tl e else e)"

definition all_names :: "unifs \<Rightarrow> u8 list option list" where
  "all_names s =
     (if mounted s then map (\<lambda>i. Some (entry_name s i)) [0..<boot_file_count s] else []) @
     map (\<lambda>f. if r_used f then Some (r_name f) else None) (ram_files s)"

definition dir_sub :: "u8 list \<Rightarrow> u8 list \<Rightarrow> u8 list option" where
  "dir_sub p entry =
     (let e = skip_slash entry in
      if length e < length p then None
      else if length p > 0 \<and> strncmp e p (length p) \<noteq> 0 then None
      else
        let sub = drop (length p) e;
            sub = (if length p > 0 \<and> at0 sub = SLASH then tl sub else sub)
        in if sub = [] then None else Some sub)"

definition sub_len :: "u8 list \<Rightarrow> nat" where
  "sub_len sub = (case strchr sub SLASH of Some k \<Rightarrow> k | None \<Rightarrow> strlen sub)"

text \<open>The inner loop: does an earlier name have the same first component?\<close>

fun is_duplicate :: "u8 list \<Rightarrow> u8 list option list \<Rightarrow> u8 list \<Rightarrow> nat \<Rightarrow> bool" where
  "is_duplicate p [] sub comp_len = False"
| "is_duplicate p (None # prev) sub comp_len = is_duplicate p prev sub comp_len"
| "is_duplicate p (Some n # prev) sub comp_len =
     (case dir_sub p n of
        None \<Rightarrow> is_duplicate p prev sub comp_len
      | Some p_sub \<Rightarrow>
          if sub_len p_sub = comp_len \<and> strncmp sub p_sub comp_len = 0 then True
          else is_duplicate p prev sub comp_len)"

text \<open>The outer loop; \<open>prev\<close> are the names before the current one.\<close>

fun readdir_loop :: "u8 list \<Rightarrow> u8 list option list \<Rightarrow> u8 list option list \<Rightarrow> nat \<Rightarrow> nat \<Rightarrow> u8 list option" where
  "readdir_loop p prev [] found_count index = None"
| "readdir_loop p prev (None # rest) found_count index =
     readdir_loop p (prev @ [None]) rest found_count index"
| "readdir_loop p prev (Some n # rest) found_count index =
     (let skip = readdir_loop p (prev @ [Some n]) rest found_count index in
      if n = [] then skip
      else case dir_sub p n of
        None \<Rightarrow> skip
      | Some sub \<Rightarrow>
          let comp_len = sub_len sub in
          if comp_len = 0 then skip
          else
            let comp_len = (if comp_len > 63 then 63 else comp_len) in
            if is_duplicate p prev sub comp_len then skip
            else if found_count = index then Some (take comp_len sub)
            else readdir_loop p (prev @ [Some n]) rest (found_count + 1) index)"

definition unifs_vfs_readdir :: "unifs \<Rightarrow> VNode \<Rightarrow> nat \<Rightarrow> u8 list option" where
  "unifs_vfs_readdir s node index =
     (if \<not> n_is_dir node then None
      else readdir_loop (skip_slash (node_name node)) [] (all_names s) 0 index)"

definition unifs_vfs_create :: "unifs \<Rightarrow> VNode \<Rightarrow> u8 list \<Rightarrow> int \<times> unifs" where
  "unifs_vfs_create s dir name =
     (case unifs_create s (cstr (path_in dir name)) of (err, s) \<Rightarrow> (if err = UOk then 0 else -1, s))"

definition unifs_vfs_mkdir :: "unifs \<Rightarrow> VNode \<Rightarrow> u8 list \<Rightarrow> int \<times> unifs" where
  "unifs_vfs_mkdir s dir name =
     (case unifs_create s (cstr (path_cat (path_in dir name) [SLASH])) of
        (err, s) \<Rightarrow> (if err = UOk then 0 else -1, s))"

definition unifs_vfs_unlink :: "(u8 list \<Rightarrow> bool) \<Rightarrow> unifs \<Rightarrow> VNode \<Rightarrow> u8 list \<Rightarrow> int \<times> unifs" where
  "unifs_vfs_unlink is_open s dir name =
     (if name = [] then (-1, s)
      else
        let path = path_in dir name; (err, s) = unifs_delete is_open s (cstr path) in
        if err = UOk then (0, s)
        else
          let (err, s) = unifs_delete is_open s (cstr (path_cat path [SLASH]))
          in (if err = UOk then 0 else -1, s))"

definition unifs_get_root :: "unifs \<Rightarrow> VNode option \<times> unifs" where
  "unifs_get_root s =
     (case malloc (heap s) 1 of
        (None, h) \<Rightarrow> (None, s\<lparr>heap := h\<rparr>)
      | (Some _, h) \<Rightarrow> vfs_create_vnode (s\<lparr>heap := h\<rparr>) 0 0 True unifs_dir_ops [])"

text \<open>\<open>unifs_init\<close>: every name of the image is normalised where it is.\<close>

definition UNIFS_MAGIC :: "u8 list" where
  "UNIFS_MAGIC = [0x55, 0x4E, 0x49, 0x46, 0x53, 0x20, 0x76, 0x31]"

definition normalize_entry :: "u8 list \<Rightarrow> nat \<Rightarrow> u8 list" where
  "normalize_entry img i =
     take (16 + 80 * i) img @ normalize_boot_entry_name (drop (16 + 80 * i) img)"

definition unifs_init :: "unifs \<Rightarrow> u8 list option \<Rightarrow> unifs" where
  "unifs_init s start =
     (let s = s\<lparr>ram_files := map (\<lambda>f. f\<lparr>r_used := False, r_data := None, r_size := 0, r_capacity := 0\<rparr>) (ram_files s),
                ram_file_count := 0\<rparr>
      in case start of
           None \<Rightarrow> s\<lparr>mounted := False\<rparr>
         | Some img \<Rightarrow>
             let s = s\<lparr>fs_image := img, mounted := (take 8 img = UNIFS_MAGIC)\<rparr> in
             if mounted s then s\<lparr>fs_image := foldl normalize_entry img [0..<boot_file_count s]\<rparr> else s)"

definition unifs_get_total_size :: "unifs \<Rightarrow> nat" where
  "unifs_get_total_size s =
     wrap64 ((if mounted s then sum_list (map (entry_size s) [0..<boot_file_count s]) else 0) +
       sum_list (map r_size (filter r_used (ram_files s))))"

definition unifs_get_boot_file_count :: "unifs \<Rightarrow> nat" where
  "unifs_get_boot_file_count s = (if mounted s then boot_file_count s else 0)"

end
