(* ===== verification/Unifs_Files.thy ===== *)
theory Unifs_Files
  imports Unifs
begin

text \<open>
  What the operations of the RAM file system do to the files.  \<open>contents\<close> is the file system as its
  users see it, a map from names to bytes in which RAM files hide boot files.  Every operation keeps the
  invariant \<open>unifs_inv\<close> of the table and refines an operation on that map.
\<close>

definition file_ok :: "RAMFile \<Rightarrow> bool" where
  "file_ok f \<longleftrightarrow>
     r_name f \<noteq> [] \<and> length (r_name f) \<le> MAX_FILENAME \<and> r_size f \<le> r_capacity f \<and> r_capacity f < 2 ^ 63 \<and>
     r_capacity f = (case r_data f of None \<Rightarrow> 0 | Some d \<Rightarrow> length d)"

definition unifs_inv :: "unifs \<Rightarrow> bool" where
  "unifs_inv s \<longleftrightarrow>
     length (ram_files s) = MAX_FILES \<and>
     (\<forall>i < MAX_FILES. r_used (file_at s i) \<longrightarrow> file_ok (file_at s i)) \<and>
     (\<forall>i < MAX_FILES. \<forall>j < MAX_FILES.
        r_used (file_at s i) \<and> r_used (file_at s j) \<and> r_name (file_at s i) = r_name (file_at s j) \<longrightarrow> i = j)"

definition contents :: "unifs \<Rightarrow> u8 list \<Rightarrow> u8 list option" where
  "contents s name = map_option snd (unifs_open_into s name)"

definition boot_contents :: "unifs \<Rightarrow> u8 list \<Rightarrow> u8 list option" where
  "boot_contents s name = map_option (boot_data s) (find_boot_entry s name)"

definition same_boot :: "unifs \<Rightarrow> unifs \<Rightarrow> bool" where
  "same_boot s t \<longleftrightarrow> fs_image t = fs_image s \<and> mounted t = mounted s"

lemma same_boot_simps:
  assumes "same_boot s t"
  shows "find_boot_entry t = find_boot_entry s" "boot_data t = boot_data s" "entry_size t = entry_size s"
    "boot_contents t = boot_contents s"
proof -
  have "image_at t = image_at s" "entry_name t = entry_name s" "entry_offset t = entry_offset s"
    "entry_size t = entry_size s" "boot_file_count t = boot_file_count s" "mounted t = mounted s"
    using assms by (auto simp: same_boot_def image_at_def entry_name_def entry_offset_def entry_size_def
        boot_file_count_def fun_eq_iff)
  then show f: "find_boot_entry t = find_boot_entry s" "boot_data t = boot_data s" "entry_size t = entry_size s"
    by (auto simp: find_boot_entry_def boot_data_def fun_eq_iff)
  show "boot_contents t = boot_contents s" by (simp add: boot_contents_def f fun_eq_iff)
qed

lemma same_boot_refl [simp]: "same_boot s s"
  by (simp add: same_boot_def)

lemma same_boot_trans: "same_boot s t \<Longrightarrow> same_boot t u \<Longrightarrow> same_boot s u"
  by (simp add: same_boot_def)

text \<open>The fields the files do not depend on.\<close>

lemma frame_simps [simp]:
  "ram_files (s\<lparr>heap := h\<rparr>) = ram_files s" "ram_files (s\<lparr>ram_file_count := c\<rparr>) = ram_files s"
  "same_boot s (s\<lparr>heap := h\<rparr>)" "same_boot s (s\<lparr>ram_file_count := c\<rparr>)"
  "same_boot s (upd_file s i f)" "heap (upd_file s i f) = heap s"
  "ram_files (upd_file s i f) = (ram_files s)[i := f (file_at s i)]"
  by (simp_all add: same_boot_def upd_file_def)

lemma contents_cong: "ram_files t = ram_files s \<Longrightarrow> same_boot s t \<Longrightarrow> contents t = contents s"
  by (auto simp: contents_def unifs_open_into_def find_ram_file_def same_boot_simps fun_eq_iff
      option.map_comp comp_def split: option.split)

lemma inv_cong: "ram_files t = ram_files s \<Longrightarrow> unifs_inv t = unifs_inv s"
  by (simp add: unifs_inv_def)

lemma contents_eq:
  "contents s n = (case find_ram_file s n of
     Some i \<Rightarrow> Some (ram_bytes (file_at s i)) | None \<Rightarrow> boot_contents s n)"
  by (auto simp: contents_def unifs_open_into_def boot_contents_def option.map_comp comp_def split: option.split)

lemma find_ram_file_Some:
  assumes "unifs_inv s"
  shows "find_ram_file s n = Some i \<longleftrightarrow> i < MAX_FILES \<and> r_used (file_at s i) \<and> r_name (file_at s i) = n"
proof
  assume "find_ram_file s n = Some i"
  then show "i < MAX_FILES \<and> r_used (file_at s i) \<and> r_name (file_at s i) = n"
    using assms by (auto simp: find_ram_file_def find_idx_Some unifs_inv_def)
next
  assume i: "i < MAX_FILES \<and> r_used (file_at s i) \<and> r_name (file_at s i) = n"
  show "find_ram_file s n = Some i"
    unfolding find_ram_file_def
    by (rule find_idx_unique) (use i assms in \<open>auto simp: unifs_inv_def\<close>)
qed

lemma find_ram_file_None:
  assumes "unifs_inv s"
  shows "find_ram_file s n = None \<longleftrightarrow> (\<forall>i < MAX_FILES. r_used (file_at s i) \<longrightarrow> r_name (file_at s i) \<noteq> n)"
  using find_ram_file_Some [OF assms, of n] by (metis option.exhaust option.simps(3))

text \<open>Changing the data of one RAM file changes one entry of the map.\<close>

lemma upd_file_contents:
  assumes inv: "unifs_inv s" and i: "find_ram_file s n = Some i"
    and f: "r_used (f (file_at s i))" "r_name (f (file_at s i)) = n" "file_ok (f (file_at s i))"
  shows "unifs_inv (upd_file s i f)"
    and "contents (upd_file s i f) = (contents s)(n \<mapsto> ram_bytes (f (file_at s i)))"
    and "find_ram_file (upd_file s i f) = find_ram_file s"
proof -
  have i': "i < MAX_FILES" "r_used (file_at s i)" "r_name (file_at s i) = n" "length (ram_files s) = MAX_FILES"
    using inv i by (auto simp: find_ram_file_Some unifs_inv_def)
  show inv': "unifs_inv (upd_file s i f)"
    using inv i' f by (auto simp: unifs_inv_def nth_list_update)
  show r: "find_ram_file (upd_file s i f) = find_ram_file s"
  proof
    fix m
    show "find_ram_file (upd_file s i f) m = find_ram_file s m"
      unfolding find_ram_file_def frame_simps by (rule find_idx_update) (use i' f in simp)
  qed
  show "contents (upd_file s i f) = (contents s)(n \<mapsto> ram_bytes (f (file_at s i)))"
  proof
    fix m
    show "contents (upd_file s i f) m = ((contents s)(n \<mapsto> ram_bytes (f (file_at s i)))) m"
    proof (cases "m = n")
      case True
      then show ?thesis using i i' by (simp add: contents_eq r)
    next
      case False
      then have "find_ram_file s m \<noteq> Some i" using inv i' by (auto simp: find_ram_file_Some)
      moreover have "boot_contents (upd_file s i f) = boot_contents s" by (rule same_boot_simps(4)) simp
      ultimately show ?thesis using False i' by (cases "find_ram_file s m") (auto simp: contents_eq r)
    qed
  qed
qed

text \<open>
  \<open>sets s n b t\<close>: the state \<open>t\<close> differs from \<open>s\<close> in the bytes of the RAM file \<open>n\<close>, which are now \<open>b\<close>,
  and perhaps in the heap.
\<close>

definition sets :: "unifs \<Rightarrow> u8 list \<Rightarrow> u8 list \<Rightarrow> unifs \<Rightarrow> bool" where
  "sets s n b t \<longleftrightarrow>
     unifs_inv t \<and> contents t = (contents s)(n \<mapsto> b) \<and> find_ram_file t = find_ram_file s \<and> same_boot s t"

lemma upd_file_twice:
  "i < length (ram_files s) \<Longrightarrow> upd_file (upd_file s i f) i g = upd_file s i (\<lambda>x. g (f x))"
  by (simp add: upd_file_def)

lemma sets_upd:
  assumes "unifs_inv s" "find_ram_file s n = Some i" "ram_files t = ram_files s" "same_boot s t"
    and "r_used (f (file_at s i))" "r_name (f (file_at s i)) = n" "file_ok (f (file_at s i))"
    and "ram_bytes (f (file_at s i)) = b"
  shows "sets s n b (upd_file t i f)"
proof -
  have t: "unifs_inv t" "contents t = contents s" "find_ram_file t = find_ram_file s"
    using inv_cong [OF assms(3)] contents_cong [OF assms(3,4)] assms(1) by (auto simp: find_ram_file_def fun_eq_iff assms(3))
  have f: "find_ram_file t n = Some i" using t(3) assms(2) by simp
  have g: "f (file_at t i) = f (file_at s i)" using assms(3) by simp
  note u = upd_file_contents [OF t(1) f, of f, unfolded g, OF assms(5-7)]
  have "same_boot s (upd_file t i f)" using assms(4) by (simp add: same_boot_def upd_file_def)
  then show ?thesis using u t assms(8) unfolding sets_def by simp
qed

lemma sets_same:
  assumes "unifs_inv s" "find_ram_file s n = Some i" "ram_files t = ram_files s" "same_boot s t"
  shows "sets s n (ram_bytes (file_at s i)) t"
proof -
  have "contents s n = Some (ram_bytes (file_at s i))" using assms(2) by (simp add: contents_eq)
  then have "contents s = (contents s)(n \<mapsto> ram_bytes (file_at s i))" by (simp add: fun_upd_idem)
  then show ?thesis
    using inv_cong [OF assms(3)] contents_cong [OF assms(3,4)] assms
    by (auto simp: sets_def find_ram_file_def fun_eq_iff)
qed

lemma sets_trans: "sets s n b t \<Longrightarrow> sets t n c u \<Longrightarrow> sets s n c u"
  by (auto simp: sets_def intro: same_boot_trans)

lemma ram_file_facts:
  assumes "unifs_inv s" "find_ram_file s n = Some i"
  shows "r_used (file_at s i)" "r_name (file_at s i) = n" "file_ok (file_at s i)" "i < length (ram_files s)"
    and "length (ram_bytes (file_at s i)) = r_size (file_at s i)"
proof -
  show a: "r_used (file_at s i)" "r_name (file_at s i) = n" "file_ok (file_at s i)" "i < length (ram_files s)"
    using assms by (auto simp: find_ram_file_Some unifs_inv_def)
  then show "length (ram_bytes (file_at s i)) = r_size (file_at s i)"
    by (auto simp: file_ok_def ram_bytes_def split: option.splits)
qed

lemma malloc_Some: "malloc h n = (Some d, h') \<Longrightarrow> length d = n \<and> n > 0"
  by (cases h) (auto split: if_splits)

lemma memcpy_to_Some [simp]:
  "off + length src \<le> length d \<Longrightarrow> memcpy_to (Some d) off src = Returns (Some (copy_bytes d off src))"
  by (simp add: memcpy_to_def)

lemma take_copy_bytes_end: "off + length src \<le> length d \<Longrightarrow> take (off + length src) (copy_bytes d off src) = take off d @ src"
  by (simp add: copy_bytes_def)

lemma copy_bytes_0 [simp]: "length src \<le> length d \<Longrightarrow> copy_bytes d 0 src = src @ drop (length src) d"
  by (simp add: copy_bytes_def)

text \<open>Each step of the operations on a RAM file that is there.\<close>

lemma ram_overwrite_sets:
  assumes inv: "unifs_inv s" and i: "find_ram_file s n = Some i" and z: "sz = length xs" "sz \<le> MAX_FILE_SIZE"
  shows "\<exists>t. ram_overwrite s i (Some xs) sz = Returns (UOk, t) \<and> sets s n xs t \<or>
    ram_overwrite s i (Some xs) sz = Returns (NoMemory, t) \<and> sets s n [] t"
proof -
  note f = ram_file_facts [OF inv i]
  show ?thesis
  proof (cases "sz > r_capacity (file_at s i)")
    case True
    show ?thesis
    proof (cases "malloc (heap s) sz")
      case (Pair d h)
      show ?thesis
      proof (cases d)
        case None
        let ?t = "upd_file (s\<lparr>heap := h\<rparr>) i (\<lambda>f. f\<lparr>r_data := None, r_size := 0, r_capacity := 0\<rparr>)"
        have "sets s n [] ?t"
          by (rule sets_upd [OF inv i]) (use f in \<open>auto simp: file_ok_def ram_bytes_def\<close>)
        then show ?thesis using True Pair None by (auto simp: ram_overwrite_def)
      next
        case (Some d')
        then have d': "length d' = sz" "0 < sz" using Pair malloc_Some by auto
        let ?t = "upd_file (s\<lparr>heap := h\<rparr>) i (\<lambda>f. f\<lparr>r_data := Some d', r_capacity := sz\<rparr>)"
        let ?u = "upd_file ?t i (\<lambda>f. f\<lparr>r_data := Some xs, r_size := sz\<rparr>)"
        have "?u = upd_file (s\<lparr>heap := h\<rparr>) i
            (\<lambda>f. f\<lparr>r_data := Some d', r_capacity := sz, r_data := Some xs, r_size := sz\<rparr>)"
          using f(4) by (simp add: upd_file_twice)
        moreover have "sets s n xs \<dots>"
          by (rule sets_upd [OF inv i]) (use f d' z in \<open>auto simp: file_ok_def ram_bytes_def MAX_FILE_SIZE_def\<close>)
        moreover have "ram_overwrite s i (Some xs) sz = Returns (UOk, ?u)"
          using True Pair Some d' z f(4) by (simp add: ram_overwrite_def)
        ultimately show ?thesis by metis
      qed
    qed
  next
    case False
    then obtain d where d: "sz = 0 \<and> r_data (file_at s i) = d \<or>
        (\<exists>d0. r_data (file_at s i) = Some d0 \<and> d = Some (copy_bytes d0 0 xs))"
      using f(3) by (cases "r_data (file_at s i)") (auto simp: file_ok_def)
    let ?t = "upd_file s i (\<lambda>f. f\<lparr>r_data := d, r_size := sz\<rparr>)"
    have "sets s n xs ?t"
      by (rule sets_upd [OF inv i]) (use f d z False in \<open>auto simp: file_ok_def ram_bytes_def split: option.splits\<close>)
    moreover have "ram_overwrite s i (Some xs) sz = Returns (UOk, ?t)"
      using d False f z by (auto simp: ram_overwrite_def file_ok_def)
    ultimately show ?thesis by blast
  qed
qed


lemma double_capacity_bounds: "n \<le> MAX_FILE_SIZE \<Longrightarrow> n \<le> double_capacity n" "double_capacity n < 2 ^ 63"
  by (simp_all add: double_capacity_def MAX_FILE_SIZE_def)

text \<open>
  Both functions that write behind the start of a file first make room: the file then has the bytes
  it had and a capacity of at least the new end.
\<close>

lemma grow_sets:
  assumes inv: "unifs_inv s" and i: "find_ram_file s n = Some i"
    and m: "malloc (heap s) c = (Some new, h)" and c: "r_size (file_at s i) \<le> c" "c < 2 ^ 63"
    and d: "d = Some (case r_data (file_at s i) of None \<Rightarrow> new | Some x \<Rightarrow> copy_bytes new 0 (take (r_size (file_at s i)) x))"
    and t: "t = upd_file (s\<lparr>heap := h\<rparr>) i (\<lambda>f. f\<lparr>r_data := d, r_capacity := c\<rparr>)"
  shows "sets s n (ram_bytes (file_at s i)) t" "r_size (file_at t i) = r_size (file_at s i)"
    "r_capacity (file_at t i) = c"
proof -
  note f = ram_file_facts [OF inv i]
  show "sets s n (ram_bytes (file_at s i)) t"
    unfolding t
    by (rule sets_upd [OF inv i])
      (use f c malloc_Some [OF m] d in \<open>auto simp: file_ok_def ram_bytes_def byte_simps split: option.splits\<close>)
  show "r_size (file_at t i) = r_size (file_at s i)" "r_capacity (file_at t i) = c"
    using f(4) t by simp_all
qed

lemma ram_bytes_data:
  assumes "unifs_inv s" "find_ram_file s n = Some i" "0 < r_capacity (file_at s i)"
  obtains d where "r_data (file_at s i) = Some d" "length d = r_capacity (file_at s i)"
    "ram_bytes (file_at s i) = take (r_size (file_at s i)) d"
  using ram_file_facts [OF assms(1,2)] assms(3)
  by (cases "r_data (file_at s i)") (auto simp: file_ok_def ram_bytes_def)

lemma put_sets:
  assumes inv: "unifs_inv s" and i: "find_ram_file s n = Some i"
    and b: "off + length buf \<le> r_capacity (file_at s i)"
    and z: "z = max (off + length buf) (r_size (file_at s i))"
  shows "\<exists>d junk. memcpy_to (r_data (file_at s i)) off buf = Returns d \<and>
    length junk = off - r_size (file_at s i) \<and>
    sets s n (take off (ram_bytes (file_at s i)) @ junk @ buf @ drop (off + length buf) (ram_bytes (file_at s i)))
      (upd_file s i (\<lambda>f. f\<lparr>r_data := d, r_size := z\<rparr>))"
proof (cases "r_capacity (file_at s i) = 0")
  case True
  note f = ram_file_facts [OF inv i]
  have e: "off = 0" "buf = []" "r_size (file_at s i) = 0" "z = 0" "ram_bytes (file_at s i) = []"
    using True b f z by (auto simp: file_ok_def)
  have m: "memcpy_to (r_data (file_at s i)) off buf = Returns (r_data (file_at s i))"
    using True e f by (cases "r_data (file_at s i)") (auto simp: file_ok_def memcpy_to_def)
  have "sets s n [] (upd_file s i (\<lambda>x. x\<lparr>r_data := r_data (file_at s i), r_size := 0\<rparr>))"
    by (rule sets_upd [OF inv i]) (use f e True in \<open>auto simp: file_ok_def ram_bytes_def split: option.splits\<close>)
  then show ?thesis using m e by auto
next
  case False
  note f = ram_file_facts [OF inv i]
  from False obtain d where d: "r_data (file_at s i) = Some d" "length d = r_capacity (file_at s i)"
    "ram_bytes (file_at s i) = take (r_size (file_at s i)) d"
    using ram_bytes_data [OF inv i] by blast
  let ?r = "r_size (file_at s i)" and ?e = "off + length buf"
  let ?junk = "take (off - ?r) (drop ?r d)"
  have r: "?r \<le> length d" using f d by (simp add: file_ok_def)
  have "sets s n (take off (ram_bytes (file_at s i)) @ ?junk @ buf @ drop ?e (ram_bytes (file_at s i)))
      (upd_file s i (\<lambda>f. f\<lparr>r_data := Some (copy_bytes d off buf), r_size := z\<rparr>))"
  proof (rule sets_upd [OF inv i])
    have "take off (take ?r d) @ ?junk = take off d"
      using take_add [of ?r "off - ?r" d] by (cases "off \<le> ?r") (simp_all add: min_def)
    moreover have "take z (copy_bytes d off buf) = take off d @ buf @ drop ?e (take ?r d)"
      using b d(2) z r by (auto simp: copy_bytes_def drop_take max_def)
    ultimately show "ram_bytes (file_at s i\<lparr>r_data := Some (copy_bytes d off buf), r_size := z\<rparr>) =
        take off (ram_bytes (file_at s i)) @ ?junk @ buf @ drop ?e (ram_bytes (file_at s i))"
      using d by (simp add: ram_bytes_def)
  qed (use f d b z r in \<open>auto simp: file_ok_def byte_simps\<close>)
  moreover have "length ?junk = off - ?r" using b d(2) by simp
  ultimately show ?thesis using d b by (metis memcpy_to_Some)
qed


lemma make_room:
  assumes inv: "unifs_inv s" and i: "find_ram_file s n = Some i"
    and e: "r_size (file_at s i) \<le> e" "e \<le> MAX_FILE_SIZE"
    and C: "\<And>new. r_size (file_at s i) \<le> length new \<Longrightarrow>
      C new = Returns (Some (case r_data (file_at s i) of None \<Rightarrow> new
        | Some x \<Rightarrow> copy_bytes new 0 (take (r_size (file_at s i)) x)))"
  shows "\<exists>ok t. (if e > r_capacity (file_at s i) then
       (case malloc (heap s) (double_capacity e) of
          (None, h) \<Rightarrow> Returns (False, s\<lparr>heap := h\<rparr>)
        | (Some new, h) \<Rightarrow>
            obind (C new) (\<lambda>d. Returns (True, upd_file (s\<lparr>heap := h\<rparr>) i
              (\<lambda>f. f\<lparr>r_data := d, r_capacity := double_capacity e\<rparr>))))
       else Returns (True, s)) = Returns (ok, t) \<and>
    sets s n (ram_bytes (file_at s i)) t \<and>
    (ok \<longrightarrow> r_size (file_at t i) = r_size (file_at s i) \<and> e \<le> r_capacity (file_at t i))"
proof (cases "e > r_capacity (file_at s i)")
  case False
  then show ?thesis using sets_same [OF inv i refl] by auto
next
  case True
  obtain d h where m: "malloc (heap s) (double_capacity e) = (d, h)" by fastforce
  show ?thesis
  proof (cases d)
    case None
    have "sets s n (ram_bytes (file_at s i)) (s\<lparr>heap := h\<rparr>)" by (rule sets_same [OF inv i]) simp_all
    then show ?thesis using True m None by auto
  next
    case (Some new)
    have c: "e \<le> double_capacity e" using e(2) by (rule double_capacity_bounds)
    then have "r_size (file_at s i) \<le> length new" using malloc_Some [OF m [unfolded Some]] e(1) by simp
    from C [OF this] show ?thesis
      using True m Some c grow_sets [OF inv i m [unfolded Some] _ _ refl refl] e(1) double_capacity_bounds(2) by auto
  qed
qed

lemma put_after_room:
  assumes i: "find_ram_file s n = Some i" and t: "sets s n (ram_bytes (file_at s i)) t"
    and r: "r_size (file_at t i) = r_size (file_at s i)" "off + length buf \<le> r_capacity (file_at t i)"
    and z: "z = max (off + length buf) (r_size (file_at s i))"
  shows "\<exists>d junk. memcpy_to (r_data (file_at t i)) off buf = Returns d \<and>
    length junk = off - r_size (file_at s i) \<and>
    sets s n (take off (ram_bytes (file_at s i)) @ junk @ buf @ drop (off + length buf) (ram_bytes (file_at s i)))
      (upd_file t i (\<lambda>f. f\<lparr>r_data := d, r_size := z\<rparr>))"
proof -
  have t': "unifs_inv t" "find_ram_file t n = Some i" "contents t n = Some (ram_bytes (file_at s i))"
    using t i by (simp_all add: sets_def)
  then have b: "ram_bytes (file_at t i) = ram_bytes (file_at s i)" by (simp add: contents_eq)
  obtain d junk where "memcpy_to (r_data (file_at t i)) off buf = Returns d"
    "length junk = off - r_size (file_at s i)"
    "sets t n (take off (ram_bytes (file_at s i)) @ junk @ buf @ drop (off + length buf) (ram_bytes (file_at s i)))
      (upd_file t i (\<lambda>f. f\<lparr>r_data := d, r_size := z\<rparr>))"
    using put_sets [OF t'(1,2) r(2), of z] b r(1) z by auto
  then show ?thesis using sets_trans [OF t] by blast
qed

lemma ram_append_sets:
  assumes inv: "unifs_inv s" and i: "find_ram_file s n = Some i"
    and w: "r_size (file_at s i) + length data < 2 ^ 64"
  shows "\<exists>t. ram_append s i data = Returns (UOk, t) \<and> sets s n (ram_bytes (file_at s i) @ data) t \<or>
    ram_append s i data = Returns (NoMemory, t) \<and> sets s n (ram_bytes (file_at s i)) t"
proof -
  let ?f = "file_at s i" and ?new = "r_size (file_at s i) + length data"
  let ?C = "\<lambda>new. case r_data ?f of
      Some d \<Rightarrow> if r_size ?f > 0 then memcpy_to (Some new) 0 (take (r_size ?f) d) else Returns (Some new)
    | None \<Rightarrow> Returns (Some new)"
  note f = ram_file_facts [OF inv i]
  show ?thesis
  proof (cases "?new > MAX_FILE_SIZE")
    case True
    then show ?thesis using w sets_same [OF inv i] by (auto simp: ram_append_def Let_def)
  next
    case False
    have C: "?C new = Returns (Some (case r_data ?f of None \<Rightarrow> new
        | Some x \<Rightarrow> copy_bytes new 0 (take (r_size ?f) x)))" if "r_size ?f \<le> length new" for new
      using that f(3) by (auto simp: file_ok_def split: option.splits)
    obtain ok t where room:
      "(if ?new > r_capacity ?f then
         (case malloc (heap s) (double_capacity ?new) of
            (None, h) \<Rightarrow> Returns (False, s\<lparr>heap := h\<rparr>)
          | (Some new, h) \<Rightarrow>
              obind (?C new) (\<lambda>d. Returns (True, upd_file (s\<lparr>heap := h\<rparr>) i
                (\<lambda>f. f\<lparr>r_data := d, r_capacity := double_capacity ?new\<rparr>))))
         else Returns (True, s)) = Returns (ok, t)"
      and t: "sets s n (ram_bytes ?f) t"
      and ok: "ok \<longrightarrow> r_size (file_at t i) = r_size ?f \<and> ?new \<le> r_capacity (file_at t i)"
      using make_room [OF inv i _ _ C, of ?new] False by auto
    have a: "ram_append s i data =
        (if \<not> ok then Returns (NoMemory, t)
         else obind (memcpy_to (r_data (file_at t i)) (r_size (file_at t i)) data)
           (\<lambda>d. Returns (UOk, upd_file t i (\<lambda>f. f\<lparr>r_data := d, r_size := ?new\<rparr>))))"
      by (simp only: ram_append_def Let_def wrap64_id [OF w] False if_False room obind.simps prod.case)
    show ?thesis
    proof (cases ok)
      case True
      with ok put_after_room [OF i t, of "r_size ?f" data ?new] f(5) obtain d where
        "memcpy_to (r_data (file_at t i)) (r_size ?f) data = Returns d"
        "sets s n (ram_bytes ?f @ data) (upd_file t i (\<lambda>f. f\<lparr>r_data := d, r_size := ?new\<rparr>))"
        by auto
      then show ?thesis using a True ok by auto
    qed (use a t in auto)
  qed
qed

lemma ram_write_at_sets:
  assumes inv: "unifs_inv s" and i: "find_ram_file s n = Some i"
    and w: "off + length buf < 2 ^ 64"
  shows "\<exists>t junk. ram_write_at s i buf off = Returns (int (length buf), t) \<and>
      length junk = off - r_size (file_at s i) \<and>
      sets s n (take off (ram_bytes (file_at s i)) @ junk @ buf @ drop (off + length buf) (ram_bytes (file_at s i))) t \<or>
    ram_write_at s i buf off = Returns (-1, t) \<and> sets s n (ram_bytes (file_at s i)) t"
proof -
  let ?f = "file_at s i" and ?new = "off + length buf"
  let ?C = "\<lambda>new. case r_data ?f of
      Some d \<Rightarrow> memcpy_to (Some new) 0 (take (r_size ?f) d) | None \<Rightarrow> Returns (Some new)"
  let ?Z = "\<lambda>f. if ?new > r_size f then ?new else r_size f"
  note f = ram_file_facts [OF inv i]
  show ?thesis
  proof (cases "?new > MAX_FILE_SIZE")
    case True
    then show ?thesis using w sets_same [OF inv i] by (auto simp: ram_write_at_def Let_def)
  next
    case False
    have C: "?C new = Returns (Some (case r_data ?f of None \<Rightarrow> new
        | Some x \<Rightarrow> copy_bytes new 0 (take (r_size ?f) x)))" if "r_size ?f \<le> length new" for new
      using that f(3) by (auto simp: file_ok_def split: option.splits)
    obtain ok t where room:
      "(if ?new > r_capacity ?f then
         (case malloc (heap s) (double_capacity ?new) of
            (None, h) \<Rightarrow> Returns (False, s\<lparr>heap := h\<rparr>)
          | (Some new, h) \<Rightarrow>
              obind (?C new) (\<lambda>d. Returns (True, upd_file (s\<lparr>heap := h\<rparr>) i
                (\<lambda>f. f\<lparr>r_data := d, r_capacity := double_capacity ?new\<rparr>))))
         else Returns (True, s)) = Returns (ok, t)"
      and t: "sets s n (ram_bytes ?f) t"
      and ok: "ok \<longrightarrow> r_size (file_at t i) = r_size ?f \<and> ?new \<le> r_capacity (file_at t i)"
    proof (cases "?new > r_capacity ?f")
      case True
      then have "r_size ?f \<le> ?new" using f(3) by (simp add: file_ok_def)
      then show ?thesis using that make_room [OF inv i _ _ C, of ?new] False by auto
    next
      case le: False
      then show ?thesis using that [of True s] sets_same [OF inv i refl] by auto
    qed
    have a: "ram_write_at s i buf off =
        (if \<not> ok then Returns (-1, t)
         else obind (memcpy_to (r_data (file_at t i)) off buf)
           (\<lambda>d. Returns (int (length buf), upd_file t i (\<lambda>f. f\<lparr>r_data := d, r_size := ?Z f\<rparr>))))"
      by (simp only: ram_write_at_def Let_def wrap64_id [OF w] False if_False room obind.simps prod.case)
    show ?thesis
    proof (cases ok)
      case True
      have z: "upd_file t i (\<lambda>f. f\<lparr>r_data := d, r_size := ?Z f\<rparr>) =
          upd_file t i (\<lambda>f. f\<lparr>r_data := d, r_size := max ?new (r_size ?f)\<rparr>)" for d
        using ok True by (auto simp: upd_file_def max_def)
      from True ok put_after_room [OF i t _ _ refl, of off buf] a z show ?thesis by fastforce
    qed (use a t in auto)
  qed
qed


text \<open>Creation puts an empty file under the name; a boot file of that name is hidden from then on.\<close>

lemma unifs_create_result:
  assumes inv: "unifs_inv s" and c: "unifs_create s n = (err, t)"
  shows "err \<noteq> UOk \<and> t = s \<or>
    err = UOk \<and> find_ram_file s n = None \<and> unifs_inv t \<and> contents t = (contents s)(n \<mapsto> []) \<and> same_boot s t \<and>
    (\<exists>i. find_ram_file t = (find_ram_file s)(n \<mapsto> i) \<and> r_size (file_at t i) = 0 \<and> r_capacity (file_at t i) = 0 \<and>
       ram_bytes (file_at t i) = [])"
proof (cases "n = [] \<or> length n > MAX_FILENAME \<or> find_ram_file s n \<noteq> None \<or> find_free_slot s = None")
  case True
  then show ?thesis using c by (auto simp: unifs_create_def split: if_splits option.splits)
next
  case False
  then obtain i where i: "find_free_slot s = Some i" by auto
  let ?f = "\<lambda>f. f\<lparr>r_name := take MAX_FILENAME n, r_data := None, r_size := 0, r_capacity := 0, r_used := True\<rparr>"
  have e: "err = UOk" "t = upd_file (s\<lparr>ram_file_count := wrap64 (ram_file_count s + 1)\<rparr>) i ?f" "take MAX_FILENAME n = n"
    using c False i by (auto simp: unifs_create_def)
  have i': "i < MAX_FILES" "length (ram_files s) = MAX_FILES" "\<not> r_used (file_at s i)"
    using i inv by (auto simp: find_free_slot_def find_idx_Some unifs_inv_def)
  have none: "\<forall>j < MAX_FILES. r_used (file_at s j) \<longrightarrow> r_name (file_at s j) \<noteq> n"
    using False inv by (simp add: find_ram_file_None)
  have inv': "unifs_inv t"
    using inv i' none False e(3)
    by (auto simp: unifs_inv_def e(2) nth_list_update file_ok_def)
  have r: "find_ram_file t = (find_ram_file s)(n \<mapsto> i)"
  proof
    fix m
    show "find_ram_file t m = ((find_ram_file s)(n \<mapsto> i)) m"
    proof (cases "m = n")
      case True
      then show ?thesis using inv' i' e by (simp add: find_ram_file_Some)
    next
      case False
      have "find_idx (\<lambda>f. r_used f \<and> m = r_name f) (ram_files t) = find_idx (\<lambda>f. r_used f \<and> m = r_name f) (ram_files s)"
        unfolding e(2) frame_simps by (rule find_idx_update) (use False i' e(3) in auto)
      then show ?thesis using False by (simp add: find_ram_file_def)
    qed
  qed
  have b: "same_boot s t" by (simp add: e(2) same_boot_def upd_file_def)
  have t: "file_at t i = ?f (file_at s i)" using i' e(2) by simp
  have o: "file_at t j = file_at s j" if "j \<noteq> i" for j using that e(2) by simp
  have "contents t = (contents s)(n \<mapsto> [])"
  proof
    fix m
    have "find_ram_file s m \<noteq> Some i" using i' inv by (simp add: find_ram_file_Some)
    then show "contents t m = ((contents s)(n \<mapsto> [])) m"
      using o t by (cases "find_ram_file s m") (auto simp: contents_eq r same_boot_simps(4) [OF b] ram_bytes_def)
  qed
  then show ?thesis using e(1) False inv' b r t by (auto simp: ram_bytes_def)
qed

text \<open>A RAM file that is no longer in use uncovers the boot file of its name.\<close>

lemma drop_file_contents:
  assumes inv: "unifs_inv s" and i: "find_ram_file s n = Some i" and f: "\<not> r_used (f (file_at s i))"
  shows "unifs_inv (upd_file s i f)"
    and "contents (upd_file s i f) = (contents s)(n := boot_contents s n)"
    and "find_ram_file (upd_file s i f) = (find_ram_file s)(n := None)"
proof -
  let ?t = "upd_file s i f"
  have i': "i < MAX_FILES" "length (ram_files s) = MAX_FILES" "r_name (file_at s i) = n"
    using i inv by (auto simp: find_ram_file_Some unifs_inv_def)
  have o: "file_at ?t j = (if j = i then f (file_at s i) else file_at s j)" for j using i' by simp
  show inv': "unifs_inv ?t" using inv i' f by (auto simp: unifs_inv_def nth_list_update)
  have "find_ram_file ?t m = Some j \<longleftrightarrow> ((find_ram_file s)(n := None)) m = Some j" for m j
  proof (cases "j = i")
    case True
    then have "find_ram_file ?t m \<noteq> Some j" "((find_ram_file s)(n := None)) m \<noteq> Some j"
      using i'(3) f by (simp_all add: find_ram_file_Some [OF inv'] find_ram_file_Some [OF inv] o del: frame_simps)
    then show ?thesis by simp
  next
    case False
    then have "find_ram_file ?t m = Some j \<longleftrightarrow> find_ram_file s m = Some j"
      by (simp add: find_ram_file_Some [OF inv'] find_ram_file_Some [OF inv] o del: frame_simps)
    moreover have "find_ram_file s n \<noteq> Some j" using False i by simp
    ultimately show ?thesis by auto
  qed
  then show r: "find_ram_file ?t = (find_ram_file s)(n := None)" by (intro ext option_ext) blast
  have b: "boot_contents ?t = boot_contents s" by (rule same_boot_simps(4)) simp
  show "contents ?t = (contents s)(n := boot_contents s n)"
  proof
    fix m
    show "contents ?t m = ((contents s)(n := boot_contents s n)) m"
    proof (cases "m = n")
      case True
      then show ?thesis by (simp add: contents_eq r b)
    next
      case False
      then have "find_ram_file s m \<noteq> Some i" using i'(3) inv by (auto simp: find_ram_file_Some)
      then show ?thesis
        using False o by (cases "find_ram_file s m") (auto simp: contents_eq r b simp del: frame_simps)
    qed
  qed
qed

text \<open>Deletion removes the RAM file.\<close>

lemma unifs_delete_result:
  assumes inv: "unifs_inv s" and c: "unifs_delete is_open s n = (err, t)"
  shows "unifs_inv t \<and> same_boot s t \<and>
    (err = UOk \<longrightarrow> contents t = (contents s)(n := boot_contents s n) \<and> find_ram_file t = (find_ram_file s)(n := None)) \<and>
    (err \<noteq> UOk \<longrightarrow> t = s)"
proof (cases "find_ram_file s n")
  case None
  then have "contents s n = boot_contents s n" by (simp add: contents_eq)
  then show ?thesis
    using None inv c by (auto simp: unifs_delete_def fun_upd_idem split: if_splits)
next
  case (Some i)
  show ?thesis
  proof (cases "is_open (r_name (file_at s i))")
    case False
    let ?f = "\<lambda>f. f\<lparr>r_data := None, r_size := 0, r_capacity := 0, r_used := False, r_name := []\<rparr>"
    let ?u = "s\<lparr>ram_file_count := wrap64 (ram_file_count s + (2 ^ 64 - 1))\<rparr>"
    have e: "err = UOk" "t = upd_file ?u i ?f"
      using c Some False by (auto simp: unifs_delete_def)
    have u: "unifs_inv ?u" "contents ?u = contents s" "find_ram_file ?u = find_ram_file s" "boot_contents ?u = boot_contents s"
      using inv_cong [of ?u s] contents_cong [of ?u s] same_boot_simps(4) [of s ?u] inv
      by (auto simp: find_ram_file_def fun_eq_iff)
    have "find_ram_file ?u n = Some i" using u(3) Some by simp
    from drop_file_contents [OF u(1) this, of ?f] show ?thesis
      using e u by (simp add: same_boot_def upd_file_def)
  qed (use Some inv c in \<open>auto simp: unifs_delete_def\<close>)
qed

lemma ram_truncate_sets:
  assumes inv: "unifs_inv s" and i: "find_ram_file s n = Some i" and z: "sz < 2 ^ 63"
  shows "\<exists>t junk. ram_truncate s i sz = Returns (True, t) \<and> length junk = sz - r_size (file_at s i) \<and>
      sets s n (take sz (ram_bytes (file_at s i)) @ junk) t \<or>
    ram_truncate s i sz = Returns (False, t) \<and> sets s n (ram_bytes (file_at s i)) t"
proof -
  let ?f = "file_at s i"
  note f = ram_file_facts [OF inv i]
  show ?thesis
  proof (cases "sz \<le> r_capacity ?f")
    case True
    let ?junk = "case r_data ?f of None \<Rightarrow> [] | Some d \<Rightarrow> take (sz - r_size ?f) (drop (r_size ?f) d)"
    have "length ?junk = sz - r_size ?f" using True f(3) by (auto simp: file_ok_def split: option.splits)
    moreover have "sets s n (take sz (ram_bytes ?f) @ ?junk) (upd_file s i (\<lambda>f. f\<lparr>r_size := sz\<rparr>))"
    proof (rule sets_upd [OF inv i])
      have "take sz (take (r_size ?f) d) @ take (sz - r_size ?f) (drop (r_size ?f) d) = take sz d" for d :: "u8 list"
        using take_add [of "r_size ?f" "sz - r_size ?f" d] by (cases "sz \<le> r_size ?f") (simp_all add: min_def)
      then show "ram_bytes (?f\<lparr>r_size := sz\<rparr>) = take sz (ram_bytes ?f) @ ?junk"
        by (auto simp: ram_bytes_def split: option.splits)
    qed (use f True in \<open>auto simp: file_ok_def\<close>)
    moreover have "ram_truncate s i sz = Returns (True, upd_file s i (\<lambda>f. f\<lparr>r_size := sz\<rparr>))"
      using True by (auto simp: ram_truncate_def Let_def)
    ultimately show ?thesis by blast
  next
    case False
    obtain d h where m: "malloc (heap s) sz = (d, h)" by fastforce
    show ?thesis
    proof (cases d)
      case None
      have "sets s n (ram_bytes ?f) (s\<lparr>heap := h\<rparr>)" by (rule sets_same [OF inv i]) simp_all
      moreover have "ram_truncate s i sz = Returns (False, s\<lparr>heap := h\<rparr>)"
        using False m None by (simp add: ram_truncate_def Let_def)
      ultimately show ?thesis by blast
    next
      case (Some new)
      have l: "length new = sz" "r_size ?f \<le> sz" using malloc_Some [OF m [unfolded Some]] False f(3) by (auto simp: file_ok_def)
      let ?d = "Some (case r_data ?f of None \<Rightarrow> new | Some x \<Rightarrow> copy_bytes new 0 (take (r_size ?f) x))"
      let ?t = "upd_file (s\<lparr>heap := h\<rparr>) i (\<lambda>f. f\<lparr>r_data := ?d, r_size := sz, r_capacity := sz\<rparr>)"
      have "sets s n (take sz (ram_bytes ?f) @ drop (r_size ?f) new) ?t"
        by (rule sets_upd [OF inv i])
          (use f l z in \<open>auto simp: file_ok_def ram_bytes_def byte_simps split: option.splits\<close>)
      moreover have "ram_truncate s i sz = Returns (True, ?t)"
        using False m Some l f(3) by (auto simp: ram_truncate_def Let_def file_ok_def split: option.splits)
      moreover have "length (drop (r_size ?f) new) = sz - r_size ?f" using l by simp
      ultimately show ?thesis by blast
    qed
  qed
qed

section \<open>Operations on names\<close>

text \<open>
  The result of an operation that gives the file \<open>n\<close> the bytes \<open>b\<close> when it succeeds.  When it fails the
  files are as before, or the file is empty: the RAM file was created, or its memory was given back,
  before the request for memory failed.
\<close>

definition lands :: "unifs \<Rightarrow> u8 list \<Rightarrow> bool \<Rightarrow> u8 list \<Rightarrow> unifs \<Rightarrow> bool" where
  "lands s n ok b t \<longleftrightarrow> unifs_inv t \<and> same_boot s t \<and>
     (if ok then contents t = (contents s)(n \<mapsto> b)
      else contents t = contents s \<or> contents t = (contents s)(n \<mapsto> []))"

lemma lands_sets: "sets s n b t \<Longrightarrow> lands s n True b t"
  by (simp add: lands_def sets_def)

lemma lands_unchanged: "unifs_inv s \<Longrightarrow> lands s n False b s"
  by (simp add: lands_def)

lemma lands_empty: "sets s n [] t \<Longrightarrow> lands s n False b t"
  by (auto simp: lands_def sets_def)

lemma lands_same: "sets s n c t \<Longrightarrow> contents s n = Some c \<Longrightarrow> lands s n False b t"
  by (auto simp: lands_def sets_def fun_upd_idem)

lemma lands_after:
  assumes "contents s1 = (contents s)(n \<mapsto> c)" "same_boot s s1" "c = [] \<or> contents s n = Some c" "lands s1 n ok b t"
  shows "lands s n ok b t"
  using assms by (auto simp: lands_def fun_upd_idem dest: same_boot_trans)

lemma contents_ram: "find_ram_file s n = Some i \<Longrightarrow> contents s n = Some (ram_bytes (file_at s i))"
  by (simp add: contents_eq)

lemma unifs_write_lands:
  assumes inv: "unifs_inv s" and z: "sz = length xs"
  shows "\<exists>err t. unifs_write is_open s n (Some xs) sz = Returns (err, t) \<and> lands s n (err = UOk) xs t"
proof -
  have over: "\<exists>err t. ram_overwrite s' i (Some xs) sz = Returns (err, t) \<and> lands s' n (err = UOk) xs t"
    if "unifs_inv s'" "find_ram_file s' n = Some i" "sz \<le> MAX_FILE_SIZE" for s' i
    using ram_overwrite_sets [OF that(1,2) z that(3)] by (auto dest: lands_sets lands_empty)
  show ?thesis
  proof (cases "sz > MAX_FILE_SIZE")
    case True
    then show ?thesis using inv by (auto simp: unifs_write_def lands_unchanged)
  next
    case small: False
    show ?thesis
    proof (cases "find_ram_file s n")
      case (Some i)
      then show ?thesis using over [OF inv Some] small inv by (auto simp: unifs_write_def lands_unchanged)
    next
      case None
      obtain err s1 where c: "unifs_create s n = (err, s1)" by fastforce
      show ?thesis
      proof (cases "err = UOk")
        case True
        then obtain i where s1: "unifs_inv s1" "contents s1 = (contents s)(n \<mapsto> [])" "same_boot s s1"
          "find_ram_file s1 n = Some i" using unifs_create_result [OF inv c] by auto
        with over [OF s1(1,4)] small obtain err' t where
          "ram_overwrite s1 i (Some xs) sz = Returns (err', t)" "lands s1 n (err' = UOk) xs t" by auto
        then show ?thesis
          using small None c True s1 lands_after [OF s1(2,3)] by (auto simp: unifs_write_def)
      next
        case False
        then have "unifs_write is_open s n (Some xs) sz = Returns (err, s1)" "s1 = s"
          using small None c unifs_create_result [OF inv c] by (auto simp: unifs_write_def split: UnifsError.split)
        then show ?thesis using False inv by (auto simp: lands_unchanged)
      qed
    qed
  qed
qed


text \<open>Boot files no larger than a RAM file may be, as \<open>unifs_append\<close> needs them.\<close>

definition boot_small :: "unifs \<Rightarrow> bool" where
  "boot_small s \<longleftrightarrow> (\<forall>b < boot_file_count s. entry_size s b \<le> MAX_FILE_SIZE)"

lemma boot_entry_facts:
  assumes "boot_small s" "find_boot_entry s n = Some b"
  shows "entry_size s b \<le> MAX_FILE_SIZE" "length (boot_data s b) = entry_size s b"
    and "find_ram_file s n = None \<Longrightarrow> contents s n = Some (boot_data s b)"
  using assms by (auto simp: boot_small_def find_boot_entry_def find_idx_Some boot_data_def contents_eq
      boot_contents_def split: if_splits)

lemma created:
  assumes "unifs_inv s" "unifs_create s n = (UOk, s1)"
  obtains i where "unifs_inv s1" "contents s1 = (contents s)(n \<mapsto> [])" "same_boot s s1"
    "find_ram_file s n = None" "find_ram_file s1 n = Some i" "r_size (file_at s1 i) = 0" "r_capacity (file_at s1 i) = 0"
    "ram_bytes (file_at s1 i) = []"
  using unifs_create_result [OF assms] by auto

lemma unifs_create_heap: "unifs_create s n = (err, s1) \<Longrightarrow> heap s1 = heap s"
  by (auto simp: unifs_create_def split: if_splits option.splits)

definition no_room :: "unifs \<Rightarrow> bool" where
  "no_room s \<longleftrightarrow> (case heap s of [] \<Rightarrow> True | x # _ \<Rightarrow> x = None)"

lemma malloc_no_room: "n > 0 \<Longrightarrow> fst (malloc (heap s) n) = None \<longleftrightarrow> no_room s"
  by (cases "heap s") (auto simp: no_room_def)

lemma append_copy_boot_sets:
  assumes inv: "unifs_inv s" and i: "find_ram_file s n = Some i" "r_capacity (file_at s i) = 0"
    and b: "entry_size s b \<le> MAX_FILE_SIZE"
  shows "\<exists>t. append_copy_boot s i b = Returns t \<and> sets s n (if no_room s then [] else boot_data s b) t"
proof -
  let ?c = "if double_capacity (entry_size s b) = 0 then 4096 else double_capacity (entry_size s b)"
  note f = ram_file_facts [OF inv i(1)]
  have c: "0 < ?c" "entry_size s b \<le> ?c" "?c < 2 ^ 63" "length (boot_data s b) = entry_size s b"
    using b double_capacity_bounds [of "entry_size s b"] by (auto simp: boot_data_def)
  obtain d h where m: "malloc (heap s) ?c = (d, h)" by fastforce
  show ?thesis
  proof (cases d)
    case None
    let ?t = "upd_file (s\<lparr>heap := h\<rparr>) i (\<lambda>f. f\<lparr>r_data := None\<rparr>)"
    have "no_room s" using malloc_no_room [OF c(1)] m None by (metis fst_conv)
    moreover have "sets s n [] ?t"
      by (rule sets_upd [OF inv i(1)]) (use f i(2) in \<open>auto simp: file_ok_def ram_bytes_def\<close>)
    ultimately show ?thesis using m None by (auto simp: append_copy_boot_def Let_def)
  next
    case (Some d')
    then have l: "length d' = ?c" "\<not> no_room s"
      using malloc_Some m malloc_no_room [OF c(1), of s] by auto
    let ?t = "upd_file (s\<lparr>heap := h\<rparr>) i
      (\<lambda>f. f\<lparr>r_data := Some (copy_bytes d' 0 (boot_data s b)), r_capacity := ?c, r_size := entry_size s b\<rparr>)"
    have "sets s n (boot_data s b) ?t"
      by (rule sets_upd [OF inv i(1)]) (use f c l in \<open>auto simp: file_ok_def ram_bytes_def byte_simps\<close>)
    then show ?thesis using m Some l c by (auto simp: append_copy_boot_def Let_def)
  qed
qed


definition appended_to :: "unifs \<Rightarrow> u8 list \<Rightarrow> u8 list" where
  "appended_to s n =
     (case contents s n of
        None \<Rightarrow> [] | Some c \<Rightarrow> if find_ram_file s n = None \<and> no_room s then [] else c)"

lemma unifs_append_lands:
  assumes inv: "unifs_inv s" and b: "boot_small s" and z: "length data < 2 ^ 63" "data \<noteq> []"
  shows "\<exists>err t. unifs_append is_open s n data = Returns (err, t) \<and> lands s n (err = UOk) (appended_to s n @ data) t"
proof -
  have app: "\<exists>err t. ram_append s' i data = Returns (err, t) \<and> lands s' n (err = UOk) (ram_bytes (file_at s' i) @ data) t"
    if s': "unifs_inv s'" "find_ram_file s' n = Some i" for s' i
  proof -
    have "r_size (file_at s' i) < 2 ^ 63" using ram_file_facts(3) [OF s'] by (simp add: file_ok_def)
    then show ?thesis
      using ram_append_sets [OF s', of data] z contents_ram [OF s'(2)] by (auto dest: lands_sets lands_same)
  qed
  show ?thesis
  proof (cases "find_ram_file s n")
    case (Some i)
    then have a: "appended_to s n = ram_bytes (file_at s i)" by (simp add: appended_to_def contents_ram)
    show ?thesis
      using app [OF inv Some] Some z(2) inv a by (auto simp: unifs_append_def lands_unchanged)
  next
    case None
    obtain err s1 where c: "unifs_create s n = (err, s1)" by fastforce
    show ?thesis
    proof (cases "err = UOk")
      case True
      with created [OF inv] c obtain i where s1: "unifs_inv s1" "contents s1 = (contents s)(n \<mapsto> [])"
        "same_boot s s1" "find_ram_file s1 n = Some i" "r_capacity (file_at s1 i) = 0" "ram_bytes (file_at s1 i) = []"
        by metis
      show ?thesis
      proof (cases "find_boot_entry s n")
        case (Some e)
        note e = boot_entry_facts [OF b Some]
        have room: "no_room s1 = no_room s" using unifs_create_heap [OF c] by (simp add: no_room_def)
        obtain s2 where s2: "append_copy_boot s1 i e = Returns s2"
          "sets s1 n (if no_room s then [] else boot_data s e) s2"
          using append_copy_boot_sets [OF s1(1,4,5), of e] e(1) room by (auto simp: same_boot_simps [OF s1(3)])
        then have s2': "unifs_inv s2" "find_ram_file s2 n = Some i" "same_boot s s2"
          "contents s2 = (contents s)(n \<mapsto> if no_room s then [] else boot_data s e)"
          using s1 by (auto simp: sets_def intro: same_boot_trans)
        have a: "appended_to s n = ram_bytes (file_at s2 i)"
          using contents_ram [OF s2'(2)] s2'(4) e(3) None by (simp add: appended_to_def split: if_splits)
        from app [OF s2'(1,2)] obtain err' t where
          "ram_append s2 i data = Returns (err', t)" "lands s2 n (err' = UOk) (appended_to s n @ data) t" using a by auto
        moreover have "unifs_append is_open s n data = ram_append s2 i data"
          using None c True z(2) s1(4) Some s2(1) by (simp add: unifs_append_def)
        ultimately show ?thesis using lands_after [OF s2'(4,3)] e(3) [OF None] by auto
      next
        case no: None
        then have "contents s n = None" using None by (simp add: contents_eq boot_contents_def)
        then have "appended_to s n = []" by (simp add: appended_to_def)
        moreover from app [OF s1(1,4)] obtain err' t where
          "ram_append s1 i data = Returns (err', t)" "lands s1 n (err' = UOk) data t" using s1(6) by auto
        ultimately show ?thesis
          using None c True z(2) s1(4) no lands_after [OF s1(2,3)] by (auto simp: unifs_append_def)
      qed
    next
      case False
      then have "unifs_append is_open s n data = Returns (err, s1)" "s1 = s"
        using None c z(2) unifs_create_result [OF inv c] by (auto simp: unifs_append_def split: UnifsError.split)
      then show ?thesis using False inv by (auto simp: lands_unchanged)
    qed
  qed
qed

end
