(* ===== verification/Unifs_Spec.thy ===== *)
theory Unifs_Spec
  imports Unifs_Files
begin

text \<open>
  The file system as an abstract object: a map from names to bytes and the operations on it, which the
  operations of the node interface and of the name interface of \<open>unifs.cpp\<close> refine.
\<close>

lemma write_copy_boot_sets:
  assumes inv: "unifs_inv s" and i: "find_ram_file s n = Some i" "ram_bytes (file_at s i) = []"
    and b: "entry_size s b \<le> MAX_FILE_SIZE"
  shows "\<exists>ok t. write_copy_boot s i b = (ok, t) \<and> sets s n (if ok then boot_data s b else []) t"
proof -
  note f = ram_file_facts [OF inv i(1)]
  have l: "length (boot_data s b) = entry_size s b" by (simp add: boot_data_def)
  show ?thesis
  proof (cases "entry_size s b = 0")
    case True
    let ?t = "upd_file s i (\<lambda>f. f\<lparr>r_data := None, r_size := entry_size s b, r_capacity := entry_size s b\<rparr>)"
    have "sets s n [] ?t"
      by (rule sets_upd [OF inv i(1)]) (use f True in \<open>auto simp: file_ok_def ram_bytes_def\<close>)
    then show ?thesis using True l by (auto simp: write_copy_boot_def)
  next
    case False
    obtain d h where m: "malloc (heap s) (entry_size s b) = (d, h)" by fastforce
    let ?t = "upd_file (s\<lparr>heap := h\<rparr>) i
      (\<lambda>f. f\<lparr>r_data := Some (boot_data s b), r_size := entry_size s b, r_capacity := entry_size s b\<rparr>)"
    have "sets s n (boot_data s b) ?t"
      by (rule sets_upd [OF inv i(1)]) (use f l b in \<open>auto simp: file_ok_def ram_bytes_def MAX_FILE_SIZE_def\<close>)
    moreover have "sets s n [] (s\<lparr>heap := h\<rparr>)" using sets_same [OF inv i(1), of "s\<lparr>heap := h\<rparr>"] i(2) by simp
    ultimately show ?thesis using False m by (cases d) (auto simp: write_copy_boot_def Let_def)
  qed
qed

lemma truncate_copy_boot_sets:
  assumes inv: "unifs_inv s" and i: "find_ram_file s n = Some i" "ram_bytes (file_at s i) = []"
    "r_capacity (file_at s i) = 0" and b: "entry_size s b \<le> MAX_FILE_SIZE"
  shows "\<exists>ok t. truncate_copy_boot s i b sz = (ok, t) \<and> sets s n (if ok \<and> sz > 0 then boot_data s b else []) t"
proof -
  note f = ram_file_facts [OF inv i(1)]
  have l: "length (boot_data s b) = entry_size s b" by (simp add: boot_data_def)
  show ?thesis
  proof (cases "sz = 0")
    case True
    then show ?thesis using sets_same [OF inv i(1) refl] i(2) by (auto simp: truncate_copy_boot_def)
  next
    case False
    obtain d h where m: "malloc (heap s) (entry_size s b) = (d, h)" by fastforce
    let ?t = "upd_file (s\<lparr>heap := h\<rparr>) i
      (\<lambda>f. f\<lparr>r_data := Some (boot_data s b), r_size := entry_size s b, r_capacity := entry_size s b\<rparr>)"
    have "sets s n (boot_data s b) ?t"
      by (rule sets_upd [OF inv i(1)]) (use f l b in \<open>auto simp: file_ok_def ram_bytes_def MAX_FILE_SIZE_def\<close>)
    moreover have "sets s n [] (upd_file (s\<lparr>heap := h\<rparr>) i (\<lambda>f. f\<lparr>r_data := None\<rparr>))"
      by (rule sets_upd [OF inv i(1)]) (use f i(3) in \<open>auto simp: file_ok_def ram_bytes_def\<close>)
    ultimately show ?thesis using False m by (cases d) (auto simp: truncate_copy_boot_def)
  qed
qed

text \<open>The bytes of a file after a write at an offset; behind the old end there may be a gap.\<close>

definition overwritten :: "u8 list \<Rightarrow> nat \<Rightarrow> u8 list \<Rightarrow> u8 list \<Rightarrow> bool" where
  "overwritten old off buf b \<longleftrightarrow>
     (\<exists>gap. length gap = off - length old \<and> b = take off old @ gap @ buf @ drop (off + length buf) old)"

lemma overwritten_exists: "\<exists>b. overwritten old off buf b"
  unfolding overwritten_def by (intro exI [of _ "replicate (off - length old) 0"] exI conjI) simp_all

lemma ram_write_at_lands:
  assumes "unifs_inv s" "find_ram_file s n = Some i" "off + length buf < 2 ^ 64"
  shows "\<exists>r t b. ram_write_at s i buf off = Returns (r, t) \<and> r \<in> {int (length buf), -1} \<and>
    overwritten (ram_bytes (file_at s i)) off buf b \<and> lands s n (r \<noteq> -1) b t"
proof -
  let ?old = "ram_bytes (file_at s i)"
  obtain t gap where "ram_write_at s i buf off = Returns (int (length buf), t) \<and>
      length gap = off - length ?old \<and> sets s n (take off ?old @ gap @ buf @ drop (off + length buf) ?old) t \<or>
    ram_write_at s i buf off = Returns (-1, t) \<and> sets s n ?old t"
    using ram_write_at_sets [OF assms] ram_file_facts(5) [OF assms(1,2)] by auto
  then consider b where "ram_write_at s i buf off = Returns (int (length buf), t)" "overwritten ?old off buf b" "lands s n True b t"
    | "ram_write_at s i buf off = Returns (-1, t)" "\<And>b. lands s n False b t"
    using lands_sets lands_same [OF _ contents_ram [OF assms(2)]] unfolding overwritten_def by metis
  then show ?thesis
  proof cases
    case 1
    then show ?thesis by auto
  next
    case 2
    then show ?thesis using overwritten_exists [of ?old off buf] by auto
  qed
qed

text \<open>A write to a boot file: the file is copied into a fresh RAM file first.\<close>

lemma copy_then_write_lands:
  assumes inv: "unifs_inv s" and b: "boot_small s" and n: "find_ram_file s n = None" "find_boot_entry s n = Some e"
    and c: "unifs_create s n = (UOk, s1)" and z: "off + length buf < 2 ^ 64"
  shows "\<exists>i r t bs. find_ram_file s1 n = Some i \<and>
    (case write_copy_boot s1 i e of (False, s2) \<Rightarrow> Returns (-1, s2)
     | (True, s2) \<Rightarrow> ram_write_at s2 i buf off) = Returns (r, t) \<and>
    r \<in> {int (length buf), -1} \<and> overwritten (boot_data s e) off buf bs \<and> lands s n (r \<noteq> -1) bs t"
proof -
  note e = boot_entry_facts [OF b n(2)]
  from created [OF inv c] obtain i where s1: "unifs_inv s1" "contents s1 = (contents s)(n \<mapsto> [])"
    "same_boot s s1" "find_ram_file s1 n = Some i" "ram_bytes (file_at s1 i) = []"
    by metis
  obtain ok s2 where s2: "write_copy_boot s1 i e = (ok, s2)" "sets s1 n (if ok then boot_data s e else []) s2"
    using write_copy_boot_sets [OF s1(1,4,5), of e] e(1) unfolding same_boot_simps [OF s1(3)] by auto
  have s2': "unifs_inv s2" "same_boot s s2" "find_ram_file s2 n = Some i"
    "contents s2 = (contents s)(n \<mapsto> if ok then boot_data s e else [])"
    using s2(2) s1 by (auto simp: sets_def intro: same_boot_trans)
  show ?thesis
  proof (cases ok)
    case False
    then have "lands s n False bs s2" for bs using s2' by (simp add: lands_def)
    then show ?thesis using s1(4) s2(1) False overwritten_exists [of "boot_data s e" off buf] by auto
  next
    case True
    then have r: "ram_bytes (file_at s2 i) = boot_data s e" using contents_ram [OF s2'(3)] s2'(4) by simp
    obtain r t b where w: "ram_write_at s2 i buf off = Returns (r, t)" "r \<in> {int (length buf), -1}"
      "overwritten (boot_data s e) off buf b" "lands s2 n (r \<noteq> -1) b t"
      using ram_write_at_lands [OF s2'(1,3) z] r by auto
    have "lands s n (r \<noteq> -1) b t"
      using lands_after [OF s2'(4,2) _ w(4)] e(3) [OF n(1)] True by simp
    then show ?thesis using s1(4) s2(1) True w by auto
  qed
qed

definition write_spec :: "(u8 list \<Rightarrow> u8 list option) \<Rightarrow> u8 list \<Rightarrow> u8 list \<Rightarrow> nat \<Rightarrow> bool \<Rightarrow> u8 list \<Rightarrow> bool" where
  "write_spec c n buf off fd b \<longleftrightarrow>
     (if off = 0 \<and> fd then b = buf
      else case c n of None \<Rightarrow> b = buf | Some old \<Rightarrow> overwritten old off buf b)"

lemma unifs_vfs_write_lands:
  assumes inv: "unifs_inv s" and b: "boot_small s" and node: "\<not> n_is_dir node" "node_name node = n"
    and z: "length buf < 2 ^ 63" "off < 2 ^ 63" "buf \<noteq> []"
  shows "\<exists>r t bs. unifs_vfs_write is_open s node buf off fd = Returns (r, t) \<and> r \<in> {int (length buf), -1} \<and>
    write_spec (contents s) n buf off fd bs \<and> lands s n (r \<noteq> -1) bs t"
proof (cases "off = 0 \<and> fd")
  case True
  obtain err t where "unifs_write is_open s n (Some buf) (length buf) = Returns (err, t)" "lands s n (err = UOk) buf t"
    using unifs_write_lands [OF inv refl] by blast
  then show ?thesis using True node by (auto simp: unifs_vfs_write_def Let_def write_spec_def)
next
  case False
  have zz: "off + length buf < 2 ^ 64" using z by simp
  have sp: "write_spec (contents s) n buf off fd =
      (case contents s n of None \<Rightarrow> \<lambda>b. b = buf | Some old \<Rightarrow> overwritten old off buf)"
    using False by (auto simp: write_spec_def fun_eq_iff split: option.split)
  have ex: "\<exists>bs. write_spec (contents s) n buf off fd bs"
    unfolding sp by (cases "contents s n") (auto simp: overwritten_exists)
  show ?thesis
  proof (cases "fd \<and> is_open n")
    case True
    then show ?thesis using False node lands_unchanged [OF inv] ex by (auto simp: unifs_vfs_write_def Let_def)
  next
    case closed: False
    note start = False closed node
    consider (ram) i where "find_ram_file s n = Some i"
      | (fresh) "find_ram_file s n = None" "find_boot_entry s n = None"
      | (boot) e where "find_ram_file s n = None" "find_boot_entry s n = Some e" by (metis option.exhaust)
    then show ?thesis
    proof cases
      case ram
      then show ?thesis
        using ram_write_at_lands [OF inv ram zz] start contents_ram [OF ram] sp
        by (auto simp: unifs_vfs_write_def Let_def)
    next
      case fresh
      have n: "contents s n = None" "appended_to s n = []"
        using fresh by (auto simp: contents_eq boot_contents_def appended_to_def)
      obtain err t where "unifs_append is_open s n buf = Returns (err, t)" "lands s n (err = UOk) buf t"
        using unifs_append_lands [OF inv b z(1,3), of is_open n] n(2) by auto
      then show ?thesis using start fresh n(1) sp by (auto simp: unifs_vfs_write_def Let_def)
    next
      case boot
      obtain err s1 where c: "unifs_create s n = (err, s1)" by fastforce
      show ?thesis
      proof (cases "err = UOk")
        case True
        then show ?thesis
          using copy_then_write_lands [OF inv b boot _ zz] c start boot boot_entry_facts(3) [OF b boot(2,1)] sp
          by (auto simp: unifs_vfs_write_def Let_def)
      next
        case no: False
        then have "unifs_vfs_write is_open s node buf off fd = Returns (-1, s)"
          using start boot c unifs_create_result [OF inv c]
          by (auto simp: unifs_vfs_write_def Let_def split: UnifsError.split)
        then show ?thesis using ex lands_unchanged [OF inv] by auto
      qed
    qed
  qed
qed


definition truncated :: "u8 list \<Rightarrow> nat \<Rightarrow> u8 list \<Rightarrow> bool" where
  "truncated old sz b \<longleftrightarrow> (\<exists>gap. length gap = sz - length old \<and> b = take sz old @ gap)"

lemma ram_truncate_lands:
  assumes inv: "unifs_inv s" and i: "find_ram_file s n = Some i" and z: "sz < 2 ^ 63"
  shows "\<exists>ok t. ram_truncate s i sz = Returns (ok, t) \<and>
    (\<exists>b. (ok \<longrightarrow> truncated (ram_bytes (file_at s i)) sz b) \<and> lands s n ok b t)"
proof -
  let ?old = "ram_bytes (file_at s i)"
  obtain t gap where "ram_truncate s i sz = Returns (True, t) \<and> length gap = sz - length ?old \<and>
      sets s n (take sz ?old @ gap) t \<or> ram_truncate s i sz = Returns (False, t) \<and> sets s n ?old t"
    using ram_truncate_sets [OF inv i z] ram_file_facts(5) [OF inv i] by auto
  then show ?thesis
    using lands_sets lands_same [OF _ contents_ram [OF i]] unfolding truncated_def by metis
qed

lemma unifs_vfs_truncate_lands:
  assumes inv: "unifs_inv s" and b: "boot_small s" and node: "\<not> n_is_dir node" "node_name node = n"
    and z: "sz < 2 ^ 63"
  shows "\<exists>r node' t bs. unifs_vfs_truncate is_open s node sz = Returns (r, node', t) \<and> r \<in> {0, -1} \<and>
    (r = 0 \<longrightarrow> (\<exists>old. contents s n = Some old \<and> truncated old sz bs)) \<and> lands s n (r = 0) bs t"
proof -
  consider (ram) i where "find_ram_file s n = Some i"
    | (none) "find_ram_file s n = None" "find_boot_entry s n = None"
    | (full) e err s1 where "find_ram_file s n = None" "find_boot_entry s n = Some e" "unifs_create s n = (err, s1)" "err \<noteq> UOk"
    | (boot) e s1 where "find_ram_file s n = None" "find_boot_entry s n = Some e" "unifs_create s n = (UOk, s1)"
    by (metis option.exhaust surj_pair)
  then show ?thesis
  proof cases
    case ram
    obtain ok t bs where w: "ram_truncate s i sz = Returns (ok, t)"
      "ok \<longrightarrow> truncated (ram_bytes (file_at s i)) sz bs" "lands s n ok bs t"
      using ram_truncate_lands [OF inv ram z] by auto
    show ?thesis
      using w(2,3)
      by (cases "is_open n"; cases ok)
        (auto simp: unifs_vfs_truncate_def Let_def node ram w(1) contents_ram [OF ram] intro: lands_unchanged [OF inv])
  next
    case none
    then show ?thesis using node lands_unchanged [OF inv] by (auto simp: unifs_vfs_truncate_def Let_def)
  next
    case full
    then have "unifs_vfs_truncate is_open s node sz = Returns (-1, node, s)"
      using node unifs_create_result [OF inv full(3)]
      by (auto simp: unifs_vfs_truncate_def Let_def split: UnifsError.split)
    then show ?thesis using lands_unchanged [OF inv] by auto
  next
    case boot
    note e = boot_entry_facts [OF b boot(2)]
    from created [OF inv boot(3)] obtain i where s1: "unifs_inv s1" "contents s1 = (contents s)(n \<mapsto> [])"
      "same_boot s s1" "find_ram_file s1 n = Some i" "ram_bytes (file_at s1 i) = []" "r_capacity (file_at s1 i) = 0"
      by metis
    obtain ok s2 where s2: "truncate_copy_boot s1 i e sz = (ok, s2)"
      "sets s1 n (if ok \<and> sz > 0 then boot_data s e else []) s2"
      using truncate_copy_boot_sets [OF s1(1,4-6), of e sz] e(1) unfolding same_boot_simps [OF s1(3)] by auto
    let ?c = "if ok \<and> sz > 0 then boot_data s e else []"
    have s2': "unifs_inv s2" "same_boot s s2" "find_ram_file s2 n = Some i" "contents s2 = (contents s)(n \<mapsto> ?c)"
      using s2(2) s1 by (auto simp: sets_def intro: same_boot_trans)
    have c: "?c = [] \<or> contents s n = Some ?c" using e(3) [OF boot(1)] by simp
    then have l: "lands s n False bs s2" for bs using s2' by (auto simp: lands_def fun_upd_idem)
    have r: "ram_bytes (file_at s2 i) = ?c" using contents_ram [OF s2'(3)] s2'(4) by simp
    have t: "unifs_vfs_truncate is_open s node sz =
        (if \<not> ok \<or> is_open n then Returns (-1, node, s2)
         else obind (ram_truncate s2 i sz) (\<lambda>(ok, s).
           if ok then Returns (0, node\<lparr>n_size := sz\<rparr>, s) else Returns (-1, node, s)))"
      using node boot s1(4) s2(1) by (cases ok) (auto simp: unifs_vfs_truncate_def Let_def)
    show ?thesis
    proof (cases "\<not> ok \<or> is_open n")
      case True
      then show ?thesis using t l by auto
    next
      case False
      obtain ok' t' bs where w: "ram_truncate s2 i sz = Returns (ok', t')" "ok' \<longrightarrow> truncated ?c sz bs" "lands s2 n ok' bs t'"
        using ram_truncate_lands [OF s2'(1,3) z] r by auto
      have "lands s n ok' bs t'" using lands_after [OF s2'(4,2) c w(3)] .
      moreover have "truncated (boot_data s e) sz bs" if ok'
        using that w(2) False e(2) by (cases "sz = 0") (auto simp: truncated_def)
      ultimately show ?thesis using t w(1) False e(3) [OF boot(1)] by (cases ok') auto
    qed
  qed
qed

lemma lands_parts:
  "lands s n ok b t \<Longrightarrow> unifs_inv t \<and> boot_contents t = boot_contents s \<and>
    (if ok then contents t = (contents s)(n \<mapsto> b) else contents t = contents s \<or> contents t = (contents s)(n \<mapsto> []))"
  using same_boot_simps(4) [of s t] by (simp add: lands_def)

section \<open>Refinement\<close>

datatype fs_op =
    OCreate "u8 list"
  | OWrite "u8 list" "u8 list"
  | OAppend "u8 list" "u8 list"
  | OWriteAt "u8 list" "u8 list" nat bool
  | OTruncate "u8 list" nat
  | ODelete "u8 list"

definition file_node :: "u8 list \<Rightarrow> VNode" where
  "file_node n = \<lparr>n_inode_id = 0, n_size = 0, n_uid = 0, n_mode = VFS_DEFAULT_FILE_MODE, n_is_dir = False,
     n_ops = unifs_file_ops, n_fs_data = Some n, n_ref_count = 1\<rparr>"

fun do_op :: "(u8 list \<Rightarrow> bool) \<Rightarrow> unifs \<Rightarrow> fs_op \<Rightarrow> (bool \<times> unifs) outcome" where
  "do_op is_open s (OCreate n) = (case unifs_create s n of (err, t) \<Rightarrow> Returns (err = UOk, t))"
| "do_op is_open s (OWrite n bs) =
     obind (unifs_write is_open s n (Some bs) (length bs)) (\<lambda>(err, t). Returns (err = UOk, t))"
| "do_op is_open s (OAppend n bs) = obind (unifs_append is_open s n bs) (\<lambda>(err, t). Returns (err = UOk, t))"
| "do_op is_open s (OWriteAt n bs off fd) =
     obind (unifs_vfs_write is_open s (file_node n) bs off fd) (\<lambda>(r, t). Returns (r \<noteq> -1, t))"
| "do_op is_open s (OTruncate n sz) =
     obind (unifs_vfs_truncate is_open s (file_node n) sz) (\<lambda>(r, _, t). Returns (r = 0, t))"
| "do_op is_open s (ODelete n) = (case unifs_delete is_open s n of (err, t) \<Rightarrow> Returns (err = UOk, t))"

text \<open>
  Sizes and offsets below \<open>2 ^ 63\<close>; data to append or to write at an offset is not empty; and the copy of
  a boot file that is appended to gets its memory.
\<close>

fun op_ok :: "unifs \<Rightarrow> fs_op \<Rightarrow> bool" where
  "op_ok s (OAppend n bs) \<longleftrightarrow> bs \<noteq> [] \<and> length bs < 2 ^ 63 \<and> (find_ram_file s n \<noteq> None \<or> \<not> no_room s)"
| "op_ok s (OWriteAt n bs off fd) \<longleftrightarrow> bs \<noteq> [] \<and> length bs < 2 ^ 63 \<and> off < 2 ^ 63"
| "op_ok s (OTruncate n sz) \<longleftrightarrow> sz < 2 ^ 63"
| "op_ok s _ \<longleftrightarrow> True"

text \<open>
  The abstract file system: \<open>op_spec op boot c ok c'\<close> says how the operation may change the map \<open>c\<close>, where
  \<open>boot\<close> are the files of the boot image.
\<close>

type_synonym fs_map = "u8 list \<Rightarrow> u8 list option"

definition failed :: "fs_map \<Rightarrow> u8 list \<Rightarrow> fs_map \<Rightarrow> bool" where
  "failed c n c' \<longleftrightarrow> c' = c \<or> c' = c(n \<mapsto> [])"

fun op_spec :: "fs_op \<Rightarrow> fs_map \<Rightarrow> fs_map \<Rightarrow> bool \<Rightarrow> fs_map \<Rightarrow> bool" where
  "op_spec (OCreate n) boot c ok c' \<longleftrightarrow> c' = (if ok then c(n \<mapsto> []) else c)"
| "op_spec (OWrite n bs) boot c ok c' \<longleftrightarrow> (if ok then c' = c(n \<mapsto> bs) else failed c n c')"
| "op_spec (OAppend n bs) boot c ok c' \<longleftrightarrow>
     (if ok then c' = c(n \<mapsto> (case c n of None \<Rightarrow> bs | Some old \<Rightarrow> old @ bs)) else failed c n c')"
| "op_spec (OWriteAt n bs off fd) boot c ok c' \<longleftrightarrow>
     (if ok then \<exists>b. write_spec c n bs off fd b \<and> c' = c(n \<mapsto> b) else failed c n c')"
| "op_spec (OTruncate n sz) boot c ok c' \<longleftrightarrow>
     (if ok then \<exists>old b. c n = Some old \<and> truncated old sz b \<and> c' = c(n \<mapsto> b) else failed c n c')"
| "op_spec (ODelete n) boot c ok c' \<longleftrightarrow> c' = (if ok then c(n := boot n) else c)"

text \<open>
  C1.  UniFS refines a map from names to bytes, for the creation, writing, appending to and deletion of a file
  and for writing at an offset and truncation through its node (renaming is treated below).  From every state
  that satisfies the invariant the operation returns (no copy leaves its buffer), keeps the invariant and the
  boot files, and changes the files as the abstract operation does: a write replaces the bytes, an append
  extends them, a write at an offset overwrites from there on, a truncation cuts or extends, a deletion
  uncovers the boot file, and all other files keep their bytes.  When an operation fails, no other file has
  changed, and the file itself is as before or empty.  The premises besides the invariant: no file of the boot
  image is larger than \<open>MAX_FILE_SIZE\<close> (the copy of a larger one does leave its buffer); what is appended or
  written at an offset is not empty, and sizes and offsets are below \<open>2 ^ 63\<close>; and when the file that is
  appended to is not yet a RAM file, the next request for memory is granted (without memory for the copy of
  a boot file the append goes on with an empty file).
\<close>

theorem unifs_refines_map:
  assumes "unifs_inv s" "boot_small s" "op_ok s op"
  shows "\<exists>ok t. do_op is_open s op = Returns (ok, t) \<and> unifs_inv t \<and> boot_contents t = boot_contents s \<and>
    op_spec op (boot_contents s) (contents s) ok (contents t)"
proof -
  have node: "\<not> n_is_dir (file_node n)" "node_name (file_node n) = n" for n
    by (simp_all add: file_node_def node_name_def)
  show ?thesis
  proof (cases op)
    case (OCreate n)
    obtain err t where "unifs_create s n = (err, t)" by fastforce
    then show ?thesis
      using OCreate unifs_create_result [OF assms(1), of n err t] assms(1) same_boot_simps(4) [of s t] by auto
  next
    case (OWrite n bs)
    obtain err t where "unifs_write is_open s n (Some bs) (length bs) = Returns (err, t)" "lands s n (err = UOk) bs t"
      using unifs_write_lands [OF assms(1) refl] by blast
    then show ?thesis using OWrite by (auto dest!: lands_parts simp: failed_def)
  next
    case (OAppend n bs)
    then have "appended_to s n @ bs = (case contents s n of None \<Rightarrow> bs | Some old \<Rightarrow> old @ bs)"
      using assms(3) by (auto simp: appended_to_def split: option.split)
    moreover obtain err t where "unifs_append is_open s n bs = Returns (err, t)"
      "lands s n (err = UOk) (appended_to s n @ bs) t"
      using OAppend assms(3) unifs_append_lands [OF assms(1,2), of bs is_open n] by auto
    ultimately show ?thesis using OAppend by (auto dest!: lands_parts simp: failed_def)
  next
    case (OWriteAt n bs off fd)
    then obtain r t b where "unifs_vfs_write is_open s (file_node n) bs off fd = Returns (r, t)"
      "write_spec (contents s) n bs off fd b" "lands s n (r \<noteq> -1) b t"
      using unifs_vfs_write_lands [OF assms(1,2) node] assms(3) by (metis op_ok.simps(2))
    then show ?thesis using OWriteAt by (auto dest!: lands_parts simp: failed_def)
  next
    case (OTruncate n sz)
    then obtain r node' t b where "unifs_vfs_truncate is_open s (file_node n) sz = Returns (r, node', t)"
      "r = 0 \<longrightarrow> (\<exists>old. contents s n = Some old \<and> truncated old sz b)" "lands s n (r = 0) b t"
      using unifs_vfs_truncate_lands [OF assms(1,2) node] assms(3) by (metis op_ok.simps(3))
    then show ?thesis using OTruncate by (auto dest!: lands_parts simp: failed_def)
  next
    case (ODelete n)
    obtain err t where "unifs_delete is_open s n = (err, t)" by fastforce
    then show ?thesis
      using ODelete unifs_delete_result [OF assms(1), of is_open n err t] same_boot_simps(4) [of s t] by auto
  qed
qed


text \<open>An example: no boot image, one RAM file \<open>a\<close> with the bytes 7, 8, 9.\<close>

definition empty_file :: RAMFile where
  "empty_file = \<lparr>r_name = [], r_data = None, r_size = 0, r_capacity = 0, r_used = False\<rparr>"

definition demo_file :: RAMFile where
  "demo_file = \<lparr>r_name = [0x61], r_data = Some [7, 8, 9], r_size = 3, r_capacity = 3, r_used = True\<rparr>"

definition demo_fs :: unifs where
  "demo_fs = \<lparr>fs_image = [], mounted = False, ram_files = demo_file # replicate 63 empty_file, ram_file_count = 1,
     heap = [Some (\<lambda>_. 0), Some (\<lambda>_. 0), None]\<rparr>"

lemma demo_used: "i < 64 \<Longrightarrow> r_used (file_at demo_fs i) \<longleftrightarrow> i = 0"
  by (cases i) (auto simp: demo_fs_def demo_file_def empty_file_def)

lemma demo_fs_inv: "unifs_inv demo_fs" "boot_small demo_fs"
proof -
  have "file_ok (file_at demo_fs 0)" by (simp add: demo_fs_def demo_file_def file_ok_def MAX_FILENAME_def)
  then show "unifs_inv demo_fs" using demo_used by (auto simp: unifs_inv_def MAX_FILES_def) (simp add: demo_fs_def)
  show "boot_small demo_fs" by (simp add: boot_small_def demo_fs_def boot_file_count_def)
qed

lemma demo_fs_files:
  "find_ram_file demo_fs [0x61] = Some 0" "find_ram_file demo_fs [0x62] = None" "contents demo_fs [0x61] = Some [7, 8, 9]"
  "find_free_slot demo_fs = Some 1" "boot_contents demo_fs n = None"
proof -
  show "find_ram_file demo_fs [0x61] = Some 0"
    by (simp add: find_ram_file_def demo_fs_def demo_file_def)
  then show "contents demo_fs [0x61] = Some [7, 8, 9]"
    by (simp add: contents_eq ram_bytes_def) (simp add: demo_fs_def demo_file_def)
  show "find_ram_file demo_fs [0x62] = None"
    unfolding find_ram_file_None [OF demo_fs_inv(1)] MAX_FILES_def using demo_used by (auto simp: demo_fs_def demo_file_def)
  show "find_free_slot demo_fs = Some 1"
    by (simp add: find_free_slot_def demo_fs_def demo_file_def empty_file_def numeral_eq_Suc)
  show "boot_contents demo_fs n = None" by (simp add: boot_contents_def find_boot_entry_def demo_fs_def)
qed

theorem unifs_refines_map_witness:
  "unifs_inv demo_fs \<and> boot_small demo_fs \<and> op_ok demo_fs (OAppend [0x61] [1]) \<and>
   (\<exists>ok t. do_op (\<lambda>_. False) demo_fs (OAppend [0x61] [1]) = Returns (ok, t) \<and> unifs_inv t \<and>
     (ok \<longrightarrow> contents t [0x61] = Some [7, 8, 9, 1]))"
proof -
  have o: "op_ok demo_fs (OAppend [0x61] [1])" by (simp add: demo_fs_files)
  from unifs_refines_map [OF demo_fs_inv o, of "\<lambda>_. False"] o demo_fs_inv demo_fs_files(3) show ?thesis
    by (auto split: if_splits)
qed

section \<open>Renaming\<close>

lemma cstr_path_copy: "0 \<notin> set p \<Longrightarrow> length p < 255 \<Longrightarrow> cstr (path_copy p) = p"
  unfolding path_copy_def by (subst cstr_strncpy) (simp_all add: cstr_id)

lemma length_path_copy: "length (path_copy p) = 256"
  by (simp add: path_copy_def length_strncpy)

lemma cstr_path_cat:
  assumes "cstr path = p" "length path = 256" "0 \<notin> set n" "length p + length n \<le> 255"
  shows "cstr (path_cat path n) = p @ n"
  unfolding path_cat_def using assms by (subst cstr_strncat) (simp_all add: strlen_cstr cstr_id)

lemma cstr_path_in:
  assumes "0 \<notin> set (node_name dir)" "0 \<notin> set n" "length (node_name dir) + length n \<le> 255" "length (node_name dir) < 255"
  shows "cstr (path_in dir n) = node_name dir @ n"
  unfolding path_in_def using assms by (simp add: cstr_path_cat cstr_path_copy length_path_copy)

lemma unifs_create_succeeds:
  assumes "n \<noteq> []" "length n \<le> MAX_FILENAME" "find_ram_file s n = None" "find_free_slot s \<noteq> None"
  shows "\<exists>t. unifs_create s n = (UOk, t)"
  using assms by (auto simp: unifs_create_def)

definition used_count :: "unifs \<Rightarrow> nat" where
  "used_count s = length (filter r_used (ram_files s))"

lemma used_count_upd:
  assumes "i < length (ram_files s)"
  shows "used_count (upd_file s i f) + (if r_used (file_at s i) then 1 else 0) =
    used_count s + (if r_used (f (file_at s i)) then 1 else 0)"
  using filter_update_count [OF assms, of r_used "f (file_at s i)"] by (simp add: used_count_def)

lemma unifs_create_counts:
  assumes "unifs_inv s" "unifs_create s n = (UOk, t)"
  shows "ram_file_count t = wrap64 (ram_file_count s + 1)" "used_count t = used_count s + 1"
proof -
  from assms(2) obtain i where i: "find_free_slot s = Some i"
    and t: "t = upd_file (s\<lparr>ram_file_count := wrap64 (ram_file_count s + 1)\<rparr>) i
      (\<lambda>f. f\<lparr>r_name := take MAX_FILENAME n, r_data := None, r_size := 0, r_capacity := 0, r_used := True\<rparr>)"
    by (auto simp: unifs_create_def split: if_splits option.splits)
  have i': "i < length (ram_files s)" "\<not> r_used (file_at s i)" using i by (auto simp: find_free_slot_def find_idx_Some)
  show "ram_file_count t = wrap64 (ram_file_count s + 1)" by (simp add: t upd_file_def)
  show "used_count t = used_count s + 1"
    using filter_update_count [OF i'(1), of r_used] i'(2) by (simp add: t used_count_def)
qed

text \<open>
  C33.  Renaming a RAM file to a name no RAM file has moves its bytes: afterwards the new name has them, the
  old name has what the boot image has there, no other file has changed and as many slots are in use
  as before.  The count of RAM files, however, is one higher than before, since the code clears the old
  slot itself and \<open>unifs_delete\<close> then does not find it.
\<close>

theorem unifs_rename_moves:
  assumes inv: "unifs_inv s"
    and paths: "cstr (path_in old_dir old_name) = old" "cstr (path_in new_dir new_name) = new"
    and old: "contents s old = Some b" "find_ram_file s old \<noteq> None"
    and new: "new \<noteq> []" "length new \<le> 63" "find_ram_file s new = None" "find_free_slot s \<noteq> None"
  shows "\<exists>t. unifs_vfs_rename is_open s old_dir old_name new_dir new_name = Returns (0, t) \<and> unifs_inv t \<and>
    contents t = (contents s)(new \<mapsto> b, old := boot_contents s old) \<and> used_count t = used_count s \<and>
    ram_file_count t = wrap64 (ram_file_count s + 1)"
proof -
  obtain s1 where c: "unifs_create s new = (UOk, s1)"
    using unifs_create_succeeds [of new s] new by (auto simp: MAX_FILENAME_def)
  have ne: "old \<noteq> new" using old(2) new(3) by auto
  obtain i where i: "find_ram_file s old = Some i" using old(2) by auto
  obtain j where s1: "unifs_inv s1" "contents s1 = (contents s)(new \<mapsto> [])" "same_boot s s1"
    "find_ram_file s1 = (find_ram_file s)(new \<mapsto> j)"
    using unifs_create_result [OF inv c] by auto
  have i1: "find_ram_file s1 old = Some i" "find_ram_file s1 new = Some j" using s1(4) i ne by auto
  have o: "ram_bytes (file_at s1 i) = b"
    using contents_ram [OF i1(1)] s1(2) old(1) ne by simp
  note fi = ram_file_facts [OF s1(1) i1(1)] and fj = ram_file_facts [OF s1(1) i1(2)]
  have ij: "i \<noteq> j" using fi(2) fj(2) ne by auto
  let ?f = "\<lambda>f. f\<lparr>r_data := r_data (file_at s1 i), r_size := r_size (file_at s1 i), r_capacity := r_capacity (file_at s1 i)\<rparr>"
  let ?g = "\<lambda>f. f\<lparr>r_data := None, r_used := False\<rparr>"
  let ?s2 = "upd_file s1 j ?f"
  let ?t = "upd_file ?s2 i ?g"
  have rb: "ram_bytes (?f (file_at s1 j)) = b" using o by (simp add: ram_bytes_def split: option.splits)
  have fok: "r_used (?f (file_at s1 j))" "r_name (?f (file_at s1 j)) = new" "file_ok (?f (file_at s1 j))"
    using fi(3) fj by (auto simp: file_ok_def)
  note s2 = upd_file_contents [OF s1(1) i1(2), of ?f, OF fok, unfolded rb]
  have i2: "find_ram_file ?s2 old = Some i" using s2(3) i1(1) by simp
  have t: "unifs_inv ?t" "contents ?t = (contents ?s2)(old := boot_contents ?s2 old)"
    "find_ram_file ?t = (find_ram_file ?s2)(old := None)"
    using drop_file_contents [OF s2(1) i2, of ?g] by simp_all
  have b: "boot_contents ?s2 = boot_contents s" using s1(3) by (intro same_boot_simps(4)) (simp add: same_boot_def upd_file_def)
  have u: "used_count ?t = used_count s" "ram_file_count ?t = wrap64 (ram_file_count s + 1)"
    using unifs_create_counts [OF inv c] used_count_upd [of j s1 ?f] used_count_upd [of i ?s2 ?g] fi fj ij
    by (auto simp: upd_file_def)
  have d: "snd (unifs_delete is_open ?t old) = ?t" using t(3) by (simp add: unifs_delete_def)
  have e: "unifs_file_exists s old" "unifs_delete is_open s new = (if find_boot_entry s new = None then NotFound else UOk, s)"
    using i new(3) by (auto simp: unifs_file_exists_def unifs_delete_def)
  have "unifs_vfs_rename is_open s old_dir old_name new_dir new_name = Returns (0, snd (unifs_delete is_open ?t old))"
    unfolding unifs_vfs_rename_def Let_def paths
    using e c i1 new(3) by (auto simp: unifs_file_exists_def)
  then show ?thesis using d t(1,2) u b s2(2) s1(2) by (auto simp: fun_upd_twist)
qed

theorem unifs_rename_moves_witness:
  "\<exists>t. unifs_vfs_rename (\<lambda>_. False) demo_fs ((file_node [])\<lparr>n_is_dir := True\<rparr>) [0x61]
      ((file_node [])\<lparr>n_is_dir := True\<rparr>) [0x62] = Returns (0, t) \<and>
    contents t [0x62] = Some [7, 8, 9] \<and> contents t [0x61] = None \<and> used_count t = 1 \<and> ram_file_count t = 2"
proof -
  let ?d = "(file_node [])\<lparr>n_is_dir := True\<rparr>"
  have p: "cstr (path_in ?d n) = n" if "0 \<notin> set n" "length n \<le> 255" for n
    using cstr_path_in [of ?d n] that by (simp add: file_node_def node_name_def)
  have c: "used_count demo_fs = 1" "ram_file_count demo_fs = 1"
    by (simp_all add: used_count_def demo_fs_def demo_file_def empty_file_def)
  show ?thesis
    using unifs_rename_moves [OF demo_fs_inv(1) p p demo_fs_files(3), of "[0x62]" "\<lambda>_. False"] demo_fs_files c by auto
qed

text \<open>
  C34.  Renaming a RAM file to its own name destroys it: the code deletes the destination before it looks
  for the source again, so the call returns success and the bytes are gone.
\<close>

theorem unifs_rename_self_deletes:
  assumes inv: "unifs_inv s" and path: "cstr (path_in dir name) = n"
    and ram: "find_ram_file s n \<noteq> None" and closed: "\<not> is_open n"
  shows "\<exists>t. unifs_vfs_rename is_open s dir name dir name = Returns (0, t) \<and>
    contents t = (contents s)(n := boot_contents s n)"
proof -
  obtain i where i: "find_ram_file s n = Some i" using ram by auto
  note f = ram_file_facts [OF inv i]
  obtain err s1 where d: "unifs_delete is_open s n = (err, s1)" by fastforce
  have err: "err = UOk" and s1e: "ram_files s1 ! i = (file_at s i)\<lparr>r_data := None, r_size := 0, r_capacity := 0, r_used := False, r_name := []\<rparr>"
    using d i f closed by (auto simp: unifs_delete_def)
  then have s1: "unifs_inv s1" "same_boot s s1" "contents s1 = (contents s)(n := boot_contents s n)"
    "find_ram_file s1 n = None" using unifs_delete_result [OF inv d] by auto
  have "\<not> r_used (file_at s1 i)" "i < length (ram_files s1)"
    using s1e s1(1) inv f(4) by (auto simp: unifs_inv_def)
  then have "find_free_slot s1 \<noteq> None" by (metis find_free_slot_def find_idx_None nth_mem)
  then obtain s2 where c: "unifs_create s1 n = (UOk, s2)"
    using unifs_create_succeeds [of n s1] s1(4) f(2,3) by (auto simp: file_ok_def)
  then obtain j where s2: "unifs_inv s2" "contents s2 = (contents s1)(n \<mapsto> [])" "same_boot s1 s2"
    "find_ram_file s2 n = Some j" using created [OF s1(1)] by metis
  let ?g = "\<lambda>f. f\<lparr>r_data := None, r_used := False\<rparr>"
  let ?h = "\<lambda>f. f\<lparr>r_data := r_data (file_at s2 j), r_size := r_size (file_at s2 j), r_capacity := r_capacity (file_at s2 j)\<rparr>"
  let ?t = "upd_file (upd_file s2 j ?h) j ?g"
  have j: "j < length (ram_files s2)" using ram_file_facts [OF s2(1,4)] by simp
  have same: "upd_file s2 j ?h = s2" using j by (simp add: upd_file_def)
  have t: "contents ?t = (contents s2)(n := boot_contents s2 n)" "find_ram_file ?t n = None"
    unfolding same using drop_file_contents [OF s2(1,4), of ?g] by simp_all
  have b: "boot_contents s2 = boot_contents s" using same_boot_trans [OF s1(2) s2(3)] by (rule same_boot_simps(4))
  have del: "snd (unifs_delete is_open ?t n) = ?t" using t(2) by (simp add: unifs_delete_def)
  have "unifs_vfs_rename is_open s dir name dir name = Returns (0, snd (unifs_delete is_open ?t n))"
    unfolding unifs_vfs_rename_def Let_def path
    using i d err c s2(4) by (simp add: unifs_file_exists_def)
  then show ?thesis using del t b s2(2) s1(3) by auto
qed

theorem unifs_rename_self_deletes_witness:
  "\<exists>t. unifs_vfs_rename (\<lambda>_. False) demo_fs ((file_node [])\<lparr>n_is_dir := True\<rparr>) [0x61]
      ((file_node [])\<lparr>n_is_dir := True\<rparr>) [0x61] = Returns (0, t) \<and> contents demo_fs [0x61] = Some [7, 8, 9] \<and>
    contents t [0x61] = None"
proof -
  let ?d = "(file_node [])\<lparr>n_is_dir := True\<rparr>"
  have p: "cstr (path_in ?d [0x61]) = [0x61]"
    using cstr_path_in [of ?d "[0x61]"] by (simp add: file_node_def node_name_def)
  show ?thesis using unifs_rename_self_deletes [OF demo_fs_inv(1) p, of "\<lambda>_. False"] demo_fs_files by auto
qed

end
