(* ===== verification/Unifs_Dir.thy ===== *)
theory Unifs_Dir
  imports Unifs_Spec
begin

text \<open>
  Directory listings of the RAM file system.  A directory is a prefix of names; \<open>component\<close> is the entry
  of the directory that a name stands for.  \<open>unifs_vfs_readdir\<close>, with its search for duplicates among the
  earlier names, enumerates the set of these entries without repetition.
\<close>

definition component :: "u8 list \<Rightarrow> u8 list \<Rightarrow> u8 list option" where
  "component p n =
     (let e = skip_slash n; sub = drop (length p) e;
          c = takeWhile (\<lambda>x. x \<noteq> SLASH) (if p \<noteq> [] \<and> sub \<noteq> [] \<and> hd sub = SLASH then tl sub else sub)
      in if take (length p) e = p \<and> c \<noteq> [] then Some c else None)"

definition plain :: "u8 list \<Rightarrow> bool" where
  "plain n \<longleftrightarrow> 0 \<notin> set n \<and> length n \<le> 63"

lemma set_skip_slash: "set (skip_slash n) \<subseteq> set n" "length (skip_slash n) \<le> length n"
  by (cases n; simp add: skip_slash_def subset_insertI)+

lemma sub_len_takeWhile: "0 \<notin> set sub \<Longrightarrow> sub_len sub = length (takeWhile (\<lambda>x. x \<noteq> SLASH) sub)"
proof -
  assume z: "0 \<notin> set sub"
  have n: "SLASH \<noteq> 0" by (simp add: SLASH_def)
  show ?thesis
  proof (cases "strchr sub SLASH")
    case None
    then have "takeWhile (\<lambda>x. x \<noteq> SLASH) sub = sub"
      using z n by (auto simp: strchr_None cstr_id takeWhile_eq_all_conv)
    then have "length (takeWhile (\<lambda>x. x \<noteq> SLASH) sub) = length sub" by (rule arg_cong)
    then show ?thesis using None cstr_id [OF z] by (simp only: sub_len_def strlen_cstr option.case)
  next
    case (Some k)
    then have k: "k < length sub" "sub ! k = SLASH" "SLASH \<notin> set (take k sub)"
      using z n by (auto simp: strchr_Some cstr_id)
    have "takeWhile (\<lambda>x. x \<noteq> SLASH) sub = take k sub"
      using k by (intro takeWhile_eq_take_P_nth) (auto simp: in_set_conv_nth)
    then show ?thesis using Some k(1) by (simp add: sub_len_def)
  qed
qed

lemma dir_sub_plain:
  assumes "0 \<notin> set p" "plain n"
  shows "dir_sub p n = Some sub \<Longrightarrow> plain sub \<and> sub \<noteq> []"
    and "component p n = (case dir_sub p n of None \<Rightarrow> None
      | Some sub \<Rightarrow> if sub_len sub = 0 then None else Some (take (sub_len sub) sub))"
proof -
  let ?e = "skip_slash n"
  let ?s = "drop (length p) ?e"
  let ?t = "if p \<noteq> [] \<and> ?s \<noteq> [] \<and> hd ?s = SLASH then tl ?s else ?s"
  have e: "0 \<notin> set ?e" "length ?e \<le> 63" using assms(2) set_skip_slash [of n] by (auto simp: plain_def)
  have at: "at0 ?s = SLASH \<longleftrightarrow> ?s \<noteq> [] \<and> hd ?s = SLASH"
    by (cases ?s) (auto simp: at0_def SLASH_def)
  have pre: "strncmp ?e p (length p) = 0 \<longleftrightarrow> take (length p) ?e = p"
    using assms(1) e(1) by (simp add: strncmp_0 cstr_id)
  have d: "dir_sub p n = (if take (length p) ?e = p \<and> ?t \<noteq> [] then Some ?t else None)"
    unfolding dir_sub_def Let_def at using pre by (auto dest: arg_cong [where f = length])
  have "set (tl ?s) \<subseteq> set ?s" "set ?s \<subseteq> set ?e" by (cases ?s) (auto dest: in_set_dropD)
  then have t: "plain ?t" using e by (auto simp: plain_def)
  show "dir_sub p n = Some sub \<Longrightarrow> plain sub \<and> sub \<noteq> []" using d t by (auto split: if_splits)
  have "sub_len ?t = length (takeWhile (\<lambda>x. x \<noteq> SLASH) ?t)" using t by (intro sub_len_takeWhile) (simp add: plain_def)
  then show "component p n = (case dir_sub p n of None \<Rightarrow> None
      | Some sub \<Rightarrow> if sub_len sub = 0 then None else Some (take (sub_len sub) sub))"
    unfolding d component_def Let_def by (simp add: takeWhile_eq_take [symmetric])
qed

lemma sub_len_le: "plain sub \<Longrightarrow> sub_len sub \<le> 63"
  using length_takeWhile_le [of "\<lambda>x. x \<noteq> SLASH" sub] by (simp add: plain_def sub_len_takeWhile)

text \<open>The components of the names before the current one.\<close>

definition seen :: "u8 list \<Rightarrow> u8 list option list \<Rightarrow> u8 list set" where
  "seen p names = {c. \<exists>n. Some n \<in> set names \<and> component p n = Some c}"

lemma seen_simps [simp]:
  "seen p [] = {}" "seen p (names @ [None]) = seen p names"
  "seen p (names @ [Some n]) = seen p names \<union> set_option (component p n)"
  by (auto simp: seen_def)

lemma is_duplicate_seen:
  assumes "0 \<notin> set p" "\<forall>n. Some n \<in> set prev \<longrightarrow> plain n" "plain sub" "sub_len sub > 0"
  shows "is_duplicate p prev sub (sub_len sub) \<longleftrightarrow> take (sub_len sub) sub \<in> seen p prev"
  using assms(2)
proof (induction prev)
  case (Cons x prev)
  have IH: "is_duplicate p prev sub (sub_len sub) \<longleftrightarrow> take (sub_len sub) sub \<in> seen p prev"
    using Cons by simp
  show ?case
  proof (cases x)
    case None
    then show ?thesis using IH by (simp add: seen_def)
  next
    case (Some n)
    then have n: "plain n" using Cons.prems by simp
    have seen: "seen p (x # prev) = seen p prev \<union> set_option (component p n)" using Some by (auto simp: seen_def)
    note c = dir_sub_plain [OF assms(1) n]
    show ?thesis
    proof (cases "dir_sub p n")
      case None
      then show ?thesis using Some IH seen c(2) by simp
    next
      case (Some q)
      have q: "0 \<notin> set q" "0 \<notin> set sub" using c(1) [OF Some] assms(3) by (simp_all add: plain_def)
      have l: "sub_len q \<le> length q" using q(1) by (simp add: sub_len_takeWhile length_takeWhile_le)
      have l': "sub_len sub \<le> length sub" using q(2) by (simp add: sub_len_takeWhile length_takeWhile_le)
      have eq: "sub_len q = sub_len sub" if "take (sub_len q) q = take (sub_len sub) sub"
        using arg_cong [OF that, of length] l l' by simp
      have "(sub_len q = sub_len sub \<and> strncmp sub q (sub_len sub) = 0) \<longleftrightarrow> component p n = Some (take (sub_len sub) sub)"
        using Some c(2) q eq assms(4) by (auto simp: strncmp_0 cstr_id)
      then show ?thesis using \<open>x = Some n\<close> Some IH seen by auto
    qed
  qed
qed simp

text \<open>The entries that are not yet in \<open>S\<close>, each once, in the order in which they come.\<close>

fun fresh_entries :: "u8 list \<Rightarrow> u8 list set \<Rightarrow> u8 list option list \<Rightarrow> u8 list list" where
  "fresh_entries p S [] = []"
| "fresh_entries p S (None # names) = fresh_entries p S names"
| "fresh_entries p S (Some n # names) =
     (case component p n of
        None \<Rightarrow> fresh_entries p S names
      | Some c \<Rightarrow> if c \<in> S then fresh_entries p S names else c # fresh_entries p (insert c S) names)"

lemma fresh_entries_set: "set (fresh_entries p S names) = seen p names - S \<and> distinct (fresh_entries p S names)"
proof (induction p S names rule: fresh_entries.induct)
  case (2 p S names)
  then show ?case by (simp add: seen_def)
next
  case (3 p S n names)
  have "seen p (Some n # names) = set_option (component p n) \<union> seen p names" by (auto simp: seen_def)
  then show ?case using 3 by (cases "component p n") auto
qed simp

lemma readdir_loop_fresh:
  assumes "0 \<notin> set p" "\<forall>n. Some n \<in> set (prev @ rest) \<longrightarrow> plain n" "k \<le> index"
  shows "readdir_loop p prev rest k index =
    (let l = fresh_entries p (seen p prev) rest in if index - k < length l then Some (l ! (index - k)) else None)"
  using assms
proof (induction p prev rest k index rule: readdir_loop.induct)
  case (2 p prev rest k index)
  then show ?case by simp
next
  case (3 p prev n rest k index)
  have plain: "plain n" "\<forall>m. Some m \<in> set prev \<longrightarrow> plain m" using 3(4) by auto
  note c = dir_sub_plain [OF 3(3) plain(1)]
  have skip: "readdir_loop p (prev @ [Some n]) rest k index =
      (let l = fresh_entries p (seen p (prev @ [Some n])) rest in if index - k < length l then Some (l ! (index - k)) else None)"
    using 3(1) [OF 3(3) _ 3(5)] 3(4) by simp
  have none: "component p n = None \<Longrightarrow> ?case"
  proof -
    assume a: "component p n = None"
    then have "readdir_loop p prev (Some n # rest) k index = readdir_loop p (prev @ [Some n]) rest k index"
      using c(2) by (auto simp: Let_def split: option.splits if_splits)
    then show ?case using skip a by simp
  qed
  show ?case
  proof (cases "component p n")
    case (Some x)
    then obtain sub where s: "dir_sub p n = Some sub" "sub_len sub > 0" "x = take (sub_len sub) sub"
      using c(2) by (auto split: option.splits if_splits)
    have sub: "plain sub" "n \<noteq> []" using c(1) [OF s(1)] s(1) by (auto simp: dir_sub_def skip_slash_def split: if_splits)
    have l: "sub_len sub \<le> 63" by (rule sub_len_le [OF sub(1)])
    have d: "is_duplicate p prev sub (sub_len sub) \<longleftrightarrow> x \<in> seen p prev"
      using is_duplicate_seen [OF 3(3) plain(2) sub(1) s(2)] s(3) by simp
    have loop: "readdir_loop p prev (Some n # rest) k index =
        (if x \<in> seen p prev then readdir_loop p (prev @ [Some n]) rest k index
         else if k = index then Some x else readdir_loop p (prev @ [Some n]) rest (k + 1) index)"
      using s l sub(2) d by (simp add: Let_def)
    show ?thesis
    proof (cases "x \<in> seen p prev")
      case True
      then show ?thesis using loop skip Some by (simp add: insert_absorb)
    next
      case False
      show ?thesis
      proof (cases "k = index")
        case True
        then show ?thesis using loop False Some by simp
      next
        case less: False
        then have "readdir_loop p (prev @ [Some n]) rest (k + 1) index =
            (let l = fresh_entries p (seen p (prev @ [Some n])) rest in
             if index - (k + 1) < length l then Some (l ! (index - (k + 1))) else None)"
          using 3(2) [OF refl sub(2) s(1) refl _ refl _ _ 3(3)] s(2) l d False 3(4,5) by simp
        moreover have "index - k = Suc (index - (k + 1))" using less 3(5) by simp
        ultimately show ?thesis using loop False less Some by (simp add: Let_def)
      qed
    qed
  qed (rule none)
qed simp

text \<open>
  C19.  Reading a directory with index 0, 1, 2, \<dots> enumerates its entries: the first components, behind the
  prefix of the directory, of the names of all boot files and RAM files, each exactly once, and then
  fails.
\<close>

theorem unifs_readdir_enumerates:
  assumes "n_is_dir node" "0 \<notin> set (node_name node)" "\<forall>n. Some n \<in> set (all_names s) \<longrightarrow> plain n"
  shows "\<exists>entries. distinct entries \<and>
    set entries = {c. \<exists>n. Some n \<in> set (all_names s) \<and> component (skip_slash (node_name node)) n = Some c} \<and>
    (\<forall>i. unifs_vfs_readdir s node i = (if i < length entries then Some (entries ! i) else None))"
proof -
  let ?p = "skip_slash (node_name node)"
  have p: "0 \<notin> set ?p" using assms(2) set_skip_slash by blast
  have "unifs_vfs_readdir s node i =
      (if i < length (fresh_entries ?p {} (all_names s)) then Some (fresh_entries ?p {} (all_names s) ! i) else None)" for i
    using readdir_loop_fresh [OF p, of "[]" "all_names s" 0 i] assms(1,3) by (simp add: unifs_vfs_readdir_def Let_def)
  then show ?thesis using fresh_entries_set [of ?p "{}" "all_names s"] by (auto simp: seen_def)
qed

text \<open>Two RAM files \<open>d/a\<close> and \<open>d/b\<close> in the directory \<open>d/\<close>.\<close>

definition demo_tree :: unifs where
  "demo_tree = \<lparr>fs_image = [], mounted = False,
     ram_files = [demo_file\<lparr>r_name := [0x64, 0x2F, 0x61]\<rparr>, empty_file, demo_file\<lparr>r_name := [0x64, 0x2F, 0x62]\<rparr>],
     ram_file_count = 2, heap = []\<rparr>"

theorem unifs_readdir_enumerates_witness:
  "unifs_vfs_readdir demo_tree ((file_node [0x64, 0x2F])\<lparr>n_is_dir := True\<rparr>) 0 = Some [0x61] \<and>
   (\<exists>entries. distinct entries \<and> set entries = {[0x61], [0x62]} \<and>
     (\<forall>i. unifs_vfs_readdir demo_tree ((file_node [0x64, 0x2F])\<lparr>n_is_dir := True\<rparr>) i =
       (if i < length entries then Some (entries ! i) else None)))"
proof -
  let ?d = "(file_node [0x64, 0x2F])\<lparr>n_is_dir := True\<rparr>"
  have names: "all_names demo_tree = [Some [0x64, 0x2F, 0x61], None, Some [0x64, 0x2F, 0x62]]"
    by (simp add: all_names_def demo_tree_def demo_file_def empty_file_def)
  have d: "n_is_dir ?d" "node_name ?d = [0x64, 0x2F]" by (simp_all add: file_node_def node_name_def)
  have c: "component [0x64, 0x2F] [0x64, 0x2F, 0x61] = Some [0x61]" "component [0x64, 0x2F] [0x64, 0x2F, 0x62] = Some [0x62]"
    by (simp_all add: component_def skip_slash_def SLASH_def)
  have p: "skip_slash [0x64, 0x2F] = [0x64, 0x2F :: u8]" by (simp add: skip_slash_def SLASH_def)
  have "{c. \<exists>n. Some n \<in> set (all_names demo_tree) \<and> component (skip_slash (node_name ?d)) n = Some c} = {[0x61], [0x62]}"
    using c by (auto simp: names d(2) p)
  moreover have "0 \<notin> set (node_name ?d)" "\<forall>n. Some n \<in> set (all_names demo_tree) \<longrightarrow> plain n"
    by (auto simp: names d(2) plain_def)
  ultimately have e: "\<exists>entries. distinct entries \<and> set entries = {[0x61], [0x62]} \<and>
     (\<forall>i. unifs_vfs_readdir demo_tree ?d i = (if i < length entries then Some (entries ! i) else None))"
    using unifs_readdir_enumerates [OF d(1), of demo_tree] by simp
  moreover have "unifs_vfs_readdir demo_tree ?d 0 = Some [0x61]"
    by (simp add: unifs_vfs_readdir_def d p names dir_sub_def skip_slash_def SLASH_def sub_len_def)
  ultimately show ?thesis by blast
qed

end
