(* ===== verification/Unifs_Image.thy ===== *)
theory Unifs_Image
  imports Unifs_Dir Net_Bytes
begin

text \<open>
  The tool that builds the boot image, \<open>tools/mkunifs.py\<close>, and the mount of its output by \<open>unifs_init\<close>.
  An entry is the relative path in UTF-8 (directories end in a slash), whether it is a directory, and
  the bytes of the file; the list of the entries comes from \<open>os.walk\<close>.
\<close>

record image_entry =
  e_name :: "u8 list"
  e_is_dir :: bool
  e_content :: "u8 list"

text \<open>\<open>content\<close> is empty for a directory.\<close>

definition entry_content :: "image_entry \<Rightarrow> u8 list" where
  "entry_content e = (if e_is_dir e then [] else e_content e)"

text \<open>\<open>struct.pack\<close> pads \<open>64s\<close> with zeros and writes \<open>Q\<close> as eight little-endian bytes.\<close>

definition pack_entry :: "u8 list \<Rightarrow> nat \<Rightarrow> nat \<Rightarrow> u8 list" where
  "pack_entry name off sz =
     (let name_bytes = (if length name > 63 then take 63 name else name)
      in name_bytes @ replicate (64 - length name_bytes) 0 @
         le_bytes 8 (of_nat off :: u64) @ le_bytes 8 (of_nat sz :: u64))"

text \<open>The loop over the entries with the running offset and the data collected so far.\<close>

fun pack_entries :: "image_entry list \<Rightarrow> nat \<Rightarrow> u8 list list \<Rightarrow> u8 list \<Rightarrow> u8 list list \<times> u8 list" where
  "pack_entries [] current_offset entries data_blob = (entries, data_blob)"
| "pack_entries (e # es) current_offset entries data_blob =
     (let content = entry_content e;
          entry = pack_entry (e_name e) current_offset (length content)
      in if \<not> e_is_dir e
         then pack_entries es (current_offset + length content) (entries @ [entry]) (data_blob @ content)
         else pack_entries es current_offset (entries @ [entry]) data_blob)"

definition create_unifs :: "image_entry list \<Rightarrow> u8 list" where
  "create_unifs entries_to_add =
     (let file_count = length entries_to_add;
          header = UNIFS_MAGIC @ le_bytes 8 (of_nat file_count :: u64);
          (entries, data_blob) = pack_entries entries_to_add (16 + file_count * 80) [] []
      in header @ concat entries @ data_blob)"

section \<open>The layout of the image\<close>

definition blob :: "image_entry list \<Rightarrow> u8 list" where
  "blob es = concat (map entry_content es)"

definition offset_of :: "image_entry list \<Rightarrow> nat \<Rightarrow> nat" where
  "offset_of es i = 16 + length es * 80 + length (blob (take i es))"

lemma pack_entries_eq:
  "pack_entries es off entries data =
    (entries @ map (\<lambda>i. pack_entry (e_name (es ! i)) (off + length (blob (take i es))) (length (entry_content (es ! i))))
       [0..<length es], data @ blob es)"
proof (induction es arbitrary: off entries data)
  case (Cons e es)
  have u: "[0..<length (e # es)] = 0 # map Suc [0..<length es]" by (simp add: upt_conv_Cons map_Suc_upt del: upt_Suc)
  have s: "pack_entries (e # es) off entries data =
      pack_entries es (off + length (entry_content e))
        (entries @ [pack_entry (e_name e) off (length (entry_content e))]) (data @ entry_content e)"
    by (simp add: Let_def entry_content_def)
  show ?case unfolding s Cons.IH u by (simp add: blob_def comp_def add.assoc)
qed (simp add: blob_def)

definition table :: "image_entry list \<Rightarrow> u8 list list" where
  "table es = map (\<lambda>i. pack_entry (e_name (es ! i)) (offset_of es i) (length (entry_content (es ! i)))) [0..<length es]"

lemma create_unifs_layout:
  "create_unifs es = UNIFS_MAGIC @ le_bytes 8 (of_nat (length es) :: u64) @ concat (table es) @ blob es"
  by (simp add: create_unifs_def pack_entries_eq table_def offset_of_def Let_def)

lemma length_pack_entry: "length (pack_entry n off sz) = 80"
  by (simp add: pack_entry_def Let_def)

lemma length_table: "length (table es) = length es" "length (concat (table es)) = 80 * length es"
proof -
  have "length (concat xs) = 80 * length xs" if "\<forall>x \<in> set xs. length x = 80" for xs :: "u8 list list"
    using that by (induction xs) auto
  then show "length (concat (table es)) = 80 * length es" by (simp add: table_def length_pack_entry)
qed (simp add: table_def)

lemma drop_concat_table:
  "i < length es \<Longrightarrow> drop (80 * i) (concat (table es) @ post) =
    pack_entry (e_name (es ! i)) (offset_of es i) (length (entry_content (es ! i))) @ concat (drop (i + 1) (table es)) @ post"
proof -
  assume i: "i < length es"
  have "drop (80 * i) (concat xs @ post) = concat (drop i xs) @ post"
    if "\<forall>x \<in> set xs. length x = 80" "i \<le> length xs" for xs :: "u8 list list"
    using that
  proof (induction xs arbitrary: i)
    case (Cons x xs)
    then show ?case by (cases i) auto
  qed simp
  then have "drop (80 * i) (concat (table es) @ post) = concat (drop i (table es)) @ post"
    using i by (simp add: table_def length_pack_entry)
  moreover have "drop i (table es) = table es ! i # drop (i + 1) (table es)"
    using i by (simp add: Cons_nth_drop_Suc length_table)
  ultimately show ?thesis using i by (simp add: table_def)
qed

lemma drop_image:
  "i < length es \<Longrightarrow> drop (16 + 80 * i) (create_unifs es) =
    pack_entry (e_name (es ! i)) (offset_of es i) (length (entry_content (es ! i))) @ concat (drop (i + 1) (table es)) @ blob es"
proof -
  assume i: "i < length es"
  have "length (UNIFS_MAGIC @ le_bytes 8 (of_nat (length es) :: u64)) = 16" by (simp add: UNIFS_MAGIC_def)
  then have "drop 16 (create_unifs es) = concat (table es) @ blob es"
    unfolding create_unifs_layout by (metis append.assoc append_eq_conv_conj)
  then have "drop (80 * i) (drop 16 (create_unifs es)) = drop (80 * i) (concat (table es) @ blob es)" by simp
  then show ?thesis using drop_concat_table [OF i, of "blob es"] by (simp add: add.commute)
qed

section \<open>Mounting the image\<close>

text \<open>What \<open>mkunifs.py\<close> is given: names that fit, without zero bytes and backslashes (it replaces them), all different.\<close>

definition packable :: "image_entry list \<Rightarrow> bool" where
  "packable es \<longleftrightarrow>
     (\<forall>e \<in> set es. length (e_name e) \<le> 63 \<and> 0 \<notin> set (e_name e) \<and> 0x5C \<notin> set (e_name e)) \<and>
     distinct (map e_name es) \<and> 16 + length es * 80 + length (blob es) < 2 ^ 64"

lemma normalize_id: "0x5C \<notin> set (cstr s) \<Longrightarrow> normalize_boot_entry_name s = s"
  by (induction s) (auto split: if_splits)

lemma packed_fields:
  assumes "length n \<le> 63" "0 \<notin> set n" "off < 2 ^ 64" "sz < 2 ^ 64"
  shows "cstr (pack_entry n off sz @ post) = n"
    and "unat (le_word (take 8 (drop 64 (pack_entry n off sz @ post))) :: u64) = off"
    and "unat (le_word (take 8 (drop 72 (pack_entry n off sz @ post))) :: u64) = sz"
proof -
  let ?name = "n @ replicate (64 - length n) 0" and ?o = "le_bytes 8 (of_nat off :: u64)" and ?z = "le_bytes 8 (of_nat sz :: u64)"
  have p: "pack_entry n off sz @ post = ?name @ ?o @ ?z @ post" using assms(1) by (simp add: pack_entry_def)
  have l: "length ?name = 64" using assms(1) by simp
  show "cstr (pack_entry n off sz @ post) = n" unfolding p using assms(1,2) by (simp add: cstr_append)
  have w: "le_word (le_bytes 8 (w :: u64)) = w" for w by (rule le_word_le_bytes) simp
  have d: "drop 64 (?name @ ?o @ ?z @ post) = ?o @ ?z @ post" using l by (metis append_eq_conv_conj)
  have d2: "drop 72 (?name @ ?o @ ?z @ post) = ?z @ post"
  proof -
    have "drop 72 (?name @ ?o @ ?z @ post) = drop 8 (drop 64 (?name @ ?o @ ?z @ post))" by (simp only: drop_drop) simp
    then show ?thesis unfolding d by simp
  qed
  show "unat (le_word (take 8 (drop 64 (pack_entry n off sz @ post))) :: u64) = off"
    unfolding p d using assms(3) by (simp add: w unat_of_nat_small)
  show "unat (le_word (take 8 (drop 72 (pack_entry n off sz @ post))) :: u64) = sz"
    unfolding p d2 using assms(4) by (simp add: w unat_of_nat_small)
qed

lemma blob_parts:
  assumes "i < length es"
  shows "blob es = blob (take i es) @ entry_content (es ! i) @ blob (drop (i + 1) es)"
proof -
  have "es = take i es @ es ! i # drop (i + 1) es" using assms by (simp add: id_take_nth_drop)
  then show ?thesis by (metis blob_def concat.simps(2) concat_append list.simps(9) map_append)
qed

lemma offset_bounds:
  assumes "packable es" "i < length es"
  shows "offset_of es i + length (entry_content (es ! i)) < 2 ^ 64"
  using assms(1) arg_cong [OF blob_parts [OF assms(2)], of length] by (auto simp: packable_def offset_of_def)

lemma image_fields:
  assumes p: "packable es" and s: "fs_image s = create_unifs es" and i: "i < length es"
  shows "entry_name s i = e_name (es ! i)" "entry_offset s i = offset_of es i"
    "entry_size s i = length (entry_content (es ! i))"
proof -
  have n: "length (e_name (es ! i)) \<le> 63" "0 \<notin> set (e_name (es ! i))" using p i by (auto simp: packable_def)
  have b: "offset_of es i < 2 ^ 64" "length (entry_content (es ! i)) < 2 ^ 64" using offset_bounds [OF p i] by auto
  note f = packed_fields [OF n b, where post = "concat (drop (i + 1) (table es)) @ blob es"]
  have d: "drop (16 + 80 * i + k) (create_unifs es) =
      drop k (pack_entry (e_name (es ! i)) (offset_of es i) (length (entry_content (es ! i))) @ concat (drop (i + 1) (table es)) @ blob es)" for k
    using drop_image [OF i] by (metis drop_drop add.commute)
  show "entry_name s i = e_name (es ! i)" using f(1) drop_image [OF i] by (simp add: entry_name_def s)
  show "entry_offset s i = offset_of es i" unfolding entry_offset_def s d by (rule f(2))
  show "entry_size s i = length (entry_content (es ! i))" unfolding entry_size_def s d by (rule f(3))
qed

lemma image_file_count: "length es < 2 ^ 64 \<Longrightarrow> fs_image s = create_unifs es \<Longrightarrow> boot_file_count s = length es"
proof -
  assume l: "length es < 2 ^ 64" and s: "fs_image s = create_unifs es"
  have w: "le_word (le_bytes 8 (w :: u64)) = w" for w by (rule le_word_le_bytes) simp
  have "take 8 (drop 8 (create_unifs es)) = le_bytes 8 (of_nat (length es) :: u64)"
    unfolding create_unifs_layout by (simp add: UNIFS_MAGIC_def)
  then show ?thesis using l by (simp add: boot_file_count_def s w unat_of_nat_small)
qed

lemma nth_middle:
  "length pre = n \<Longrightarrow> k < length c \<Longrightarrow> (pre @ c @ post) ! (n + k) = c ! k \<and> n + k < length (pre @ c @ post)"
  by (auto simp: nth_append)

lemma image_data:
  assumes p: "packable es" and s: "fs_image s = create_unifs es" and i: "i < length es"
  shows "boot_data s i = entry_content (es ! i)"
proof (rule nth_equalityI)
  note f = image_fields [OF assms]
  show "length (boot_data s i) = length (entry_content (es ! i))" by (simp add: boot_data_def f)
  fix k assume "k < length (boot_data s i)"
  then have k: "k < length (entry_content (es ! i))" by (simp add: boot_data_def f)
  let ?pre = "UNIFS_MAGIC @ le_bytes 8 (of_nat (length es) :: u64) @ concat (table es) @ blob (take i es)"
  have img: "create_unifs es = ?pre @ entry_content (es ! i) @ blob (drop (i + 1) es)"
    unfolding create_unifs_layout using blob_parts [OF i] by simp
  have "length ?pre = offset_of es i" by (simp add: UNIFS_MAGIC_def length_table offset_of_def)
  from nth_middle [OF this k, where post = "blob (drop (i + 1) es)"]
  have "create_unifs es ! (offset_of es i + k) = entry_content (es ! i) ! k" "offset_of es i + k < length (create_unifs es)"
    unfolding img by blast+
  then show "boot_data s i ! k = entry_content (es ! i) ! k" using k by (simp add: boot_data_def f image_at_def s)
qed

lemma normalize_image:
  assumes p: "packable es" and "n \<le> length es"
  shows "foldl normalize_entry (create_unifs es) [0..<n] = create_unifs es"
  using assms(2)
proof (induction n)
  case (Suc n)
  then have i: "n < length es" by simp
  have b: "offset_of es n < 2 ^ 64" "length (entry_content (es ! n)) < 2 ^ 64" using offset_bounds [OF p i] by auto
  have nm: "length (e_name (es ! n)) \<le> 63" "0 \<notin> set (e_name (es ! n))" "0x5C \<notin> set (e_name (es ! n))"
    using p i by (auto simp: packable_def)
  have "normalize_boot_entry_name (drop (16 + 80 * n) (create_unifs es)) = drop (16 + 80 * n) (create_unifs es)"
    unfolding drop_image [OF i] by (rule normalize_id) (use packed_fields(1) [OF nm(1,2) b] nm(3) in simp)
  then show ?case using Suc by (simp add: normalize_entry_def)
qed simp


text \<open>
  C35.  The image that \<open>mkunifs.py\<close> builds is mounted by the kernel with the same files: after \<open>unifs_init\<close>
  every entry given to the tool is a file with exactly its bytes (none for a directory), and no other
  name is a file.
\<close>

theorem unifs_image_roundtrip:
  assumes p: "packable es"
  shows "mounted (unifs_init s (Some (create_unifs es))) \<and>
    contents (unifs_init s (Some (create_unifs es))) = map_of (map (\<lambda>e. (e_name e, entry_content e)) es)"
proof -
  let ?t = "unifs_init s (Some (create_unifs es))"
  have l: "length es < 2 ^ 64" using p by (simp add: packable_def)
  have magic: "take 8 (create_unifs es) = UNIFS_MAGIC" by (simp add: create_unifs_layout UNIFS_MAGIC_def)
  have t: "mounted ?t" "fs_image ?t = create_unifs es" "\<forall>f \<in> set (ram_files ?t). \<not> r_used f"
    using magic image_file_count [OF l] normalize_image [OF p] by (simp_all add: unifs_init_def Let_def)
  have c: "boot_file_count ?t = length es" using image_file_count [OF l t(2)] .
  have none: "find_ram_file ?t n = None" for n using t(3) by (simp add: find_ram_file_def find_idx_None)
  have names: "n = entry_name ?t i \<longleftrightarrow> n = e_name (es ! i)" if "i < length es" for n i
    using image_fields(1) [OF p t(2) that] by simp
  have "contents ?t n = map_of (map (\<lambda>e. (e_name e, entry_content e)) es) n" for n
  proof (cases "\<exists>i < length es. n = e_name (es ! i)")
    case True
    then obtain i where i: "i < length es" "n = e_name (es ! i)" by blast
    have u: "j = i" if "j < length es" "n = e_name (es ! j)" for j
      using p i that by (auto simp: packable_def distinct_conv_nth)
    have "find_idx (\<lambda>j. n = entry_name ?t j) [0..<length es] = Some i"
    proof (rule find_idx_unique)
      show "i < length [0..<length es]" using i(1) by simp
      show "n = entry_name ?t ([0..<length es] ! i)" using names [OF i(1)] i by simp
      show "j = i" if "j < length [0..<length es]" "n = entry_name ?t ([0..<length es] ! j)" for j
        using u [of j] names [of j n] that by simp
    qed
    then have "contents ?t n = Some (entry_content (es ! i))"
      using t(1) c image_data [OF p t(2) i(1)] by (simp add: contents_eq none boot_contents_def find_boot_entry_def)
    moreover have "map_of (map (\<lambda>e. (e_name e, entry_content e)) es) n = Some (entry_content (es ! i))"
    proof (rule map_of_is_SomeI)
      show "distinct (map fst (map (\<lambda>e. (e_name e, entry_content e)) es))"
        using p by (simp add: packable_def comp_def)
    qed (use i in auto)
    ultimately show ?thesis by simp
  next
    case False
    then have "find_boot_entry ?t n = None" using names by (auto simp: find_boot_entry_def c find_idx_None)
    moreover have "map_of (map (\<lambda>e. (e_name e, entry_content e)) es) n = None"
      using False by (auto simp: map_of_eq_None_iff in_set_conv_nth)
    ultimately show ?thesis by (simp add: contents_eq none boot_contents_def)
  qed
  then show ?thesis using t(1) by blast
qed

definition demo_entries :: "image_entry list" where
  "demo_entries = [\<lparr>e_name = [0x64, 0x2F], e_is_dir = True, e_content = []\<rparr>,
     \<lparr>e_name = [0x64, 0x2F, 0x61], e_is_dir = False, e_content = [1, 2, 3]\<rparr>]"

theorem unifs_image_roundtrip_witness:
  "packable demo_entries \<and>
   contents (unifs_init demo_fs (Some (create_unifs demo_entries))) [0x64, 0x2F, 0x61] = Some [1, 2, 3] \<and>
   contents (unifs_init demo_fs (Some (create_unifs demo_entries))) [0x61] = None"
proof -
  have p: "packable demo_entries" by (simp add: packable_def demo_entries_def blob_def entry_content_def)
  from unifs_image_roundtrip [OF p, of demo_fs] p show ?thesis by (simp add: demo_entries_def entry_content_def)
qed

end
