(* ===== verification/Vmm.thy ===== *)
theory Vmm
  imports Pmm Vma
begin

text \<open>
  The virtual memory manager, \<open>src/mm/vmm.cpp\<close>: four-level page tables, their changes, the address
  spaces of processes, the page fault handler, and the virtual ranges for device memory.  Page tables
  are the 64-bit words of physical memory, \<open>tables s t i\<close> the entry \<open>i\<close> of the table at the physical
  address \<open>t\<close>; the direct map of physical memory makes the pointer of the code this address plus a
  constant.  Frames come from the physical memory manager of \<open>Pmm\<close>, and a frame is used either as a
  table or for data, whose bytes are the \<open>ram\<close> of that manager.  Each operation is one step; what it
  does to the translation buffers is appended to \<open>tlb\<close>.
\<close>

section \<open>State and entries\<close>

text \<open>
  What is done to translation buffers: \<open>invlpg\<close>, the reload of \<open>cr3\<close>, and the interrupt that asks the
  other processors for a range.  \<open>curr_pml4\<close> is the page table of the current process if there is one,
  and \<open>cr3\<close> the address the register holds.
\<close>

datatype tlb_op = Invlpg u64 | Reload_cr3 | Shootdown u64 nat

record vmm =
  frames :: pmm
  tables :: "nat \<Rightarrow> nat \<Rightarrow> u64"
  g_pml4 :: nat
  curr_pml4 :: "nat option"
  cr3 :: u64
  apic_is_enabled :: bool
  g_cpu_online_count :: nat
  tlb :: "tlb_op list"
  g_mmio_next_virt :: nat
  g_dma_free_ranges :: "(nat \<times> nat) list"

definition PTE_PRESENT :: u64 where "PTE_PRESENT = 1"
definition PTE_WRITABLE :: u64 where "PTE_WRITABLE = 2"
definition PTE_USER :: u64 where "PTE_USER = 4"
definition PTE_PWT :: u64 where "PTE_PWT = 8"
definition PTE_PCD :: u64 where "PTE_PCD = 16"
definition PTE_HUGE :: u64 where "PTE_HUGE = 128"
definition PTE_NX :: u64 where "PTE_NX = 0x8000000000000000"
definition PTE_SHARED :: u64 where "PTE_SHARED = 0x10000000000000"
definition PTE_MMIO :: u64 where "PTE_MMIO = PTE_PRESENT OR PTE_WRITABLE OR PTE_PCD OR PTE_PWT OR PTE_NX"
definition PTE_UC :: u64 where "PTE_UC = PTE_MMIO"
definition PTE_WC :: u64 where "PTE_WC = PTE_PRESENT OR PTE_WRITABLE OR PTE_PCD OR PTE_NX"
definition KERNEL_STACK_TOP :: u64 where "KERNEL_STACK_TOP = 0xFFFFFF8000000000"
definition USER_TOP :: u64 where "USER_TOP = 0x0000800000000000"
definition ADDR_MASK :: u64 where "ADDR_MASK = 0x000FFFFFFFFFF000"
definition ADDR_MASK_2M :: u64 where "ADDR_MASK_2M = 0x000FFFFFFFE00000"
definition ADDR_MASK_1G :: u64 where "ADDR_MASK_1G = 0x000FFFFFC0000000"
definition OFFSET_4K :: u64 where "OFFSET_4K = 0xFFF"
definition OFFSET_2M :: u64 where "OFFSET_2M = 0x1FFFFF"
definition OFFSET_1G :: u64 where "OFFSET_1G = 0x3FFFFFFF"

definition has :: "u64 \<Rightarrow> u64 \<Rightarrow> bool" where
  "has e f \<longleftrightarrow> e AND f \<noteq> 0"

definition entry_phys :: "u64 \<Rightarrow> nat" where
  "entry_phys e = unat (e AND ADDR_MASK)"

text \<open>The index of an address in the table of a level, \<open>(virt >> shift) & 0x1FF\<close>.\<close>

definition level_index :: "nat \<Rightarrow> u64 \<Rightarrow> nat" where
  "level_index level virt = unat (drop_bit (12 + 9 * (level - 1)) virt AND 0x1FF)"

definition set_entry :: "vmm \<Rightarrow> nat \<Rightarrow> nat \<Rightarrow> u64 \<Rightarrow> vmm" where
  "set_entry s t i e = s\<lparr>tables := (tables s)(t := (tables s t)(i := e))\<rparr>"

definition zero_table :: "vmm \<Rightarrow> nat \<Rightarrow> vmm" where
  "zero_table s t = s\<lparr>tables := (tables s)(t := \<lambda>_. 0)\<rparr>"

text \<open>\<open>pmm_alloc_frame\<close> hands out a zeroed frame; the null pointer is \<open>None\<close>.\<close>

definition alloc_table :: "vmm \<Rightarrow> nat option \<times> vmm" where
  "alloc_table s =
     (let (p, f) = pmm_alloc_frame (frames s); s = s\<lparr>frames := f\<rparr> in
      if p = 0 then (None, s) else (Some p, zero_table s p))"

definition release_frame :: "vmm \<Rightarrow> nat \<Rightarrow> vmm" where
  "release_frame s p = s\<lparr>frames := pmm_free_frame (frames s) p\<rparr>"

definition log_tlb :: "vmm \<Rightarrow> tlb_op list \<Rightarrow> vmm" where
  "log_tlb s ops = s\<lparr>tlb := tlb s @ ops\<rparr>"

definition invalidate_ops :: "u64 \<Rightarrow> nat \<Rightarrow> tlb_op list" where
  "invalidate_ops virt pages =
     (if pages = 1 then [Invlpg virt]
      else if pages > 32 then [Reload_cr3]
      else map (\<lambda>i. Invlpg (virt + of_nat i * 0x1000)) [0..<pages])"

text \<open>What another processor does on the interrupt; the address 0 stands for no request.\<close>

definition tlb_shootdown_handler :: "u64 \<Rightarrow> nat \<Rightarrow> tlb_op list" where
  "tlb_shootdown_handler addr pages = (if addr \<noteq> 0 then invalidate_ops addr pages else [])"

definition vmm_invalidate_tlb_range :: "vmm \<Rightarrow> u64 \<Rightarrow> nat \<Rightarrow> vmm" where
  "vmm_invalidate_tlb_range s virt pages =
     (if pages = 0 then s
      else log_tlb s (invalidate_ops virt pages @
             (if apic_is_enabled s \<and> g_cpu_online_count s > 1 then [Shootdown virt pages] else [])))"

definition vmm_invalidate_tlb :: "vmm \<Rightarrow> u64 \<Rightarrow> vmm" where
  "vmm_invalidate_tlb s virt = vmm_invalidate_tlb_range s virt 1"

section \<open>Walking and changing tables\<close>

text \<open>The flags of the small pages a huge page is split into.\<close>

definition split_flags :: "u64 \<Rightarrow> u64" where
  "split_flags e =
     (let flags = (e AND OFFSET_4K) OR (e AND PTE_NX) in
      if has e 0x1000 then flags OR PTE_HUGE else flags AND NOT PTE_HUGE)"

definition split_entry :: "u64 \<Rightarrow> nat \<Rightarrow> nat \<Rightarrow> u64" where
  "split_entry e level i =
     (if level = 3 then
        ((e AND ADDR_MASK_1G) + of_nat i * 0x200000) OR split_flags e OR PTE_HUGE
      else ((e AND ADDR_MASK_2M) + of_nat i * 0x1000) OR split_flags e)"

definition split_huge_page :: "vmm \<Rightarrow> nat \<Rightarrow> nat \<Rightarrow> nat \<Rightarrow> bool \<times> vmm" where
  "split_huge_page s t index level =
     (let e = tables s t index in
      if \<not> has e PTE_PRESENT \<or> \<not> has e PTE_HUGE then (False, s)
      else case alloc_table s of
        (None, s) \<Rightarrow> (False, s)
      | (Some nt, s) \<Rightarrow>
          if level = 3 \<or> level = 2 then
            let s = s\<lparr>tables := (tables s)(nt := \<lambda>i. if i < 512 then split_entry e level i else 0)\<rparr>
            in (True, log_tlb (set_entry s t index (of_nat nt OR (split_flags e AND NOT PTE_HUGE))) [Reload_cr3])
          else (False, release_frame s nt))"

definition get_next_level :: "vmm \<Rightarrow> nat \<Rightarrow> nat \<Rightarrow> nat \<Rightarrow> bool \<Rightarrow> u64 \<Rightarrow> nat option \<times> vmm" where
  "get_next_level s t index level alloc virt =
     (let e = tables s t index in
      if has e PTE_PRESENT then
        (if has e PTE_HUGE then
           (case split_huge_page s t index level of
              (False, s) \<Rightarrow> (None, s)
            | (True, s) \<Rightarrow> (Some (entry_phys (tables s t index)), s))
         else (Some (entry_phys e), s))
      else if \<not> alloc then (None, s)
      else case alloc_table s of
        (None, s) \<Rightarrow> (None, s)
      | (Some nt, s) \<Rightarrow>
          let flags = PTE_PRESENT OR PTE_WRITABLE OR (if virt < USER_TOP then PTE_USER else 0) in
          if e = 0 then (Some nt, set_entry s t index (of_nat nt OR flags))
          else (Some (entry_phys e), release_frame s nt))"

text \<open>The walk down to the page table of an address.\<close>

definition walk :: "vmm \<Rightarrow> nat \<Rightarrow> bool \<Rightarrow> u64 \<Rightarrow> nat option \<times> vmm" where
  "walk s pml4 alloc virt =
     (case get_next_level s pml4 (level_index 4 virt) 4 alloc virt of
        (None, s) \<Rightarrow> (None, s)
      | (Some pdpt, s) \<Rightarrow>
          (case get_next_level s pdpt (level_index 3 virt) 3 alloc virt of
             (None, s) \<Rightarrow> (None, s)
           | (Some pd, s) \<Rightarrow> get_next_level s pd (level_index 2 virt) 2 alloc virt))"

definition map_checks :: "u64 \<Rightarrow> u64 \<Rightarrow> string option" where
  "map_checks virt flags =
     (if virt \<ge> KERNEL_STACK_TOP \<and> has flags PTE_USER then Some ''vmm: kernel address with PTE_USER''
      else if virt < USER_TOP \<and> \<not> has flags PTE_USER then Some ''vmm: userspace address without PTE_USER''
      else None)"

definition vmm_map_page_no_flush_in :: "vmm \<Rightarrow> nat \<Rightarrow> u64 \<Rightarrow> u64 \<Rightarrow> u64 \<Rightarrow> (bool \<times> vmm) kresult" where
  "vmm_map_page_no_flush_in s pml4 virt phys flags =
     (case map_checks virt flags of
        Some msg \<Rightarrow> Panic msg
      | None \<Rightarrow>
          (case walk s pml4 True virt of
             (None, s) \<Rightarrow> Done (False, s)
           | (Some pt, s) \<Rightarrow> Done (True, set_entry s pt (level_index 1 virt) (phys OR flags))))"

text \<open>\<open>Error::NoMemory\<close> is the result \<open>False\<close>.\<close>

definition vmm_map_page_in :: "vmm \<Rightarrow> nat \<Rightarrow> u64 \<Rightarrow> u64 \<Rightarrow> u64 \<Rightarrow> (bool \<times> vmm) kresult" where
  "vmm_map_page_in s pml4 virt phys flags = vmm_map_page_no_flush_in s pml4 virt phys flags"

definition current_pml4 :: "vmm \<Rightarrow> nat" where
  "current_pml4 s = (case curr_pml4 s of Some t \<Rightarrow> t | None \<Rightarrow> g_pml4 s)"

definition vmm_map_page :: "vmm \<Rightarrow> u64 \<Rightarrow> u64 \<Rightarrow> u64 \<Rightarrow> (bool \<times> vmm) kresult" where
  "vmm_map_page s virt phys flags =
     (case vmm_map_page_in s (current_pml4 s) virt phys flags of
        Panic msg \<Rightarrow> Panic msg
      | Done (ok, s) \<Rightarrow> Done (ok, if ok then vmm_invalidate_tlb s virt else s))"

definition vmm_virt_to_phys_in :: "vmm \<Rightarrow> nat option \<Rightarrow> u64 \<Rightarrow> u64" where
  "vmm_virt_to_phys_in s pml4 virt =
     (case pml4 of
        None \<Rightarrow> 0
      | Some t4 \<Rightarrow>
          let e4 = tables s t4 (level_index 4 virt) in
          if \<not> has e4 PTE_PRESENT then 0
          else
            let e3 = tables s (entry_phys e4) (level_index 3 virt) in
            if \<not> has e3 PTE_PRESENT then 0
            else if has e3 PTE_HUGE then (e3 AND ADDR_MASK_1G) + (virt AND OFFSET_1G)
            else
              let e2 = tables s (entry_phys e3) (level_index 2 virt) in
              if \<not> has e2 PTE_PRESENT then 0
              else if has e2 PTE_HUGE then (e2 AND ADDR_MASK_2M) + (virt AND OFFSET_2M)
              else
                let e1 = tables s (entry_phys e2) (level_index 1 virt) in
                if \<not> has e1 PTE_PRESENT then 0
                else (e1 AND ADDR_MASK) + (virt AND OFFSET_4K))"

definition vmm_virt_to_phys :: "vmm \<Rightarrow> u64 \<Rightarrow> u64" where
  "vmm_virt_to_phys s virt = vmm_virt_to_phys_in s (Some (current_pml4 s)) virt"

definition vmm_get_page_flags_in :: "vmm \<Rightarrow> nat option \<Rightarrow> u64 \<Rightarrow> u64" where
  "vmm_get_page_flags_in s pml4 virt =
     (case pml4 of
        None \<Rightarrow> 0
      | Some t4 \<Rightarrow>
          let e4 = tables s t4 (level_index 4 virt) in
          if \<not> has e4 PTE_PRESENT then 0
          else
            let e3 = tables s (entry_phys e4) (level_index 3 virt) in
            if \<not> has e3 PTE_PRESENT \<or> has e3 PTE_HUGE then 0
            else
              let e2 = tables s (entry_phys e3) (level_index 2 virt) in
              if \<not> has e2 PTE_PRESENT \<or> has e2 PTE_HUGE then 0
              else
                let e1 = tables s (entry_phys e2) (level_index 1 virt) in
                if \<not> has e1 PTE_PRESENT then 0 else e1 AND (OFFSET_4K OR PTE_NX OR PTE_SHARED))"

definition vmm_unmap_page_no_flush_in :: "vmm \<Rightarrow> nat \<Rightarrow> u64 \<Rightarrow> vmm" where
  "vmm_unmap_page_no_flush_in s pml4 virt =
     (case walk s pml4 False virt of
        (None, s) \<Rightarrow> s
      | (Some pt, s) \<Rightarrow> set_entry s pt (level_index 1 virt) 0)"

definition vmm_unmap_page_in :: "vmm \<Rightarrow> nat \<Rightarrow> u64 \<Rightarrow> vmm" where
  "vmm_unmap_page_in s pml4 virt = vmm_invalidate_tlb (vmm_unmap_page_no_flush_in s pml4 virt) virt"

definition vmm_set_page_flags :: "vmm \<Rightarrow> u64 \<Rightarrow> u64 \<Rightarrow> vmm" where
  "vmm_set_page_flags s virt flags =
     (case walk s (current_pml4 s) False virt of
        (None, s) \<Rightarrow> s
      | (Some pt, s) \<Rightarrow>
          let i = level_index 1 virt; old = tables s pt i in
          if \<not> has old PTE_PRESENT then s
          else
            vmm_invalidate_tlb
              (set_entry s pt i ((old AND ADDR_MASK) OR flags OR (old AND (PTE_PRESENT OR PTE_USER OR PTE_SHARED))))
              virt)"

text \<open>
  \<open>vmm_protect_kernel\<close>: the bounds of the four sections come from the linker, and nothing is done
  without boot information.
\<close>

fun protect_pages :: "vmm \<Rightarrow> u64 \<Rightarrow> nat \<Rightarrow> u64 \<Rightarrow> vmm" where
  "protect_pages s virt 0 flags = s"
| "protect_pages s virt (Suc n) flags = protect_pages (vmm_set_page_flags s virt flags) (virt + 0x1000) n flags"

definition protect_range :: "vmm \<Rightarrow> u64 \<Rightarrow> u64 \<Rightarrow> u64 \<Rightarrow> vmm" where
  "protect_range s start stop flags =
     (let a = start AND NOT OFFSET_4K; b = (stop + 0xFFF) AND NOT OFFSET_4K in
      if a < b then protect_pages s a ((unat b - unat a) div 4096) flags else s)"

definition vmm_protect_kernel ::
  "vmm \<Rightarrow> bool \<Rightarrow> u64 \<times> u64 \<Rightarrow> u64 \<times> u64 \<Rightarrow> u64 \<times> u64 \<Rightarrow> u64 \<times> u64 \<Rightarrow> vmm"
where
  "vmm_protect_kernel s boot_info text_range rodata_range requests_range data_range =
     (if \<not> boot_info then s else
      let s = protect_range s (fst text_range) (snd text_range) PTE_PRESENT;
          s = protect_range s (fst rodata_range) (snd rodata_range) (PTE_PRESENT OR PTE_NX);
          s = protect_range s (fst requests_range) (snd requests_range) (PTE_PRESENT OR PTE_NX)
      in protect_range s (fst data_range) (snd data_range) (PTE_PRESENT OR PTE_WRITABLE OR PTE_NX))"

section \<open>Address spaces\<close>

definition copy_entries :: "vmm \<Rightarrow> nat \<Rightarrow> nat \<Rightarrow> vmm" where
  "copy_entries s src dst =
     s\<lparr>tables := (tables s)(dst := \<lambda>i. if 256 \<le> i \<and> i < 512 then tables s src i else tables s dst i)\<rparr>"

definition vmm_create_address_space :: "vmm \<Rightarrow> nat option \<times> vmm" where
  "vmm_create_address_space s =
     (case alloc_table s of
        (None, s) \<Rightarrow> (None, s)
      | (Some t, s) \<Rightarrow> (Some t, copy_entries s (g_pml4 s) t))"

text \<open>Level 1 is the level of the page tables; the code starts at level 3.\<close>

fun free_page_table_level :: "nat \<Rightarrow> nat \<Rightarrow> vmm \<Rightarrow> vmm" where
  "free_page_table_level 0 t s = s"
| "free_page_table_level (Suc level) t s =
     foldl (\<lambda>s i.
       let e = tables s t i; phys = entry_phys e in
       if \<not> has e PTE_PRESENT then s
       else if level = 0 then
         (if pmm_is_managed (frames s) phys then s\<lparr>frames := pmm_refcount_dec (frames s) phys\<rparr> else s)
       else release_frame (free_page_table_level level phys s) phys) s [0..<512]"

definition vmm_free_address_space :: "vmm \<Rightarrow> nat option \<Rightarrow> vmm" where
  "vmm_free_address_space s target_pml4 =
     (case target_pml4 of
        None \<Rightarrow> s
      | Some t \<Rightarrow>
          if t = g_pml4 s then s
          else
            release_frame
              (foldl (\<lambda>s i.
                 let e = tables s t i; phys = entry_phys e in
                 if \<not> has e PTE_PRESENT then s
                 else release_frame (free_page_table_level 3 phys s) phys) s [0..<256]) t)"

definition vmm_switch_address_space :: "vmm \<Rightarrow> u64 \<Rightarrow> vmm" where
  "vmm_switch_address_space s new_pml4_phys = log_tlb (s\<lparr>cr3 := new_pml4_phys\<rparr>) [Reload_cr3]"

text \<open>
  \<open>clone_page_table_level\<close>: the last argument is the list of the entries still to do, at first all 512.
\<close>

function clone_page_table_level ::
  "nat \<Rightarrow> nat \<Rightarrow> nat \<Rightarrow> vmm \<Rightarrow> nat list \<Rightarrow> (bool \<times> vmm) kresult"
where
  "clone_page_table_level level src dst s [] = Done (True, s)"
| "clone_page_table_level level src dst s (i # is) =
     (let e = tables s src i; src_phys = entry_phys e;
          flags = e AND (OFFSET_4K OR PTE_NX OR PTE_SHARED)
      in if \<not> has e PTE_PRESENT then clone_page_table_level level src dst (set_entry s dst i 0) is
         else if level \<le> 1 then
           (case pmm_refcount_inc (frames s) src_phys of
              Panic msg \<Rightarrow> Panic msg
            | Done f \<Rightarrow>
                let s = s\<lparr>frames := f\<rparr> in
                if has flags PTE_SHARED \<or> \<not> has flags PTE_WRITABLE
                then clone_page_table_level level src dst (set_entry s dst i (of_nat src_phys OR flags)) is
                else
                  let s = set_entry s src i (e AND NOT PTE_WRITABLE)
                  in clone_page_table_level level src dst
                       (set_entry s dst i (of_nat src_phys OR (flags AND NOT PTE_WRITABLE))) is)
         else if has e PTE_HUGE then Panic ''vmm_clone: huge pages in userspace not supported yet!''
         else case alloc_table s of
           (None, s) \<Rightarrow> Done (False, free_page_table_level level dst s)
         | (Some nt, s) \<Rightarrow>
             (case clone_page_table_level (level - 1) src_phys nt s [0..<512] of
                Panic msg \<Rightarrow> Panic msg
              | Done (ok, s) \<Rightarrow>
                  if \<not> ok then Done (False, free_page_table_level level dst (release_frame s nt))
                  else clone_page_table_level level src dst (set_entry s dst i (of_nat nt OR flags)) is))"
  by pat_completeness auto
termination
  by (relation "measures [\<lambda>(level, src, dst, s, is). level, \<lambda>(level, src, dst, s, is). length is]") auto

declare clone_page_table_level.simps [simp del]

fun clone_pml4 :: "nat \<Rightarrow> nat \<Rightarrow> vmm \<Rightarrow> nat list \<Rightarrow> (bool \<times> vmm) kresult" where
  "clone_pml4 src dst s [] = Done (True, s)"
| "clone_pml4 src dst s (i # is) =
     (let e = tables s src i; src_phys = entry_phys e; flags = e AND (OFFSET_4K OR PTE_NX) in
      if \<not> has e PTE_PRESENT then clone_pml4 src dst (set_entry s dst i 0) is
      else case alloc_table s of
        (None, s) \<Rightarrow> Done (False, vmm_free_address_space s (Some dst))
      | (Some nt, s) \<Rightarrow>
          (case clone_page_table_level 3 src_phys nt s [0..<512] of
             Panic msg \<Rightarrow> Panic msg
           | Done (ok, s) \<Rightarrow>
               if \<not> ok then Done (False, vmm_free_address_space (release_frame s nt) (Some dst))
               else clone_pml4 src dst (set_entry s dst i (of_nat nt OR flags)) is))"

definition vmm_clone_address_space :: "vmm \<Rightarrow> nat option \<Rightarrow> (nat option \<times> vmm) kresult" where
  "vmm_clone_address_space s src_pml4 =
     (case src_pml4 of
        None \<Rightarrow> Done (None, s)
      | Some src \<Rightarrow>
          (case alloc_table s of
             (None, s) \<Rightarrow> Done (None, s)
           | (Some t, s) \<Rightarrow>
               (case clone_pml4 src t (copy_entries s src t) [0..<256] of
                  Panic msg \<Rightarrow> Panic msg
                | Done (ok, s) \<Rightarrow>
                    if \<not> ok then Done (None, s)
                    else Done (Some t, if cr3 s AND NOT OFFSET_4K = of_nat src then log_tlb s [Reload_cr3] else s))))"


section \<open>Virtual ranges for device memory\<close>

text \<open>
  The free ranges are pairs of an address and a size; a slot of size 0 is unused.  Addresses and sizes
  stay below \<open>g_mmio_limit_virt\<close>, so the 64-bit sums of the code do not wrap.
\<close>

definition g_mmio_limit_virt :: nat where "g_mmio_limit_virt = 0xFFFFFF8000000000"
definition MASSIVE_MAPPING_THRESHOLD :: nat where "MASSIVE_MAPPING_THRESHOLD = 16 * 1024 * 1024 * 1024"
definition MAX_DMA_FREE_RANGES :: nat where "MAX_DMA_FREE_RANGES = 64"

definition dma_alloc_virt_range :: "vmm \<Rightarrow> nat \<Rightarrow> (nat \<times> vmm) kresult" where
  "dma_alloc_virt_range s sz =
     (case find_idx (\<lambda>r. \<not> snd r < sz) (g_dma_free_ranges s) of
        Some i \<Rightarrow>
          let (virt, n) = g_dma_free_ranges s ! i;
              r = (if n - sz = 0 then (0, 0) else (virt + sz, n - sz))
          in Done (virt, s\<lparr>g_dma_free_ranges := (g_dma_free_ranges s)[i := r]\<rparr>)
      | None \<Rightarrow>
          if sz = 0 \<or> sz > MASSIVE_MAPPING_THRESHOLD
          then Panic ''vmm: sanity check failed: massive/invalid dma allocation requested''
          else if g_mmio_next_virt s > g_mmio_limit_virt \<or> g_mmio_limit_virt - g_mmio_next_virt s < sz
          then Panic ''vmm: mmio/dma virtual address space exhausted''
          else Done (g_mmio_next_virt s, s\<lparr>g_mmio_next_virt := g_mmio_next_virt s + sz\<rparr>))"

text \<open>The first loop of \<open>dma_free_virt_range\<close>: extend a free range that touches the freed one.\<close>

definition touches :: "nat \<Rightarrow> nat \<Rightarrow> nat \<times> nat \<Rightarrow> bool" where
  "touches virt sz r \<longleftrightarrow> snd r \<noteq> 0 \<and> (fst r + snd r = virt \<or> virt + sz = fst r)"

definition dma_insert :: "(nat \<times> nat) list \<Rightarrow> nat \<Rightarrow> nat \<Rightarrow> (nat \<times> nat) list" where
  "dma_insert rs virt sz =
     (case find_idx (touches virt sz) rs of
        Some i \<Rightarrow>
          let (v, n) = rs ! i in
          if v + n = virt then rs[i := (v, n + sz)] else rs[i := (virt, n + sz)]
      | None \<Rightarrow>
          (case find_idx (\<lambda>r. snd r = 0) rs of
             Some i \<Rightarrow> rs[i := (virt, sz)]
           | None \<Rightarrow> rs))"

text \<open>The two nested loops that join ranges, at the slots \<open>i\<close> and \<open>j\<close>.\<close>

lemma merge_ranges_count:
  assumes "i < length rs" "j < length rs" "i \<noteq> j" "snd (rs ! i) \<noteq> 0" "snd (rs ! j) \<noteq> 0" "snd r \<noteq> 0"
  shows "length (filter (\<lambda>r. snd r \<noteq> 0) (rs[i := r, j := (0, 0)])) < length (filter (\<lambda>r. snd r \<noteq> 0) rs)"
proof -
  have "length (filter (\<lambda>r. snd r \<noteq> 0) (rs[i := r])) = length (filter (\<lambda>r. snd r \<noteq> 0) rs)"
    using filter_update_count [of i rs "\<lambda>r. snd r \<noteq> 0" r] assms by simp
  then show ?thesis
    using filter_update_count [of j "rs[i := r]" "\<lambda>r. snd r \<noteq> 0" "(0, 0)"] assms by simp
qed

function merge_ranges :: "(nat \<times> nat) list \<Rightarrow> nat \<Rightarrow> nat \<Rightarrow> (nat \<times> nat) list" where
  "merge_ranges rs i j =
     (if i \<ge> length rs then rs
      else if snd (rs ! i) = 0 \<or> j \<ge> length rs then merge_ranges rs (i + 1) (i + 2)
      else
        let (vi, ni) = rs ! i; (vj, nj) = rs ! j in
        if nj = 0 then merge_ranges rs i (j + 1)
        else if vi + ni = vj then merge_ranges (rs[i := (vi, ni + nj), j := (0, 0)]) i (i + 1)
        else if vj + nj = vi then merge_ranges (rs[i := (vj, ni + nj), j := (0, 0)]) i (i + 1)
        else merge_ranges rs i (j + 1))"
  by pat_completeness auto
termination
proof (relation "measures [\<lambda>(rs, i, j). length (filter (\<lambda>r. snd r \<noteq> 0) rs),
    \<lambda>(rs, i, j). length rs - i, \<lambda>(rs, i, j). length rs - j]", goal_cases)
  case (4 rs i j x vi ni y vj nj)
  then have "i \<noteq> j" by (metis add_eq_self_zero fst_conv prod.collapse snd_conv)
  moreover have "snd (rs ! j) = nj" using 4(5,6) by (metis snd_conv)
  ultimately show ?case using 4 merge_ranges_count [of i rs j "(vi, ni + nj)"] by (simp add: split_beta)
next
  case (5 rs i j x vi ni y vj nj)
  then have "i \<noteq> j" by (metis add_eq_self_zero fst_conv prod.collapse snd_conv)
  moreover have "snd (rs ! j) = nj" using 5(5,6) by (metis snd_conv)
  ultimately show ?case using 5 merge_ranges_count [of i rs j "(vj, ni + nj)"] by (simp add: split_beta)
qed auto

declare merge_ranges.simps [simp del]


definition dma_free_virt_range :: "vmm \<Rightarrow> nat \<Rightarrow> nat \<Rightarrow> vmm" where
  "dma_free_virt_range s virt sz =
     (if virt = 0 \<or> sz = 0 then s
      else s\<lparr>g_dma_free_ranges := merge_ranges (dma_insert (g_dma_free_ranges s) virt sz) 0 1\<rparr>)"

section \<open>Device memory\<close>

text \<open>The mapping loops: the index at which mapping failed is the result \<open>Some i\<close>.\<close>

fun map_pages :: "vmm \<Rightarrow> u64 \<Rightarrow> u64 \<Rightarrow> u64 \<Rightarrow> nat list \<Rightarrow> (nat option \<times> vmm) kresult" where
  "map_pages s virt phys flags [] = Done (None, s)"
| "map_pages s virt phys flags (i # is) =
     (case vmm_map_page_no_flush_in s (g_pml4 s) (virt + of_nat i * 0x1000) (phys + of_nat i * 0x1000) flags of
        Panic msg \<Rightarrow> Panic msg
      | Done (ok, s) \<Rightarrow> if ok then map_pages s virt phys flags is else Done (Some i, s))"

definition unmap_pages :: "vmm \<Rightarrow> u64 \<Rightarrow> nat \<Rightarrow> vmm" where
  "unmap_pages s virt n =
     foldl (\<lambda>s j. vmm_unmap_page_no_flush_in s (g_pml4 s) (virt + of_nat j * 0x1000)) s [0..<n]"

definition release_frames :: "vmm \<Rightarrow> nat \<Rightarrow> nat \<Rightarrow> vmm" where
  "release_frames s phys n = foldl (\<lambda>s j. release_frame s (phys + j * 4096)) s [0..<n]"

definition vmm_map_mmio :: "vmm \<Rightarrow> u64 \<Rightarrow> u64 \<Rightarrow> (u64 \<times> vmm) kresult" where
  "vmm_map_mmio s phys_addr sz =
     (let phys_page = phys_addr AND NOT OFFSET_4K; offset = unat (phys_addr AND OFFSET_4K) in
      if sz = 0 then Done (0, s)
      else if unat sz > 2 ^ 64 - 1 - offset \<or> unat sz + offset > 2 ^ 64 - 1 - 0xFFF then Done (0, s)
      else
        let pages = (unat sz + offset + 0xFFF) div 0x1000; map_size = pages * 0x1000 in
        if pages = 0 \<or> pages > (2 ^ 64 - 1) div 0x1000 then Done (0, s)
        else if map_size > MASSIVE_MAPPING_THRESHOLD
        then Panic ''vmm: sanity check failed: massive mmio mapping requested''
        else if g_mmio_next_virt s > g_mmio_limit_virt \<or> g_mmio_limit_virt - g_mmio_next_virt s < map_size
        then Panic ''vmm: mmio virtual address space exhausted''
        else
          case dma_alloc_virt_range s map_size of
            Panic msg \<Rightarrow> Panic msg
          | Done (virt_base, s) \<Rightarrow>
              (case map_pages s (of_nat virt_base) phys_page PTE_MMIO [0..<pages] of
                 Panic msg \<Rightarrow> Panic msg
               | Done (None, s) \<Rightarrow>
                   Done (of_nat virt_base + of_nat offset, vmm_invalidate_tlb_range s (of_nat virt_base) pages)
               | Done (Some i, s) \<Rightarrow>
                   let s = unmap_pages s (of_nat virt_base) i;
                       s = dma_free_virt_range s virt_base map_size
                   in Done (0, vmm_invalidate_tlb_range s (of_nat virt_base) i)))"

text \<open>A \<open>DMAAllocation\<close> is a triple of virtual address, physical address and size.\<close>

type_synonym DMAAllocation = "nat \<times> nat \<times> nat"

definition vmm_alloc_dma_with_flags :: "vmm \<Rightarrow> nat \<Rightarrow> u64 \<Rightarrow> (DMAAllocation \<times> vmm) kresult" where
  "vmm_alloc_dma_with_flags s pages flags =
     (if pages = 0 then Done ((0, 0, 0), s)
      else
        let (phys, f) = pmm_alloc_frames (frames s) pages; s = s\<lparr>frames := f\<rparr> in
        if phys = 0 then Done ((0, 0, 0), s)
        else if pages > (2 ^ 64 - 1) div 0x1000 then Done ((0, 0, 0), release_frames s phys pages)
        else
          case dma_alloc_virt_range s (pages * 0x1000) of
            Panic msg \<Rightarrow> Panic msg
          | Done (virt_base, s) \<Rightarrow>
              (case map_pages s (of_nat virt_base) (of_nat phys) flags [0..<pages] of
                 Panic msg \<Rightarrow> Panic msg
               | Done (None, s) \<Rightarrow>
                   Done ((virt_base, phys, pages * 0x1000), vmm_invalidate_tlb_range s (of_nat virt_base) pages)
               | Done (Some i, s) \<Rightarrow>
                   let s = unmap_pages s (of_nat virt_base) i;
                       s = release_frames s phys pages;
                       s = dma_free_virt_range s virt_base (pages * 0x1000)
                   in Done ((0, 0, 0), vmm_invalidate_tlb_range s (of_nat virt_base) i)))"

definition vmm_alloc_dma :: "vmm \<Rightarrow> nat \<Rightarrow> (DMAAllocation \<times> vmm) kresult" where
  "vmm_alloc_dma s pages = vmm_alloc_dma_with_flags s pages PTE_UC"

definition vmm_free_dma :: "vmm \<Rightarrow> DMAAllocation \<Rightarrow> vmm" where
  "vmm_free_dma s alloc =
     (let (virt, phys, sz) = alloc; pages = (sz + 4095) div 4096 in
      if sz = 0 then s
      else
        let s = unmap_pages s (of_nat virt) pages;
            s = release_frames s phys pages;
            s = dma_free_virt_range s virt sz
        in vmm_invalidate_tlb_range s (of_nat virt) pages)"

text \<open>The loop of \<open>vmm_remap_framebuffer\<close>; the result of the mapping is ignored.\<close>

fun remap_pages :: "vmm \<Rightarrow> u64 \<Rightarrow> nat list \<Rightarrow> vmm kresult" where
  "remap_pages s virt_start [] = Done s"
| "remap_pages s virt_start (i # is) =
     (let v = virt_start + of_nat i * 0x1000; phys = vmm_virt_to_phys s v;
          flags = PTE_PRESENT OR PTE_WRITABLE OR PTE_WC OR PTE_SHARED OR
                  (if has (tables s (g_pml4 s) (level_index 4 v)) PTE_USER then PTE_USER else 0)
      in if phys = 0 then remap_pages s virt_start is
         else case vmm_map_page_no_flush_in s (current_pml4 s) v (phys AND NOT OFFSET_4K) flags of
           Panic msg \<Rightarrow> Panic msg
         | Done (ok, s) \<Rightarrow> remap_pages s virt_start is)"

definition vmm_remap_framebuffer :: "vmm \<Rightarrow> u64 \<Rightarrow> u64 \<Rightarrow> vmm kresult" where
  "vmm_remap_framebuffer s virt_addr sz =
     (if sz = 0 then Done s
      else if unat virt_addr > 2 ^ 64 - 1 - unat sz \<or> unat virt_addr + unat sz > 2 ^ 64 - 1 - 0xFFF then Done s
      else
        let virt_start = virt_addr AND NOT OFFSET_4K; virt_end = (virt_addr + sz + 0xFFF) AND NOT OFFSET_4K in
        if virt_end < virt_start then Done s
        else
          let pages = unat (virt_end - virt_start) div 0x1000 in
          case remap_pages s virt_start [0..<pages] of
            Panic msg \<Rightarrow> Panic msg
          | Done s \<Rightarrow> Done (vmm_invalidate_tlb_range s virt_start pages))"

section \<open>Page faults\<close>

definition zero_frame :: "vmm \<Rightarrow> nat \<Rightarrow> vmm" where
  "zero_frame s p =
     s\<lparr>frames := (frames s)\<lparr>ram := \<lambda>a. if p \<le> a \<and> a < p + 4096 then 0 else ram (frames s) a\<rparr>\<rparr>"

definition copy_frame :: "vmm \<Rightarrow> nat \<Rightarrow> nat \<Rightarrow> vmm" where
  "copy_frame s dst src =
     s\<lparr>frames := (frames s)\<lparr>ram := \<lambda>a. if dst \<le> a \<and> a < dst + 4096 then ram (frames s) (src + (a - dst))
                                  else ram (frames s) a\<rparr>\<rparr>"

text \<open>
  The fault handler of the current process, whose areas are \<open>vma_list\<close> and whose table is \<open>curr_pml4\<close>.
\<close>

definition map_new_frame :: "vmm \<Rightarrow> nat \<Rightarrow> u64 \<Rightarrow> nat \<Rightarrow> u64 \<Rightarrow> (bool \<times> vmm) kresult" where
  "map_new_frame s pml4 page_vaddr new_frame map_flags =
     (case vmm_map_page_in s pml4 page_vaddr (of_nat new_frame) map_flags of
        Panic msg \<Rightarrow> Panic msg
      | Done (ok, s) \<Rightarrow> Done (ok, if ok then s else release_frame s new_frame))"

definition fault_absent :: "vmm \<Rightarrow> nat \<Rightarrow> u64 \<Rightarrow> u64 \<Rightarrow> (bool \<times> vmm) kresult" where
  "fault_absent s pml4 page_vaddr map_flags =
     (let (new_frame, f) = pmm_alloc_frame (frames s); s = s\<lparr>frames := f\<rparr> in
      if new_frame = 0 then Done (False, s)
      else case map_new_frame (zero_frame s new_frame) pml4 page_vaddr new_frame map_flags of
        Panic msg \<Rightarrow> Panic msg
      | Done (ok, s) \<Rightarrow> Done (ok, if ok then vmm_invalidate_tlb s page_vaddr else s))"

definition fault_present :: "vmm \<Rightarrow> nat \<Rightarrow> u64 \<Rightarrow> u64 \<Rightarrow> nat \<Rightarrow> (bool \<times> vmm) kresult" where
  "fault_present s pml4 page_vaddr map_flags phys =
     (if pmm_get_refcount (frames s) phys > 1 then
        (let (new_frame, f) = pmm_alloc_frame (frames s); s = s\<lparr>frames := f\<rparr> in
         if new_frame = 0 then Done (False, s)
         else case map_new_frame (copy_frame s new_frame phys) pml4 page_vaddr new_frame map_flags of
           Panic msg \<Rightarrow> Panic msg
         | Done (ok, s) \<Rightarrow>
             if ok
             then Done (True, vmm_invalidate_tlb (s\<lparr>frames := pmm_refcount_dec (frames s) phys\<rparr>) page_vaddr)
             else Done (False, s))
      else case vmm_map_page_in s pml4 page_vaddr (of_nat phys) map_flags of
        Panic msg \<Rightarrow> Panic msg
      | Done (ok, s) \<Rightarrow> Done (ok, if ok then vmm_invalidate_tlb s page_vaddr else s))"

definition vmm_handle_page_fault :: "vmm \<Rightarrow> VMA list \<Rightarrow> u64 \<Rightarrow> u64 \<Rightarrow> (bool \<times> vmm) kresult" where
  "vmm_handle_page_fault s vma_list fault_addr error_code =
     (let present_fault = has error_code 1; write_fault = has error_code 2 in
      case curr_pml4 s of
        None \<Rightarrow> Done (False, s)
      | Some pml4 \<Rightarrow>
          if vma_list = [] then Done (False, s)
          else if present_fault \<and> \<not> write_fault then Done (False, s)
          else if fault_addr \<ge> USER_TOP then Done (False, s)
          else
            (case vma_find vma_list (unat fault_addr) of
               None \<Rightarrow> Done (False, s)
             | Some vma \<Rightarrow>
                 let page_vaddr = fault_addr AND NOT OFFSET_4K;
                     map_flags = v_flags vma OR PTE_PRESENT OR (if page_vaddr < USER_TOP then PTE_USER else 0)
                 in if write_fault \<and> \<not> has (v_flags vma) PTE_WRITABLE then Done (False, s)
                    else
                      let phys = vmm_virt_to_phys_in s (Some pml4) page_vaddr in
                      if phys = 0 then fault_absent s pml4 page_vaddr map_flags
                      else if v_type vma = Shared then Done (True, vmm_set_page_flags s page_vaddr map_flags)
                      else fault_present s pml4 page_vaddr map_flags (unat phys)))"

end
