(* ===== verification/Vmm_Tables.thy ===== *)
theory Vmm_Tables
  imports Vmm "HOL-Library.Sublist"
begin

text \<open>
  Correctness of the page table operations of \<open>Vmm\<close>.  The tables below a root form a tree of allocated
  frames; walking, with the tables it adds and the huge pages it splits, keeps the tree and every
  translation, and the last write of an operation changes the translation of one page only.
\<close>

section \<open>Bits of entries and addresses\<close>

named_theorems pte_bits \<open>the bits of masks and entries\<close>

lemma has_exp: "has e (2 ^ n) \<longleftrightarrow> bit e n" for e :: u64
  by (simp add: has_def and_exp_eq_0_iff_not_bit)

lemma has_flags [pte_bits]:
  "has e PTE_PRESENT \<longleftrightarrow> bit e 0" "has e PTE_HUGE \<longleftrightarrow> bit e 7" "has e PTE_WRITABLE \<longleftrightarrow> bit e 1"
  "has e PTE_USER \<longleftrightarrow> bit e 2" "has e 0x1000 \<longleftrightarrow> bit e 12" 
  using has_exp [of e 0] has_exp [of e 7] has_exp [of e 1] has_exp [of e 2] has_exp [of e 12]
  by (simp_all add: PTE_PRESENT_def PTE_HUGE_def PTE_WRITABLE_def PTE_USER_def)

lemma mask_values:
  "ADDR_MASK = push_bit 12 (mask 40)" "ADDR_MASK_2M = push_bit 21 (mask 31)"
  "ADDR_MASK_1G = push_bit 30 (mask 22)" "OFFSET_4K = mask 12"
  "OFFSET_2M = mask 21" "OFFSET_1G = mask 30" "(0x1FF :: u64) = mask 9"
  by (simp_all add: ADDR_MASK_def ADDR_MASK_2M_def ADDR_MASK_1G_def OFFSET_4K_def OFFSET_2M_def
      OFFSET_1G_def mask_eq_exp_minus_1 push_bit_eq_mult)

lemma bit_masks [pte_bits]:
  "bit ADDR_MASK n \<longleftrightarrow> 12 \<le> n \<and> n < 52"
  "bit ADDR_MASK_2M n \<longleftrightarrow> 21 \<le> n \<and> n < 52"
  "bit ADDR_MASK_1G n \<longleftrightarrow> 30 \<le> n \<and> n < 52"
  "bit OFFSET_4K n \<longleftrightarrow> n < 12" "bit PTE_HUGE n \<longleftrightarrow> n = 7" "bit PTE_NX n \<longleftrightarrow> n = 63"
  "bit PTE_PRESENT n \<longleftrightarrow> n = 0" "bit PTE_WRITABLE n \<longleftrightarrow> n = 1" "bit PTE_USER n \<longleftrightarrow> n = 2"
proof -
  have e: "PTE_HUGE = 2 ^ 7" "PTE_NX = 2 ^ 63" "PTE_WRITABLE = 2 ^ 1" "PTE_USER = 2 ^ 2" "PTE_PRESENT = 2 ^ 0"
    by (simp_all add: PTE_HUGE_def PTE_NX_def PTE_WRITABLE_def PTE_USER_def PTE_PRESENT_def)
  have x: "bit (2 ^ k :: u64) n \<longleftrightarrow> n = k" if "k < 64" for k
    using that by (auto simp: bit_exp_iff)
  show "bit ADDR_MASK n \<longleftrightarrow> 12 \<le> n \<and> n < 52"
    "bit ADDR_MASK_2M n \<longleftrightarrow> 21 \<le> n \<and> n < 52"
    "bit ADDR_MASK_1G n \<longleftrightarrow> 30 \<le> n \<and> n < 52"
    "bit OFFSET_4K n \<longleftrightarrow> n < 12"
    unfolding mask_values by (auto simp: bit_simps)
  show "bit PTE_HUGE n \<longleftrightarrow> n = 7" "bit PTE_NX n \<longleftrightarrow> n = 63"
    "bit PTE_PRESENT n \<longleftrightarrow> n = 0" "bit PTE_WRITABLE n \<longleftrightarrow> n = 1" "bit PTE_USER n \<longleftrightarrow> n = 2"
    unfolding e using x [of 7] x [of 63] x [of 0] x [of 1] x [of 2] by simp_all
qed

lemma has_disj [pte_bits]: "bit (a OR b) n \<longleftrightarrow> bit a n \<or> bit b n" for a b :: u64
  by (simp add: bit_simps)

lemma level_index_less: "level_index level v < 512"
  by (simp add: level_index_def mask_values(7) take_bit_eq_mask [symmetric] unsigned_take_bit_eq
      take_bit_nat_less_exp [of 9, simplified])

text \<open>The entry that points to a table: its address, and flags outside the address bits.\<close>

lemma frame_bits:
  assumes "frame_ptr p" and "p div 4096 < 2 ^ 40"
  shows "bit (of_nat p :: u64) n \<Longrightarrow> 12 \<le> n \<and> n < 52"
proof -
  have p: "p = push_bit 12 (p div 4096)" using frame_ptr_eq [OF assms(1)] by (simp add: push_bit_eq_mult)
  assume b: "bit (of_nat p :: u64) n"
  then have b': "bit p n" by (simp add: bit_simps)
  then have "12 \<le> n" "bit (p div 4096) (n - 12)" by (subst (asm) p, simp add: bit_simps)+
  moreover have "take_bit 40 (p div 4096) = p div 4096"
    using assms(2) by (simp add: take_bit_nat_eq_self)
  then have "\<And>k. bit (p div 4096) k \<Longrightarrow> k < 40" by (metis bit_take_bit_iff)
  ultimately show "12 \<le> n \<and> n < 52" by fastforce
qed

lemma table_entry_phys:
  assumes "frame_ptr p" and "p div 4096 < 2 ^ 40" and "\<And>n. bit flags n \<Longrightarrow> n < 12 \<or> 52 \<le> n"
  shows "entry_phys (of_nat p OR flags) = p"
proof -
  have "(of_nat p OR flags) AND ADDR_MASK = (of_nat p :: u64)"
  proof (rule bit_word_eqI)
    fix n
    show "bit ((of_nat p OR flags) AND ADDR_MASK) n \<longleftrightarrow> bit (of_nat p :: u64) n"
      using frame_bits [OF assms(1,2), of n] assms(3) [of n] by (auto simp: bit_and_iff bit_or_iff bit_masks)
  qed
  moreover have "p < 2 ^ 64" using assms(2) by (simp add: div_less_iff_less_mult)
  ultimately show ?thesis by (simp add: entry_phys_def unat_of_nat_small)
qed


section \<open>Leaf entries\<close>

text \<open>What an entry that ends the walk at a level translates an address to.\<close>

definition leaf1 :: "u64 \<Rightarrow> u64 \<Rightarrow> u64" where
  "leaf1 e v = (if has e PTE_PRESENT then (e AND ADDR_MASK) + (v AND OFFSET_4K) else 0)"

definition leaf2 :: "u64 \<Rightarrow> u64 \<Rightarrow> u64" where
  "leaf2 e v = (if has e PTE_PRESENT then (e AND ADDR_MASK_2M) + (v AND OFFSET_2M) else 0)"

definition leaf3 :: "u64 \<Rightarrow> u64 \<Rightarrow> u64" where
  "leaf3 e v = (if has e PTE_PRESENT then (e AND ADDR_MASK_1G) + (v AND OFFSET_1G) else 0)"

lemma leaf_0 [simp]: "leaf1 0 v = 0" "leaf2 0 v = 0" "leaf3 0 v = 0"
  by (simp_all add: leaf1_def leaf2_def leaf3_def has_def)

lemma add_or: "(\<And>n. \<not> (bit a n \<and> bit b n)) \<Longrightarrow> a + b = a OR b" for a b :: u64
  by (rule disjunctive_add_eq_or) (auto intro!: bit_word_eqI simp: bit_simps)

lemma split_flags_bits: "bit (split_flags e) n \<Longrightarrow> n < 12 \<or> n = 63"
  by (auto simp: split_flags_def Let_def bit_or_iff bit_and_iff bit_not_iff bit_masks split: if_splits)

lemma split_flags_present: "bit (split_flags e) 0 \<longleftrightarrow> bit e 0"
  by (auto simp: split_flags_def Let_def bit_or_iff bit_and_iff bit_not_iff bit_masks)

lemma index_word: "of_nat (level_index level v) = take_bit 9 (drop_bit (12 + 9 * (level - 1)) v)"
  by (simp add: level_index_def mask_values(7) take_bit_eq_mask)

lemma index_bits:
  "bit (of_nat (level_index (Suc 0) v) * 0x1000 :: u64) n \<longleftrightarrow> 12 \<le> n \<and> n < 21 \<and> bit v n"
  "bit (of_nat (level_index 2 v) * 0x200000 :: u64) n \<longleftrightarrow> 21 \<le> n \<and> n < 30 \<and> bit v n"
proof -
  have e: "of_nat (level_index (Suc 0) v) * 0x1000 = push_bit 12 (take_bit 9 (drop_bit 12 v))"
    "of_nat (level_index 2 v) * 0x200000 = push_bit 21 (take_bit 9 (drop_bit 21 v))"
    by (simp_all add: index_word push_bit_eq_mult)
  show "bit (of_nat (level_index (Suc 0) v) * 0x1000 :: u64) n \<longleftrightarrow> 12 \<le> n \<and> n < 21 \<and> bit v n"
    "bit (of_nat (level_index 2 v) * 0x200000 :: u64) n \<longleftrightarrow> 21 \<le> n \<and> n < 30 \<and> bit v n"
    unfolding e by (auto simp: bit_simps dest: bit_imp_le_length)
qed

lemma low_bits [pte_bits]: 
  "bit OFFSET_2M n \<longleftrightarrow> n < 21" "bit OFFSET_1G n \<longleftrightarrow> n < 30"
  unfolding mask_values by (auto simp: bit_simps)

lemma split_entry_or:
  "split_entry e 2 (level_index (Suc 0) v) =
     (e AND ADDR_MASK_2M) OR of_nat (level_index (Suc 0) v) * 0x1000 OR split_flags e"
  "split_entry e 3 (level_index 2 v) =
     (e AND ADDR_MASK_1G) OR of_nat (level_index 2 v) * 0x200000 OR split_flags e OR PTE_HUGE"
  by (simp_all add: split_entry_def or.assoc
      add_or [of "e AND ADDR_MASK_2M"] add_or [of "e AND ADDR_MASK_1G"]
      bit_and_iff bit_masks index_bits)

lemma split_leaf2:
  assumes "has e PTE_PRESENT"
  shows "leaf1 (split_entry e 2 (level_index (Suc 0) v)) v = leaf2 e v"
proof -
  let ?s = "split_entry e 2 (level_index (Suc 0) v)"
  have "(?s AND ADDR_MASK) + (v AND OFFSET_4K) = (?s AND ADDR_MASK) OR (v AND OFFSET_4K)"
    by (rule add_or) (auto simp: bit_and_iff bit_masks)
  also have "\<dots> = (e AND ADDR_MASK_2M) OR (v AND OFFSET_2M)"
  proof (rule bit_word_eqI)
    fix n
    show "bit ((?s AND ADDR_MASK) OR (v AND OFFSET_4K)) n = bit ((e AND ADDR_MASK_2M) OR (v AND OFFSET_2M)) n"
      using split_flags_bits [of e n]
      by (auto simp: split_entry_or bit_and_iff bit_or_iff bit_masks index_bits low_bits)
  qed
  also have "\<dots> = (e AND ADDR_MASK_2M) + (v AND OFFSET_2M)"
    by (rule add_or [symmetric]) (auto simp: bit_and_iff bit_masks low_bits)
  finally show ?thesis
    using assms by (simp add: leaf1_def leaf2_def has_flags split_entry_or bit_or_iff split_flags_present)
qed

lemma split_leaf3:
  assumes "has e PTE_PRESENT"
  shows "leaf2 (split_entry e 3 (level_index 2 v)) v = leaf3 e v"
proof -
  let ?s = "split_entry e 3 (level_index 2 v)"
  have "(?s AND ADDR_MASK_2M) + (v AND OFFSET_2M) = (?s AND ADDR_MASK_2M) OR (v AND OFFSET_2M)"
    by (rule add_or) (auto simp: bit_and_iff bit_masks low_bits)
  also have "\<dots> = (e AND ADDR_MASK_1G) OR (v AND OFFSET_1G)"
  proof (rule bit_word_eqI)
    fix n
    show "bit ((?s AND ADDR_MASK_2M) OR (v AND OFFSET_2M)) n =
        bit ((e AND ADDR_MASK_1G) OR (v AND OFFSET_1G)) n"
      using split_flags_bits [of e n]
      by (auto simp: split_entry_or bit_and_iff bit_or_iff bit_masks index_bits low_bits)
  qed
  also have "\<dots> = (e AND ADDR_MASK_1G) + (v AND OFFSET_1G)"
    by (rule add_or [symmetric]) (auto simp: bit_and_iff bit_masks low_bits)
  finally show ?thesis
    using assms by (simp add: leaf2_def leaf3_def has_flags split_entry_or bit_or_iff split_flags_present)
qed


section \<open>The tree of tables\<close>

definition sub_table :: "vmm \<Rightarrow> nat \<Rightarrow> nat \<Rightarrow> nat option" where
  "sub_table s t i =
     (let e = tables s t i in if has e PTE_PRESENT \<and> \<not> has e PTE_HUGE then Some (entry_phys e) else None)"

fun table_at :: "vmm \<Rightarrow> nat \<Rightarrow> nat list \<Rightarrow> nat option" where
  "table_at s t [] = Some t"
| "table_at s t (i # is) = (case sub_table s t i of None \<Rightarrow> None | Some t' \<Rightarrow> table_at s t' is)"

definition is_path :: "nat list \<Rightarrow> bool" where
  "is_path p \<longleftrightarrow> length p \<le> 3 \<and> set p \<subseteq> {..<512}"

lemma table_at_snoc:
  "table_at s t (p @ [i]) = (case table_at s t p of None \<Rightarrow> None | Some u \<Rightarrow> sub_table s u i)"
  by (induction p arbitrary: t) (auto split: option.splits)

lemma is_path_snoc: "is_path (p @ [i]) \<Longrightarrow> is_path p \<and> i < 512"
  by (auto simp: is_path_def)

text \<open>
  The tables below \<open>root\<close> lie in distinct frames that are allocated, entries that are not present are
  zero, and the root holds no huge page.  Physical addresses have 52 bits.
\<close>

definition tables_wf :: "vmm \<Rightarrow> nat \<Rightarrow> bool" where
  "tables_wf s root \<longleftrightarrow>
     pmm_inv (frames s) \<and> (\<forall>f \<in> free_frames (frames s). f < 2 ^ 40) \<and>
     (\<forall>p t. is_path p \<and> table_at s root p = Some t \<longrightarrow> t mod 4096 = 0 \<and> t div 4096 \<notin> free_frames (frames s)) \<and>
     (\<forall>p q t. is_path p \<and> is_path q \<and> table_at s root p = Some t \<and> table_at s root q = Some t \<longrightarrow> p = q) \<and>
     (\<forall>p t i. length p < 3 \<and> is_path p \<and> table_at s root p = Some t \<and> i < 512 \<and>
        \<not> has (tables s t i) PTE_PRESENT \<longrightarrow> tables s t i = 0) \<and>
     (\<forall>i < 512. has (tables s root i) PTE_PRESENT \<longrightarrow> \<not> has (tables s root i) PTE_HUGE)"

lemma tables_wfD:
  assumes "tables_wf s root"
  shows "pmm_inv (frames s)" and "f \<in> free_frames (frames s) \<Longrightarrow> f < 2 ^ 40"
    and "is_path p \<Longrightarrow> table_at s root p = Some t \<Longrightarrow> t div 4096 \<notin> free_frames (frames s)"
    and "is_path p \<Longrightarrow> table_at s root p = Some t \<Longrightarrow> t mod 4096 = 0"
    and "is_path p \<Longrightarrow> is_path q \<Longrightarrow> table_at s root p = Some t \<Longrightarrow> table_at s root q = Some t \<Longrightarrow> p = q"
    and "is_path p \<Longrightarrow> length p < 3 \<Longrightarrow> table_at s root p = Some t \<Longrightarrow> i < 512 \<Longrightarrow>
      \<not> has (tables s t i) PTE_PRESENT \<Longrightarrow> tables s t i = 0"
    and "i < 512 \<Longrightarrow> has (tables s root i) PTE_PRESENT \<Longrightarrow> \<not> has (tables s root i) PTE_HUGE"
  using assms unfolding tables_wf_def by blast+

text \<open>Translation in terms of the tables on the way.\<close>

lemma virt_to_phys_table_at:
  assumes "has (tables s root (level_index 4 v)) PTE_PRESENT \<Longrightarrow> \<not> has (tables s root (level_index 4 v)) PTE_HUGE"
  shows "vmm_virt_to_phys_in s (Some root) v =
    (case table_at s root [level_index 4 v, level_index 3 v, level_index 2 v] of
       Some t \<Rightarrow> leaf1 (tables s t (level_index 1 v)) v
     | None \<Rightarrow>
         (case table_at s root [level_index 4 v, level_index 3 v] of
            Some t \<Rightarrow> leaf2 (tables s t (level_index 2 v)) v
          | None \<Rightarrow>
              (case table_at s root [level_index 4 v] of
                 Some t \<Rightarrow> leaf3 (tables s t (level_index 3 v)) v
               | None \<Rightarrow> 0)))"
  using assms
  by (auto simp: vmm_virt_to_phys_in_def sub_table_def leaf1_def leaf2_def leaf3_def Let_def)

lemma virt_to_phys_wf:
  assumes "tables_wf s root"
  shows "vmm_virt_to_phys_in s (Some root) v =
    (case table_at s root [level_index 4 v, level_index 3 v, level_index 2 v] of
       Some t \<Rightarrow> leaf1 (tables s t (level_index 1 v)) v
     | None \<Rightarrow>
         (case table_at s root [level_index 4 v, level_index 3 v] of
            Some t \<Rightarrow> leaf2 (tables s t (level_index 2 v)) v
          | None \<Rightarrow>
              (case table_at s root [level_index 4 v] of
                 Some t \<Rightarrow> leaf3 (tables s t (level_index 3 v)) v
               | None \<Rightarrow> 0)))"
  by (rule virt_to_phys_table_at) (rule tables_wfD(7) [OF assms level_index_less])

lemma is_path_indices:
  "is_path [level_index 4 v]" "is_path [level_index 4 v, level_index 3 v]"
  "is_path [level_index 4 v, level_index 3 v, level_index 2 v]"
  by (simp_all add: is_path_def level_index_less)

section \<open>Adding a table\<close>

text \<open>
  What both splitting and allocating do: a fresh frame \<open>nt\<close> gets the contents \<open>c\<close>, and the entry \<open>i\<close> of the
  table at \<open>p\<close>, which led nowhere, leads to it.
\<close>

definition grafts :: "vmm \<Rightarrow> nat \<Rightarrow> nat list \<Rightarrow> nat \<Rightarrow> nat \<Rightarrow> (nat \<Rightarrow> u64) \<Rightarrow> vmm \<Rightarrow> bool" where
  "grafts s root p i nt c s' \<longleftrightarrow>
     (\<exists>t e. table_at s root p = Some t \<and> sub_table s t i = None \<and>
        nt mod 4096 = 0 \<and> nt div 4096 \<in> free_frames (frames s) \<and>
        has e PTE_PRESENT \<and> \<not> has e PTE_HUGE \<and> entry_phys e = nt \<and>
        tables s' = (tables s)(nt := c, t := (tables s t)(i := e)))"

lemma graft_tables:
  assumes wf: "tables_wf s root" and g: "grafts s root p i nt c s'" and p: "is_path p"
    and q: "is_path q" "table_at s root q = Some u" "(q, j) \<noteq> (p, i)"
  shows "tables s' u j = tables s u j"
proof -
  obtain t e where t: "table_at s root p = Some t" "nt div 4096 \<in> free_frames (frames s)"
    "tables s' = (tables s)(nt := c, t := (tables s t)(i := e))"
    using g by (auto simp: grafts_def)
  have "u \<noteq> nt" using tables_wfD(3) [OF wf q(1,2)] t(2) by auto
  moreover have "u \<noteq> t \<or> j \<noteq> i" using tables_wfD(5) [OF wf q(1) p q(2)] t(1) q(3) by auto
  ultimately show ?thesis by (auto simp: t(3))
qed

lemma graft_other:
  assumes wf: "tables_wf s root" and g: "grafts s root p i nt c s'" and p: "is_path p"
  shows "is_path q \<Longrightarrow> \<not> prefix (p @ [i]) q \<Longrightarrow> table_at s' root q = table_at s root q"
proof (induction q rule: rev_induct)
  case (snoc j q)
  have q: "is_path q" using is_path_snoc [OF snoc.prems(1)] by simp
  have np: "\<not> prefix (p @ [i]) q" using snoc.prems(2) by auto
  have ne: "(q, j) \<noteq> (p, i)" using snoc.prems(2) by auto
  show ?case
    using snoc.IH [OF q np] graft_tables [OF wf g p q _ ne]
    by (auto simp: table_at_snoc sub_table_def split: option.splits)
qed simp

lemma graft_new:
  assumes wf: "tables_wf s root" and g: "grafts s root p i nt c s'" and p: "is_path (p @ [i])"
  shows "table_at s' root (p @ [i]) = Some nt" and "tables s' nt = c"
proof -
  obtain t e where t: "table_at s root p = Some t" "nt div 4096 \<in> free_frames (frames s)"
    "has e PTE_PRESENT" "\<not> has e PTE_HUGE" "entry_phys e = nt"
    "tables s' = (tables s)(nt := c, t := (tables s t)(i := e))"
    using g by (auto simp: grafts_def)
  have pp: "is_path p" using is_path_snoc [OF p] by simp
  have "table_at s' root p = Some t" using graft_other [OF wf g pp pp] t(1) by simp
  then show "table_at s' root (p @ [i]) = Some nt"
    by (simp add: table_at_snoc sub_table_def t)
  have "t \<noteq> nt" using tables_wfD(3) [OF wf pp t(1)] t(2) by auto
  then show "tables s' nt = c" by (simp add: t(6))
qed


lemma table_at_append:
  "table_at s t (p @ q) = (case table_at s t p of None \<Rightarrow> None | Some u \<Rightarrow> table_at s u q)"
  by (induction p arbitrary: t) (auto split: option.splits)

text \<open>The contents of a new table lead to no further table, unless they are those of a page table.\<close>

definition leads_nowhere :: "(nat \<Rightarrow> u64) \<Rightarrow> bool" where
  "leads_nowhere c \<longleftrightarrow> (\<forall>j. c j = 0 \<or> has (c j) PTE_PRESENT \<and> has (c j) PTE_HUGE)"

lemma graft_table_at:
  assumes wf: "tables_wf s root" and g: "grafts s root p i nt c s'" and p: "is_path (p @ [i])"
    and c: "length p < 2 \<longrightarrow> leads_nowhere c" and q: "is_path q"
  shows "table_at s' root q = (if q = p @ [i] then Some nt else table_at s root q)"
proof -
  have pp: "is_path p" using is_path_snoc [OF p] by simp
  have old: "table_at s root (p @ [i]) = None"
    using g by (auto simp: grafts_def table_at_snoc)
  consider "\<not> prefix (p @ [i]) q" | "q = p @ [i]" | j r where "q = (p @ [i]) @ j # r"
    by (metis append_Nil2 neq_Nil_conv prefix_def)
  then show ?thesis
  proof cases
    case 1
    then show ?thesis using graft_other [OF wf g pp q] by auto
  next
    case 2
    then show ?thesis using graft_new [OF wf g p] by simp
  next
    case 3
    then have "leads_nowhere c" using q c by (simp add: is_path_def)
    then have "sub_table s' nt j = None"
      using graft_new(2) [OF wf g p] by (auto simp: leads_nowhere_def sub_table_def has_def dest: spec [of _ j])
    then have "table_at s' root q = None"
      unfolding 3 table_at_append [of s' root "p @ [i]"] graft_new(1) [OF wf g p] by simp
    moreover have "table_at s root q = None" unfolding 3 table_at_append [of s root "p @ [i]"] old by simp
    ultimately show ?thesis by (simp add: 3)
  qed
qed

lemma graft_wf:
  assumes wf: "tables_wf s root" and g: "grafts s root p i nt c s'" and p: "is_path (p @ [i])"
    and c: "length p < 2 \<longrightarrow> leads_nowhere c"
    and f: "pmm_inv (frames s')" "free_frames (frames s') = free_frames (frames s) - {nt div 4096}"
  shows "tables_wf s' root"
proof -
  note at = graft_table_at [OF wf g p c]
  obtain t e where t: "table_at s root p = Some t" "sub_table s t i = None" "nt mod 4096 = 0"
    "nt div 4096 \<in> free_frames (frames s)" "has e PTE_PRESENT" "\<not> has e PTE_HUGE"
    "tables s' = (tables s)(nt := c, t := (tables s t)(i := e))"
    using g by (auto simp: grafts_def)
  have pp: "is_path p" using is_path_snoc [OF p] by simp
  have tnt: "t \<noteq> nt" using tables_wfD(3) [OF wf pp t(1)] t(4) by auto
  have entry: "tables s' u j = tables s u j \<or> has (tables s' u j) PTE_PRESENT \<and> \<not> has (tables s' u j) PTE_HUGE"
    if "is_path q" "table_at s root q = Some u" for q u j
    using graft_tables [OF wf g pp that, of j] t(1,5,6,7) that(2) tnt by (cases "(q, j) = (p, i)") auto
  have "t' mod 4096 = 0 \<and> t' div 4096 \<notin> free_frames (frames s')"
    if "is_path q" "table_at s' root q = Some t'" for q t'
    using that at [OF that(1)] tables_wfD(3,4) [OF wf that(1)] t(3) f(2) by (auto split: if_splits)
  moreover have "q = q'"
    if "is_path q" "is_path q'" "table_at s' root q = Some t'" "table_at s' root q' = Some t'" for q q' t'
    using that at [OF that(1)] at [OF that(2)] tables_wfD(5) [OF wf that(1,2)]
      tables_wfD(3) [OF wf that(1)] tables_wfD(3) [OF wf that(2)] t(4) by (auto split: if_splits)
  moreover have "tables s' t' j = 0"
    if "length q < 3" "is_path q" "table_at s' root q = Some t'" "j < 512" "\<not> has (tables s' t' j) PTE_PRESENT"
    for q t' j
  proof (cases "q = p @ [i]")
    case True
    then have "t' = nt" "leads_nowhere c" using that at [OF that(2)] c by auto
    then show ?thesis using that(5) graft_new(2) [OF wf g p] by (auto simp: leads_nowhere_def)
  next
    case False
    then have "table_at s root q = Some t'" using that at [OF that(2)] by simp
    then show ?thesis using entry [OF that(2), of t' j] that tables_wfD(6) [OF wf that(2,1)] by auto
  qed
  moreover have "\<not> has (tables s' root j) PTE_HUGE" if "j < 512" "has (tables s' root j) PTE_PRESENT" for j
    using entry [of "[]" root j] that tables_wfD(7) [OF wf that(1)] by (auto simp: is_path_def)
  moreover have "\<forall>x \<in> free_frames (frames s'). x < 2 ^ 40"
    using tables_wfD(2) [OF wf] f(2) by auto
  ultimately show ?thesis unfolding tables_wf_def using f(1) by blast
qed

text \<open>
  No translation changes when the new entries stand for what the old entry stood for.
\<close>

definition leaf_at :: "nat \<Rightarrow> u64 \<Rightarrow> u64 \<Rightarrow> u64" where
  "leaf_at n e v = (if n = 0 then 0 else if n = 1 then leaf3 e v else if n = 2 then leaf2 e v else leaf1 e v)"

lemma graft_virt_to_phys:
  assumes wf: "tables_wf s root" and g: "grafts s root p i nt c s'" and p: "is_path (p @ [i])"
    and c: "length p < 2 \<longrightarrow> leads_nowhere c"
    and wf': "tables_wf s' root" and t: "table_at s root p = Some t"
    and leaf: "\<And>v. leaf_at (Suc (length p)) (c (level_index (3 - length p) v)) v = leaf_at (length p) (tables s t i) v"
  shows "vmm_virt_to_phys_in s' (Some root) v = vmm_virt_to_phys_in s (Some root) v"
proof -
  let ?a = "level_index 4 v" and ?b = "level_index 3 v" and ?c = "level_index 2 v" and ?d = "level_index 1 v"
  have pp: "is_path p" using is_path_snoc [OF p] by simp
  note at = graft_table_at [OF wf g p c]
  note tab = graft_tables [OF wf g pp]
  note ip = is_path_indices [of v]
  have old: "table_at s root (p @ [i]) = None" using g by (auto simp: grafts_def table_at_snoc)
  note x = virt_to_phys_wf [of _ root v]
  have new: "tables s' nt = c" by (rule graft_new(2) [OF wf g p])
  consider "p = []" "i = ?a" | "p = [?a]" "i = ?b" | "p = [?a, ?b]" "i = ?c"
    | "p @ [i] \<noteq> [?a]" "p @ [i] \<noteq> [?a, ?b]" "p @ [i] \<noteq> [?a, ?b, ?c]" by force
  then show ?thesis
  proof cases
    case 1
    then show ?thesis unfolding x [OF wf] x [OF wf'] at [OF ip(1)] at [OF ip(2)] at [OF ip(3)]
      using old leaf [of v] new by (auto simp: leaf_at_def split: option.splits)
  next
    case 2
    then show ?thesis unfolding x [OF wf] x [OF wf'] at [OF ip(1)] at [OF ip(2)] at [OF ip(3)]
      using old leaf [of v] new t by (auto simp: leaf_at_def split: option.splits)
  next
    case 3
    then show ?thesis unfolding x [OF wf] x [OF wf'] at [OF ip(1)] at [OF ip(2)] at [OF ip(3)]
      using old leaf [of v] new t by (auto simp: leaf_at_def split: option.splits)
  next
    case 4
    have long: "p \<noteq> [?a, ?b, ?c]" using p by (auto simp: is_path_def)
    have "tables s' u ?d = tables s u ?d" if "table_at s root [?a, ?b, ?c] = Some u" for u
      using tab [OF ip(3) that, of ?d] long by auto
    moreover have "tables s' u ?c = tables s u ?c" if "table_at s root [?a, ?b] = Some u" for u
      using tab [OF ip(2) that, of ?c] 4 by auto
    moreover have "tables s' u ?b = tables s u ?b" if "table_at s root [?a] = Some u" for u
      using tab [OF ip(1) that, of ?b] 4 by auto
    ultimately show ?thesis
      unfolding x [OF wf] x [OF wf'] at [OF ip(1)] at [OF ip(2)] at [OF ip(3)]
      using 4 by (auto split: option.splits)
  qed
qed


section \<open>Walking\<close>

text \<open>
  Frames are only taken, at most \<open>k\<close> of them: what is allocated keeps its count and its bytes.
\<close>

definition takes :: "pmm \<Rightarrow> pmm \<Rightarrow> nat \<Rightarrow> bool" where
  "takes f f' k \<longleftrightarrow>
     pmm_inv f' \<and> free_frames f' \<subseteq> free_frames f \<and> card (free_frames f) \<le> card (free_frames f') + k \<and>
     (\<forall>x. x \<notin> free_frames f \<longrightarrow> pmm_refs f' x = pmm_refs f x) \<and>
     (\<forall>a. a div 4096 \<notin> free_frames f \<longrightarrow> ram f' a = ram f a)"

lemma takes_refl: "pmm_inv f \<Longrightarrow> takes f f k"
  by (simp add: takes_def)

lemma takes_trans:
  assumes "takes f f' j" and "takes f' f'' k"
  shows "takes f f'' (j + k)"
proof -
  have "free_frames f'' \<subseteq> free_frames f" "card (free_frames f) \<le> card (free_frames f'') + (j + k)"
    using assms by (auto simp: takes_def)
  moreover have "x \<notin> free_frames f'" if "x \<notin> free_frames f" for x using that assms(1) by (auto simp: takes_def)
  ultimately show ?thesis using assms by (simp add: takes_def)
qed

lemma in_frame: "p = k * 4096 \<Longrightarrow> p \<le> a \<and> a < p + 4096 \<longleftrightarrow> a div 4096 = k" for p a k :: nat
proof -
  assume p: "p = k * 4096"
  have "a div 4096 = k \<longleftrightarrow> k \<le> a div 4096 \<and> a div 4096 < Suc k" by auto
  then show ?thesis by (simp add: p add.commute less_eq_div_iff_mult_less_eq div_less_iff_less_mult)
qed

lemma alloc_takes:
  assumes inv: "pmm_inv f" and al: "pmm_alloc_frame f = (p, f')"
  shows "takes f f' 1"
proof -
  note T = pmm_alloc_frame_taken [OF inv al]
  have "ram f' a = ram f a" if a: "a div 4096 \<notin> free_frames f" for a
    using inv
  proof (cases rule: pmm_alloc_frame_spec)
    case (none h)
    then show ?thesis using al by auto
  next
    case (some i bm)
    then have "ram f' = zero_memory (ram f) (i * 4096) 4096" using al by auto
    moreover have "a div 4096 \<noteq> i" using a some(1) by auto
    ultimately show ?thesis using in_frame [OF refl, of i a] by (auto simp: zero_memory_def)
  qed
  moreover have "card (free_frames f) \<le> card (free_frames f') + 1"
    using T(2,4) by (cases "p = 0") (simp_all add: card_Suc_Diff1)
  moreover have "free_frames f' \<subseteq> free_frames f" "\<forall>x. x \<notin> free_frames f \<longrightarrow> pmm_refs f' x = pmm_refs f x"
    using T(2,4) by (cases "p = 0"; auto)+
  ultimately show ?thesis using T(1) by (simp add: takes_def)
qed

definition keeps :: "vmm \<Rightarrow> nat \<Rightarrow> vmm \<Rightarrow> nat \<Rightarrow> bool" where
  "keeps s root s' k \<longleftrightarrow>
     tables_wf s' root \<and> takes (frames s) (frames s') k \<and>
     (\<forall>v. vmm_virt_to_phys_in s' (Some root) v = vmm_virt_to_phys_in s (Some root) v) \<and>
     (\<forall>p t. is_path p \<and> table_at s root p = Some t \<longrightarrow> table_at s' root p = Some t) \<and>
     g_pml4 s' = g_pml4 s \<and> curr_pml4 s' = curr_pml4 s"

lemma vm_keeps_trans: "keeps s root s' j \<Longrightarrow> keeps s' root s'' k \<Longrightarrow> keeps s root s'' (j + k)"
  unfolding keeps_def using takes_trans [of "frames s" "frames s'" j "frames s''" k] by auto


lemma alloc_table_cases:
  assumes wf: "tables_wf s root" and al: "alloc_table s = (r, s1)"
  obtains (none) "r = None" "free_frames (frames s) = {}" "tables s1 = tables s" "g_pml4 s1 = g_pml4 s" "curr_pml4 s1 = curr_pml4 s"
      "takes (frames s) (frames s1) 1" "free_frames (frames s1) = {}"
  | (some) nt where "r = Some nt" "tables s1 = (tables s)(nt := \<lambda>_. 0)" "g_pml4 s1 = g_pml4 s" "curr_pml4 s1 = curr_pml4 s"
      "frame_ptr nt" "nt div 4096 \<in> free_frames (frames s)" "nt div 4096 < 2 ^ 40"
      "free_frames (frames s1) = free_frames (frames s) - {nt div 4096}" "takes (frames s) (frames s1) 1"
proof -
  obtain p f where pf: "pmm_alloc_frame (frames s) = (p, f)" by fastforce
  note inv = tables_wfD(1) [OF wf]
  note T = pmm_alloc_frame_taken [OF inv pf] alloc_takes [OF inv pf]
  show thesis
  proof (cases "p = 0")
    case True
    then have "r = None" "s1 = s\<lparr>frames := f\<rparr>" using al pf by (auto simp: alloc_table_def)
    then show ?thesis using T True by (intro none) auto
  next
    case False
    then have "r = Some p" "s1 = s\<lparr>frames := f, tables := (tables s)(p := \<lambda>_. 0)\<rparr>"
      using al pf by (auto simp: alloc_table_def zero_table_def)
    then show ?thesis using T False tables_wfD(2) [OF wf] by (intro some) auto
  qed
qed

text \<open>A frame taken and a table grafted in it: the state is kept.\<close>

lemma keeps_graft:
  assumes wf: "tables_wf s root" and g: "grafts s root p i nt c s'" and p: "is_path (p @ [i])"
    and c: "length p < 2 \<longrightarrow> leads_nowhere c"
    and f: "takes (frames s) (frames s') 1" "free_frames (frames s') = free_frames (frames s) - {nt div 4096}"
    and t: "table_at s root p = Some t"
    and leaf: "\<And>v. leaf_at (Suc (length p)) (c (level_index (3 - length p) v)) v = leaf_at (length p) (tables s t i) v"
    and o: "g_pml4 s' = g_pml4 s" "curr_pml4 s' = curr_pml4 s"
  shows "keeps s root s' 1" and "table_at s' root (p @ [i]) = Some nt"
proof -
  have inv: "pmm_inv (frames s')" using f(1) by (simp add: takes_def)
  have wf': "tables_wf s' root" by (rule graft_wf [OF wf g p c inv f(2)])
  have old: "table_at s root (p @ [i]) = None" using g by (auto simp: grafts_def table_at_snoc)
  show "keeps s root s' 1"
    using graft_virt_to_phys [OF wf g p c wf' t leaf] graft_table_at [OF wf g p c] wf' f(1) o old
    by (auto simp: keeps_def)
  show "table_at s' root (p @ [i]) = Some nt" by (rule graft_new(1) [OF wf g p])
qed

text \<open>Only the allocator and the record of the translation buffers change.\<close>

lemma table_at_cong: "tables s' = tables s \<Longrightarrow> table_at s' root p = table_at s root p"
  by (induction p arbitrary: root) (auto simp: sub_table_def split: option.splits)

lemma keeps_frames:
  assumes wf: "tables_wf s root" and t: "tables s' = tables s" and f: "takes (frames s) (frames s') k"
    and o: "g_pml4 s' = g_pml4 s" "curr_pml4 s' = curr_pml4 s"
  shows "keeps s root s' k"
proof -
  have "tables_wf s' root"
    using wf f unfolding tables_wf_def takes_def table_at_cong [OF t] t by blast
  moreover have "vmm_virt_to_phys_in s' (Some root) v = vmm_virt_to_phys_in s (Some root) v" for v
    unfolding vmm_virt_to_phys_in_def t by simp
  ultimately show ?thesis using f o by (simp add: keeps_def table_at_cong [OF t])
qed

lemma split_nowhere: "bit e 0 \<Longrightarrow> leads_nowhere (\<lambda>i. if i < 512 then split_entry e 3 i else 0)"
  by (auto simp: leads_nowhere_def split_entry_def has_flags bit_or_iff bit_masks split_flags_present)

lemma split_huge_page_keeps:
  assumes wf: "tables_wf s root" and t: "table_at s root p = Some t" and p: "is_path (p @ [i])"
    and e: "has (tables s t i) PTE_PRESENT" "has (tables s t i) PTE_HUGE"
    and r: "split_huge_page s t i (4 - length p) = (ok, s')"
  shows "keeps s root s' 1" and "ok \<Longrightarrow> table_at s' root (p @ [i]) = Some (entry_phys (tables s' t i))"
    and "\<not> ok \<Longrightarrow> free_frames (frames s) = {}"
proof -
  let ?e = "tables s t i"
  have i: "i < 512" "length p \<le> 2" using p by (auto simp: is_path_def)
  have p0: "p \<noteq> []" using tables_wfD(7) [OF wf i(1)] t e by auto
  then have "0 < length p" by simp
  with i(2) have lev: "length p = 1 \<or> length p = 2" by linarith
  have pp: "is_path p" using is_path_snoc [OF p] by simp
  obtain q s1 where al: "alloc_table s = (q, s1)" by fastforce
  from wf al have "keeps s root s' 1 \<and> (ok \<longrightarrow> table_at s' root (p @ [i]) = Some (entry_phys (tables s' t i))) \<and>
    (\<not> ok \<longrightarrow> free_frames (frames s) = {})"
  proof (cases rule: alloc_table_cases)
    case none
    then have "s' = s1" "\<not> ok" using r e al by (auto simp: split_huge_page_def)
    moreover have "keeps s root s1 1"
      by (rule keeps_frames [OF wf none(3,6,4,5)])
    ultimately show ?thesis using none(2) by simp
  next
    case (some nt)
    let ?c = "\<lambda>i. if i < 512 then split_entry ?e (4 - length p) i else 0"
    let ?f = "of_nat nt OR (split_flags ?e AND NOT PTE_HUGE)"
    have "t \<noteq> nt" using tables_wfD(3) [OF wf pp t] some(6) by auto
    then have ok: "ok" "frames s' = frames s1" "tables s' = (tables s)(nt := ?c, t := (tables s t)(i := ?f))"
      "g_pml4 s' = g_pml4 s" "curr_pml4 s' = curr_pml4 s"
      using r e al some(1-4) lev by (auto simp: split_huge_page_def log_tlb_def set_entry_def Let_def fun_eq_iff)
    have "n < 12 \<or> 52 \<le> n" if "bit (split_flags ?e AND NOT PTE_HUGE) n" for n
      using that split_flags_bits [of ?e n] by (auto simp: bit_and_iff)
    then have ff: "entry_phys ?f = nt" by (rule table_entry_phys [OF some(5,7)])
    have "bit ?f 0" "\<not> bit ?f 7"
      using frame_bits [OF some(5,7), of 7] e(1)
      by (auto simp: bit_and_iff bit_or_iff bit_not_iff bit_masks split_flags_present has_flags)
    with ff have g: "grafts s root p i nt ?c s'"
      using t e ok(3) some(5,6) by (auto simp: grafts_def sub_table_def has_flags frame_ptr_def)
    have "length p < 2 \<longrightarrow> leads_nowhere ?c"
      using lev split_nowhere [of ?e] e(1) by (auto simp: has_flags cong del: if_weak_cong)
    moreover have "leaf_at (Suc (length p)) (?c (level_index (3 - length p) v)) v = leaf_at (length p) ?e v" for v
      using lev split_leaf2 [OF e(1)] split_leaf3 [OF e(1)] by (auto simp: leaf_at_def level_index_less)
    ultimately have "keeps s root s' 1" "table_at s' root (p @ [i]) = Some nt"
      using keeps_graft [OF wf g p _ _ _ t _ ok(4,5)] some(8,9) ok(2) by auto
    then show ?thesis using ok(1,3) ff by simp
  qed
  then show "keeps s root s' 1" and "ok \<Longrightarrow> table_at s' root (p @ [i]) = Some (entry_phys (tables s' t i))"
    and "\<not> ok \<Longrightarrow> free_frames (frames s) = {}" by blast+
qed


lemma fresh_entry:
  assumes "frame_ptr nt" and "nt div 4096 < 2 ^ 40" and "flags = PTE_PRESENT OR PTE_WRITABLE OR u" "u = PTE_USER \<or> u = 0"
  shows "entry_phys (of_nat nt OR flags) = nt" "bit (of_nat nt OR flags :: u64) 0" "\<not> bit (of_nat nt OR flags :: u64) 7"
proof -
  have b: "n < 3" if "bit flags n" for n
    using that assms(3,4) by (auto simp: bit_or_iff bit_masks)
  show "entry_phys (of_nat nt OR flags) = nt"
    by (rule table_entry_phys [OF assms(1,2)]) (use b in fastforce)
  show "bit (of_nat nt OR flags :: u64) 0" by (simp add: assms(3) bit_or_iff bit_masks)
  show "\<not> bit (of_nat nt OR flags :: u64) 7"
    using frame_bits [OF assms(1,2), of 7] b [of 7] by (auto simp: bit_or_iff)
qed

lemma get_next_level_keeps:
  assumes wf: "tables_wf s root" and t: "table_at s root p = Some t" and p: "is_path (p @ [i])"
    and r: "get_next_level s t i (4 - length p) alloc virt = (res, s')"
  shows "keeps s root s' 1 \<and> (\<forall>u. res = Some u \<longrightarrow> table_at s' root (p @ [i]) = Some u) \<and>
    (res = None \<longrightarrow> free_frames (frames s) = {} \<or> \<not> alloc \<and> s' = s \<and> \<not> has (tables s t i) PTE_PRESENT)"
proof -
  let ?e = "tables s t i"
  have pp: "is_path p" "i < 512" using is_path_snoc [OF p] by auto
  have self: "keeps s root s 1" using keeps_frames [OF wf refl takes_refl] tables_wfD(1) [OF wf] by simp
  consider (there) "has ?e PTE_PRESENT" "\<not> has ?e PTE_HUGE" | (huge) "has ?e PTE_PRESENT" "has ?e PTE_HUGE"
    | (absent) "\<not> has ?e PTE_PRESENT" "\<not> alloc" | (fresh) "\<not> has ?e PTE_PRESENT" alloc by blast
  then show ?thesis
  proof cases
    case there
    then have "res = Some (entry_phys ?e)" "s' = s" using r by (auto simp: get_next_level_def)
    then show ?thesis using there self t by (simp add: table_at_snoc sub_table_def)
  next
    case huge
    obtain ok s1 where sp: "split_huge_page s t i (4 - length p) = (ok, s1)" by fastforce
    then have "s' = s1" "res = (if ok then Some (entry_phys (tables s' t i)) else None)"
      using r huge by (auto simp: get_next_level_def split: bool.splits)
    then show ?thesis using split_huge_page_keeps [OF wf t p huge sp] by auto
  next
    case absent
    then show ?thesis using r self by (auto simp: get_next_level_def)
  next
    case fresh
    have e0: "?e = 0" using tables_wfD(6) [OF wf pp(1) _ t pp(2)] fresh p by (simp add: is_path_def)
    obtain q s1 where al: "alloc_table s = (q, s1)" by fastforce
    from wf al show ?thesis
    proof (cases rule: alloc_table_cases)
      case none
      then have "s' = s1" "res = None" using r fresh al by (auto simp: get_next_level_def)
      then show ?thesis using none(2) keeps_frames [OF wf none(3,6,4,5)] by simp
    next
      case (some nt)
      define u where "u = (if virt < USER_TOP then PTE_USER else 0)"
      let ?f = "of_nat nt OR (PTE_PRESENT OR PTE_WRITABLE OR u)"
      have u: "u = PTE_USER \<or> u = 0" by (simp add: u_def)
      note ff = fresh_entry [OF some(5,7) refl u]
      have "t \<noteq> nt" using tables_wfD(3) [OF wf pp(1) t] some(6) by auto
      then have s': "res = Some nt" "frames s' = frames s1"
        "tables s' = (tables s)(nt := \<lambda>_. 0, t := (tables s t)(i := ?f))"
        "g_pml4 s' = g_pml4 s" "curr_pml4 s' = curr_pml4 s"
        using r fresh al some(1-4) e0
        by (auto simp: get_next_level_def set_entry_def Let_def fun_eq_iff u_def)
      have g: "grafts s root p i nt (\<lambda>_. 0) s'"
        using t s'(3) some(5,6) ff fresh(1) by (auto simp: grafts_def sub_table_def has_flags frame_ptr_def)
      have "keeps s root s' 1" "table_at s' root (p @ [i]) = Some nt"
        using keeps_graft [OF wf g p _ _ _ t _ s'(4,5)] some(8,9) s'(2) e0
        by (auto simp: leads_nowhere_def leaf_at_def)
      then show ?thesis using s'(1) by simp
    qed
  qed
qed

text \<open>
  The whole walk: it takes at most three frames, and ends without a page table only when frames run out,
  or when no table is asked for and the page is not mapped.
\<close>

lemma keeps_wf: "keeps s root s' k \<Longrightarrow> tables_wf s' root"
  by (simp add: keeps_def)

lemma keeps_at: "keeps s root s' k \<Longrightarrow> is_path p \<Longrightarrow> table_at s root p = Some t \<Longrightarrow> table_at s' root p = Some t"
  by (simp add: keeps_def)

lemma keeps_card: "keeps s root s' k \<Longrightarrow> card (free_frames (frames s)) \<le> card (free_frames (frames s')) + k"
  by (simp add: keeps_def takes_def)

lemma keeps_mono: "keeps s root s' j \<Longrightarrow> j \<le> k \<Longrightarrow> keeps s root s' k"
  by (auto simp: keeps_def takes_def)

lemma keeps_virt_to_phys:
  "keeps s root s' k \<Longrightarrow> vmm_virt_to_phys_in s' (Some root) v = vmm_virt_to_phys_in s (Some root) v"
  by (simp add: keeps_def)

definition indices :: "u64 \<Rightarrow> nat list" where
  "indices v = [level_index 4 v, level_index 3 v, level_index 2 v, level_index 1 v]"

lemma absent_untranslated:
  assumes wf: "tables_wf s root" and p: "p @ i # r = [level_index 4 v, level_index 3 v, level_index 2 v]"
    and t: "table_at s root p = Some t" and e: "\<not> has (tables s t i) PTE_PRESENT" and w: "indices w = indices v"
  shows "vmm_virt_to_phys_in s (Some root) w = 0"
proof -
  consider "p = []" "i = level_index 4 w" | "p = [level_index 4 w]" "i = level_index 3 w"
    | "p = [level_index 4 w, level_index 3 w]" "i = level_index 2 w"
    using p w by (auto simp: Cons_eq_append_conv append_eq_Cons_conv indices_def)
  then show ?thesis
    using t e virt_to_phys_wf [OF wf, of w]
    by cases (auto simp: sub_table_def leaf2_def leaf3_def Let_def split: option.splits if_splits)
qed

lemma walk_keeps:
  assumes wf: "tables_wf s root" and w: "walk s root alloc v = (res, s')"
  shows "keeps s root s' 3 \<and>
    (\<forall>u. res = Some u \<longrightarrow> table_at s' root [level_index 4 v, level_index 3 v, level_index 2 v] = Some u) \<and>
    (res = None \<longrightarrow> card (free_frames (frames s)) < 3 \<or>
       \<not> alloc \<and> (\<forall>w. indices w = indices v \<longrightarrow> vmm_virt_to_phys_in s (Some root) w = 0))"
proof -
  let ?a = "level_index 4 v" and ?b = "level_index 3 v" and ?c = "level_index 2 v"
  note ip = is_path_indices [of v]
  obtain r1 s1 where g1: "get_next_level s root ?a 4 alloc v = (r1, s1)" by fastforce
  note N1 = get_next_level_keeps [OF wf table_at.simps(1), of ?a alloc v r1 s1, simplified, OF ip(1) g1]
  show ?thesis
  proof (cases r1)
    case None
    then have "res = None" "s' = s1" using w g1 by (auto simp: walk_def)
    then show ?thesis
      using N1 None keeps_mono absent_untranslated [OF wf, of "[]" ?a "[?b, ?c]"] by auto
  next
    case (Some t3)
    then have k1: "keeps s root s1 1" and t3: "table_at s1 root [?a] = Some t3" using N1 by auto
    obtain r2 s2 where g2: "get_next_level s1 t3 ?b 3 alloc v = (r2, s2)" by fastforce
    note N2 = get_next_level_keeps [OF keeps_wf [OF k1] t3, of ?b alloc v r2 s2, simplified, OF ip(2) g2]
    show ?thesis
    proof (cases r2)
      case None
      then have s': "res = None" "s' = s2" using w g1 g2 Some by (auto simp: walk_def)
      then show ?thesis
        using N2 None vm_keeps_trans [OF k1, of s2 1] keeps_mono keeps_card [OF k1]
          absent_untranslated [OF keeps_wf [OF k1], of "[?a]" ?b "[?c]" v t3] keeps_virt_to_phys [OF k1] t3 by fastforce
    next
      case (Some t2)
      have k2: "keeps s root s2 2" and t2: "table_at s2 root [?a, ?b] = Some t2"
        using N2 Some vm_keeps_trans [OF k1, of s2 1] by (auto simp: numeral_2_eq_2)
      have g3: "get_next_level s2 t2 ?c 2 alloc v = (res, s')" using w g1 g2 Some \<open>r1 = Some t3\<close> by (simp add: walk_def)
      note N3 = get_next_level_keeps [OF keeps_wf [OF k2] t2, of ?c alloc v res s', simplified, OF ip(3) g3]
      have "keeps s root s' 3" using N3 vm_keeps_trans [OF k2, of s' 1] by simp
      then show ?thesis
        using N3 keeps_card [OF k2] absent_untranslated [OF keeps_wf [OF k2], of "[?a, ?b]" ?c "[]" v t2]
          keeps_virt_to_phys [OF k2] t2 by fastforce
    qed
  qed
qed


section \<open>Writing a leaf\<close>

text \<open>The page of an address: bits 12 to 47, the four indices.\<close>

definition page_of :: "u64 \<Rightarrow> u64" where
  "page_of v = drop_bit 12 (take_bit 48 v)"

lemma bit_index: "bit (level_index level v) n \<longleftrightarrow> n < 9 \<and> bit v (12 + 9 * (level - 1) + n)"
  by (auto simp: level_index_def mask_values(7) bit_simps dest: bit_imp_le_length)

lemma page_of_eq: "page_of v = page_of w \<longleftrightarrow> indices v = indices w"
proof
  assume p: "page_of v = page_of w"
  have b: "bit v (12 + n) \<longleftrightarrow> bit w (12 + n)" if "n < 36" for n
  proof -
    have "bit (page_of v) n \<longleftrightarrow> bit (page_of w) n" using p by simp
    then show ?thesis using that by (simp add: page_of_def bit_simps)
  qed
  have "level_index l v = level_index l w" if "l \<in> {1, 2, 3, 4}" for l
  proof (rule bit_eqI)
    fix n
    have "9 * (l - 1) + n < 36" if "n < 9" using that \<open>l \<in> {1, 2, 3, 4}\<close> by auto
    then show "bit (level_index l v) n = bit (level_index l w) n"
      using b [of "9 * (l - 1) + n"] by (auto simp: bit_index add.assoc)
  qed
  then show "indices v = indices w" by (simp add: indices_def)
next
  assume "indices v = indices w"
  then have i: "level_index l v = level_index l w" if "l \<in> {1, 2, 3, 4}" for l
    using that by (auto simp: indices_def)
  have b: "bit v (12 + n) \<longleftrightarrow> bit w (12 + n)" if "n < 36" for n
  proof -
    have l: "n div 9 + 1 \<in> {1, 2, 3, 4}" using that by auto
    have "bit (level_index (n div 9 + 1) v) (n mod 9) \<longleftrightarrow> bit (level_index (n div 9 + 1) w) (n mod 9)"
      using i [OF l] by simp
    then show ?thesis by (simp add: bit_index add.assoc)
  qed
  show "page_of v = page_of w"
  proof (rule bit_word_eqI)
    fix n
    show "bit (page_of v) n = bit (page_of w) n" using b [of n] by (auto simp: page_of_def bit_simps)
  qed
qed

lemma leaf_write:
  assumes wf: "tables_wf s root" and t: "table_at s root q = Some pt" and q: "is_path q" "length q = 3"
    and s': "s' = set_entry s pt d e"
  shows "tables_wf s' root"
    and "vmm_virt_to_phys_in s' (Some root) v =
      (if indices v = q @ [d] then leaf1 e v else vmm_virt_to_phys_in s (Some root) v)"
proof -
  have tab: "tables s' u j = tables s u j" if "is_path p" "table_at s root p = Some u" "(p, j) \<noteq> (q, d)" for p u j
    using tables_wfD(5) [OF wf that(1) q(1) that(2)] t that(3) by (auto simp: s' set_entry_def)
  have short: "tables s' u j = tables s u j" if "is_path p" "table_at s root p = Some u" "length p < 3" for p u j
  proof -
    have "p \<noteq> q" using that(3) q(2) by auto
    then show ?thesis using tab [OF that(1,2)] by simp
  qed
  have at: "is_path p \<Longrightarrow> table_at s' root p = table_at s root p" for p
  proof (induction p rule: rev_induct)
    case (snoc j p)
    have p: "is_path p" using is_path_snoc [OF snoc.prems] by simp
    have "length p < 3" using snoc.prems by (auto simp: is_path_def)
    then show ?case using snoc.IH [OF p] short [OF p]
      by (auto simp: table_at_snoc sub_table_def split: option.splits)
  qed simp
  have wf5: "tables s' u j = 0"
    if "length p < 3" "is_path p" "table_at s root p = Some u" "j < 512" "\<not> has (tables s' u j) PTE_PRESENT" for p u j
    using short [OF that(2,3,1)] tables_wfD(6) [OF wf that(2,1,3,4)] that(5) by auto
  have root: "tables s' root j = tables s root j" for j
    using short [of "[]" root j] by (auto simp: is_path_def)
  have fr: "frames s' = frames s" by (simp add: s' set_entry_def)
  show wf': "tables_wf s' root"
    using wf at wf5 unfolding tables_wf_def root fr by (smt (verit))
  note x = virt_to_phys_wf [of _ root v]
  note ip = is_path_indices [of v]
  show "vmm_virt_to_phys_in s' (Some root) v =
      (if indices v = q @ [d] then leaf1 e v else vmm_virt_to_phys_in s (Some root) v)"
  proof (cases "indices v = q @ [d]")
    case True
    then have "q = [level_index 4 v, level_index 3 v, level_index 2 v]" "d = level_index 1 v"
      by (auto simp: indices_def)
    moreover have "tables s' pt d = e" by (simp add: s' set_entry_def)
    ultimately show ?thesis using True t x [OF wf'] at [OF ip(3)] by simp
  next
    case False
    have "tables s' u (level_index 1 v) = tables s u (level_index 1 v)"
      if "table_at s root [level_index 4 v, level_index 3 v, level_index 2 v] = Some u" for u
      using tab [OF ip(3) that] False by (auto simp: indices_def)
    then show ?thesis
      unfolding x [OF wf] x [OF wf'] at [OF ip(1)] at [OF ip(2)] at [OF ip(3)]
      using False short [OF ip(1)] short [OF ip(2)] by (auto split: option.splits)
  qed
qed

end
