(* ===== verification/Vmm_Ex.thy ===== *)
theory Vmm_Ex
  imports Vmm_Tables
begin

text \<open>
  A machine for the witnesses: sixteen frames; frames 1 to 4 hold the four tables of one address space,
  which maps the page at 0x1000 to frame 5; frame 5 has two users and the frames from 6 on are free.
\<close>

definition ex_frames :: pmm where
  "ex_frames =
     \<lparr>g_pmm_bitmap = \<lparr>m_buffer = [0x3F, 0], m_size = 16, m_next_free_hint = 6\<rparr>,
      g_pmm_refcounts = [1, 1, 1, 1, 1, 2, 0, 0, 0, 0, 0, 0, 0, 0, 0, 0], g_bitmap_bits = 16,
      g_total_memory = 65536, g_free_memory = 40960, g_highest_page = 15, ram = (\<lambda>a. 170)\<rparr>"

definition ex_tables :: "nat \<Rightarrow> nat \<Rightarrow> u64" where
  "ex_tables t i =
     (if i = 0 \<and> t = 0x1000 then 0x2007
      else if i = 0 \<and> t = 0x2000 then 0x3007
      else if i = 0 \<and> t = 0x3000 then 0x4007
      else if i = 1 \<and> t = 0x4000 then 0x5005
      else 0)"

definition ex_vmm :: vmm where
  "ex_vmm =
     \<lparr>frames = ex_frames, tables = ex_tables, g_pml4 = 0x1000, curr_pml4 = Some 0x1000, cr3 = 0x1000,
      apic_is_enabled = False, g_cpu_online_count = 1, tlb = [], g_mmio_next_virt = 0xFFFFFE0000000000,
      g_dma_free_ranges = replicate MAX_DMA_FREE_RANGES (0, 0)\<rparr>"

definition ex_area :: VMA where
  "ex_area = \<lparr>v_start = 0x1000, v_end = 0x3000, v_flags = 7, v_type = Data, v_is_cow = False\<rparr>"

lemma ex_free: "free_frames ex_frames = {6..15}"
proof -
  have "list_all (\<lambda>i. bitmap_get (g_pmm_bitmap ex_frames) i = (i < 6)) [0..<16]" by code_simp
  then have "\<forall>i < 16. bitmap_get (g_pmm_bitmap ex_frames) i = (i < 6)" by (simp add: list_all_iff)
  then show ?thesis by (auto simp: free_frames_def ex_frames_def)
qed

lemma ex_inv: "pmm_inv ex_frames"
proof -
  have "list_all (\<lambda>f. pmm_refs ex_frames f = 0) [6..<16]" by code_simp
  then have "\<forall>f \<in> {6..<16}. pmm_refs ex_frames f = 0" by (simp only: list_all_iff set_upt)
  then have "\<forall>f \<in> free_frames ex_frames. pmm_refs ex_frames f = 0" by (auto simp: ex_free)
  then show ?thesis
    using ex_free by (simp add: pmm_inv_def pmm_core_def bitmap_wf_def) (simp add: ex_frames_def pmm_refs_def)
qed

lemma ex_sub:
  "sub_table ex_vmm t i =
     (if i = 0 \<and> t = 0x1000 then Some 0x2000 else if i = 0 \<and> t = 0x2000 then Some 0x3000
      else if i = 0 \<and> t = 0x3000 then Some 0x4000 else if i = 1 \<and> t = 0x4000 then Some 0x5000 else None)"
  by (simp add: sub_table_def ex_vmm_def ex_tables_def has_def entry_phys_def PTE_PRESENT_def PTE_HUGE_def ADDR_MASK_def)

lemma ex_path:
  assumes "is_path p"
  shows "table_at ex_vmm 0x1000 p = Some t \<longleftrightarrow>
    p = [] \<and> t = 0x1000 \<or> p = [0] \<and> t = 0x2000 \<or> p = [0, 0] \<and> t = 0x3000 \<or> p = [0, 0, 0] \<and> t = 0x4000"
proof -
  have "length p \<le> 3" using assms by (simp add: is_path_def)
  then obtain a b c where "p = [] \<or> p = [a] \<or> p = [a, b] \<or> p = [a, b, c]"
    by (metis (no_types) add_leD1 le_Suc_eq length_0_conv length_Suc_conv numeral_3_eq_3 le_zero_eq)
  then show ?thesis by (auto simp: ex_sub split: if_splits)
qed

lemma ex_wf: "tables_wf ex_vmm 0x1000"
proof -
  have "\<forall>i < 512. has (tables ex_vmm 0x1000 i) PTE_PRESENT \<longrightarrow> \<not> has (tables ex_vmm 0x1000 i) PTE_HUGE"
    by (simp add: ex_vmm_def ex_tables_def has_def PTE_PRESENT_def PTE_HUGE_def)
  moreover have "tables ex_vmm t i = 0" if "\<not> has (tables ex_vmm t i) PTE_PRESENT" for t i
    using that by (auto simp: ex_vmm_def ex_tables_def has_def PTE_PRESENT_def split: if_splits)
  moreover have "frames ex_vmm = ex_frames" by (simp add: ex_vmm_def)
  ultimately show ?thesis unfolding tables_wf_def using ex_inv ex_free
    by (auto simp: ex_path)
qed

end
