(* ===== verification/Vmm_Map.thy ===== *)
theory Vmm_Map
  imports Vmm_Ex
begin

text \<open>
  What mapping and unmapping a page and handling a page fault do to an address space, for the operations
  of \<open>Vmm\<close>, over the lemmas on walking in \<open>Vmm_Tables\<close>.
\<close>

section \<open>Mapping and unmapping\<close>

lemma leaf_write_page:
  assumes wf: "tables_wf s root"
    and t: "table_at s root [level_index 4 virt, level_index 3 virt, level_index 2 virt] = Some pt"
  shows "tables_wf (set_entry s pt (level_index 1 virt) e) root"
    and "vmm_virt_to_phys_in (set_entry s pt (level_index 1 virt) e) (Some root) v =
      (if page_of v = page_of virt then leaf1 e v else vmm_virt_to_phys_in s (Some root) v)"
  using leaf_write [OF wf t is_path_indices(3) _ refl, of "level_index 1 virt" e]
  by (simp_all add: page_of_eq indices_def)

lemma leaf_mapped:
  assumes "has flags PTE_PRESENT" and "phys AND NOT ADDR_MASK = 0" and "flags AND ADDR_MASK = 0"
  shows "leaf1 (phys OR flags) v = phys + (v AND OFFSET_4K)"
proof -
  have "(phys OR flags) AND ADDR_MASK = phys"
  proof (rule bit_word_eqI)
    fix n
    have "bit (phys AND NOT ADDR_MASK) n = False" "bit (flags AND ADDR_MASK) n = False" using assms(2,3) by simp_all
    then show "bit ((phys OR flags) AND ADDR_MASK) n = bit phys n"
      by (auto simp: bit_and_iff bit_or_iff bit_not_iff dest: bit_imp_le_length)
  qed
  then show ?thesis using assms(1) by (simp add: leaf1_def has_flags bit_or_iff)
qed

lemma same_tables:
  assumes "tables s' = tables s" and "frames s' = frames s"
  shows "tables_wf s' root = tables_wf s root"
    and "vmm_virt_to_phys_in s' (Some root) v = vmm_virt_to_phys_in s (Some root) v"
  unfolding tables_wf_def vmm_virt_to_phys_in_def table_at_cong [OF assms(1)] assms by simp_all

text \<open>The common part of the mapping operations.\<close>

lemma map_page_cases:
  assumes wf: "tables_wf s root" and c: "map_checks virt flags = None"
  obtains (failed) s' where "vmm_map_page_in s root virt phys flags = Done (False, s')" "keeps s root s' 3"
      "card (free_frames (frames s)) < 3"
  | (mapped) s1 s' where "vmm_map_page_in s root virt phys flags = Done (True, s')" "keeps s root s1 3"
      "tables_wf s' root" "frames s' = frames s1" "curr_pml4 s' = curr_pml4 s" "g_pml4 s' = g_pml4 s"
      "\<And>v. vmm_virt_to_phys_in s' (Some root) v =
         (if page_of v = page_of virt then leaf1 (phys OR flags) v else vmm_virt_to_phys_in s (Some root) v)"
proof -
  obtain r s1 where w: "walk s root True virt = (r, s1)" by fastforce
  note W = walk_keeps [OF wf w]
  show thesis
  proof (cases r)
    case None
    then show ?thesis using w c W by (intro failed [of s1]) (auto simp: vmm_map_page_in_def vmm_map_page_no_flush_in_def)
  next
    case (Some pt)
    let ?s = "set_entry s1 pt (level_index 1 virt) (phys OR flags)"
    have k: "keeps s root s1 3" and pt: "table_at s1 root [level_index 4 virt, level_index 3 virt, level_index 2 virt] = Some pt"
      using W Some by auto
    note L = leaf_write_page [OF keeps_wf [OF k] pt, of "phys OR flags"]
    show ?thesis
    proof (rule mapped [of ?s s1])
      show "vmm_map_page_in s root virt phys flags = Done (True, ?s)"
        using w c Some by (simp add: vmm_map_page_in_def vmm_map_page_no_flush_in_def)
      show "vmm_virt_to_phys_in ?s (Some root) v =
         (if page_of v = page_of virt then leaf1 (phys OR flags) v else vmm_virt_to_phys_in s (Some root) v)" for v
        using L(2) [of v] keeps_virt_to_phys [OF k] by simp
    qed (use k L(1) in \<open>auto simp: set_entry_def keeps_def\<close>)
  qed
qed

text \<open>
  C3.  Mapping a page.  When the address and the flags are compatible, \<open>vmm_map_page_in\<close> returns.  With
  three free frames it succeeds.  If it succeeds, every address of the page translates to the physical
  page, and every other address as before, also where a huge page had to be split; if it fails, no
  translation changes.  The tables stay a tree of allocated frames.
\<close>

theorem vmm_map_page_correct:
  assumes "tables_wf s root" and "map_checks virt flags = None" and "has flags PTE_PRESENT"
    and "phys AND NOT ADDR_MASK = 0" and "flags AND ADDR_MASK = 0"
  shows "\<exists>ok s'. vmm_map_page_in s root virt phys flags = Done (ok, s') \<and> tables_wf s' root \<and>
    (3 \<le> card (free_frames (frames s)) \<longrightarrow> ok) \<and>
    (\<forall>v. vmm_virt_to_phys_in s' (Some root) v =
       (if ok \<and> page_of v = page_of virt then phys + (v AND OFFSET_4K) else vmm_virt_to_phys_in s (Some root) v))"
  using assms(1,2)
proof (cases rule: map_page_cases [where phys = phys])
  case (failed s')
  then show ?thesis by (auto simp: keeps_def)
next
  case (mapped s1 s')
  then show ?thesis using leaf_mapped [OF assms(3-5)] by auto
qed

lemma ex_card: "card (free_frames (frames ex_vmm)) = 10"
  using ex_free by (simp add: ex_vmm_def)

lemma vmm_map_page_correct_witness:
  "\<exists>s'. vmm_map_page_in ex_vmm 0x1000 0x400000 0x5000 7 = Done (True, s') \<and>
     vmm_virt_to_phys_in s' (Some 0x1000) 0x400123 = 0x5123 \<and>
     vmm_virt_to_phys_in s' (Some 0x1000) 0x1234 = 0x5234"
proof -
  have c: "map_checks 0x400000 7 = None" "has 7 PTE_PRESENT" "(0x5000 :: u64) AND NOT ADDR_MASK = 0"
    "(7 :: u64) AND ADDR_MASK = 0" by code_simp+
  have "page_of 0x400123 = page_of 0x400000" "page_of 0x1234 \<noteq> page_of 0x400000"
    "(0x400123 :: u64) AND OFFSET_4K = 0x123" "vmm_virt_to_phys_in ex_vmm (Some 0x1000) 0x1234 = 0x5234"
    by code_simp+
  then show ?thesis using vmm_map_page_correct [OF ex_wf c] ex_card by auto
qed

text \<open>
  C16.  Unmapping a page.  With three free frames, which splitting a huge page may need, no address of the
  page is translated afterwards, every other address translates as before, and the page is
  invalidated in the translation buffers.
\<close>

theorem vmm_unmap_page_correct:
  assumes wf: "tables_wf s root" and f: "3 \<le> card (free_frames (frames s))"
  shows "tables_wf (vmm_unmap_page_in s root virt) root \<and>
    Invlpg virt \<in> set (tlb (vmm_unmap_page_in s root virt)) \<and>
    vmm_virt_to_phys_in (vmm_unmap_page_in s root virt) (Some root) v =
      (if page_of v = page_of virt then 0 else vmm_virt_to_phys_in s (Some root) v)"
proof -
  obtain r s1 where w: "walk s root False virt = (r, s1)" by fastforce
  note W = walk_keeps [OF wf w]
  let ?s = "vmm_unmap_page_no_flush_in s root virt"
  have "tables_wf ?s root \<and> vmm_virt_to_phys_in ?s (Some root) v =
      (if page_of v = page_of virt then 0 else vmm_virt_to_phys_in s (Some root) v)"
  proof (cases r)
    case None
    then show ?thesis using w W f by (auto simp: vmm_unmap_page_no_flush_in_def keeps_def page_of_eq)
  next
    case (Some pt)
    then have "keeps s root s1 3" "table_at s1 root [level_index 4 virt, level_index 3 virt, level_index 2 virt] = Some pt"
      using W by auto
    then show ?thesis
      using leaf_write_page [OF keeps_wf, of s root s1 3 virt pt 0] w Some keeps_virt_to_phys [of s root s1 3]
      by (simp add: vmm_unmap_page_no_flush_in_def)
  qed
  moreover have "Invlpg virt \<in> set (tlb (vmm_unmap_page_in s root virt))"
    and same: "tables (vmm_unmap_page_in s root virt) = tables ?s" "frames (vmm_unmap_page_in s root virt) = frames ?s"
    by (simp_all add: vmm_unmap_page_in_def vmm_invalidate_tlb_def vmm_invalidate_tlb_range_def log_tlb_def
        invalidate_ops_def)
  ultimately show ?thesis using same_tables [OF same] by simp
qed

lemma vmm_unmap_page_correct_witness:
  "vmm_virt_to_phys_in ex_vmm (Some 0x1000) 0x1234 = 0x5234 \<and>
   vmm_virt_to_phys_in (vmm_unmap_page_in ex_vmm 0x1000 0x1000) (Some 0x1000) 0x1234 = 0"
proof -
  have "page_of 0x1234 = page_of 0x1000" "vmm_virt_to_phys_in ex_vmm (Some 0x1000) 0x1234 = 0x5234" by code_simp+
  then show ?thesis using vmm_unmap_page_correct [OF ex_wf, of "0x1000" "0x1234"] ex_card by simp
qed

section \<open>Page faults\<close>

lemma ram_irrelevant [simp]:
  "free_frames (f\<lparr>ram := m\<rparr>) = free_frames f" "pmm_refs (f\<lparr>ram := m\<rparr>) = pmm_refs f"
  "pmm_inv (f\<lparr>ram := m\<rparr>) = pmm_inv f"
proof -
  show e: "free_frames (f\<lparr>ram := m\<rparr>) = free_frames f" "pmm_refs (f\<lparr>ram := m\<rparr>) = pmm_refs f"
    by (simp_all add: free_frames_def pmm_refs_def fun_eq_iff)
  show "pmm_inv (f\<lparr>ram := m\<rparr>) = pmm_inv f" unfolding pmm_inv_def pmm_core_def e by simp
qed

lemma ram_refcount_dec [simp]: "ram (pmm_refcount_dec f p) = ram f"
  by (simp add: pmm_refcount_dec_def Let_def)

lemma refs_not_free: "pmm_inv f \<Longrightarrow> 0 < pmm_refs f x \<Longrightarrow> x \<notin> free_frames f"
  by (auto simp: pmm_inv_def pmm_core_def)

lemma wf_inv: "tables_wf s root \<Longrightarrow> pmm_inv (frames s)"
  by (rule tables_wfD(1))

text \<open>A frame for data is taken and its bytes are written.\<close>

lemma data_frame:
  assumes wf: "tables_wf s root" and al: "pmm_alloc_frame (frames s) = (n, f)" and n: "n \<noteq> 0"
    and m: "\<forall>a. a div 4096 \<noteq> n div 4096 \<longrightarrow> m a = ram f a"
    and s': "s' = s\<lparr>frames := f\<lparr>ram := m\<rparr>\<rparr>"
  shows "keeps s root s' 1" and "frame_ptr n" and "n div 4096 \<in> free_frames (frames s)"
    and "n div 4096 \<notin> free_frames (frames s')" and "pmm_refs (frames s') (n div 4096) = 1"
proof -
  note T = pmm_alloc_frame_taken [OF tables_wfD(1) [OF wf] al] and A = alloc_takes [OF tables_wfD(1) [OF wf] al]
  have fr: "free_frames (frames s') = free_frames f" "pmm_refs (frames s') = pmm_refs f" by (simp_all add: s')
  show "frame_ptr n" "n div 4096 \<in> free_frames (frames s)" using T(4) [OF n] by blast+
  show "n div 4096 \<notin> free_frames (frames s')" using T(4) [OF n] unfolding fr by blast
  have "pmm_refs f = (\<lambda>x. if x = n div 4096 then 1 else pmm_refs (frames s) x)" using T(4) [OF n] by (elim conjE)
  then show "pmm_refs (frames s') (n div 4096) = 1" unfolding fr by (simp only: refl if_True)
  have "m a = ram (frames s) a" if "a div 4096 \<notin> free_frames (frames s)" for a
  proof -
    have "a div 4096 \<noteq> n div 4096" using that T(4) [OF n] by metis
    then show ?thesis using m A that unfolding takes_def by metis
  qed
  then have "takes (frames s) (frames s') 1" using A by (simp add: takes_def s')
  then show "keeps s root s' 1" by (intro keeps_frames [OF wf]) (simp_all add: s')
qed

lemma aligned_bits: "x AND OFFSET_4K = 0 \<longleftrightarrow> (\<forall>n < 12. \<not> bit x n)" for x :: u64
proof -
  have "x AND OFFSET_4K = 0 \<longleftrightarrow> (\<forall>n. bit (x AND OFFSET_4K) n = bit (0 :: u64) n)" by (auto intro: bit_word_eqI)
  then show ?thesis by (auto simp: bit_and_iff bit_masks)
qed

lemma virt_to_phys_aligned:
  assumes wf: "tables_wf s root" and v: "v AND OFFSET_4K = 0"
  shows "vmm_virt_to_phys_in s (Some root) v AND OFFSET_4K = 0"
proof -
  have "leaf1 e v AND OFFSET_4K = 0" for e
    using v add_or [of "e AND ADDR_MASK" "v AND OFFSET_4K"]
    by (auto simp: leaf1_def aligned_bits bit_and_iff bit_or_iff bit_masks)
  moreover have "leaf2 e v AND OFFSET_4K = 0" for e
    using v add_or [of "e AND ADDR_MASK_2M" "v AND OFFSET_2M"]
    by (auto simp: leaf2_def aligned_bits bit_and_iff bit_or_iff bit_masks low_bits)
  moreover have "leaf3 e v AND OFFSET_4K = 0" for e
    using v add_or [of "e AND ADDR_MASK_1G" "v AND OFFSET_1G"]
    by (auto simp: leaf3_def aligned_bits bit_and_iff bit_or_iff bit_masks low_bits)
  ultimately show ?thesis unfolding virt_to_phys_wf [OF wf] by (simp split: option.splits)
qed

lemma aligned_unat: "x AND OFFSET_4K = 0 \<Longrightarrow> unat x mod 4096 = 0" for x :: u64
proof -
  assume "x AND OFFSET_4K = 0"
  then have "take_bit 12 x = 0" by (simp add: mask_values take_bit_eq_mask)
  then have "take_bit 12 (unat x) = 0" by (metis unsigned_take_bit_eq unsigned_0)
  then show ?thesis by (simp add: take_bit_eq_mod)
qed

lemma page_start:
  "page_of (addr AND NOT OFFSET_4K) = page_of addr" "(addr AND NOT OFFSET_4K) AND OFFSET_4K = 0"
proof -
  show "page_of (addr AND NOT OFFSET_4K) = page_of addr"
    by (rule bit_word_eqI) (auto simp: page_of_def bit_simps bit_masks)
  show "(addr AND NOT OFFSET_4K) AND OFFSET_4K = 0" by (simp add: and.assoc)
qed

lemma page_start_le: "addr AND NOT OFFSET_4K \<le> addr" for addr :: u64
  by (simp add: word_and_le2)


lemma frame_aligned: "frame_ptr p \<Longrightarrow> p div 4096 < 2 ^ 40 \<Longrightarrow> of_nat p AND NOT ADDR_MASK = (0 :: u64)"
  using frame_bits [of p] by (intro bit_word_eqI) (auto simp: bit_and_iff bit_not_iff bit_masks)

lemma top_order: "USER_TOP < KERNEL_STACK_TOP"
  by (simp add: KERNEL_STACK_TOP_def USER_TOP_def)

lemma in_frame_ptr: "frame_ptr n \<Longrightarrow> n \<le> a \<and> a < n + 4096 \<longleftrightarrow> a div 4096 = n div 4096"
  by (rule in_frame [OF frame_ptr_eq])

lemma off_frame:
  assumes "frame_ptr n"
  shows "\<forall>a. a div 4096 \<noteq> n div 4096 \<longrightarrow> (if n \<le> a \<and> a < n + 4096 then g a else h a) = h a"
  unfolding in_frame_ptr [OF assms] by simp

lemma frame_offset: "frame_ptr n \<Longrightarrow> k < 4096 \<Longrightarrow> (n + k) div 4096 = n div 4096"
  using in_frame_ptr [of n "n + k"] by simp

lemma map_new_frame_works:
  assumes wf: "tables_wf s root" and al: "pmm_alloc_frame (frames s) = (n, f)" and n: "n \<noteq> 0"
    and m: "\<forall>a. a div 4096 \<noteq> n div 4096 \<longrightarrow> m a = ram f a" and s1: "s1 = s\<lparr>frames := f\<lparr>ram := m\<rparr>\<rparr>"
    and flags: "virt < USER_TOP" "has flags PTE_PRESENT" "has flags PTE_USER" "flags AND ADDR_MASK = 0"
    and c: "4 \<le> card (free_frames (frames s))"
  obtains s' where "map_new_frame s1 root virt n flags = Done (True, s')" "tables_wf s' root"
    "takes (frames s1) (frames s') 3" "takes (frames s) (frames s') 4"
    "\<And>v. vmm_virt_to_phys_in s' (Some root) v =
      (if page_of v = page_of virt then of_nat n + (v AND OFFSET_4K) else vmm_virt_to_phys_in s (Some root) v)"
proof -
  note D = data_frame [OF wf al n m s1]
  have k: "keeps s root s1 1" by (rule D(1))
  have "n div 4096 < 2 ^ 40" using tables_wfD(2) [OF wf D(3)] .
  then have a: "of_nat n AND NOT ADDR_MASK = (0 :: u64)" by (rule frame_aligned [OF D(2)])
  have ch: "map_checks virt flags = None"
    using flags less_trans [of virt USER_TOP KERNEL_STACK_TOP] by (auto simp: map_checks_def top_order)
  have c1: "3 \<le> card (free_frames (frames s1))" using keeps_card [OF k] c by simp
  from keeps_wf [OF k] ch show thesis
  proof (cases rule: map_page_cases [where phys = "of_nat n"])
    case (failed s')
    then show ?thesis using c1 by simp
  next
    case (mapped s2 s')
    have "takes (frames s1) (frames s') 3" using mapped(2,4) by (simp add: keeps_def)
    moreover have "takes (frames s) (frames s1) 1" using k by (simp add: keeps_def)
    ultimately have "takes (frames s1) (frames s') 3" "takes (frames s) (frames s') 4"
      using takes_trans [of "frames s" "frames s1" 1 "frames s'" 3] by simp_all
    then show ?thesis
      using mapped leaf_mapped [OF flags(2) a flags(4)] keeps_virt_to_phys [OF k]
      by (intro that [of s']) (simp_all add: map_new_frame_def)
  qed
qed

lemma same_tables_wf:
  assumes "tables s' = tables s" and "free_frames (frames s') = free_frames (frames s)" and "pmm_inv (frames s')"
  shows "tables_wf s root \<Longrightarrow> tables_wf s' root"
    and "vmm_virt_to_phys_in s' (Some root) v = vmm_virt_to_phys_in s (Some root) v"
  unfolding tables_wf_def vmm_virt_to_phys_in_def table_at_cong [OF assms(1)] assms(1,2)
  using assms(3) by blast+

lemma invalidate_same [simp]:
  "tables (vmm_invalidate_tlb s v) = tables s" "frames (vmm_invalidate_tlb s v) = frames s"
  by (simp_all add: vmm_invalidate_tlb_def vmm_invalidate_tlb_range_def log_tlb_def)

text \<open>The flags of a user area give the flags of a page.\<close>

lemma fault_flags:
  assumes "a AND ADDR_MASK = 0"
  defines "fl \<equiv> a OR PTE_PRESENT OR PTE_USER"
  shows "has fl PTE_PRESENT" "has fl PTE_USER" "fl AND ADDR_MASK = 0"
proof -
  show "has fl PTE_PRESENT" "has fl PTE_USER" by (simp_all add: fl_def has_flags bit_or_iff bit_masks)
  show "fl AND ADDR_MASK = 0"
  proof (rule bit_word_eqI)
    fix n
    have "bit (a AND ADDR_MASK) n = False" using assms(1) by simp
    then show "bit (fl AND ADDR_MASK) n = bit (0 :: u64) n"
      by (auto simp: fl_def bit_and_iff bit_or_iff bit_masks)
  qed
qed

text \<open>The frame that is copied keeps its bytes until the end, and the copy has them.\<close>

lemma copied_bytes:
  assumes wf: "tables_wf s root" and nf: "pmm_alloc_frame (frames s) = (n, f)" and n: "frame_ptr n"
    and p: "frame_ptr p" "p div 4096 \<notin> free_frames (frames s)"
    and m: "m = (\<lambda>a. if n \<le> a \<and> a < n + 4096 then ram f (p + (a - n)) else ram f a)"
    and t: "takes (f\<lparr>ram := m\<rparr>) f' j" "n div 4096 \<notin> free_frames f" and k: "k < 4096"
  shows "ram f' (n + k) = ram (frames s) (p + k)"
proof -
  have "ram f' (n + k) = m (n + k)" using t frame_offset [OF n k] by (simp add: takes_def)
  also have "\<dots> = ram f (p + k)" using k by (simp add: m)
  also have "\<dots> = ram (frames s) (p + k)"
    using alloc_takes [OF wf_inv [OF wf] nf] frame_offset [OF p(1) k] p(2) by (simp add: takes_def)
  finally show ?thesis .
qed

lemma fault_present_copies:
  assumes wf: "tables_wf s pml4" and p: "frame_ptr p" and refs: "1 < pmm_refs (frames s) (p div 4096)"
    and fl: "virt < USER_TOP" "has fl PTE_PRESENT" "has fl PTE_USER" "fl AND ADDR_MASK = 0"
    and c: "4 \<le> card (free_frames (frames s))"
  shows "\<exists>n s'. fault_present s pml4 virt fl p = Done (True, s') \<and> tables_wf s' pml4 \<and>
    frame_ptr n \<and> n div 4096 \<in> free_frames (frames s) \<and> pmm_refs (frames s') (n div 4096) = 1 \<and>
    pmm_refs (frames s') (p div 4096) = pmm_refs (frames s) (p div 4096) - 1 \<and>
    (\<forall>k < 4096. ram (frames s') (n + k) = ram (frames s) (p + k)) \<and>
    (\<forall>a. a div 4096 \<notin> free_frames (frames s) \<longrightarrow> ram (frames s') a = ram (frames s) a) \<and>
    (\<forall>v. vmm_virt_to_phys_in s' (Some pml4) v =
      (if page_of v = page_of virt then of_nat n + (v AND OFFSET_4K) else vmm_virt_to_phys_in s (Some pml4) v))"
proof -
  note inv = wf_inv [OF wf]
  have used: "p div 4096 \<notin> free_frames (frames s)" using refs_not_free [OF inv] refs by simp
  obtain n f where nf: "pmm_alloc_frame (frames s) = (n, f)" by fastforce
  have "free_frames (frames s) \<noteq> {}" using c by auto
  then have n: "n \<noteq> 0" using pmm_alloc_frame_taken(3) [OF inv nf] by simp
  have pn: "frame_ptr n" using pmm_alloc_frame_taken(4) [OF inv nf n] by blast
  let ?m = "\<lambda>a. if n \<le> a \<and> a < n + 4096 then ram f (p + (a - n)) else ram f a"
  have m: "\<forall>a. a div 4096 \<noteq> n div 4096 \<longrightarrow> ?m a = ram f a" by (rule off_frame [OF pn])
  obtain s1 where s1: "s1 = s\<lparr>frames := f\<lparr>ram := ?m\<rparr>\<rparr>" by blast
  note D = data_frame [OF wf nf n m s1]
  obtain s2 where s2: "map_new_frame s1 pml4 virt n fl = Done (True, s2)" "tables_wf s2 pml4"
    "takes (frames s1) (frames s2) 3" "takes (frames s) (frames s2) 4"
    "\<And>v. vmm_virt_to_phys_in s2 (Some pml4) v =
      (if page_of v = page_of virt then of_nat n + (v AND OFFSET_4K) else vmm_virt_to_phys_in s (Some pml4) v)"
    using map_new_frame_works [OF wf nf n m s1 fl c] by metis
  let ?d = "pmm_refcount_dec (frames s2) p"
  let ?s = "vmm_invalidate_tlb (s2\<lparr>frames := ?d\<rparr>) virt"
  have r2: "pmm_refs (frames s2) (p div 4096) = pmm_refs (frames s) (p div 4096)"
    using s2(4) used by (simp add: takes_def)
  have d: "pmm_inv ?d" "pmm_refs ?d = (pmm_refs (frames s2))(p div 4096 := pmm_refs (frames s2) (p div 4096) - 1)"
    "free_frames ?d = free_frames (frames s2)"
    using pmm_refcount_dec_spec [OF wf_inv [OF s2(2)] p] r2 refs by simp_all
  have "1 < pmm_get_refcount (frames s) p"
    using refs p by (auto simp: pmm_get_refcount_def pmm_refs_def word_less_nat_alt frame_ptr_def split: if_splits)
  then have "fault_present s pml4 virt fl p = Done (True, ?s)"
    using nf n s2(1) by (simp add: fault_present_def copy_frame_def s1 cong del: if_weak_cong)
  moreover have "tables_wf ?s pml4"
    by (rule same_tables_wf(1) [OF _ _ _ s2(2)]) (simp_all add: d)
  moreover have "n div 4096 \<noteq> p div 4096" using D(3) used by metis
  then have "pmm_refs (frames ?s) (n div 4096) = 1" using d(2) D(4,5) s2(3) by (simp add: takes_def)
  moreover have "\<forall>k < 4096. ram (frames ?s) (n + k) = ram (frames s) (p + k)"
    using copied_bytes [OF wf nf pn p used refl] s2(3) D(4) by (simp add: s1)
  moreover have "\<forall>a. a div 4096 \<notin> free_frames (frames s) \<longrightarrow> ram (frames ?s) a = ram (frames s) a"
    using s2(4) by (simp add: takes_def)
  moreover have "vmm_virt_to_phys_in ?s (Some pml4) v = vmm_virt_to_phys_in s2 (Some pml4) v" for v
    by (rule same_tables_wf(2)) (simp_all add: d)
  ultimately show ?thesis using pn D(3) d(2) r2 s2(5) by (intro exI [of _ n] exI [of _ ?s]) simp
qed

text \<open>
  C4.  Copy on write.  A write fault at an address of a writable private area whose page is mapped to a
  frame that others use too is handled: with four free frames the page is mapped to a new frame that
  holds the same 4096 bytes and is counted once, the old frame loses one user, no other translation and
  no byte of a frame in use changes.
\<close>

theorem vmm_copy_on_write:
  assumes wf: "tables_wf s pml4" and "curr_pml4 s = Some pml4" and "vma_find vmas (unat addr) = Some vma"
    and "addr < USER_TOP" and "has err 2" and "has (v_flags vma) PTE_WRITABLE" and "v_type vma \<noteq> Shared"
    and fl: "v_flags vma AND ADDR_MASK = 0"
    and ph: "unat (vmm_virt_to_phys_in s (Some pml4) (addr AND NOT OFFSET_4K)) = p" and "p \<noteq> 0"
    and refs: "1 < pmm_refs (frames s) (p div 4096)" and c: "4 \<le> card (free_frames (frames s))"
  shows "\<exists>n s'. vmm_handle_page_fault s vmas addr err = Done (True, s') \<and> tables_wf s' pml4 \<and>
    frame_ptr n \<and> n div 4096 \<in> free_frames (frames s) \<and> pmm_refs (frames s') (n div 4096) = 1 \<and>
    pmm_refs (frames s') (p div 4096) = pmm_refs (frames s) (p div 4096) - 1 \<and>
    (\<forall>k < 4096. ram (frames s') (n + k) = ram (frames s) (p + k)) \<and>
    (\<forall>a. a div 4096 \<notin> free_frames (frames s) \<longrightarrow> ram (frames s') a = ram (frames s) a) \<and>
    (\<forall>v. vmm_virt_to_phys_in s' (Some pml4) v =
      (if page_of v = page_of addr then of_nat n + (v AND OFFSET_4K) else vmm_virt_to_phys_in s (Some pml4) v))"
proof -
  let ?page = "addr AND NOT OFFSET_4K" and ?fl = "v_flags vma OR PTE_PRESENT OR PTE_USER"
  have page: "?page < USER_TOP" using page_start_le [of addr] assms(4) by (rule le_less_trans)
  have "p mod 4096 = 0"
    using aligned_unat [OF virt_to_phys_aligned [OF wf page_start(2)]] ph by metis
  then have fp: "frame_ptr p" using \<open>p \<noteq> 0\<close> by (simp add: frame_ptr_def)
  obtain x where x: "vmm_virt_to_phys_in s (Some pml4) ?page = x" "x \<noteq> 0" "unat x = p"
    using ph \<open>p \<noteq> 0\<close> by (metis unat_0)
  have "vmas \<noteq> []" using assms(3) by auto
  then have "vmm_handle_page_fault s vmas addr err = fault_present s pml4 ?page ?fl p"
    using assms(2,3,5-7) less_le_not_le [THEN iffD1, OF assms(4)] page x by (simp add: vmm_handle_page_fault_def)
  then show ?thesis
    using fault_present_copies [OF wf fp refs page fault_flags [OF fl] c] by (simp add: page_start(1))
qed

lemma vmm_copy_on_write_witness:
  "\<exists>n s'. vmm_handle_page_fault ex_vmm [ex_area] 0x1234 7 = Done (True, s') \<and> frame_ptr n \<and>
     pmm_refs (frames s') 5 = 1 \<and> vmm_virt_to_phys_in s' (Some 0x1000) 0x1234 = of_nat n + 0x234"
proof -
  have a: "curr_pml4 ex_vmm = Some 0x1000" by (simp add: ex_vmm_def)
  have b: "vma_find [ex_area] (unat (0x1234 :: u64)) = Some ex_area" by (simp add: ex_area_def)
  have c: "(0x1234 :: u64) < USER_TOP" "has 7 2" "has (v_flags ex_area) PTE_WRITABLE" "v_type ex_area \<noteq> Shared"
    "v_flags ex_area AND ADDR_MASK = 0"
    "unat (vmm_virt_to_phys_in ex_vmm (Some 0x1000) (0x1234 AND NOT OFFSET_4K)) = 20480" by code_simp+
  have d: "(20480 :: nat) \<noteq> 0" "1 < pmm_refs (frames ex_vmm) (20480 div 4096)"
    by (simp_all add: ex_vmm_def ex_frames_def pmm_refs_def)
  have e: "(0x1234 :: u64) AND OFFSET_4K = 0x234" "pmm_refs (frames ex_vmm) 5 = 2" by code_simp+
  from vmm_copy_on_write [OF ex_wf a b c d] ex_card e show ?thesis by fastforce
qed

text \<open>
  C17.  Demand paging.  A fault at an address of an area that allows the access, whose page is not mapped,
  is handled: with four free frames the page is mapped to a new frame of zero bytes, and no other
  translation and no byte of a frame in use changes.
\<close>

theorem vmm_demand_zero:
  assumes wf: "tables_wf s pml4" and "curr_pml4 s = Some pml4" and "vma_find vmas (unat addr) = Some vma"
    and "addr < USER_TOP" and "has err 1 \<longrightarrow> has err 2" and "has err 2 \<longrightarrow> has (v_flags vma) PTE_WRITABLE"
    and fl: "v_flags vma AND ADDR_MASK = 0"
    and ph: "vmm_virt_to_phys_in s (Some pml4) (addr AND NOT OFFSET_4K) = 0" and c: "4 \<le> card (free_frames (frames s))"
  shows "\<exists>n s'. vmm_handle_page_fault s vmas addr err = Done (True, s') \<and> tables_wf s' pml4 \<and>
    frame_ptr n \<and> n div 4096 \<in> free_frames (frames s) \<and> pmm_refs (frames s') (n div 4096) = 1 \<and>
    (\<forall>k < 4096. ram (frames s') (n + k) = 0) \<and>
    (\<forall>a. a div 4096 \<notin> free_frames (frames s) \<longrightarrow> ram (frames s') a = ram (frames s) a) \<and>
    (\<forall>v. vmm_virt_to_phys_in s' (Some pml4) v =
      (if page_of v = page_of addr then of_nat n + (v AND OFFSET_4K) else vmm_virt_to_phys_in s (Some pml4) v))"
proof -
  let ?page = "addr AND NOT OFFSET_4K" and ?fl = "v_flags vma OR PTE_PRESENT OR PTE_USER"
  have page: "?page < USER_TOP" using page_start_le [of addr] assms(4) by (rule le_less_trans)
  note inv = wf_inv [OF wf]
  obtain n f where nf: "pmm_alloc_frame (frames s) = (n, f)" by fastforce
  have "free_frames (frames s) \<noteq> {}" using c by auto
  then have n: "n \<noteq> 0" using pmm_alloc_frame_taken(3) [OF inv nf] by simp
  have pn: "frame_ptr n" using pmm_alloc_frame_taken(4) [OF inv nf n] by blast
  let ?m = "\<lambda>a. if n \<le> a \<and> a < n + 4096 then 0 else ram f a"
  have m: "\<forall>a. a div 4096 \<noteq> n div 4096 \<longrightarrow> ?m a = ram f a" by (rule off_frame [OF pn])
  obtain s1 where s1: "s1 = s\<lparr>frames := f\<lparr>ram := ?m\<rparr>\<rparr>" by blast
  note D = data_frame [OF wf nf n m s1]
  obtain s2 where s2: "map_new_frame s1 pml4 ?page n ?fl = Done (True, s2)" "tables_wf s2 pml4"
    "takes (frames s1) (frames s2) 3" "takes (frames s) (frames s2) 4"
    "\<And>v. vmm_virt_to_phys_in s2 (Some pml4) v =
      (if page_of v = page_of ?page then of_nat n + (v AND OFFSET_4K) else vmm_virt_to_phys_in s (Some pml4) v)"
    using map_new_frame_works [OF wf nf n m s1 page fault_flags [OF fl] c] by metis
  let ?s = "vmm_invalidate_tlb s2 ?page"
  have "vmas \<noteq> []" using assms(3) by auto
  then have "vmm_handle_page_fault s vmas addr err = Done (True, ?s)"
    using assms(2,3,5,6) less_le_not_le [THEN iffD1, OF assms(4)] page nf n s2(1) ph
    by (auto simp: vmm_handle_page_fault_def fault_absent_def zero_frame_def s1 cong del: if_weak_cong)
  moreover have "ram (frames ?s) (n + k) = 0" if "k < 4096" for k
    using s2(3) D(4) frame_offset [OF pn that] that by (simp add: takes_def s1)
  moreover have "vmm_virt_to_phys_in ?s (Some pml4) v = vmm_virt_to_phys_in s2 (Some pml4) v" for v
    by (rule same_tables(2)) simp_all
  moreover have "tables_wf ?s pml4" using s2(2) same_tables(1) [of ?s s2] by simp
  moreover have "pmm_refs (frames ?s) (n div 4096) = 1" using D(4,5) s2(3) by (simp add: takes_def)
  ultimately show ?thesis
    using pn D(3) s2(4,5) by (intro exI [of _ n] exI [of _ ?s]) (simp add: page_start(1) takes_def)
qed

lemma vmm_demand_zero_witness:
  "\<exists>n s'. vmm_handle_page_fault ex_vmm [ex_area] 0x2345 6 = Done (True, s') \<and> frame_ptr n \<and>
     ram (frames s') n = 0 \<and> vmm_virt_to_phys_in s' (Some 0x1000) 0x2345 = of_nat n + 0x345"
proof -
  have a: "curr_pml4 ex_vmm = Some 0x1000" by (simp add: ex_vmm_def)
  have b: "vma_find [ex_area] (unat (0x2345 :: u64)) = Some ex_area" by (simp add: ex_area_def)
  have c: "(0x2345 :: u64) < USER_TOP" "has 6 1 \<longrightarrow> has 6 2" "has 6 2 \<longrightarrow> has (v_flags ex_area) PTE_WRITABLE"
    "v_flags ex_area AND ADDR_MASK = 0"
    "vmm_virt_to_phys_in ex_vmm (Some 0x1000) (0x2345 AND NOT OFFSET_4K) = 0" by code_simp+
  have e: "(0x2345 :: u64) AND OFFSET_4K = 0x345" by code_simp
  from vmm_demand_zero [OF ex_wf a b c] ex_card e show ?thesis by fastforce
qed

end
