(* ===== verification/Vmm_Dma.thy ===== *)
theory Vmm_Dma
  imports Vmm
begin

text \<open>
  The allocator of virtual ranges for device memory: the free addresses are those of the recorded ranges
  and those never handed out; allocation takes a range out of them, release puts it back, and the joining
  of ranges changes nothing.
\<close>

section \<open>Free addresses\<close>

definition range_of :: "nat \<times> nat \<Rightarrow> nat set" where
  "range_of r = {fst r ..< fst r + snd r}"

definition covered :: "(nat \<times> nat) list \<Rightarrow> nat set" where
  "covered rs = (\<Union>i < length rs. range_of (rs ! i))"

definition disjoint_ranges :: "(nat \<times> nat) list \<Rightarrow> bool" where
  "disjoint_ranges rs \<longleftrightarrow>
     (\<forall>i < length rs. \<forall>j < length rs. i \<noteq> j \<longrightarrow> range_of (rs ! i) \<inter> range_of (rs ! j) = {})"

definition g_mmio_base :: nat where "g_mmio_base = 0xFFFFFE0000000000"

definition dma_inv :: "vmm \<Rightarrow> bool" where
  "dma_inv s \<longleftrightarrow>
     disjoint_ranges (g_dma_free_ranges s) \<and> g_mmio_base \<le> g_mmio_next_virt s \<and>
     g_mmio_next_virt s \<le> g_mmio_limit_virt \<and>
     covered (g_dma_free_ranges s) \<subseteq> {g_mmio_base ..< g_mmio_next_virt s}"

definition dma_free_addresses :: "vmm \<Rightarrow> nat set" where
  "dma_free_addresses s = covered (g_dma_free_ranges s) \<union> {g_mmio_next_virt s ..< g_mmio_limit_virt}"

lemma range_of_0 [simp]: "range_of (v, 0) = {}"
  by (simp add: range_of_def)

text \<open>Writing one slot, whose range stays clear of the others.\<close>

lemma slot_covered_update:
  assumes "i < length rs" and "disjoint_ranges rs"
  shows "covered (rs[i := r]) = (covered rs - range_of (rs ! i)) \<union> range_of r"
proof -
  have "x \<in> covered (rs[i := r]) \<longleftrightarrow> x \<in> range_of r \<or> (\<exists>j < length rs. j \<noteq> i \<and> x \<in> range_of (rs ! j))" for x
    using assms(1) by (auto simp: covered_def nth_list_update split: if_splits)
  moreover have "x \<in> covered rs - range_of (rs ! i) \<longleftrightarrow> (\<exists>j < length rs. j \<noteq> i \<and> x \<in> range_of (rs ! j))" for x
    using assms by (auto simp: covered_def disjoint_ranges_def)
  ultimately show ?thesis by blast
qed

lemma range_covered: "i < length rs \<Longrightarrow> range_of (rs ! i) \<subseteq> covered rs"
  by (auto simp: covered_def)

lemma disjoint_update:
  assumes "disjoint_ranges rs" and "i < length rs"
    and "range_of r \<inter> (covered rs - range_of (rs ! i)) = {}"
  shows "disjoint_ranges (rs[i := r])"
proof -
  have "range_of r \<inter> range_of (rs ! j) = {}" if "j < length rs" "j \<noteq> i" for j
  proof -
    have "range_of (rs ! j) \<inter> range_of (rs ! i) = {}" using assms(1,2) that by (simp add: disjoint_ranges_def)
    then show ?thesis using assms(3) range_covered [OF that(1)] by blast
  qed
  then show ?thesis
    using assms(1,2) unfolding disjoint_ranges_def by (auto simp: nth_list_update)
qed

section \<open>Joining ranges\<close>

lemma join_step:
  assumes d: "disjoint_ranges rs" and ij: "i < length rs" "j < length rs" "i \<noteq> j"
    and r: "range_of r = range_of (rs ! i) \<union> range_of (rs ! j)"
  shows "disjoint_ranges (rs[i := r, j := (0, 0)])" "covered (rs[i := r, j := (0, 0)]) = covered rs"
proof -
  have ji: "rs[i := r, j := (0, 0)] = rs[j := (0, 0), i := r]" using ij(3) by (simp add: list_update_swap)
  have dij: "range_of (rs ! i) \<inter> range_of (rs ! j) = {}" using d ij by (simp add: disjoint_ranges_def)
  let ?z = "rs[j := (0, 0)]"
  have z: "disjoint_ranges ?z" using disjoint_update [OF d ij(2)] by simp
  have cz: "covered ?z = covered rs - range_of (rs ! j)" using slot_covered_update [OF ij(2) d] by simp
  have i: "i < length ?z" "?z ! i = rs ! i" using ij by auto
  show "disjoint_ranges (rs[i := r, j := (0, 0)])"
    unfolding ji using disjoint_update [OF z i(1), of r] cz i(2) r by auto
  show "covered (rs[i := r, j := (0, 0)]) = covered rs"
    unfolding ji slot_covered_update [OF i(1) z] cz i(2) r using dij range_covered [OF ij(1)] range_covered [OF ij(2)] by blast
qed

lemma merge_ranges_keeps:
  "disjoint_ranges rs \<Longrightarrow> disjoint_ranges (merge_ranges rs i j) \<and> covered (merge_ranges rs i j) = covered rs \<and>
     length (merge_ranges rs i j) = length rs"
proof (induction rs i j rule: merge_ranges.induct)
  case (1 rs i j)
  obtain vi ni vj nj where v: "rs ! i = (vi, ni)" "rs ! j = (vj, nj)" by fastforce
  note unfold = merge_ranges.simps [of rs i j]
  show ?case
  proof (cases "i < length rs \<and> ni \<noteq> 0 \<and> j < length rs")
    case False
    then consider "length rs \<le> i" | "\<not> length rs \<le> i" "snd (rs ! i) = 0 \<or> length rs \<le> j" using v by fastforce
    then show ?thesis
    proof cases
      case 1
      then show ?thesis using \<open>disjoint_ranges rs\<close> unfolding unfold by simp
    next
      case 2
      then show ?thesis using "1.IH"(1) [OF 2 "1.prems"] unfolding unfold by simp
    qed
  next
    case True
    then have l: "\<not> length rs \<le> i" "\<not> (snd (rs ! i) = 0 \<or> length rs \<le> j)" "i < length rs" "j < length rs"
      using v by auto
    note e = v [symmetric]
    consider "nj = 0" | "nj \<noteq> 0" "vi + ni = vj" | "nj \<noteq> 0" "vi + ni \<noteq> vj" "vj + nj = vi"
      | "nj \<noteq> 0" "vi + ni \<noteq> vj" "vj + nj \<noteq> vi" by blast
    then show ?thesis
    proof cases
      case 1
      show ?thesis
        using "1.IH"(2) [OF l(1,2) refl e(1) refl e(2) 1 "1.prems"] l 1 v unfolding unfold by simp
    next
      case 2
      then have "i \<noteq> j" "range_of (vi, ni + nj) = range_of (rs ! i) \<union> range_of (rs ! j)"
        using v True by (auto simp: range_of_def)
      note J = join_step [OF "1.prems" l(3,4) this]
      show ?thesis
        using "1.IH"(3) [OF l(1,2) refl e(1) refl e(2) 2 J(1)] J l 2 v unfolding unfold by simp
    next
      case 3
      then have "i \<noteq> j" "range_of (vj, ni + nj) = range_of (rs ! i) \<union> range_of (rs ! j)"
        using v True by (auto simp: range_of_def)
      note J = join_step [OF "1.prems" l(3,4) this]
      show ?thesis
        using "1.IH"(4) [OF l(1,2) refl e(1) refl e(2) 3 J(1)] J l 3 v unfolding unfold by simp
    next
      case 4
      show ?thesis
        using "1.IH"(5) [OF l(1,2) refl e(1) refl e(2) 4 "1.prems"] l 4 v unfolding unfold by simp
    qed
  qed
qed


section \<open>Allocation and release\<close>

lemma dma_alloc_takes:
  assumes inv: "dma_inv s" and a: "dma_alloc_virt_range s sz = Done (virt, s')" and sz: "0 < sz"
  shows "dma_inv s'" and "dma_free_addresses s' = dma_free_addresses s - {virt ..< virt + sz}"
    and "{virt ..< virt + sz} \<subseteq> dma_free_addresses s" and "g_mmio_base \<le> virt"
    and "virt + sz \<le> g_mmio_next_virt s'" and "g_mmio_next_virt s \<le> g_mmio_next_virt s'"
proof -
  let ?rs = "g_dma_free_ranges s" and ?A = "{virt ..< virt + sz}"
  note I = inv [unfolded dma_inv_def]
  have "dma_inv s' \<and> dma_free_addresses s' = dma_free_addresses s - ?A \<and> ?A \<subseteq> dma_free_addresses s \<and>
    g_mmio_base \<le> virt \<and> virt + sz \<le> g_mmio_next_virt s' \<and> g_mmio_next_virt s \<le> g_mmio_next_virt s'"
  proof (cases "find_idx (\<lambda>r. \<not> snd r < sz) ?rs")
    case None
    then have e: "virt = g_mmio_next_virt s" "s' = s\<lparr>g_mmio_next_virt := virt + sz\<rparr>"
      "virt + sz \<le> g_mmio_limit_virt"
      using a by (auto simp: dma_alloc_virt_range_def split: if_splits)
    have d: "covered ?rs \<inter> ?A = {}" using I e(1) by auto
    have "dma_inv s'" using I e(3) by (auto simp: dma_inv_def e(1,2))
    moreover have "dma_free_addresses s' = dma_free_addresses s - ?A"
      using d by (auto simp: dma_free_addresses_def e(1,2))
    ultimately show ?thesis using I e(3) by (auto simp: dma_free_addresses_def e(1,2))
  next
    case (Some i)
    obtain v n where vn: "?rs ! i = (v, n)" by fastforce
    have i: "i < length ?rs" "sz \<le> n" using find_idx_Some [THEN iffD1, OF Some] vn by auto
    define r where "r = (if n - sz = 0 then (0, 0) else (v + sz, n - sz))"
    have e: "virt = v" "g_dma_free_ranges s' = ?rs[i := r]" "g_mmio_next_virt s' = g_mmio_next_virt s"
      using a Some vn by (auto simp: dma_alloc_virt_range_def Let_def r_def)
    have r: "range_of r = range_of (?rs ! i) - ?A" "?A \<subseteq> range_of (?rs ! i)"
      using i(2) e(1) by (auto simp: range_of_def vn r_def)
    have D: "disjoint_ranges (?rs[i := r])"
      by (rule disjoint_update) (use I i r in auto)
    have C: "covered (?rs[i := r]) = covered ?rs - ?A"
      using slot_covered_update [OF i(1), of r] I r range_covered [OF i(1)] by blast
    have sub: "?A \<subseteq> {g_mmio_base ..< g_mmio_next_virt s}" using r(2) range_covered [OF i(1)] I by blast
    then have b: "g_mmio_base \<le> virt" "virt + sz \<le> g_mmio_next_virt s" using sz by auto
    have "dma_inv s'" using I D unfolding dma_inv_def e(2,3) C by blast
    moreover have "dma_free_addresses s' = dma_free_addresses s - ?A"
      unfolding dma_free_addresses_def e(2,3) C using sub I by auto
    ultimately show ?thesis using b r(2) range_covered [OF i(1)] unfolding dma_free_addresses_def e(2,3) by auto
  qed
  then show "dma_inv s'" and "dma_free_addresses s' = dma_free_addresses s - ?A"
    and "?A \<subseteq> dma_free_addresses s" and "g_mmio_base \<le> virt"
    and "virt + sz \<le> g_mmio_next_virt s'" and "g_mmio_next_virt s \<le> g_mmio_next_virt s'" by blast+
qed

lemma dma_insert_covers:
  assumes d: "disjoint_ranges rs" and sz: "0 < sz" and A: "{virt ..< virt + sz} \<inter> covered rs = {}"
  shows "disjoint_ranges (dma_insert rs virt sz)"
    and "covered (dma_insert rs virt sz) = covered rs \<union> {virt ..< virt + sz} \<or>
     dma_insert rs virt sz = rs \<and> (\<forall>r \<in> set rs. snd r \<noteq> 0)"
proof -
  let ?A = "{virt ..< virt + sz}"
  have "disjoint_ranges (dma_insert rs virt sz) \<and>
    (covered (dma_insert rs virt sz) = covered rs \<union> ?A \<or> dma_insert rs virt sz = rs \<and> (\<forall>r \<in> set rs. snd r \<noteq> 0))"
  proof -
    have put: "disjoint_ranges (rs[i := r]) \<and> covered (rs[i := r]) = covered rs \<union> ?A"
      if "i < length rs" "range_of r = range_of (rs ! i) \<union> ?A" for i r
      using disjoint_update [OF d that(1), of r] slot_covered_update [OF that(1) d, of r] that(2) A range_covered [OF that(1)]
      by blast
    show ?thesis
    proof (cases "find_idx (touches virt sz) rs")
      case (Some i)
      obtain v n where vn: "rs ! i = (v, n)" by fastforce
      have "i < length rs" "n \<noteq> 0" "v + n = virt \<or> virt + sz = v"
        using find_idx_Some [THEN iffD1, OF Some] vn by (auto simp: touches_def)
      moreover have "dma_insert rs virt sz = rs[i := (if v + n = virt then v else virt, n + sz)]"
        using Some vn by (simp add: dma_insert_def)
      moreover have "range_of (if v + n = virt then v else virt, n + sz) = range_of (rs ! i) \<union> ?A"
        using calculation(3) by (auto simp: range_of_def vn)
      ultimately show ?thesis using put by simp
    next
      case None
      show ?thesis
      proof (cases "find_idx (\<lambda>r. snd r = 0) rs")
        case (Some i)
        then have "i < length rs" "range_of (rs ! i) = {}"
          using find_idx_Some [THEN iffD1, OF Some] by (auto simp: range_of_def)
        moreover have "dma_insert rs virt sz = rs[i := (virt, sz)]" using Some None by (simp add: dma_insert_def)
        moreover have "range_of (virt, sz) = ?A" by (simp add: range_of_def)
        ultimately show ?thesis using put by simp
      next
        case n: None
        then have "dma_insert rs virt sz = rs" using None by (simp add: dma_insert_def)
        moreover have "\<forall>r \<in> set rs. snd r \<noteq> 0" using n by (simp add: find_idx_None)
        ultimately show ?thesis using d by simp
      qed
    qed
  qed
  then show "disjoint_ranges (dma_insert rs virt sz)"
    and "covered (dma_insert rs virt sz) = covered rs \<union> ?A \<or> dma_insert rs virt sz = rs \<and> (\<forall>r \<in> set rs. snd r \<noteq> 0)"
    by blast+
qed


lemma dma_free_gives:
  assumes inv: "dma_inv s" and v: "0 < virt" "0 < sz" and A: "{virt ..< virt + sz} \<inter> dma_free_addresses s = {}"
    and b: "g_mmio_base \<le> virt" "virt + sz \<le> g_mmio_next_virt s"
  shows "dma_inv (dma_free_virt_range s virt sz)"
    and "dma_free_addresses (dma_free_virt_range s virt sz) = dma_free_addresses s \<union> {virt ..< virt + sz} \<or>
      dma_free_addresses (dma_free_virt_range s virt sz) = dma_free_addresses s \<and>
        (\<forall>r \<in> set (g_dma_free_ranges s). snd r \<noteq> 0)"
    and "g_mmio_next_virt (dma_free_virt_range s virt sz) = g_mmio_next_virt s"
proof -
  let ?rs = "g_dma_free_ranges s" and ?A = "{virt ..< virt + sz}"
  let ?ns = "dma_insert ?rs virt sz"
  have e: "g_dma_free_ranges (dma_free_virt_range s virt sz) = merge_ranges ?ns 0 1"
    "g_mmio_next_virt (dma_free_virt_range s virt sz) = g_mmio_next_virt s"
    using v by (simp_all add: dma_free_virt_range_def)
  have "disjoint_ranges ?rs" "?A \<inter> covered ?rs = {}"
    using inv A by (auto simp: dma_inv_def dma_free_addresses_def)
  note I = dma_insert_covers [OF this(1) v(2) this(2)]
  note M = merge_ranges_keeps [OF I(1), of 0 1]
  show "g_mmio_next_virt (dma_free_virt_range s virt sz) = g_mmio_next_virt s" by (rule e(2))
  have c: "covered ?ns \<subseteq> {g_mmio_base ..< g_mmio_next_virt s}" using I(2) inv b by (auto simp: dma_inv_def)
  show "dma_inv (dma_free_virt_range s virt sz)"
    using inv M c unfolding dma_inv_def e by simp
  show "dma_free_addresses (dma_free_virt_range s virt sz) = dma_free_addresses s \<union> ?A \<or>
      dma_free_addresses (dma_free_virt_range s virt sz) = dma_free_addresses s \<and> (\<forall>r \<in> set ?rs. snd r \<noteq> 0)"
    using M I(2) unfolding dma_free_addresses_def e by auto
qed

text \<open>
  The ranges in use: a range that is allocated is added to them, and one of them may be released.
\<close>

inductive dma_step :: "vmm \<times> (nat \<times> nat) list \<Rightarrow> vmm \<times> (nat \<times> nat) list \<Rightarrow> bool" where
  alloc: "dma_alloc_virt_range s sz = Done (virt, s') \<Longrightarrow> 0 < sz \<Longrightarrow> dma_step (s, used) (s', (virt, sz) # used)"
| release: "dma_step (s, xs @ (virt, sz) # ys) (dma_free_virt_range s virt sz, xs @ ys)"

definition dma_used_ok :: "vmm \<times> (nat \<times> nat) list \<Rightarrow> bool" where
  "dma_used_ok st \<longleftrightarrow>
     (let (s, used) = st in
      dma_inv s \<and> sorted_wrt (\<lambda>r q. range_of r \<inter> range_of q = {}) used \<and>
      (\<forall>r \<in> set used. 0 < snd r \<and> range_of r \<inter> dma_free_addresses s = {} \<and>
         range_of r \<subseteq> {g_mmio_base ..< g_mmio_next_virt s}))"

lemma range_in: "0 < n \<Longrightarrow> range_of (v, n) \<subseteq> {a ..< b} \<longleftrightarrow> a \<le> v \<and> v + n \<le> b"
  by (auto simp: range_of_def)

lemma dma_step_ok: "dma_step st st' \<Longrightarrow> dma_used_ok st \<Longrightarrow> dma_used_ok st'"
proof (induction rule: dma_step.induct)
  case (alloc s sz virt s' used)
  then have inv: "dma_inv s" by (simp add: dma_used_ok_def)
  note T = dma_alloc_takes [OF inv alloc(1,2)]
  have r: "range_of (virt, sz) = {virt ..< virt + sz}" by (simp add: range_of_def)
  have "range_of (virt, sz) \<inter> range_of q = {}" if "q \<in> set used" for q
    using alloc(3) that T(3) unfolding r dma_used_ok_def by (auto simp: Let_def)
  moreover have "range_of q \<inter> dma_free_addresses s' = {} \<and> range_of q \<subseteq> {g_mmio_base ..< g_mmio_next_virt s'}"
    if "q \<in> set used" for q
    using alloc(3) that T(2,6) unfolding dma_used_ok_def by (fastforce simp: Let_def)
  moreover have "range_of (virt, sz) \<inter> dma_free_addresses s' = {}" using T(2) r by auto
  ultimately show ?case
    using alloc(2,3) T(1,4,5) by (simp add: dma_used_ok_def range_in)
next
  case (release s xs virt sz ys)
  have ok: "dma_inv s" "0 < sz" "range_of (virt, sz) \<inter> dma_free_addresses s = {}"
    "range_of (virt, sz) \<subseteq> {g_mmio_base ..< g_mmio_next_virt s}"
    using release by (auto simp: dma_used_ok_def)
  have v: "0 < virt" "g_mmio_base \<le> virt" "virt + sz \<le> g_mmio_next_virt s"
    using ok(2,4) by (auto simp: range_in g_mmio_base_def)
  have A: "{virt ..< virt + sz} \<inter> dma_free_addresses s = {}" using ok(3) by (simp add: range_of_def)
  note G = dma_free_gives [OF ok(1) v(1) ok(2) A v(2,3)]
  have d: "range_of q \<inter> range_of (virt, sz) = {}" if "q \<in> set (xs @ ys)" for q
    using release that by (auto simp: dma_used_ok_def sorted_wrt_append)
  have "range_of q \<inter> dma_free_addresses (dma_free_virt_range s virt sz) = {}" if "q \<in> set (xs @ ys)" for q
  proof -
    have "range_of q \<inter> dma_free_addresses s = {}" using release that by (auto simp: dma_used_ok_def)
    moreover have "dma_free_addresses (dma_free_virt_range s virt sz) \<subseteq> dma_free_addresses s \<union> range_of (virt, sz)"
      using G(2) by (auto simp: range_of_def)
    ultimately show ?thesis using d [OF that] by blast
  qed
  then show ?case
    using release G(1,3) by (auto simp: dma_used_ok_def sorted_wrt_append)
qed


definition dma_start :: "vmm \<Rightarrow> bool" where
  "dma_start s \<longleftrightarrow>
     g_mmio_next_virt s = g_mmio_base \<and> g_dma_free_ranges s = replicate MAX_DMA_FREE_RANGES (0, 0)"

text \<open>
  C14.  From the initial state, whatever ranges are allocated and released in whatever order, the
  ranges in use never overlap each other or the free addresses, and lie in the window for device memory.
\<close>

theorem dma_ranges_never_overlap:
  assumes "dma_start s" and "dma_step\<^sup>*\<^sup>* (s, []) (s', used)"
  shows "sorted_wrt (\<lambda>r q. range_of r \<inter> range_of q = {}) used \<and>
    (\<forall>r \<in> set used. range_of r \<inter> dma_free_addresses s' = {} \<and> range_of r \<subseteq> {g_mmio_base ..< g_mmio_limit_virt})"
proof -
  have "dma_used_ok (s, [])"
    using assms(1)
    by (simp add: dma_used_ok_def dma_inv_def dma_start_def disjoint_ranges_def covered_def g_mmio_base_def
        g_mmio_limit_virt_def)
  with assms(2) have "dma_used_ok (s', used)"
    by (induction rule: rtranclp_induct) (auto intro: dma_step_ok)
  then show ?thesis by (fastforce simp: dma_used_ok_def dma_inv_def)
qed

lemma dma_ranges_never_overlap_witness:
  "\<exists>s s'. dma_start s \<and> dma_step\<^sup>*\<^sup>* (s, []) (s', [(g_mmio_base + 4096, 8192)]) \<and>
     range_of (g_mmio_base + 4096, 8192) \<inter> dma_free_addresses s' = {}"
proof -
  obtain s :: vmm where s: "g_mmio_next_virt s = g_mmio_base" "g_dma_free_ranges s = replicate MAX_DMA_FREE_RANGES (0, 0)"
    by (meson vmm.select_convs)
  have n: "find_idx (\<lambda>r. \<not> snd r < sz) (replicate MAX_DMA_FREE_RANGES (0, 0)) = None" if "0 < sz" for sz :: nat
    using that by (simp add: find_idx_None)
  let ?a = "s\<lparr>g_mmio_next_virt := g_mmio_base + 4096\<rparr>"
  let ?b = "?a\<lparr>g_mmio_next_virt := g_mmio_base + 4096 + 8192\<rparr>"
  have "dma_step (s, []) (?a, [(g_mmio_base, 4096)])"
    using s by (intro dma_step.alloc)
      (simp_all add: dma_alloc_virt_range_def n MASSIVE_MAPPING_THRESHOLD_def g_mmio_base_def g_mmio_limit_virt_def)
  moreover have "dma_step (?a, [(g_mmio_base, 4096)]) (?b, [(g_mmio_base + 4096, 8192), (g_mmio_base, 4096)])"
    using s by (intro dma_step.alloc)
      (simp_all add: dma_alloc_virt_range_def n MASSIVE_MAPPING_THRESHOLD_def g_mmio_base_def g_mmio_limit_virt_def)
  moreover have "dma_step (?b, [(g_mmio_base + 4096, 8192), (g_mmio_base, 4096)])
      (dma_free_virt_range ?b g_mmio_base 4096, [(g_mmio_base + 4096, 8192)])"
    using dma_step.release [of ?b "[(g_mmio_base + 4096, 8192)]" g_mmio_base 4096 "[]"] by simp
  ultimately have r: "dma_step\<^sup>*\<^sup>* (s, []) (dma_free_virt_range ?b g_mmio_base 4096, [(g_mmio_base + 4096, 8192)])"
    by (meson rtranclp.rtrancl_into_rtrancl rtranclp.rtrancl_refl)
  have "dma_start s" using s by (simp add: dma_start_def)
  with dma_ranges_never_overlap [OF this r] r show ?thesis by auto
qed

end
