(* ===== verification/Vfs_Path.thy ===== *)
theory Vfs_Path
  imports Unifs
begin

text \<open>
  The parts of the virtual file system, \<open>src/fs/vfs.cpp\<close>, that work on paths: making a path absolute,
  choosing the mount it belongs to, and checking permissions; with the storage guard of
  \<open>src/fs/storage_guard.cpp\<close>.  Strings are byte lists, read up to their terminator as in \<open>Kstring\<close>.
\<close>

section \<open>Making a path absolute\<close>

definition slash :: u8 where "slash = 47"
definition dot :: u8 where "dot = 46"

text \<open>
  What the loop does with a token: \<open>..\<close> drops a segment, \<open>.\<close> and the empty token are skipped.
\<close>

definition add_segment :: "u8 list list \<Rightarrow> u8 list \<Rightarrow> u8 list list" where
  "add_segment segments tok =
     (if strcmp tok [dot, dot, 0] = 0 then (if segments \<noteq> [] then butlast segments else segments)
      else if strcmp tok [dot, 0] \<noteq> 0 \<and> at0 tok \<noteq> 0 then
        (if length segments < 256 then segments @ [cstr tok] else segments)
      else segments)"

text \<open>
  The loop over the copy of the path: \<open>tok\<close> holds the bytes from the start of the token to before the
  current byte, \<open>rest\<close> those from the current byte on.  After a separator the pointer is set to the first
  byte of the next token and then moved on, so that byte is never looked at.
\<close>

function split_path :: "u8 list list \<Rightarrow> u8 list \<Rightarrow> u8 list \<Rightarrow> u8 list list" where
  "split_path segments tok rest =
     (let c = at0 rest in
      if c = slash \<or> c = 0 then
        (let segments = add_segment segments (tok @ [0]) in
         if c = 0 then segments
         else split_path segments [at0 (tl rest)] (tl (tl rest)))
      else split_path segments (tok @ [c]) (tl rest))"
  by pat_completeness auto
termination
proof (relation "measure (\<lambda>(segments, tok, rest). length rest)", goal_cases)
  case (2 segments tok rest c segs)
  then show ?case by (cases rest) (auto simp: slash_def)
next
  case (3 segments tok rest c)
  then show ?case by (cases rest) auto
qed auto

declare split_path.simps [simp del]

fun join_segments :: "u8 list \<Rightarrow> u8 list list \<Rightarrow> u8 list" where
  "join_segments out [] = out"
| "join_segments out (s # ss) =
     (let out = strncat out [slash, 0] (511 - strlen out);
          out = strncat out s (511 - strlen out)
      in join_segments out ss)"

text \<open>
  \<open>buf\<close> and \<open>buf2\<close> are the contents of the two arrays of 512 bytes on the stack before they are written,
  \<open>out\<close> those of the caller's array.
\<close>

definition absolute_path :: "u8 list \<Rightarrow> u8 list option \<Rightarrow> u8 list \<Rightarrow> u8 list" where
  "absolute_path buf cwd path =
     (let base_cwd = (case cwd of Some d \<Rightarrow> if at0 d \<noteq> 0 then d else [slash, 0] | None \<Rightarrow> [slash, 0]) in
      if sv_starts_with (cstr path) [slash] then strncpy buf path 511
      else
        let t = strncpy buf base_cwd 511;
            (t, cwd_len) = (if strlen t = 0 then (strncpy t [slash, 0] 511, 1) else (t, strlen t));
            t = (if t ! (cwd_len - 1) \<noteq> slash then strncat t [slash, 0] (511 - strlen t) else t)
        in strncat t path (511 - strlen t))"

definition vfs_resolve_relative_path ::
  "u8 list \<Rightarrow> u8 list \<Rightarrow> u8 list option \<Rightarrow> u8 list \<Rightarrow> u8 list \<Rightarrow> u8 list"
where
  "vfs_resolve_relative_path buf buf2 cwd path out =
     (let temp_path = absolute_path buf cwd path;
          copy = strncpy buf2 temp_path 511;
          tok = (if at0 copy = slash then tl copy else copy);
          segments = split_path [] [] tok;
          out = join_segments (out[0 := 0]) segments
      in if at0 out = 0 then out[0 := slash, 1 := 0] else out)"

section \<open>Mounts\<close>

text \<open>A mount has its path, the node of its root and its flags; the list has the newest mount first.\<close>

record Mount =
  mt_path :: "u8 list"
  mt_root :: nat
  mt_flags :: u32

definition VFS_MOUNT_FLAG_STORAGE_GUARDED :: u32 where "VFS_MOUNT_FLAG_STORAGE_GUARDED = 1"

text \<open>Whether the path of a mount is the path or a directory above it.\<close>

definition mount_covers :: "u8 list \<Rightarrow> Mount \<Rightarrow> bool" where
  "mount_covers path m \<longleftrightarrow>
     (let m_path = cstr (mt_path m); len = length m_path in
      sv_starts_with path m_path \<and>
      (length path = len \<or> path ! len = slash \<or> (len = 1 \<and> m_path ! 0 = slash)))"

fun best_mount_loop :: "u8 list \<Rightarrow> Mount list \<Rightarrow> Mount option \<Rightarrow> nat \<Rightarrow> Mount option" where
  "best_mount_loop path [] best max_len = best"
| "best_mount_loop path (m # ms) best max_len =
     (if mount_covers path m \<and> strlen (mt_path m) \<ge> max_len
      then best_mount_loop path ms (Some m) (strlen (mt_path m))
      else best_mount_loop path ms best max_len)"

definition vfs_find_best_mount_locked :: "Mount list \<Rightarrow> u8 list \<Rightarrow> Mount option" where
  "vfs_find_best_mount_locked mounts path = best_mount_loop path mounts None 0"

definition vfs_path_is_storage_guarded :: "Mount list \<Rightarrow> u8 list \<Rightarrow> bool" where
  "vfs_path_is_storage_guarded mounts path =
     (if at0 path \<noteq> slash then False
      else case vfs_find_best_mount_locked mounts (cstr path) of
        None \<Rightarrow> False
      | Some m \<Rightarrow> mt_flags m AND VFS_MOUNT_FLAG_STORAGE_GUARDED \<noteq> 0)"

text \<open>The root node of the mount and the rest of the path below it.\<close>

definition vfs_resolve_path :: "Mount list \<Rightarrow> u8 list \<Rightarrow> (nat \<times> u8 list) option" where
  "vfs_resolve_path mounts path =
     (if path = [] \<or> path ! 0 \<noteq> slash then None
      else case vfs_find_best_mount_locked mounts path of
        None \<Rightarrow> None
      | Some m \<Rightarrow> Some (mt_root m, dropWhile (\<lambda>c. c = slash) (drop (strlen (mt_path m)) path)))"

section \<open>Permissions and the storage guard\<close>

definition S_IRUSR :: nat where "S_IRUSR = 256"
definition S_IWUSR :: nat where "S_IWUSR = 128"
definition S_IXUSR :: nat where "S_IXUSR = 64"
definition S_IROTH :: nat where "S_IROTH = 4"
definition S_IWOTH :: nat where "S_IWOTH = 2"
definition S_IXOTH :: nat where "S_IXOTH = 1"
definition VFS_USER_STORAGE_DIR_MODE :: nat where "VFS_USER_STORAGE_DIR_MODE = 511"

definition vfs_sanitize_file_mode :: "nat \<Rightarrow> nat" where
  "vfs_sanitize_file_mode mode =
     (let sanitized = mode AND 511 in
      if sanitized AND S_IRUSR = 0 \<or> sanitized AND S_IWUSR = 0 then VFS_DEFAULT_FILE_MODE else sanitized)"

text \<open>\<open>uid\<close> is the user of the current process, if there is one.\<close>

definition vfs_check_permission :: "nat option \<Rightarrow> nat \<Rightarrow> nat \<Rightarrow> nat \<Rightarrow> bool" where
  "vfs_check_permission uid node_uid mode wanted =
     (case uid of
        None \<Rightarrow> True
      | Some u \<Rightarrow>
          if u = 0 then True
          else if node_uid = u then
            (if wanted AND 4 \<noteq> 0 \<and> mode AND S_IRUSR = 0 then False
             else if wanted AND 2 \<noteq> 0 \<and> mode AND S_IWUSR = 0 then False
             else if wanted AND 1 \<noteq> 0 \<and> mode AND S_IXUSR = 0 then False
             else True)
          else if wanted AND 4 \<noteq> 0 \<and> mode AND S_IROTH = 0 then False
          else if wanted AND 2 \<noteq> 0 \<and> mode AND S_IWOTH = 0 then False
          else if wanted AND 1 \<noteq> 0 \<and> mode AND S_IXOTH = 0 then False
          else True)"

definition STORAGE_MODE_OFF :: nat where "STORAGE_MODE_OFF = 0"
definition STORAGE_MODE_READ_ONLY :: nat where "STORAGE_MODE_READ_ONLY = 1"
definition STORAGE_MODE_WRITABLE :: nat where "STORAGE_MODE_WRITABLE = 2"

definition storage_set_mode :: "nat \<Rightarrow> nat" where
  "storage_set_mode mode = (if mode > STORAGE_MODE_WRITABLE then STORAGE_MODE_READ_ONLY else mode)"

definition storage_reads_allowed :: "nat \<Rightarrow> bool" where
  "storage_reads_allowed mode \<longleftrightarrow> mode \<noteq> STORAGE_MODE_OFF"

definition storage_writes_allowed :: "nat \<Rightarrow> bool" where
  "storage_writes_allowed mode \<longleftrightarrow> mode = STORAGE_MODE_WRITABLE"


section \<open>Normal forms of paths\<close>

text \<open>The segments between slashes, and what they denote.\<close>

fun seg_list :: "u8 list \<Rightarrow> u8 list list" where
  "seg_list [] = [[]]"
| "seg_list (c # cs) = (if c = slash then [] # seg_list cs else (c # hd (seg_list cs)) # tl (seg_list cs))"

definition canon_step :: "u8 list list \<Rightarrow> u8 list \<Rightarrow> u8 list list" where
  "canon_step acc s =
     (if s = [dot, dot] then butlast acc else if s = [dot] \<or> s = [] then acc else acc @ [s])"

definition render :: "u8 list list \<Rightarrow> u8 list" where
  "render segs = (if segs = [] then [slash] else concat (map (Cons slash) segs))"

fun no_double :: "u8 list \<Rightarrow> bool" where
  "no_double (c # d # cs) = (\<not> (c = slash \<and> d = slash) \<and> no_double (d # cs))"
| "no_double cs = True"

lemma seg_list_neq [simp]: "seg_list cs \<noteq> []"
  by (cases cs) auto

lemma slash_neq_0 [simp]: "slash \<noteq> 0" "dot \<noteq> 0" "dot \<noteq> slash"
  by (simp_all add: slash_def dot_def)

lemma no_double_tl: "no_double (c # cs) \<Longrightarrow> no_double cs"
  by (cases cs) auto

lemma add_segment_canon:
  assumes "0 \<notin> set tok" and "length segs < 256"
  shows "add_segment segs (tok @ [0]) = canon_step segs tok"
proof -
  have "cstr (tok @ [0]) = tok" using assms(1) by (simp add: cstr_append)
  moreover have "at0 (tok @ [0]) \<noteq> 0 \<longleftrightarrow> tok \<noteq> []" using assms(1) by (cases tok) auto
  moreover have "cstr [dot, dot, 0] = [dot, dot]" "cstr [dot, 0] = [dot]" by simp_all
  ultimately show ?thesis
    using assms(2) by (auto simp: add_segment_def canon_step_def strcmp_0)
qed

lemma length_canon_step: "length (canon_step acc s) \<le> Suc (length acc)"
  by (auto simp: canon_step_def intro: le_SucI)

text \<open>The loop computes the normal form, when no two slashes meet and the terminator is followed by a zero.\<close>

lemma split_path_canon:
  "no_double body \<Longrightarrow> 0 \<notin> set body \<Longrightarrow> 0 \<notin> set tok \<Longrightarrow> at0 z = 0 \<Longrightarrow> (tok = [] \<longrightarrow> at0 body \<noteq> slash) \<Longrightarrow>
    length segs + length (seg_list body) \<le> 256 \<Longrightarrow>
    split_path segs tok (body @ 0 # z) =
      foldl canon_step segs ((tok @ hd (seg_list body)) # tl (seg_list body))"
proof (induction body arbitrary: segs tok rule: length_induct)
  case (1 body)
  note IH = 1(1) and nd = 1(2) and nz = 1(3,4) and z = 1(5) and st = 1(6) and len = 1(7)
  show ?case
  proof (cases body)
    case Nil
    then show ?thesis using nz len by (simp add: split_path.simps add_segment_canon)
  next
    case (Cons c b)
    show ?thesis
    proof (cases "c = slash")
      case False
      then have "split_path segs (tok @ [c]) (b @ 0 # z) =
          foldl canon_step segs (((tok @ [c]) @ hd (seg_list b)) # tl (seg_list b))"
        using IH nd nz z len Cons no_double_tl by auto
      then show ?thesis using False Cons nz by (simp add: split_path.simps [of segs tok])
    next
      case True
      have l: "length segs < 256" using len Cons True by (cases "seg_list b") auto
      let ?segs = "canon_step segs tok"
      have step: "split_path segs tok (body @ 0 # z) = split_path ?segs [at0 (b @ 0 # z)] (tl (b @ 0 # z))"
        using True Cons nz l by (simp add: split_path.simps [of segs tok] add_segment_canon)
      show ?thesis
      proof (cases b)
        case Nil
        have "split_path ?segs [0] z = ?segs"
          using z by (simp add: split_path.simps add_segment_def strcmp_0 del: strcmp.simps)
        then show ?thesis using step Nil True Cons by (simp add: canon_step_def)
      next
        case (Cons d b')
        then have d: "d \<noteq> slash" "d \<noteq> 0" using nd nz True \<open>body = c # b\<close> by auto
        have "split_path ?segs [d] (b' @ 0 # z) =
            foldl canon_step ?segs (([d] @ hd (seg_list b')) # tl (seg_list b'))"
        proof (rule IH [rule_format])
          have "no_double b'" using no_double_tl [of d b'] nd Cons \<open>body = c # b\<close> by simp
          then show "no_double b'" .
          show "length ?segs + length (seg_list b') \<le> 256"
            using len Cons \<open>body = c # b\<close> True d length_canon_step [of segs tok] by (cases "seg_list b'") auto
        qed (use nz z d Cons \<open>body = c # b\<close> in auto)
        then show ?thesis using step Cons True d \<open>body = c # b\<close> by simp
      qed
    qed
  qed
qed

text \<open>There are at most half as many segments as bytes.\<close>

lemma seg_list_count: "no_double cs \<Longrightarrow> at0 cs \<noteq> slash \<Longrightarrow> 2 * length (seg_list cs) \<le> length cs + 2"
proof (induction cs rule: length_induct)
  case (1 cs)
  show ?case
  proof (cases cs)
    case (Cons c b)
    then have c: "c \<noteq> slash" using 1(3) by simp
    show ?thesis
    proof (cases b)
      case (Cons d b')
      show ?thesis
      proof (cases "d = slash")
        case True
        then have "2 * length (seg_list b') \<le> length b' + 2"
          using 1(1) [rule_format, of b'] 1(2) Cons \<open>cs = c # b\<close> by (cases b') auto
        then show ?thesis using Cons \<open>cs = c # b\<close> c True by simp
      next
        case False
        then have "2 * length (seg_list b) \<le> length b + 2"
          using 1(1) [rule_format, of b] 1(2) no_double_tl [of c b] Cons \<open>cs = c # b\<close> by auto
        then show ?thesis using \<open>cs = c # b\<close> c by (cases "seg_list b") auto
      qed
    qed (use \<open>cs = c # b\<close> c in simp)
  qed simp
qed


lemma length_cat_copy [simp]: "length (cat_copy dst src n) = length dst"
  by (induction dst src n rule: cat_copy.induct) auto

lemma length_strncat [simp]: "length (strncat dst src n) = length dst"
  by (induction dst src n rule: strncat.induct) auto

definition joined :: "u8 list list \<Rightarrow> u8 list" where
  "joined segs = concat (map (Cons slash) segs)"

lemma joined_simps [simp]: "joined [] = []" "joined (s # ss) = slash # s @ joined ss" "joined (xs @ ys) = joined xs @ joined ys"
  by (simp_all add: joined_def)

lemma cstr_join_segments:
  "512 \<le> length out \<Longrightarrow> \<forall>s \<in> set segs. 0 \<notin> set s \<Longrightarrow> length (cstr out) + length (joined segs) \<le> 510 \<Longrightarrow>
    cstr (join_segments out segs) = cstr out @ joined segs"
proof (induction out segs rule: join_segments.induct)
  case (2 out s ss)
  let ?o1 = "strncat out [slash, 0] (511 - strlen out)"
  let ?o2 = "strncat ?o1 s (511 - strlen ?o1)"
  have s: "cstr s = s" using 2(3) by (simp add: cstr_id)
  have 1: "cstr ?o1 = cstr out @ [slash]"
    using 2(2,4) by (simp add: cstr_strncat strlen_cstr)
  have "cstr ?o2 = cstr out @ [slash] @ s"
    using 2(2,4) s 1 by (simp add: cstr_strncat strlen_cstr)
  then show ?case using 2 by (simp add: Let_def)
qed simp

lemma length_joined_step: "length (joined (canon_step acc s)) \<le> length (joined acc) + Suc (length s)"
proof -
  have "length (joined (butlast acc)) \<le> length (joined acc)" by (cases acc rule: rev_cases) auto
  then show ?thesis by (auto simp: canon_step_def)
qed

lemma length_joined_fold:
  "length (joined (foldl canon_step acc ss)) \<le> length (joined acc) + sum_list (map (\<lambda>s. Suc (length s)) ss)"
proof (induction ss arbitrary: acc)
  case (Cons s ss)
  show ?case using Cons [of "canon_step acc s"] length_joined_step [of acc s] by simp
qed simp

lemma seg_list_weight: "sum_list (map (\<lambda>s. Suc (length s)) (seg_list cs)) = Suc (length cs)"
proof (induction cs)
  case (Cons c cs)
  then show ?case by (cases "seg_list cs") auto
qed simp

lemma canon_no_nul:
  "\<forall>s \<in> set acc. 0 \<notin> set s \<Longrightarrow> \<forall>s \<in> set ss. 0 \<notin> set s \<Longrightarrow> \<forall>s \<in> set (foldl canon_step acc ss). 0 \<notin> set s"
proof (induction ss arbitrary: acc)
  case (Cons s ss)
  have "set (canon_step acc s) \<subseteq> insert s (set acc)" by (auto simp: canon_step_def dest: in_set_butlastD)
  moreover have "\<forall>x \<in> insert s (set acc). 0 \<notin> set x" using Cons.prems by simp
  ultimately have "\<forall>x \<in> set (canon_step acc s). 0 \<notin> set x" by blast
  then show ?case using Cons.IH [of "canon_step acc s"] Cons.prems(2) by simp
qed simp

lemma seg_list_no_nul: "0 \<notin> set cs \<Longrightarrow> s \<in> set (seg_list cs) \<Longrightarrow> 0 \<notin> set s"
proof (induction cs arbitrary: s)
  case (Cons c cs)
  have "hd (seg_list cs) \<in> set (seg_list cs)" "set (tl (seg_list cs)) \<subseteq> set (seg_list cs)"
    by (cases "seg_list cs", auto)+
  then show ?case using Cons by (auto split: if_splits)
qed simp

text \<open>The absolute path that the arguments stand for.\<close>

definition full_path :: "u8 list option \<Rightarrow> u8 list \<Rightarrow> u8 list" where
  "full_path cwd path =
     (if at0 path = slash then cstr path
      else
        let base = (case cwd of Some d \<Rightarrow> if at0 d \<noteq> 0 then cstr d else [slash] | None \<Rightarrow> [slash])
        in base @ (if last base \<noteq> slash then [slash] else []) @ cstr path)"

lemma cstr_absolute_path:
  assumes "length buf = 512" and "length (full_path cwd path) < 511"
  shows "cstr (absolute_path buf cwd path) = full_path cwd path"
proof (cases "at0 path = slash")
  case True
  then have "sv_starts_with (cstr path) [slash]" by (cases path) auto
  then show ?thesis using True assms by (simp add: absolute_path_def full_path_def cstr_strncpy)
next
  case False
  define base where "base = (case cwd of Some d \<Rightarrow> if at0 d \<noteq> 0 then d else [slash, 0] | None \<Rightarrow> [slash, 0])"
  have f: "full_path cwd path = cstr base @ (if last (cstr base) \<noteq> slash then [slash] else []) @ cstr path"
    using False by (simp add: full_path_def base_def split: option.splits)
  have ne: "cstr base \<noteq> []"
    unfolding base_def by (auto simp: cstr_cons_at0 [of "the cwd"] split: option.splits) (metis cstr_cons_at0 list.distinct(1))
  let ?t = "strncpy buf base 511"
  have t: "cstr ?t = cstr base" using assms f by (simp add: cstr_strncpy split: if_splits)
  have l: "length ?t = 512" using assms(1) by (simp add: length_strncpy)
  have last: "?t ! (strlen ?t - 1) = last (cstr base)"
  proof -
    have "cstr ?t = take (length (cstr ?t)) ?t" by (metis cstr_def takeWhile_eq_take)
    moreover have "length (cstr ?t) \<le> length ?t" by (simp add: cstr_def length_takeWhile_le)
    ultimately have "?t ! (length (cstr ?t) - 1) = cstr ?t ! (length (cstr ?t) - 1)"
      using ne t by (metis One_nat_def diff_less length_greater_0_conv lessI nth_take)
    then show ?thesis using ne t by (simp add: strlen_cstr last_conv_nth)
  qed
  have "\<not> sv_starts_with (cstr path) [slash]" using False by (cases path) (auto split: if_splits)
  then have a: "absolute_path buf cwd path =
      (let t = (if last (cstr base) \<noteq> slash then strncat ?t [slash, 0] (511 - strlen ?t) else ?t)
       in strncat t path (511 - strlen t))"
    using ne t last by (simp add: absolute_path_def base_def [symmetric] strlen_cstr)
  define u where "u = (if last (cstr base) \<noteq> slash then strncat ?t [slash, 0] (511 - strlen ?t) else ?t)"
  define b where "b = cstr base @ (if last (cstr base) \<noteq> slash then [slash] else [])"
  have fb: "full_path cwd path = b @ cstr path" unfolding f b_def by simp
  have u: "cstr u = b" "length u = 512"
    using l t assms(2) unfolding fb by (auto simp: u_def b_def cstr_strncat strlen_cstr)
  have "cstr (strncat u path (511 - strlen u)) = b @ cstr path"
    using u assms(2) unfolding fb by (simp add: cstr_strncat strlen_cstr)
  then show ?thesis unfolding a fb Let_def u_def .
qed


text \<open>
  C36.  Resolving a path.  When the path, taken relative to the working directory, is absolute, shorter
  than 510 bytes and has no two slashes in a row, \<open>vfs_resolve_relative_path\<close> writes its normal form:
  the segments without \<open>.\<close> and empty ones, each \<open>..\<close> removing the segment before it and the root being
  its own parent.  The result does not depend on what the arrays held before.
\<close>

theorem vfs_resolve_relative_path_correct:
  assumes b: "length buf = 512" "length buf2 = 512" "512 \<le> length out"
    and p: "full_path cwd path = slash # body" and nd: "no_double (slash # body)" and l: "length body < 509"
  shows "cstr (vfs_resolve_relative_path buf buf2 cwd path out) = render (foldl canon_step [] (seg_list body))"
proof -
  let ?segs = "foldl canon_step [] (seg_list body)"
  let ?t = "absolute_path buf cwd path" and ?out = "out[0 := 0]"
  have t: "cstr ?t = slash # body" using cstr_absolute_path [OF b(1), of cwd path] p l by simp
  have nz: "0 \<notin> set body" using cstr_no_nul [of ?t] t by simp
  have h: "at0 body \<noteq> slash" using nd by (cases body) auto
  have copy: "strncpy buf2 ?t 511 = slash # body @ 0 # (replicate (509 - length body) 0 @ drop 511 buf2)"
    using b(2) l by (simp add: strncpy_eq t replicate_Suc [symmetric] Suc_diff_le del: replicate_Suc)
  have "at0 (replicate (509 - length body) (0 :: u8) @ drop 511 buf2) = 0" using l by (cases "509 - length body") auto
  moreover have "length (seg_list body) \<le> 256" using seg_list_count [OF no_double_tl [OF nd] h] l by simp
  ultimately have s: "split_path [] [] (tl (strncpy buf2 ?t 511)) = ?segs"
    using split_path_canon [OF no_double_tl [OF nd] nz _ _ , of "[]"] h unfolding copy by simp
  have "length (joined ?segs) \<le> 510"
    using length_joined_fold [of "[]" "seg_list body"] seg_list_weight [of body] l by simp
  moreover have "cstr ?out = []" using b(3) by (cases out) auto
  moreover have "\<forall>s \<in> set ?segs. 0 \<notin> set s" using canon_no_nul [of "[]" "seg_list body"] seg_list_no_nul [OF nz] by simp
  ultimately have j: "cstr (join_segments ?out ?segs) = joined ?segs"
    using cstr_join_segments [of ?out ?segs] b(3) by simp
  have r: "vfs_resolve_relative_path buf buf2 cwd path out =
      (let r = join_segments ?out ?segs in if at0 r = 0 then r[0 := slash, 1 := 0] else r)"
    using s copy by (simp add: vfs_resolve_relative_path_def Let_def)
  show ?thesis
  proof (cases "?segs = []")
    case True
    then show ?thesis using r b(3) by (cases out; cases "tl out") (auto simp: render_def)
  next
    case False
    then have "at0 (join_segments ?out ?segs) \<noteq> 0"
      using j cstr_cons_at0 [of "join_segments ?out ?segs"] by (cases ?segs) (auto split: if_splits)
    then show ?thesis using r j False by (simp add: render_def joined_def)
  qed
qed

lemma vfs_resolve_relative_path_correct_witness:
  "cstr (vfs_resolve_relative_path (replicate 512 9) (replicate 512 9) (Some [47, 97, 0]) [46, 46, 47, 98, 0]
     (replicate 512 9)) = [47, 98]"
proof -
  have e: "full_path (Some [47, 97, 0]) [46, 46, 47, 98, 0] = slash # [97, 47, 46, 46, 47, 98]"
    "no_double (slash # [97, 47, 46, 46, 47, 98])" "length [97, 47, 46, 46, 47, 98 :: u8] < 509"
    "render (foldl canon_step [] (seg_list [97, 47, 46, 46, 47, 98])) = [47, 98]"
    by code_simp+
  show ?thesis
    using vfs_resolve_relative_path_correct [OF _ _ _ e(1-3), of "replicate 512 9" "replicate 512 9" "replicate 512 9"]
      e(4) by simp
qed


text \<open>
  Two slashes in a row hide the segment behind them: \<open>/a//..\<close> is not reduced to the root, and the result
  still holds \<open>..\<close> as a segment.
\<close>

lemma vfs_resolve_double_slash:
  assumes "length buf = 512" and "length buf2 = 512" and "512 \<le> length out"
  shows "cstr (vfs_resolve_relative_path buf buf2 None [47, 97, 47, 47, 46, 46, 0] out) = [47, 97, 47, 47, 46, 46]"
proof -
  let ?t = "absolute_path buf None [47, 97, 47, 47, 46, 46, 0]" and ?out = "out[0 := 0]"
  have "full_path None [47, 97, 47, 47, 46, 46, 0] = [47, 97, 47, 47, 46, 46]" by (simp add: full_path_def slash_def)
  then have "cstr ?t = [47, 97, 47, 47, 46, 46]" using cstr_absolute_path [OF assms(1)] by simp
  then have copy: "strncpy buf2 ?t 511 = 47 # 97 # 47 # 47 # 46 # 46 # replicate 505 0 @ drop 511 buf2"
    using assms(2) by (simp add: strncpy_eq)
  have r: "replicate 505 (0 :: u8) = 0 # replicate 504 0" using replicate_Suc [of 504 "0 :: u8"] by simp
  have add: "add_segment [] [97, 0] = [[97]]" "add_segment [[97]] [47, 46, 46, 0] = [[97], [47, 46, 46]]"
    by (simp_all add: add_segment_def dot_def)
  have s: "split_path [] [] (tl (strncpy buf2 ?t 511)) = [[97], [47, 46, 46]]"
    unfolding copy r by (simp add: split_path.simps slash_def add)
  have "cstr ?out = []" using assms(3) by (cases out) auto
  then have j: "cstr (join_segments ?out [[97], [47, 46, 46]]) = [47, 97, 47, 47, 46, 46]"
    using cstr_join_segments [of ?out "[[97], [47, 46, 46]]"] assms(3) by (simp add: slash_def)
  then have "at0 (join_segments ?out [[97], [47, 46, 46]]) \<noteq> 0" by (metis cstr_cons_at0 list.distinct(1))
  then show ?thesis using s copy j by (simp add: vfs_resolve_relative_path_def Let_def slash_def)
qed

section \<open>The best mount\<close>

lemma best_mount_loop_spec:
  assumes "best = None \<and> max_len = 0 \<or> (\<exists>m. best = Some m \<and> mount_covers path m \<and> max_len = strlen (mt_path m))"
  shows "case best_mount_loop path ms best max_len of
      None \<Rightarrow> best = None \<and> (\<forall>m \<in> set ms. \<not> mount_covers path m)
    | Some m \<Rightarrow> (m \<in> set ms \<or> best = Some m) \<and> mount_covers path m \<and> max_len \<le> strlen (mt_path m) \<and>
        (\<forall>m' \<in> set ms. mount_covers path m' \<longrightarrow> strlen (mt_path m') \<le> strlen (mt_path m))"
  using assms
proof (induction path ms best max_len rule: best_mount_loop.induct)
  case (2 path m ms best max_len)
  show ?case
  proof (cases "mount_covers path m \<and> strlen (mt_path m) \<ge> max_len")
    case True
    then show ?thesis using 2(1) [OF True] by (auto split: option.splits)
  next
    case False
    then show ?thesis using 2(2) [OF False 2(3)] 2(3) by (auto split: option.splits)
  qed
qed (auto split: option.splits)

text \<open>
  Resolving an absolute path finds the mount whose path is the longest directory prefix of it, if
  one exists, and splits the path into the path of the mount, slashes, and a rest that does not begin
  with a slash.
\<close>

theorem vfs_resolve_path_longest:
  assumes "path \<noteq> []" and "path ! 0 = slash"
  shows "case vfs_resolve_path mounts path of
      None \<Rightarrow> \<forall>m \<in> set mounts. \<not> mount_covers path m
    | Some (root, rel) \<Rightarrow> \<exists>m \<in> set mounts. root = mt_root m \<and> mount_covers path m \<and>
        (\<forall>m' \<in> set mounts. mount_covers path m' \<longrightarrow> length (cstr (mt_path m')) \<le> length (cstr (mt_path m))) \<and>
        (\<exists>n. path = cstr (mt_path m) @ replicate n slash @ rel) \<and> (rel = [] \<or> hd rel \<noteq> slash)"
proof (cases "vfs_find_best_mount_locked mounts path")
  case None
  then show ?thesis
    using best_mount_loop_spec [of None 0 path mounts] assms
    by (simp add: vfs_resolve_path_def vfs_find_best_mount_locked_def)
next
  case (Some m)
  have m: "m \<in> set mounts" "mount_covers path m"
    "\<forall>m' \<in> set mounts. mount_covers path m' \<longrightarrow> length (cstr (mt_path m')) \<le> length (cstr (mt_path m))"
    using best_mount_loop_spec [of None 0 path mounts] Some
    by (auto simp: vfs_find_best_mount_locked_def strlen_cstr)
  let ?d = "drop (length (cstr (mt_path m))) path"
  have "takeWhile (\<lambda>c. c = slash) ?d = replicate (length (takeWhile (\<lambda>c. c = slash) ?d)) slash"
    by (rule replicate_length_same [symmetric]) (auto dest: set_takeWhileD)
  then have "?d = replicate (length (takeWhile (\<lambda>c. c = slash) ?d)) slash @ dropWhile (\<lambda>c. c = slash) ?d"
    by (metis takeWhile_dropWhile_id)
  moreover have "path = cstr (mt_path m) @ ?d"
    using m(2) by (metis append_take_drop_id mount_covers_def sv_starts_with_prefix)
  ultimately have "\<exists>n. path = cstr (mt_path m) @ replicate n slash @ dropWhile (\<lambda>c. c = slash) ?d" by metis
  moreover have "dropWhile (\<lambda>c. c = slash) ?d = [] \<or> hd (dropWhile (\<lambda>c. c = slash) ?d) \<noteq> slash"
    using hd_dropWhile by blast
  ultimately show ?thesis
    using m Some assms by (auto simp: vfs_resolve_path_def strlen_cstr)
qed

lemma vfs_resolve_path_longest_witness:
  "vfs_resolve_path
     [\<lparr>mt_path = [47, 100, 0], mt_root = 2, mt_flags = 1\<rparr>, \<lparr>mt_path = [47, 0], mt_root = 1, mt_flags = 0\<rparr>]
     [47, 100, 47, 120] = Some (2, [120]) \<and>
   (\<exists>n. [47, 100, 47, 120] = [47, 100 :: u8] @ replicate n slash @ [120])"
proof -
  let ?ms = "[\<lparr>mt_path = [47, 100, 0], mt_root = 2, mt_flags = 1\<rparr>, \<lparr>mt_path = [47, 0], mt_root = 1, mt_flags = 0\<rparr>]"
  have e: "vfs_resolve_path ?ms [47, 100, 47, 120] = Some (2, [120])" "[47, 100, 47, 120 :: u8] ! 0 = slash"
    by code_simp+
  show ?thesis
    using vfs_resolve_path_longest [OF _ e(2), of ?ms] e(1) by auto
qed

end
