(* ===== verification/Vfs.thy ===== *)
theory Vfs
  imports Vfs_Path
begin

text \<open>
  The virtual file system, \<open>src/fs/vfs.cpp\<close>: nodes and their references, the page cache, descriptors, and
  the operations on them.  A driver is reached through the tables of operations of its nodes, as in the
  code: \<open>ops\<close> gives the functions of each table over the state \<open>'fs\<close> of the drivers.  A node is known by its
  address, an index into \<open>nodes\<close>; a freed node is \<open>None\<close> there, and using it is \<open>Overrun\<close>, as is a call
  through a null pointer.  Operations of different processors are not interleaved.
\<close>

section \<open>State\<close>

text \<open>
  The operations of a node, \<open>None\<close> for a null pointer.  \<open>read\<close> and \<open>write\<close> get the size or the bytes, the
  offset, and whether there is a descriptor; each returns its result and what it changed.
\<close>

record 'fs vnode_ops =
  op_read :: "('fs \<Rightarrow> VNode \<Rightarrow> nat \<Rightarrow> nat \<Rightarrow> bool \<Rightarrow> (int \<times> u8 list \<times> 'fs) outcome) option"
  op_write :: "('fs \<Rightarrow> VNode \<Rightarrow> u8 list \<Rightarrow> nat \<Rightarrow> bool \<Rightarrow> (int \<times> VNode \<times> 'fs) outcome) option"
  op_readdir :: "('fs \<Rightarrow> VNode \<Rightarrow> nat \<Rightarrow> int \<times> u8 list \<times> 'fs) option"
  op_lookup :: "('fs \<Rightarrow> VNode \<Rightarrow> u8 list \<Rightarrow> VNode option \<times> 'fs) option"
  op_create :: "('fs \<Rightarrow> VNode \<Rightarrow> u8 list \<Rightarrow> int \<times> 'fs) option"
  op_mkdir :: "('fs \<Rightarrow> VNode \<Rightarrow> u8 list \<Rightarrow> int \<times> 'fs) option"
  op_sync :: "('fs \<Rightarrow> VNode \<Rightarrow> 'fs) option"
  op_close :: "('fs \<Rightarrow> VNode \<Rightarrow> 'fs) option"

record PageCacheEntry =
  e_vnode :: nat
  e_ops :: "VNodeOps option"
  e_inode_id :: nat
  e_fs :: u64
  e_path :: "u8 list"
  e_page_index :: nat
  e_data :: "u8 list"
  e_dirty :: bool
  e_last_access :: nat
  e_valid :: bool

record FileDescriptor =
  f_used :: bool
  f_flags :: nat
  f_vnode :: "nat option"
  f_offset :: nat
  f_dir_pos :: nat

record vproc =
  p_uid :: nat
  fd_table :: "FileDescriptor list"

text \<open>\<open>current\<close> is the process that runs, if there is one, \<open>storage\<close> the mode of the storage guard.\<close>

record 'fs vfs =
  v_fs :: 'fs
  nodes :: "VNode option list"
  g_page_cache :: "PageCacheEntry list"
  g_page_cache_tick :: nat
  g_mount_list :: "Mount list"
  procs :: "vproc list"
  current :: "nat option"
  storage :: nat
  v_heap :: mallocs

definition MAX_CACHE_PAGES :: nat where "MAX_CACHE_PAGES = 512"
definition MAX_OPEN_FILES :: nat where "MAX_OPEN_FILES = 128"
definition FD_FLAG_STORAGE_GUARDED_WRITE :: nat where "FD_FLAG_STORAGE_GUARDED_WRITE = 1"
definition FD_FLAG_STORAGE_GUARDED :: nat where "FD_FLAG_STORAGE_GUARDED = 2"

definition deref :: "'fs vfs \<Rightarrow> nat \<Rightarrow> VNode outcome" where
  "deref s a = (case if a < length (nodes s) then nodes s ! a else None of Some n \<Rightarrow> Returns n | None \<Rightarrow> Overrun)"

definition set_node :: "'fs vfs \<Rightarrow> nat \<Rightarrow> VNode \<Rightarrow> 'fs vfs" where
  "set_node s a n = s\<lparr>nodes := (nodes s)[a := Some n]\<rparr>"

definition new_node :: "'fs vfs \<Rightarrow> VNode \<Rightarrow> nat \<times> 'fs vfs" where
  "new_node s n = (length (nodes s), s\<lparr>nodes := nodes s @ [Some n]\<rparr>)"

definition upd_entry :: "'fs vfs \<Rightarrow> nat \<Rightarrow> (PageCacheEntry \<Rightarrow> PageCacheEntry) \<Rightarrow> 'fs vfs" where
  "upd_entry s i f = s\<lparr>g_page_cache := (g_page_cache s)[i := f (g_page_cache s ! i)]\<rparr>"

text \<open>A reference is added; the counter has 32 bits.\<close>

definition hold :: "'fs vfs \<Rightarrow> nat \<Rightarrow> 'fs vfs outcome" where
  "hold s a = obind (deref s a) (\<lambda>n. Returns (set_node s a (n\<lparr>n_ref_count := (n_ref_count n + 1) mod 2 ^ 32\<rparr>)))"

section \<open>Which nodes are the same file\<close>

text \<open>The pointer to the file system at the start of the data of a FAT32 node.\<close>

definition node_fs :: "VNode \<Rightarrow> u64" where
  "node_fs n = (case n_fs_data n of None \<Rightarrow> 0 | Some d \<Rightarrow> le_word (take 8 d))"

definition vfs_is_same_file :: "nat \<Rightarrow> VNode \<Rightarrow> nat \<Rightarrow> VNode \<Rightarrow> bool" where
  "vfs_is_same_file a na b nb =
     (if a = b then True
      else if n_ops na \<noteq> n_ops nb then False
      else if n_ops na = fat32_file_ops then
        (if n_inode_id na \<noteq> n_inode_id nb then False
         else if n_fs_data na = None \<or> n_fs_data nb = None then False
         else node_fs na = node_fs nb)
      else if n_ops na = unifs_file_ops then
        (if n_fs_data na = None \<or> n_fs_data nb = None then False
         else strcmp (the (n_fs_data na)) (the (n_fs_data nb)) = 0)
      else False)"

text \<open>The loop over the descriptors of all processes, in the order of the list.\<close>

fun find_open_loop :: "'fs vfs \<Rightarrow> nat \<Rightarrow> VNode \<Rightarrow> FileDescriptor list \<Rightarrow> nat option outcome" where
  "find_open_loop s a na [] = Returns None"
| "find_open_loop s a na (f # fds) =
     (case (f_used f, f_vnode f) of
        (True, Some b) \<Rightarrow>
          if b = a then find_open_loop s a na fds
          else obind (deref s b) (\<lambda>nb.
            if n_ref_count nb > 0 \<and> vfs_is_same_file b nb a na then Returns (Some b)
            else find_open_loop s a na fds)
      | _ \<Rightarrow> find_open_loop s a na fds)"

definition vfs_find_open_vnode_for :: "'fs vfs \<Rightarrow> nat \<Rightarrow> nat option outcome" where
  "vfs_find_open_vnode_for s a =
     obind (deref s a) (\<lambda>na. find_open_loop s a na (concat (map fd_table (procs s))))"

definition pc_match :: "PageCacheEntry \<Rightarrow> VNode \<Rightarrow> bool" where
  "pc_match e n =
     (if \<not> e_valid e then False
      else if e_ops e \<noteq> Some (n_ops n) then False
      else if n_ops n = fat32_file_ops then
        (if e_inode_id e \<noteq> n_inode_id n then False
         else if n_fs_data n = None then False
         else e_fs e = node_fs n)
      else if n_ops n = unifs_file_ops then
        (case n_fs_data n of None \<Rightarrow> False | Some d \<Rightarrow> strcmp (e_path e) d = 0)
      else False)"

definition pc_find_locked :: "'fs vfs \<Rightarrow> VNode \<Rightarrow> nat \<Rightarrow> nat option" where
  "pc_find_locked s n page_index =
     find_idx (\<lambda>e. e_valid e \<and> e_page_index e = page_index \<and> pc_match e n) (g_page_cache s)"

section \<open>References and write-back\<close>

text \<open>
  The end of \<open>vfs_close_vnode\<close>: a reference is dropped, and with the last one the node, unless it is the
  root of a mount.
\<close>

definition drop_ref :: "(VNodeOps \<Rightarrow> 'fs vnode_ops) \<Rightarrow> 'fs vfs \<Rightarrow> nat \<Rightarrow> 'fs vfs outcome" where
  "drop_ref ops s a =
     obind (deref s a) (\<lambda>n.
       let n' = n\<lparr>n_ref_count := (n_ref_count n + 2 ^ 32 - 1) mod 2 ^ 32\<rparr>; s = set_node s a n' in
       if n_ref_count n' \<noteq> 0 then Returns s
       else if \<exists>m \<in> set (g_mount_list s). mt_root m = a then Returns s
       else
         let s = (case op_close (ops (n_ops n')) of None \<Rightarrow> s | Some close \<Rightarrow> s\<lparr>v_fs := close (v_fs s) n'\<rparr>)
         in Returns (s\<lparr>nodes := (nodes s)[a := None]\<rparr>))"

text \<open>
  Write-back of an entry.  Its node is held during the write.  The node of an entry is in use, so the
  reference is not the last one, and \<open>vfs_close_vnode\<close> only drops it; a node without references has been
  freed.
\<close>

definition pc_flush_entry_unlocked :: "(VNodeOps \<Rightarrow> 'fs vnode_ops) \<Rightarrow> 'fs vfs \<Rightarrow> nat \<Rightarrow> 'fs vfs outcome" where
  "pc_flush_entry_unlocked ops s i =
     (let e = g_page_cache s ! i; a = e_vnode e in
      if \<not> e_valid e \<or> \<not> e_dirty e then Returns s
      else obind (deref s a) (\<lambda>n.
        let offset = wrap64 (e_page_index e * 4096) in
        if offset \<ge> n_size n then Returns (upd_entry s i (\<lambda>e. e\<lparr>e_dirty := False\<rparr>))
        else
          let to_write = (if wrap64 (offset + 4096) > n_size n then n_size n - offset else 4096) in
          case malloc (v_heap s) 4096 of
            (None, h) \<Rightarrow> Returns (s\<lparr>v_heap := h\<rparr>)
          | (Some _, h) \<Rightarrow>
              let s = upd_entry (s\<lparr>v_heap := h\<rparr>) i (\<lambda>e. e\<lparr>e_dirty := False\<rparr>) in
              obind (hold s a) (\<lambda>s.
                obind (deref s a) (\<lambda>n.
                  case op_write (ops (n_ops n)) of
                    None \<Rightarrow> Overrun
                  | Some wr \<Rightarrow>
                      obind (wr (v_fs s) n (take to_write (e_data e)) offset False) (\<lambda>(r, n, fs).
                        if n_ref_count n \<le> 1 then Overrun
                        else drop_ref ops (set_node (s\<lparr>v_fs := fs\<rparr>) a n) a)))))"

fun purge_loop :: "(VNodeOps \<Rightarrow> 'fs vnode_ops) \<Rightarrow> 'fs vfs \<Rightarrow> nat \<Rightarrow> nat option \<Rightarrow> nat list \<Rightarrow> 'fs vfs outcome" where
  "purge_loop ops s a alternate [] = Returns s"
| "purge_loop ops s a alternate (i # is) =
     obind (deref s a) (\<lambda>n.
       if e_valid (g_page_cache s ! i) \<and> pc_match (g_page_cache s ! i) n then
         obind (if e_dirty (g_page_cache s ! i) then pc_flush_entry_unlocked ops s i else Returns s) (\<lambda>s.
           obind (deref s a) (\<lambda>n.
             purge_loop ops
               (if e_valid (g_page_cache s ! i) \<and> pc_match (g_page_cache s ! i) n then
                  (case alternate of
                     Some b \<Rightarrow> upd_entry s i (\<lambda>e. e\<lparr>e_vnode := b\<rparr>)
                   | None \<Rightarrow> upd_entry s i (\<lambda>e. e\<lparr>e_valid := False\<rparr>))
                else s) a alternate is))
       else purge_loop ops s a alternate is)"

text \<open>The alternate node has a reference of its own beside the one taken here.\<close>

definition pc_purge_vnode :: "(VNodeOps \<Rightarrow> 'fs vnode_ops) \<Rightarrow> 'fs vfs \<Rightarrow> nat \<Rightarrow> 'fs vfs outcome" where
  "pc_purge_vnode ops s a =
     obind (deref s a) (\<lambda>n.
       if n_ops n \<noteq> fat32_file_ops \<and> n_ops n \<noteq> unifs_file_ops then Returns s
       else
         obind (vfs_find_open_vnode_for s a) (\<lambda>alternate.
         obind (case alternate of None \<Rightarrow> Returns s | Some b \<Rightarrow> hold s b) (\<lambda>s.
         obind (purge_loop ops s a alternate [0..<MAX_CACHE_PAGES]) (\<lambda>s.
           case alternate of None \<Rightarrow> Returns s | Some b \<Rightarrow> drop_ref ops s b))))"

definition vfs_close_vnode :: "(VNodeOps \<Rightarrow> 'fs vnode_ops) \<Rightarrow> 'fs vfs \<Rightarrow> nat \<Rightarrow> 'fs vfs outcome" where
  "vfs_close_vnode ops s a =
     obind (deref s a) (\<lambda>n.
       obind (if n_ref_count n = 1 then pc_purge_vnode ops s a else Returns s) (\<lambda>s. drop_ref ops s a))"


section \<open>Getting a page\<close>

text \<open>The least recently used entry: the first one with the least stamp, if any is below \<open>2 ^ 64 - 1\<close>.\<close>

fun oldest_loop :: "PageCacheEntry list \<Rightarrow> nat \<Rightarrow> nat \<Rightarrow> nat option \<Rightarrow> nat option" where
  "oldest_loop [] i oldest best = best"
| "oldest_loop (e # es) i oldest best =
     (if e_valid e \<and> e_last_access e < oldest then oldest_loop es (i + 1) (e_last_access e) (Some i)
      else oldest_loop es (i + 1) oldest best)"

definition pick_victim :: "PageCacheEntry list \<Rightarrow> nat option" where
  "pick_victim es =
     (case find_idx (\<lambda>e. \<not> e_valid e) es of
        Some i \<Rightarrow> Some i
      | None \<Rightarrow> oldest_loop es 0 (2 ^ 64 - 1) None)"

text \<open>The entry takes the identity of the node; it stays invalid until its data is there.\<close>

definition claim_entry :: "VNode \<Rightarrow> nat \<Rightarrow> nat \<Rightarrow> nat \<Rightarrow> PageCacheEntry \<Rightarrow> PageCacheEntry" where
  "claim_entry n a page_index tick e =
     (let e = e\<lparr>e_valid := False, e_vnode := a, e_ops := Some (n_ops n), e_inode_id := n_inode_id n\<rparr>;
          e = (if n_ops n = fat32_file_ops then e\<lparr>e_fs := node_fs n, e_path := (e_path e)[0 := 0]\<rparr>
               else if n_ops n = unifs_file_ops then
                 (case n_fs_data n of
                    Some d \<Rightarrow> e\<lparr>e_fs := 0, e_path := (strncpy (e_path e) d 255)[255 := 0]\<rparr>
                  | None \<Rightarrow> e\<lparr>e_fs := 0, e_path := (e_path e)[0 := 0]\<rparr>)
               else e)
      in e\<lparr>e_page_index := page_index, e_dirty := False, e_last_access := tick\<rparr>)"

definition next_tick :: "'fs vfs \<Rightarrow> nat" where
  "next_tick s = wrap64 (g_page_cache_tick s + 1)"

text \<open>
  The search for an entry goes on while the victim had to be written back; \<open>None\<close> when it never ends.
\<close>

partial_function (option) pc_evict_and_allocate_locked ::
  "(VNodeOps \<Rightarrow> 'fs vnode_ops) \<Rightarrow> 'fs vfs \<Rightarrow> nat \<Rightarrow> VNode \<Rightarrow> nat \<Rightarrow> (nat option \<times> 'fs vfs) outcome option"
where
  "pc_evict_and_allocate_locked ops s a n page_index =
     (case pick_victim (g_page_cache s) of
        None \<Rightarrow> Some (Returns (None, s))
      | Some i \<Rightarrow>
          if e_valid (g_page_cache s ! i) \<and> e_dirty (g_page_cache s ! i) then
            (case pc_flush_entry_unlocked ops s i of
               Overrun \<Rightarrow> Some Overrun
             | Returns s \<Rightarrow> pc_evict_and_allocate_locked ops s a n page_index)
          else
            Some (Returns (Some i,
              (upd_entry s i (claim_entry n a page_index (next_tick s)))\<lparr>g_page_cache_tick := next_tick s\<rparr>)))"

definition touch_entry :: "'fs vfs \<Rightarrow> nat \<Rightarrow> 'fs vfs" where
  "touch_entry s i = (upd_entry s i (\<lambda>e. e\<lparr>e_last_access := next_tick s\<rparr>))\<lparr>g_page_cache_tick := next_tick s\<rparr>"

text \<open>What the driver has of the page, in a buffer of zeros.\<close>

definition read_page :: "(VNodeOps \<Rightarrow> 'fs vnode_ops) \<Rightarrow> 'fs vfs \<Rightarrow> VNode \<Rightarrow> nat \<Rightarrow> (u8 list option \<times> 'fs vfs) outcome" where
  "read_page ops s n page_index =
     (let temp_buf = replicate 4096 0; offset = wrap64 (page_index * 4096) in
      if offset < n_size n then
        let to_read = (if wrap64 (offset + 4096) > n_size n then n_size n - offset else 4096) in
        case op_read (ops (n_ops n)) of
          None \<Rightarrow> Overrun
        | Some rd \<Rightarrow>
            obind (rd (v_fs s) n to_read offset False) (\<lambda>(bytes_read, bs, fs).
              let s = s\<lparr>v_fs := fs\<rparr>; temp_buf = copy_bytes temp_buf 0 bs in
              if bytes_read < 0 then Returns (None, s)
              else if nat bytes_read < to_read
              then Returns (Some (take (nat bytes_read) temp_buf @ replicate (4096 - nat bytes_read) 0), s)
              else Returns (Some temp_buf, s))
      else Returns (Some temp_buf, s))"

definition pc_get_page ::
  "(VNodeOps \<Rightarrow> 'fs vnode_ops) \<Rightarrow> 'fs vfs \<Rightarrow> nat \<Rightarrow> nat \<Rightarrow> (nat option \<times> 'fs vfs) outcome option"
where
  "pc_get_page ops s a page_index =
     (case deref s a of
        Overrun \<Rightarrow> Some Overrun
      | Returns n \<Rightarrow>
          (case pc_find_locked s n page_index of
             Some i \<Rightarrow> Some (Returns (Some i, touch_entry s i))
           | None \<Rightarrow>
               (case malloc (v_heap s) 4096 of
                  (None, h) \<Rightarrow> Some (Returns (None, s\<lparr>v_heap := h\<rparr>))
                | (Some _, h) \<Rightarrow>
                    (case read_page ops (s\<lparr>v_heap := h\<rparr>) n page_index of
                       Overrun \<Rightarrow> Some Overrun
                     | Returns (None, s) \<Rightarrow> Some (Returns (None, s))
                     | Returns (Some temp_buf, s) \<Rightarrow>
                         (case pc_find_locked s n page_index of
                            Some i \<Rightarrow> Some (Returns (Some i, touch_entry s i))
                          | None \<Rightarrow>
                              (case pc_evict_and_allocate_locked ops s a n page_index of
                                 None \<Rightarrow> None
                               | Some Overrun \<Rightarrow> Some Overrun
                               | Some (Returns (None, s)) \<Rightarrow> Some (Returns (None, s))
                               | Some (Returns (Some i, s)) \<Rightarrow>
                                   Some (Returns (Some i,
                                     upd_entry s i (\<lambda>e. e\<lparr>e_data := temp_buf, e_valid := True\<rparr>)))))))))"

section \<open>Descriptors\<close>

text \<open>A descriptor of the current process that is in use.\<close>

definition fd_get :: "'fs vfs \<Rightarrow> int \<Rightarrow> (nat \<times> FileDescriptor) option" where
  "fd_get s fd =
     (case current s of
        None \<Rightarrow> None
      | Some p \<Rightarrow>
          if fd < 0 \<or> fd \<ge> int MAX_OPEN_FILES then None
          else let f = fd_table (procs s ! p) ! nat fd in if f_used f then Some (p, f) else None)"

definition set_fd :: "'fs vfs \<Rightarrow> nat \<Rightarrow> nat \<Rightarrow> FileDescriptor \<Rightarrow> 'fs vfs" where
  "set_fd s p i f =
     s\<lparr>procs := (procs s)[p := (procs s ! p)\<lparr>fd_table := (fd_table (procs s ! p))[i := f]\<rparr>]\<rparr>"

definition fd_node :: "'fs vfs \<Rightarrow> FileDescriptor \<Rightarrow> (nat \<times> VNode) outcome" where
  "fd_node s f = (case f_vnode f of None \<Rightarrow> Overrun | Some a \<Rightarrow> obind (deref s a) (\<lambda>n. Returns (a, n)))"

definition vfs_close :: "(VNodeOps \<Rightarrow> 'fs vnode_ops) \<Rightarrow> 'fs vfs \<Rightarrow> int \<Rightarrow> (int \<times> 'fs vfs) outcome" where
  "vfs_close ops s fd =
     (case fd_get s fd of
        None \<Rightarrow> Returns (-1, s)
      | Some (p, f) \<Rightarrow>
          let s = set_fd s p (nat fd) (f\<lparr>f_used := False, f_flags := 0, f_vnode := None\<rparr>) in
          (case f_vnode f of
             None \<Rightarrow> Returns (0, s)
           | Some a \<Rightarrow> obind (vfs_close_vnode ops s a) (\<lambda>s. Returns (0, s))))"

definition cached :: "VNode \<Rightarrow> bool" where
  "cached n \<longleftrightarrow> (n_ops n = fat32_file_ops \<or> n_ops n = unifs_file_ops) \<and> \<not> n_is_dir n"

text \<open>The bytes of the current page that a loop over pages takes, when \<open>left\<close> are left.\<close>

definition page_bytes :: "nat \<Rightarrow> nat \<Rightarrow> nat" where
  "page_bytes curr_offset left = (if 4096 - curr_offset mod 4096 > left then left else 4096 - curr_offset mod 4096)"

lemma page_bytes_pos: "0 < left \<Longrightarrow> 0 < page_bytes curr_offset left"
  by (simp add: page_bytes_def)

text \<open>
  The loop of \<open>vfs_read\<close>, page by page from \<open>offset + done\<close> on; the result is what was read, or \<open>None\<close> when a
  page could not be had.
\<close>

function read_loop ::
  "(VNodeOps \<Rightarrow> 'fs vnode_ops) \<Rightarrow> 'fs vfs \<Rightarrow> nat \<Rightarrow> nat \<Rightarrow> nat \<Rightarrow> u8 list \<Rightarrow> (u8 list option \<times> 'fs vfs) outcome option"
where
  "read_loop ops s a offset bytes_to_read acc =
     (if length acc < bytes_to_read then
        let curr_offset = wrap64 (offset + length acc);
            part = page_bytes curr_offset (bytes_to_read - length acc)
        in case pc_get_page ops s a (curr_offset div 4096) of
             None \<Rightarrow> None
           | Some Overrun \<Rightarrow> Some Overrun
           | Some (Returns (None, s)) \<Rightarrow> Some (Returns (if length acc > 0 then Some acc else None, s))
           | Some (Returns (Some i, s)) \<Rightarrow>
               let chunk = take part (drop (curr_offset mod 4096) (e_data (g_page_cache s ! i))) in
               if length chunk < part then Some Overrun
               else read_loop ops s a offset bytes_to_read (acc @ chunk)
      else Some (Returns (Some acc, s)))"
  by pat_completeness auto
termination
proof (relation "measure (\<lambda>(ops, s, a, offset, n, acc). n - length acc)", goal_cases)
  case (2 ops s a offset n acc curr part r t q i u chunk)
  have "0 < part" using 2(1,3) page_bytes_pos by simp
  then have "0 < length chunk" using 2(9) by linarith
  then show ?case using 2(1) by (cases chunk) auto
qed simp

declare read_loop.simps [simp del]

definition vfs_read ::
  "(VNodeOps \<Rightarrow> 'fs vnode_ops) \<Rightarrow> 'fs vfs \<Rightarrow> int \<Rightarrow> nat \<Rightarrow> (int \<times> u8 list \<times> 'fs vfs) outcome option"
where
  "vfs_read ops s fd sz =
     (case fd_get s fd of
        None \<Rightarrow> Some (Returns (-1, [], s))
      | Some (p, f) \<Rightarrow>
          (case fd_node s f of
             Overrun \<Rightarrow> Some Overrun
           | Returns (a, n) \<Rightarrow>
               (case op_read (ops (n_ops n)) of
                  None \<Rightarrow> Some (Returns (-1, [], s))
                | Some rd \<Rightarrow>
                    if f_flags f AND FD_FLAG_STORAGE_GUARDED \<noteq> 0 \<and> \<not> storage_reads_allowed (storage s)
                    then Some (Returns (-1, [], s))
                    else if cached n then
                      (if f_offset f \<ge> n_size n then Some (Returns (0, [], s))
                       else
                         let bytes_to_read = (if wrap64 (f_offset f + sz) > n_size n then n_size n - f_offset f else sz) in
                         case read_loop ops s a (f_offset f) bytes_to_read [] of
                           None \<Rightarrow> None
                         | Some Overrun \<Rightarrow> Some Overrun
                         | Some (Returns (None, s)) \<Rightarrow> Some (Returns (-1, [], s))
                         | Some (Returns (Some bs, s)) \<Rightarrow>
                             Some (Returns (int (length bs), bs,
                               set_fd s p (nat fd) (f\<lparr>f_offset := wrap64 (f_offset f + length bs)\<rparr>))))
                    else
                      Some (obind (rd (v_fs s) n sz (f_offset f) True) (\<lambda>(res, bs, fs).
                        Returns (res, bs,
                          set_fd (s\<lparr>v_fs := fs\<rparr>) p (nat fd)
                            (if res > 0 then f\<lparr>f_offset := wrap64 (f_offset f + nat res)\<rparr> else f)))))))"


text \<open>The loop of \<open>vfs_write\<close>; the result is the number of bytes written, or \<open>None\<close> when there is no first page.\<close>

function write_loop ::
  "(VNodeOps \<Rightarrow> 'fs vnode_ops) \<Rightarrow> 'fs vfs \<Rightarrow> nat \<Rightarrow> nat \<Rightarrow> u8 list \<Rightarrow> nat \<Rightarrow> (nat option \<times> 'fs vfs) outcome option"
where
  "write_loop ops s a offset buf total_written =
     (if total_written < length buf then
        let curr_offset = wrap64 (offset + total_written);
            part = page_bytes curr_offset (length buf - total_written)
        in case pc_get_page ops s a (curr_offset div 4096) of
             None \<Rightarrow> None
           | Some Overrun \<Rightarrow> Some Overrun
           | Some (Returns (None, s)) \<Rightarrow> Some (Returns (if total_written > 0 then Some total_written else None, s))
           | Some (Returns (Some i, s)) \<Rightarrow>
               if curr_offset mod 4096 + part > length (e_data (g_page_cache s ! i)) then Some Overrun
               else
                 let s = upd_entry s i (\<lambda>e. e\<lparr>e_data :=
                        copy_bytes (e_data e) (curr_offset mod 4096) (take part (drop total_written buf)), e_dirty := True\<rparr>)
                 in write_loop ops (touch_entry s i) a offset buf (total_written + part)
      else Some (Returns (Some total_written, s)))"
  by pat_completeness auto
termination
proof (relation "measure (\<lambda>(ops, s, a, offset, buf, n). length buf - n)", goal_cases)
  case (2 ops s a offset buf n curr part r t q i u v)
  have "0 < part" using 2(1,3) page_bytes_pos by simp
  then show ?case using 2(1) by simp
qed simp

declare write_loop.simps [simp del]

text \<open>The new size is given to the other nodes of the file that are open.\<close>

fun sync_sizes :: "'fs vfs \<Rightarrow> nat \<Rightarrow> nat \<Rightarrow> FileDescriptor list \<Rightarrow> 'fs vfs outcome" where
  "sync_sizes s a new_size [] = Returns s"
| "sync_sizes s a new_size (f # fds) =
     (case (f_used f, f_vnode f) of
        (True, Some b) \<Rightarrow>
          if b = a then sync_sizes s a new_size fds
          else obind (deref s b) (\<lambda>nb. obind (deref s a) (\<lambda>na.
            sync_sizes
              (if n_ref_count nb > 0 \<and> vfs_is_same_file b nb a na then set_node s b (nb\<lparr>n_size := new_size\<rparr>) else s)
              a new_size fds))
      | _ \<Rightarrow> sync_sizes s a new_size fds)"

text \<open>What follows the loop: the offset moves on, and the file may have grown.\<close>

definition after_write :: "'fs vfs \<Rightarrow> nat \<Rightarrow> nat \<Rightarrow> FileDescriptor \<Rightarrow> nat \<Rightarrow> nat \<Rightarrow> 'fs vfs outcome" where
  "after_write s p fd f a total_written =
     (if total_written = 0 then Returns s
      else
        let new_offset = wrap64 (f_offset f + total_written); s = set_fd s p fd (f\<lparr>f_offset := new_offset\<rparr>) in
        obind (deref s a) (\<lambda>n.
          if new_offset > n_size n then
            sync_sizes (set_node s a (n\<lparr>n_size := new_offset\<rparr>)) a new_offset (concat (map fd_table (procs s)))
          else Returns s))"

definition vfs_write ::
  "(VNodeOps \<Rightarrow> 'fs vnode_ops) \<Rightarrow> 'fs vfs \<Rightarrow> int \<Rightarrow> u8 list \<Rightarrow> (int \<times> 'fs vfs) outcome option"
where
  "vfs_write ops s fd buf =
     (case fd_get s fd of
        None \<Rightarrow> Some (Returns (-1, s))
      | Some (p, f) \<Rightarrow>
          (case fd_node s f of
             Overrun \<Rightarrow> Some Overrun
           | Returns (a, n) \<Rightarrow>
               (case op_write (ops (n_ops n)) of
                  None \<Rightarrow> Some (Returns (-1, s))
                | Some wr \<Rightarrow>
                    if f_flags f AND FD_FLAG_STORAGE_GUARDED_WRITE \<noteq> 0 \<and> \<not> storage_writes_allowed (storage s)
                    then Some (Returns (-1, s))
                    else if cached n then
                      (if buf = [] then Some (Returns (0, s))
                       else case write_loop ops s a (f_offset f) buf 0 of
                         None \<Rightarrow> None
                       | Some Overrun \<Rightarrow> Some Overrun
                       | Some (Returns (None, s)) \<Rightarrow> Some (Returns (-1, s))
                       | Some (Returns (Some total_written, s)) \<Rightarrow>
                           Some (obind (after_write s p (nat fd) f a total_written) (\<lambda>s. Returns (int total_written, s))))
                    else
                      Some (obind (wr (v_fs s) n buf (f_offset f) True) (\<lambda>(res, n, fs).
                        Returns (res,
                          set_fd (set_node (s\<lparr>v_fs := fs\<rparr>) a n) p (nat fd)
                            (if res > 0 then f\<lparr>f_offset := wrap64 (f_offset f + nat res)\<rparr> else f)))))))"

text \<open>Offsets are 64-bit words that \<open>lseek\<close> reads as signed.\<close>

definition vfs_seek :: "'fs vfs \<Rightarrow> int \<Rightarrow> int \<Rightarrow> nat \<Rightarrow> (int \<times> 'fs vfs) outcome" where
  "vfs_seek s fd offset whence =
     (case fd_get s fd of
        None \<Rightarrow> Returns (-1, s)
      | Some (p, f) \<Rightarrow>
          obind (if whence = 2 then obind (fd_node s f) (\<lambda>(a, n). Returns (n_size n)) else Returns 0) (\<lambda>sz.
            let cur = (of_nat (f_offset f) :: u64);
                new_offset = (if whence = 0 then of_int offset
                              else if whence = 1 then cur + of_int offset
                              else if whence = 2 then of_nat sz + of_int offset
                              else cur)
            in if sint new_offset < 0 then Returns (-1, s)
               else Returns (sint new_offset, set_fd s p (nat fd) (f\<lparr>f_offset := unat new_offset\<rparr>))))"

definition vfs_readdir ::
  "(VNodeOps \<Rightarrow> 'fs vnode_ops) \<Rightarrow> 'fs vfs \<Rightarrow> int \<Rightarrow> (int \<times> u8 list \<times> 'fs vfs) outcome"
where
  "vfs_readdir ops s fd =
     (case fd_get s fd of
        None \<Rightarrow> Returns (-1, [], s)
      | Some (p, f) \<Rightarrow>
          obind (fd_node s f) (\<lambda>(a, n).
            case op_readdir (ops (n_ops n)) of
              None \<Rightarrow> Returns (-1, [], s)
            | Some rd \<Rightarrow>
                if f_flags f AND FD_FLAG_STORAGE_GUARDED \<noteq> 0 \<and> \<not> storage_reads_allowed (storage s)
                then Returns (-1, [], s)
                else
                  let (res, name, fs) = rd (v_fs s) n (f_dir_pos f); s = s\<lparr>v_fs := fs\<rparr>
                  in Returns (res, name,
                       if res = 0 then set_fd s p (nat fd) (f\<lparr>f_dir_pos := wrap64 (f_dir_pos f + 1)\<rparr>) else s)))"

end
