(* ===== verification/Vfs_Ops.thy ===== *)
theory Vfs_Ops
  imports Vfs
begin

text \<open>
  The operations of \<open>src/fs/vfs.cpp\<close> that take paths: mounting, looking up, opening, creating, deleting,
  renaming.  The operations of drivers that call back into this layer, to ask whether a file is open, work
  on its whole state: \<open>cbs\<close> gives them for each table.  A path is its bytes without the terminator.
\<close>

record 'fs vnode_cbs =
  cb_unlink :: "('fs vfs \<Rightarrow> nat \<Rightarrow> u8 list \<Rightarrow> (int \<times> 'fs vfs) outcome) option"
  cb_rename :: "('fs vfs \<Rightarrow> nat \<Rightarrow> u8 list \<Rightarrow> nat \<Rightarrow> u8 list \<Rightarrow> (int \<times> 'fs vfs) outcome) option"
  cb_truncate :: "('fs vfs \<Rightarrow> nat \<Rightarrow> nat \<Rightarrow> (int \<times> 'fs vfs) outcome) option"

section \<open>Mounting\<close>

definition vfs_mount_ex :: "'fs vfs \<Rightarrow> u8 list option \<Rightarrow> nat option \<Rightarrow> u32 \<Rightarrow> (int \<times> 'fs vfs) outcome" where
  "vfs_mount_ex s path root flags =
     (case (path, root) of
        (Some p, Some a) \<Rightarrow>
          (case malloc (v_heap s) 88 of
             (None, h) \<Rightarrow> Returns (-1, s\<lparr>v_heap := h\<rparr>)
           | (Some junk, h) \<Rightarrow>
               obind (deref s a) (\<lambda>n.
                 let m = \<lparr>mt_path = (strncpy (take 64 junk) p 63)[63 := 0], mt_root = a, mt_flags = flags\<rparr>;
                     s = (if flags AND VFS_MOUNT_FLAG_STORAGE_GUARDED \<noteq> 0 \<and> n_is_dir n
                          then set_node s a (n\<lparr>n_mode := VFS_USER_STORAGE_DIR_MODE\<rparr>) else s)
                 in Returns (0, s\<lparr>v_heap := h, g_mount_list := m # g_mount_list s\<rparr>)))
      | _ \<Rightarrow> Returns (-1, s))"

definition vfs_mount :: "'fs vfs \<Rightarrow> u8 list option \<Rightarrow> nat option \<Rightarrow> (int \<times> 'fs vfs) outcome" where
  "vfs_mount s path root = vfs_mount_ex s path root 0"

definition vfs_get_mounts :: "'fs vfs \<Rightarrow> Mount list" where
  "vfs_get_mounts s = g_mount_list s"

section \<open>Looking up\<close>

definition cur_uid :: "'fs vfs \<Rightarrow> nat option" where
  "cur_uid s = map_option (\<lambda>p. p_uid (procs s ! p)) (current s)"

definition may :: "'fs vfs \<Rightarrow> VNode \<Rightarrow> nat \<Rightarrow> bool" where
  "may s n wanted = vfs_check_permission (cur_uid s) (n_uid n) (n_mode n) wanted"

text \<open>A call of \<open>lookup\<close> through the table of a node; the node it finds gets an address.\<close>

definition node_lookup ::
  "(VNodeOps \<Rightarrow> 'fs vnode_ops) \<Rightarrow> 'fs vfs \<Rightarrow> VNode \<Rightarrow> u8 list \<Rightarrow> (nat option \<times> 'fs vfs) outcome"
where
  "node_lookup ops s n name =
     (case op_lookup (ops (n_ops n)) of
        None \<Rightarrow> Overrun
      | Some lk \<Rightarrow>
          (case lk (v_fs s) n name of
             (None, fs) \<Rightarrow> Returns (None, s\<lparr>v_fs := fs\<rparr>)
           | (Some n', fs) \<Rightarrow> let (a', s) = new_node (s\<lparr>v_fs := fs\<rparr>) n' in Returns (Some a', s)))"

text \<open>The loop over the components of the rest of the path; empty components are skipped.\<close>

function lookup_loop ::
  "(VNodeOps \<Rightarrow> 'fs vnode_ops) \<Rightarrow> 'fs vfs \<Rightarrow> nat \<Rightarrow> u8 list \<Rightarrow> (nat option \<times> 'fs vfs) outcome"
where
  "lookup_loop ops s a rest =
     (let name = takeWhile (\<lambda>c. c \<noteq> slash) rest; more = dropWhile (\<lambda>c. c \<noteq> slash) rest;
          step = (if name = [] then Returns (Some a, s)
                  else obind (deref s a) (\<lambda>n.
                    if \<not> may s n 1 then obind (vfs_close_vnode ops s a) (\<lambda>s. Returns (None, s))
                    else obind (node_lookup ops s n name) (\<lambda>(found, s).
                      obind (vfs_close_vnode ops s a) (\<lambda>s. Returns (found, s)))))
      in case step of
           Overrun \<Rightarrow> Overrun
         | Returns (None, s) \<Rightarrow> Returns (None, s)
         | Returns (Some a, s) \<Rightarrow> if more = [] then Returns (Some a, s) else lookup_loop ops s a (tl more))"
  by pat_completeness auto
termination
proof (relation "measure (\<lambda>(ops, s, a, rest). length rest)", goal_cases)
  case (2 ops s a rest name more step r q b t)
  have "length more \<le> length rest" using 2(2) length_dropWhile_le by metis
  then have "length (tl more) < length rest" using 2(7) by (cases more) auto
  then show ?case by simp
qed simp

declare lookup_loop.simps [simp del]

definition vfs_lookup_vnode ::
  "(VNodeOps \<Rightarrow> 'fs vnode_ops) \<Rightarrow> 'fs vfs \<Rightarrow> u8 list \<Rightarrow> (nat option \<times> 'fs vfs) outcome"
where
  "vfs_lookup_vnode ops s path =
     (case vfs_resolve_path (g_mount_list s) path of
        None \<Rightarrow> Returns (None, s)
      | Some (root, rel_path) \<Rightarrow>
          if rel_path = [] then obind (hold s root) (\<lambda>s. Returns (Some root, s))
          else obind (deref s root) (\<lambda>n.
            if op_lookup (ops (n_ops n)) = None then Returns (None, s)
            else obind (hold s root) (\<lambda>s.
              if length rel_path \<ge> 511 then Overrun else lookup_loop ops s root rel_path)))"

definition vfs_stat ::
  "(VNodeOps \<Rightarrow> 'fs vnode_ops) \<Rightarrow> 'fs vfs \<Rightarrow> u8 list \<Rightarrow> (VNode option \<times> 'fs vfs) outcome"
where
  "vfs_stat ops s path =
     (if vfs_path_is_storage_guarded (g_mount_list s) path \<and> \<not> storage_reads_allowed (storage s) then Returns (None, s)
      else obind (vfs_lookup_vnode ops s path) (\<lambda>(found, s).
        case found of
          None \<Rightarrow> Returns (None, s)
        | Some a \<Rightarrow> obind (deref s a) (\<lambda>n. obind (vfs_close_vnode ops s a) (\<lambda>s. Returns (Some n, s)))))"

fun sync_mounts :: "(VNodeOps \<Rightarrow> 'fs vnode_ops) \<Rightarrow> 'fs vfs \<Rightarrow> Mount list \<Rightarrow> 'fs vfs outcome" where
  "sync_mounts ops s [] = Returns s"
| "sync_mounts ops s (m # ms) =
     obind (deref s (mt_root m)) (\<lambda>n.
       sync_mounts ops
         (case op_sync (ops (n_ops n)) of None \<Rightarrow> s | Some sy \<Rightarrow> s\<lparr>v_fs := sy (v_fs s) n\<rparr>) ms)"

fun flush_all :: "(VNodeOps \<Rightarrow> 'fs vnode_ops) \<Rightarrow> 'fs vfs \<Rightarrow> nat list \<Rightarrow> 'fs vfs outcome" where
  "flush_all ops s [] = Returns s"
| "flush_all ops s (i # is) =
     obind (if e_valid (g_page_cache s ! i) \<and> e_dirty (g_page_cache s ! i) then pc_flush_entry_unlocked ops s i
            else Returns s) (\<lambda>s. flush_all ops s is)"

definition vfs_sync :: "(VNodeOps \<Rightarrow> 'fs vnode_ops) \<Rightarrow> 'fs vfs \<Rightarrow> 'fs vfs outcome" where
  "vfs_sync ops s =
     obind (sync_mounts ops s (g_mount_list s)) (\<lambda>s. flush_all ops s [0..<MAX_CACHE_PAGES])"

text \<open>
  \<open>is_file_open\<close> compares the node it looks up with the nodes of all descriptors; \<open>buf\<close>, \<open>buf2\<close> and \<open>out\<close> are
  the arrays on the stack.
\<close>

definition is_file_open ::
  "(VNodeOps \<Rightarrow> 'fs vnode_ops) \<Rightarrow> u8 list \<Rightarrow> u8 list \<Rightarrow> u8 list \<Rightarrow> 'fs vfs \<Rightarrow> u8 list option \<Rightarrow> (bool \<times> 'fs vfs) outcome"
where
  "is_file_open ops buf buf2 out s path =
     (case path of
        None \<Rightarrow> Returns (False, s)
      | Some p \<Rightarrow>
          if at0 p = 0 then Returns (False, s)
          else obind (vfs_lookup_vnode ops s (cstr (vfs_resolve_relative_path buf buf2 (Some [slash, 0]) p out)))
            (\<lambda>(found, s).
               case found of
                 None \<Rightarrow> Returns (False, s)
               | Some a \<Rightarrow>
                   let open_there = (\<exists>f \<in> set (concat (map fd_table (procs s))). f_used f \<and> f_vnode f = Some a) in
                   obind (vfs_close_vnode ops s a) (\<lambda>s. Returns (open_there, s))))"

section \<open>Opening\<close>

text \<open>The directory and the name of a path, split at the last slash.\<close>

definition split_parent :: "u8 list \<Rightarrow> (u8 list \<times> u8 list) option" where
  "split_parent path =
     (if slash \<notin> set path then None
      else
        let name = rev (takeWhile (\<lambda>c. c \<noteq> slash) (rev path)); dir = take (length path - length name - 1) path
        in Some (if dir = [] then [slash] else dir, name))"

text \<open>The branch of \<open>vfs_open\<close> that creates the file; paths of \<open>511\<close> bytes leave the copy without terminator.\<close>

definition open_create ::
  "(VNodeOps \<Rightarrow> 'fs vnode_ops) \<Rightarrow> 'fs vfs \<Rightarrow> u8 list \<Rightarrow> nat \<Rightarrow> (nat option \<times> 'fs vfs) outcome"
where
  "open_create ops s path mode =
     (if length path \<ge> 511 then Overrun
      else case split_parent path of
        None \<Rightarrow> Returns (None, s)
      | Some (dir, name) \<Rightarrow>
          obind (vfs_lookup_vnode ops s dir) (\<lambda>(parent, s).
            case parent of
              None \<Rightarrow> Returns (None, s)
            | Some d \<Rightarrow>
                obind (deref s d) (\<lambda>n.
                obind (if \<not> may s n 2 then Returns (None, s)
                       else case op_create (ops (n_ops n)) of
                         None \<Rightarrow> Returns (None, s)
                       | Some cr \<Rightarrow>
                           let (r, fs) = cr (v_fs s) n name; s = s\<lparr>v_fs := fs\<rparr> in
                           if r \<noteq> 0 then Returns (None, s)
                           else obind (node_lookup ops s n name) (\<lambda>(found, s).
                             case (found, cur_uid s) of
                               (Some a, Some uid) \<Rightarrow>
                                 obind (deref s a) (\<lambda>n.
                                   Returns (Some a, set_node s a (n\<lparr>n_uid := uid, n_mode := vfs_sanitize_file_mode mode\<rparr>)))
                             | _ \<Rightarrow> Returns (found, s)))
                  (\<lambda>(found, s). obind (vfs_close_vnode ops s d) (\<lambda>s. Returns (found, s))))))"

definition O_RDONLY :: nat where "O_RDONLY = 0"
definition O_WRONLY :: nat where "O_WRONLY = 1"
definition O_RDWR :: nat where "O_RDWR = 2"
definition O_CREAT :: nat where "O_CREAT = 0x40"
definition O_TRUNC :: nat where "O_TRUNC = 0x200"
definition O_APPEND :: nat where "O_APPEND = 0x400"

text \<open>The first free descriptor is taken; \<open>O_RDONLY\<close> is \<open>0\<close>, so the test for it never holds.\<close>

definition install_fd ::
  "(VNodeOps \<Rightarrow> 'fs vnode_ops) \<Rightarrow> 'fs vfs \<Rightarrow> nat \<Rightarrow> nat \<Rightarrow> bool \<Rightarrow> bool \<Rightarrow> (int \<times> 'fs vfs) outcome"
where
  "install_fd ops s a flags guarded_mount write_like =
     (case current s of
        None \<Rightarrow> obind (vfs_close_vnode ops s a) (\<lambda>s. Returns (-1, s))
      | Some p \<Rightarrow>
          (case find_idx (\<lambda>f. \<not> f_used f) (fd_table (procs s ! p)) of
             Some i \<Rightarrow>
               obind (deref s a) (\<lambda>n.
                 Returns (int i, set_fd s p i
                   \<lparr>f_used = True,
                    f_flags = (if guarded_mount then FD_FLAG_STORAGE_GUARDED else 0) +
                              (if guarded_mount \<and> write_like then FD_FLAG_STORAGE_GUARDED_WRITE else 0),
                    f_vnode = Some a, f_offset = (if flags AND O_APPEND \<noteq> 0 then n_size n else 0), f_dir_pos = 0\<rparr>))
           | None \<Rightarrow> obind (vfs_close_vnode ops s a) (\<lambda>s. Returns (-1, s))))"

definition vfs_open ::
  "(VNodeOps \<Rightarrow> 'fs vnode_ops) \<Rightarrow> (VNodeOps \<Rightarrow> 'fs vnode_cbs) \<Rightarrow> 'fs vfs \<Rightarrow> u8 list \<Rightarrow> nat \<Rightarrow> nat \<Rightarrow> (int \<times> 'fs vfs) outcome"
where
  "vfs_open ops cbs s path flags mode =
     (let write_like = (flags AND (O_WRONLY OR O_RDWR) \<noteq> 0);
          mutating_open = (write_like \<or> flags AND (O_CREAT OR O_TRUNC) \<noteq> 0);
          guarded_mount = vfs_path_is_storage_guarded (g_mount_list s) path
      in if guarded_mount \<and> \<not> storage_reads_allowed (storage s) then Returns (-1, s)
         else if mutating_open \<and> guarded_mount \<and> \<not> storage_writes_allowed (storage s) then Returns (-1, s)
         else
           obind (vfs_lookup_vnode ops s path) (\<lambda>(node, s).
           obind (if node = None \<and> flags AND O_CREAT \<noteq> 0 then open_create ops s path mode else Returns (node, s))
             (\<lambda>(node, s).
                case node of
                  None \<Rightarrow> Returns (-1, s)
                | Some a \<Rightarrow>
                    obind (deref s a) (\<lambda>n.
                      let mask = (if flags AND O_RDONLY \<noteq> 0 \<or> flags AND O_RDWR \<noteq> 0 then 4 else 0) +
                                 (if flags AND O_WRONLY \<noteq> 0 \<or> flags AND O_RDWR \<noteq> 0 then 2 else 0)
                      in if \<not> may s n mask then obind (vfs_close_vnode ops s a) (\<lambda>s. Returns (-1, s))
                         else if n_is_dir n \<and> write_like then obind (vfs_close_vnode ops s a) (\<lambda>s. Returns (-1, s))
                         else
                           obind (if flags AND O_TRUNC \<noteq> 0 \<and> write_like then
                                    (case cb_truncate (cbs (n_ops n)) of
                                       None \<Rightarrow> Returns s
                                     | Some tr \<Rightarrow> obind (tr s a 0) (\<lambda>(_, s). Returns s))
                                  else Returns s)
                             (\<lambda>s. install_fd ops s a flags guarded_mount write_like)))))"


section \<open>Changing directories\<close>

definition vfs_mkdir :: "(VNodeOps \<Rightarrow> 'fs vnode_ops) \<Rightarrow> 'fs vfs \<Rightarrow> u8 list \<Rightarrow> (int \<times> 'fs vfs) outcome" where
  "vfs_mkdir ops s path =
     (if vfs_path_is_storage_guarded (g_mount_list s) path \<and> \<not> storage_writes_allowed (storage s) then Returns (-1, s)
      else if length path \<ge> 511 then Overrun
      else case split_parent path of
        None \<Rightarrow> Returns (-1, s)
      | Some (dir, name) \<Rightarrow>
          obind (vfs_lookup_vnode ops s dir) (\<lambda>(parent, s).
            case parent of
              None \<Rightarrow> Returns (-1, s)
            | Some d \<Rightarrow>
                obind (deref s d) (\<lambda>n.
                obind (if \<not> may s n 2 then Returns (-1, s)
                       else case op_mkdir (ops (n_ops n)) of
                         None \<Rightarrow> Returns (-1, s)
                       | Some mk \<Rightarrow>
                           let (r, fs) = mk (v_fs s) n name; s = s\<lparr>v_fs := fs\<rparr> in
                           if r \<noteq> 0 then Returns (r, s)
                           else obind (node_lookup ops s n name) (\<lambda>(found, s).
                             case found of
                               None \<Rightarrow> Returns (r, s)
                             | Some a \<Rightarrow>
                                 obind (deref s a) (\<lambda>n.
                                   let s = (case cur_uid s of
                                              Some uid \<Rightarrow> set_node s a (n\<lparr>n_uid := uid, n_mode := VFS_DEFAULT_DIR_MODE\<rparr>)
                                            | None \<Rightarrow> s)
                                   in obind (vfs_close_vnode ops s a) (\<lambda>s. Returns (r, s)))))
                  (\<lambda>(r, s). obind (vfs_close_vnode ops s d) (\<lambda>s. Returns (r, s))))))"

text \<open>
  \<open>vfs_unlink\<close> and \<open>vfs_rmdir\<close> differ in the kind of node they accept; \<open>want_dir\<close> tells them apart.
\<close>

definition remove_node ::
  "(VNodeOps \<Rightarrow> 'fs vnode_ops) \<Rightarrow> (VNodeOps \<Rightarrow> 'fs vnode_cbs) \<Rightarrow> bool \<Rightarrow> 'fs vfs \<Rightarrow> u8 list option \<Rightarrow> (int \<times> 'fs vfs) outcome"
where
  "remove_node ops cbs want_dir s path =
     (case path of
        None \<Rightarrow> Returns (-1, s)
      | Some p \<Rightarrow>
          if p = [] \<or> p = [slash] then Returns (-1, s)
          else if vfs_path_is_storage_guarded (g_mount_list s) p \<and> \<not> storage_writes_allowed (storage s) then Returns (-1, s)
          else obind (vfs_lookup_vnode ops s p) (\<lambda>(target, s).
            case target of
              None \<Rightarrow> Returns (-1, s)
            | Some a \<Rightarrow>
                obind (deref s a) (\<lambda>n.
                obind (vfs_close_vnode ops s a) (\<lambda>s.
                  if n_is_dir n \<noteq> want_dir then Returns (-1, s)
                  else if length p \<ge> 511 then Overrun
                  else case split_parent p of
                    None \<Rightarrow> Returns (-1, s)
                  | Some (dir, name) \<Rightarrow>
                      if name = [] then Returns (-1, s)
                      else obind (vfs_lookup_vnode ops s dir) (\<lambda>(parent, s).
                        case parent of
                          None \<Rightarrow> Returns (-1, s)
                        | Some d \<Rightarrow>
                            obind (deref s d) (\<lambda>n.
                            obind (if \<not> may s n 2 then Returns (-1, s)
                                   else case cb_unlink (cbs (n_ops n)) of
                                     None \<Rightarrow> Returns (-1, s)
                                   | Some ul \<Rightarrow> ul s d name)
                              (\<lambda>(r, s). obind (vfs_close_vnode ops s d) (\<lambda>s. Returns (r, s)))))))))"

definition vfs_unlink ::
  "(VNodeOps \<Rightarrow> 'fs vnode_ops) \<Rightarrow> (VNodeOps \<Rightarrow> 'fs vnode_cbs) \<Rightarrow> 'fs vfs \<Rightarrow> u8 list option \<Rightarrow> (int \<times> 'fs vfs) outcome"
where
  "vfs_unlink ops cbs s path = remove_node ops cbs False s path"

definition vfs_rmdir ::
  "(VNodeOps \<Rightarrow> 'fs vnode_ops) \<Rightarrow> (VNodeOps \<Rightarrow> 'fs vnode_cbs) \<Rightarrow> 'fs vfs \<Rightarrow> u8 list option \<Rightarrow> (int \<times> 'fs vfs) outcome"
where
  "vfs_rmdir ops cbs s path = remove_node ops cbs True s path"

definition close_opt :: "(VNodeOps \<Rightarrow> 'fs vnode_ops) \<Rightarrow> 'fs vfs \<Rightarrow> nat option \<Rightarrow> 'fs vfs outcome" where
  "close_opt ops s a = (case a of None \<Rightarrow> Returns s | Some a \<Rightarrow> vfs_close_vnode ops s a)"

definition vfs_rename ::
  "(VNodeOps \<Rightarrow> 'fs vnode_ops) \<Rightarrow> (VNodeOps \<Rightarrow> 'fs vnode_cbs) \<Rightarrow> 'fs vfs \<Rightarrow> u8 list \<Rightarrow> u8 list \<Rightarrow> (int \<times> 'fs vfs) outcome"
where
  "vfs_rename ops cbs s oldpath newpath =
     (if (vfs_path_is_storage_guarded (g_mount_list s) oldpath \<or> vfs_path_is_storage_guarded (g_mount_list s) newpath) \<and>
         \<not> storage_writes_allowed (storage s) then Returns (-1, s)
      else if length oldpath \<ge> 511 \<or> length newpath \<ge> 511 then Overrun
      else case (split_parent oldpath, split_parent newpath) of
        (Some (old_dir, old_name), Some (new_dir, new_name)) \<Rightarrow>
          obind (vfs_lookup_vnode ops s old_dir) (\<lambda>(old_parent, s).
          obind (vfs_lookup_vnode ops s new_dir) (\<lambda>(new_parent, s).
          obind (case (old_parent, new_parent) of
                   (Some d, Some e) \<Rightarrow>
                     obind (deref s d) (\<lambda>nd. obind (deref s e) (\<lambda>ne.
                       if may s nd 2 \<and> may s ne 2 \<and> n_ops nd = n_ops ne then
                         (case cb_rename (cbs (n_ops nd)) of
                            None \<Rightarrow> Returns (-1, s)
                          | Some rn \<Rightarrow> rn s d old_name e new_name)
                       else Returns (-1, s)))
                 | _ \<Rightarrow> Returns (-1, s))
            (\<lambda>(r, s). obind (close_opt ops s old_parent) (\<lambda>s. obind (close_opt ops s new_parent) (\<lambda>s. Returns (r, s))))))
      | _ \<Rightarrow> Returns (-1, s))"

end
