(* ===== verification/File_Driver.thy ===== *)
theory File_Driver
  imports Vfs_Ops Unifs_Spec
begin

text \<open>
  The interface of a driver of regular files to the page cache: what the cache relies on when it reads a page
  from the driver and writes one back.  \<open>stored\<close> gives the bytes the driver has under a name, \<open>fits\<close> tells
  whether a file may have a size, \<open>budget\<close> bounds from below how many writes find the memory they need.
\<close>

definition is_file :: "VNode \<Rightarrow> u8 list \<Rightarrow> bool" where
  "is_file n k \<longleftrightarrow> n_ops n = unifs_file_ops \<and> \<not> n_is_dir n \<and> n_fs_data n = Some k \<and> 0 \<notin> set k"

locale file_driver =
  fixes ops :: "VNodeOps \<Rightarrow> 'fs vnode_ops"
    and good :: "'fs \<Rightarrow> bool"
    and stored :: "'fs \<Rightarrow> u8 list \<Rightarrow> u8 list option"
    and fits :: "'fs \<Rightarrow> u8 list \<Rightarrow> nat \<Rightarrow> bool"
    and budget :: "'fs \<Rightarrow> nat"
  assumes reads:
    "good fs \<Longrightarrow> is_file n k \<Longrightarrow> stored fs k = Some b \<Longrightarrow>
       \<exists>rd. op_read (ops unifs_file_ops) = Some rd \<and>
         rd fs n sz off False = Returns (int (length (take sz (drop off b))), take sz (drop off b), fs)"
    and writes:
    "good fs \<Longrightarrow> is_file n k \<Longrightarrow> stored fs k = Some b \<Longrightarrow> fits fs k (off + length buf) \<Longrightarrow> 0 < budget fs \<Longrightarrow>
       \<exists>wr b' fs'. op_write (ops unifs_file_ops) = Some wr \<and>
         wr fs n buf off False = Returns (int (length buf), n, fs') \<and> overwritten b off buf b' \<and>
         stored fs' = (stored fs)(k \<mapsto> b') \<and> good fs' \<and> budget fs \<le> Suc (budget fs') \<and>
         (\<forall>k m. fits fs k m \<longrightarrow> fits fs' k m)"
    and fits_less: "fits fs k m \<Longrightarrow> m' \<le> m \<Longrightarrow> fits fs k m'"

lemma overwritten_bytes:
  assumes "overwritten b off buf b'"
  shows "length b' = max (length b) (off + length buf)"
    and "off \<le> i \<Longrightarrow> i < off + length buf \<Longrightarrow> b' ! i = buf ! (i - off)"
    and "i < length b \<Longrightarrow> i < off \<or> off + length buf \<le> i \<Longrightarrow> b' ! i = b ! i"
  using assms by (auto simp: overwritten_def nth_append min_def)

end
