(* ===== verification/Vfs_Cache.thy ===== *)
theory Vfs_Cache
  imports File_Driver
begin

text \<open>
  The page cache is transparent: behind it every file is a sequence of bytes, and reading, writing and
  write-back keep to it.  The byte of a file at an offset is the one in the cached page, or else the one the
  driver has.  All is proved once, for every driver that keeps the contract \<open>file_driver\<close>.
\<close>

section \<open>The bytes of a file\<close>

definition is_page :: "PageCacheEntry \<Rightarrow> u8 list \<Rightarrow> nat \<Rightarrow> bool" where
  "is_page e k p \<longleftrightarrow> e_valid e \<and> cstr (e_path e) = k \<and> e_page_index e = p"

definition view :: "('fs \<Rightarrow> u8 list \<Rightarrow> u8 list option) \<Rightarrow> 'fs vfs \<Rightarrow> u8 list \<Rightarrow> nat \<Rightarrow> u8" where
  "view stored s k off =
     (case find_idx (\<lambda>e. is_page e k (off div 4096)) (g_page_cache s) of
        Some i \<Rightarrow> e_data (g_page_cache s ! i) ! (off mod 4096)
      | None \<Rightarrow> the (stored (v_fs s) k) ! off)"

text \<open>\<open>L\<close> gives the size of each file, which during a write is ahead of the size in its node.\<close>

definition file_bytes ::
  "('fs \<Rightarrow> u8 list \<Rightarrow> u8 list option) \<Rightarrow> 'fs vfs \<Rightarrow> (u8 list \<Rightarrow> nat) \<Rightarrow> u8 list \<Rightarrow> u8 list"
where
  "file_bytes stored s L k = map (view stored s k) [0..<L k]"

definition open_node :: "'fs vfs \<Rightarrow> nat \<Rightarrow> VNode \<Rightarrow> u8 list \<Rightarrow> bool" where
  "open_node s a n k \<longleftrightarrow> a < length (nodes s) \<and> nodes s ! a = Some n \<and> is_file n k"

section \<open>The invariant\<close>

text \<open>
  A clean page holds what the driver has.  Of a file that grows, the pages behind the size in the node have
  been touched since \<open>T\<close>: they must not be written back yet, since write-back stops at that size.  A file may
  have several open nodes; all of them have the same size.
\<close>

definition page_ok :: "('fs \<Rightarrow> u8 list \<Rightarrow> u8 list option) \<Rightarrow> ('fs \<Rightarrow> u8 list \<Rightarrow> nat \<Rightarrow> bool) \<Rightarrow>
    'fs vfs \<Rightarrow> (u8 list \<Rightarrow> nat) \<Rightarrow> nat \<Rightarrow> PageCacheEntry \<Rightarrow> VNode \<Rightarrow> u8 list \<Rightarrow> u8 list \<Rightarrow> bool"
where
  "page_ok stored fits s L T e n k b \<longleftrightarrow>
     0 < n_ref_count n \<and> n_ref_count n < 2 ^ 32 - 1 \<and> e_page_index e < 2 ^ 52 \<and>
     (e_dirty e \<longrightarrow> fits (v_fs s) k (L k)) \<and>
     (\<not> e_dirty e \<longrightarrow> (\<forall>off < L k. off div 4096 = e_page_index e \<longrightarrow>
        off < length b \<and> e_data e ! (off mod 4096) = b ! off)) \<and>
     (n_size n < L k \<longrightarrow> e_page_index e * 4096 < L k \<longrightarrow> n_size n < e_page_index e * 4096 + 4096 \<longrightarrow>
        T < e_last_access e)"

definition entry_ok :: "('fs \<Rightarrow> u8 list \<Rightarrow> u8 list option) \<Rightarrow> ('fs \<Rightarrow> u8 list \<Rightarrow> nat \<Rightarrow> bool) \<Rightarrow>
    'fs vfs \<Rightarrow> (u8 list \<Rightarrow> nat) \<Rightarrow> nat \<Rightarrow> PageCacheEntry \<Rightarrow> bool"
where
  "entry_ok stored fits s L T e \<longleftrightarrow>
     length (e_path e) = 256 \<and> length (e_data e) = 4096 \<and> e_last_access e \<le> g_page_cache_tick s \<and>
     (e_valid e \<longrightarrow> e_ops e = Some unifs_file_ops \<and>
        (\<exists>n b. open_node s (e_vnode e) n (cstr (e_path e)) \<and> stored (v_fs s) (cstr (e_path e)) = Some b \<and>
           page_ok stored fits s L T e n (cstr (e_path e)) b))"

text \<open>What the driver lacks of a file is in dirty pages.\<close>

definition node_ok ::
  "('fs \<Rightarrow> u8 list \<Rightarrow> u8 list option) \<Rightarrow> 'fs vfs \<Rightarrow> (u8 list \<Rightarrow> nat) \<Rightarrow> VNode \<Rightarrow> u8 list \<Rightarrow> bool"
where
  "node_ok stored s L n k \<longleftrightarrow>
     length k < 255 \<and> n_size n \<le> L k \<and> L k < 2 ^ 63 \<and>
     (\<exists>b. stored (v_fs s) k = Some b \<and> length b \<le> n_size n \<and>
        (\<forall>off < L k. length b \<le> off \<longrightarrow>
           (\<exists>i < MAX_CACHE_PAGES. is_page (g_page_cache s ! i) k (off div 4096) \<and> e_dirty (g_page_cache s ! i))))"

definition cache_inv :: "('fs \<Rightarrow> bool) \<Rightarrow> ('fs \<Rightarrow> u8 list \<Rightarrow> u8 list option) \<Rightarrow> ('fs \<Rightarrow> u8 list \<Rightarrow> nat \<Rightarrow> bool) \<Rightarrow>
    'fs vfs \<Rightarrow> (u8 list \<Rightarrow> nat) \<Rightarrow> nat \<Rightarrow> bool"
where
  "cache_inv good stored fits s L T \<longleftrightarrow>
     good (v_fs s) \<and> length (g_page_cache s) = MAX_CACHE_PAGES \<and> T \<le> g_page_cache_tick s \<and>
     (\<forall>i < MAX_CACHE_PAGES. entry_ok stored fits s L T (g_page_cache s ! i)) \<and>
     (\<forall>i < MAX_CACHE_PAGES. \<forall>j < MAX_CACHE_PAGES. \<forall>k p.
        is_page (g_page_cache s ! i) k p \<and> is_page (g_page_cache s ! j) k p \<longrightarrow> i = j) \<and>
     (\<forall>a n k. open_node s a n k \<longrightarrow> node_ok stored s L n k) \<and>
     (\<forall>a n b m k. open_node s a n k \<and> open_node s b m k \<longrightarrow> n_size n = n_size m)"

lemma cache_invD:
  assumes "cache_inv good stored fits s L T"
  shows "good (v_fs s)" "length (g_page_cache s) = MAX_CACHE_PAGES" "T \<le> g_page_cache_tick s"
    and "\<And>i. i < MAX_CACHE_PAGES \<Longrightarrow> entry_ok stored fits s L T (g_page_cache s ! i)"
    and "\<And>i j k p. i < MAX_CACHE_PAGES \<Longrightarrow> j < MAX_CACHE_PAGES \<Longrightarrow> is_page (g_page_cache s ! i) k p \<Longrightarrow>
           is_page (g_page_cache s ! j) k p \<Longrightarrow> i = j"
    and "\<And>a n k. open_node s a n k \<Longrightarrow> node_ok stored s L n k"
    and "\<And>a n b m k. open_node s a n k \<Longrightarrow> open_node s b m k \<Longrightarrow> n_size n = n_size m"
  using assms unfolding cache_inv_def by blast+

lemma cache_invI:
  assumes "good (v_fs s)" "length (g_page_cache s) = MAX_CACHE_PAGES" "T \<le> g_page_cache_tick s"
    and "\<And>i. i < MAX_CACHE_PAGES \<Longrightarrow> entry_ok stored fits s L T (g_page_cache s ! i)"
    and "\<And>i j k p. i < MAX_CACHE_PAGES \<Longrightarrow> j < MAX_CACHE_PAGES \<Longrightarrow> is_page (g_page_cache s ! i) k p \<Longrightarrow>
           is_page (g_page_cache s ! j) k p \<Longrightarrow> i = j"
    and "\<And>a n k. open_node s a n k \<Longrightarrow> node_ok stored s L n k"
    and "\<And>a n b m k. open_node s a n k \<Longrightarrow> open_node s b m k \<Longrightarrow> n_size n = n_size m"
  shows "cache_inv good stored fits s L T"
  using assms unfolding cache_inv_def by blast

lemma view_cached:
  assumes "cache_inv good stored fits s L T" "i < MAX_CACHE_PAGES" "is_page (g_page_cache s ! i) k (off div 4096)"
  shows "view stored s k off = e_data (g_page_cache s ! i) ! (off mod 4096)"
proof -
  have "find_idx (\<lambda>e. is_page e k (off div 4096)) (g_page_cache s) = Some i"
    by (rule find_idx_unique) (use assms cache_invD(2,5) [OF assms(1)] in auto)
  then show ?thesis by (simp add: view_def)
qed

lemma view_uncached:
  assumes "length (g_page_cache s) = MAX_CACHE_PAGES"
    and "\<And>i. i < MAX_CACHE_PAGES \<Longrightarrow> \<not> is_page (g_page_cache s ! i) k (off div 4096)"
  shows "view stored s k off = the (stored (v_fs s) k) ! off"
proof -
  have "find_idx (\<lambda>e. is_page e k (off div 4096)) (g_page_cache s) = None"
    using assms by (auto simp: find_idx_None in_set_conv_nth)
  then show ?thesis by (simp add: view_def)
qed

text \<open>An uncached byte of a file is one the driver has.\<close>

lemma uncached_stored:
  assumes "node_ok stored s L n k" "off < L k" "stored (v_fs s) k = Some b"
    and "\<And>i. i < MAX_CACHE_PAGES \<Longrightarrow> \<not> is_page (g_page_cache s ! i) k (off div 4096)"
  shows "off < length b"
  using assms unfolding node_ok_def by (metis linorder_not_less option.inject)


section \<open>Write-back\<close>

text \<open>
  The effect of writing page \<open>i\<close> back, whatever the driver does with the bytes between its end of the file and
  the page.
\<close>

definition cleaned :: "('fs \<Rightarrow> bool) \<Rightarrow> ('fs \<Rightarrow> u8 list \<Rightarrow> u8 list option) \<Rightarrow> ('fs \<Rightarrow> u8 list \<Rightarrow> nat \<Rightarrow> bool) \<Rightarrow>
    'fs vfs \<Rightarrow> (u8 list \<Rightarrow> nat) \<Rightarrow> nat \<Rightarrow> VNode \<Rightarrow> u8 list \<Rightarrow> u8 list \<Rightarrow> u8 list \<Rightarrow> 'fs vfs \<Rightarrow> bool"
where
  "cleaned good stored fits s L i n k b b' t \<longleftrightarrow>
     nodes t = nodes s \<and> g_page_cache_tick t = g_page_cache_tick s \<and>
     g_page_cache t = (g_page_cache s)[i := (g_page_cache s ! i)\<lparr>e_dirty := False\<rparr>] \<and>
     good (v_fs t) \<and> stored (v_fs t) = (stored (v_fs s))(k \<mapsto> b') \<and> (\<forall>k m. fits (v_fs s) k m \<longrightarrow> fits (v_fs t) k m) \<and>
     length b \<le> length b' \<and> length b' \<le> n_size n \<and>
     (\<forall>off < length b. off div 4096 \<noteq> e_page_index (g_page_cache s ! i) \<longrightarrow> b' ! off = b ! off) \<and>
     (\<forall>off < L k. off div 4096 = e_page_index (g_page_cache s ! i) \<longrightarrow>
        off < length b' \<and> b' ! off = e_data (g_page_cache s ! i) ! (off mod 4096))"

lemma cleanedD:
  assumes "cleaned good stored fits s L i n k b b' t"
  shows "good (v_fs t)" "stored (v_fs t) = (stored (v_fs s))(k \<mapsto> b')" "g_page_cache_tick t = g_page_cache_tick s"
    and "\<And>k m. fits (v_fs s) k m \<Longrightarrow> fits (v_fs t) k m" and "length b \<le> length b'" "length b' \<le> n_size n"
    and "\<And>off. off < length b \<Longrightarrow> off div 4096 \<noteq> e_page_index (g_page_cache s ! i) \<Longrightarrow> b' ! off = b ! off"
    and "\<And>off. off < L k \<Longrightarrow> off div 4096 = e_page_index (g_page_cache s ! i) \<Longrightarrow>
           off < length b' \<and> b' ! off = e_data (g_page_cache s ! i) ! (off mod 4096)"
    and "length (g_page_cache t) = length (g_page_cache s)"
  using assms by (auto simp: cleaned_def)

lemma cleaned_frame:
  assumes inv: "cache_inv good stored fits s L T" and c: "cleaned good stored fits s L i n k b b' t"
  shows "open_node t = open_node s"
    and "j < MAX_CACHE_PAGES \<Longrightarrow> is_page (g_page_cache t ! j) = is_page (g_page_cache s ! j)"
    and "j < MAX_CACHE_PAGES \<Longrightarrow> g_page_cache t ! j = (if j = i then (g_page_cache s ! i)\<lparr>e_dirty := False\<rparr> else g_page_cache s ! j)"
    and "find_idx (\<lambda>e. is_page e k' p) (g_page_cache t) = find_idx (\<lambda>e. is_page e k' p) (g_page_cache s)"
proof -
  have l: "length (g_page_cache s) = MAX_CACHE_PAGES" by (rule cache_invD(2) [OF inv])
  have t: "nodes t = nodes s" "g_page_cache t = (g_page_cache s)[i := (g_page_cache s ! i)\<lparr>e_dirty := False\<rparr>]"
    using c by (auto simp: cleaned_def)
  show "open_node t = open_node s" by (intro ext) (simp add: open_node_def t)
  show j: "j < MAX_CACHE_PAGES \<Longrightarrow> g_page_cache t ! j = (if j = i then (g_page_cache s ! i)\<lparr>e_dirty := False\<rparr> else g_page_cache s ! j)"
    by (auto simp: t l)
  show "j < MAX_CACHE_PAGES \<Longrightarrow> is_page (g_page_cache t ! j) = is_page (g_page_cache s ! j)"
    by (intro ext) (simp add: j is_page_def)
  show "find_idx (\<lambda>e. is_page e k' p) (g_page_cache t) = find_idx (\<lambda>e. is_page e k' p) (g_page_cache s)"
    unfolding t by (rule find_idx_update) (simp add: is_page_def)
qed

lemma cleaned_view:
  assumes inv: "cache_inv good stored fits s L T" and c: "cleaned good stored fits s L i n k b b' t"
    and i: "i < MAX_CACHE_PAGES" "is_page (g_page_cache s ! i) k (e_page_index (g_page_cache s ! i))"
    and b: "stored (v_fs s) k = Some b" and f: "open_node s a m k'" "off < L k'"
  shows "view stored t k' off = view stored s k' off"
proof (cases "find_idx (\<lambda>e. is_page e k' (off div 4096)) (g_page_cache s)")
  case (Some j)
  then have "j < MAX_CACHE_PAGES" using cache_invD(2) [OF inv] by (simp add: find_idx_Some)
  then show ?thesis using Some by (simp add: view_def cleaned_frame [OF inv c])
next
  case None
  have u: "\<not> is_page (g_page_cache s ! j) k' (off div 4096)" if "j < MAX_CACHE_PAGES" for j
    using None that cache_invD(2) [OF inv] by (auto simp: find_idx_None)
  have st: "stored (v_fs t) = (stored (v_fs s))(k \<mapsto> b')" using c by (simp add: cleaned_def)
  show ?thesis
  proof (cases "k' = k")
    case True
    have "off < length b" using uncached_stored [OF cache_invD(6) [OF inv f(1)] f(2)] b u True by blast
    moreover have "off div 4096 \<noteq> e_page_index (g_page_cache s ! i)" using u [OF i(1)] i(2) True by auto
    ultimately show ?thesis using None True b st cleanedD(7) [OF c] by (simp add: view_def cleaned_frame [OF inv c])
  next
    case False
    then show ?thesis using None st by (simp add: view_def cleaned_frame [OF inv c])
  qed
qed

lemma cleaned_entry_ok:
  assumes inv: "cache_inv good stored fits s L T" and c: "cleaned good stored fits s L i n k b b' t"
    and i: "i < MAX_CACHE_PAGES" "is_page (g_page_cache s ! i) k (e_page_index (g_page_cache s ! i))"
    and b: "stored (v_fs s) k = Some b" and j: "j < MAX_CACHE_PAGES"
  shows "entry_ok stored fits t L T (g_page_cache t ! j)"
proof -
  let ?e = "g_page_cache s ! j"
  let ?k = "cstr (e_path ?e)"
  have st: "stored (v_fs t) = (stored (v_fs s))(k \<mapsto> b')" "\<And>k m. fits (v_fs s) k m \<Longrightarrow> fits (v_fs t) k m"
    and tk: "g_page_cache_tick t = g_page_cache_tick s" using c by (auto simp: cleaned_def)
  note ok = cache_invD(4) [OF inv j] and g = cleaned_frame(3) [OF inv c j]
  show ?thesis
  proof (cases "e_valid ?e")
    case False
    then show ?thesis using ok tk by (auto simp: entry_ok_def g)
  next
    case True
    then obtain m d where m: "open_node s (e_vnode ?e) m ?k" "stored (v_fs s) ?k = Some d"
      "page_ok stored fits s L T ?e m ?k d" using ok by (auto simp: entry_ok_def)
    let ?d = "if ?k = k then b' else d"
    have "page_ok stored fits t L T (g_page_cache t ! j) m ?k ?d"
    proof (cases "j = i")
      case True
      then have "?k = k" using i by (simp add: is_page_def)
      moreover have "g_page_cache t ! j = ?e\<lparr>e_dirty := False\<rparr>" using g True by simp
      ultimately show ?thesis using m(3) cleanedD(8) [OF c] True by (simp add: page_ok_def)
    next
      case False
      have "off < length ?d \<and> e_data ?e ! (off mod 4096) = ?d ! off"
        if "\<not> e_dirty ?e" "off < L ?k" "off div 4096 = e_page_index ?e" for off
      proof -
        have o: "off < length d \<and> e_data ?e ! (off mod 4096) = d ! off" using m(3) that by (simp add: page_ok_def)
        have "off div 4096 \<noteq> e_page_index (g_page_cache s ! i)" if "?k = k"
          using cache_invD(5) [OF inv i(1) j i(2)] False \<open>e_valid ?e\<close> \<open>off div 4096 = e_page_index ?e\<close> that
          by (auto simp: is_page_def)
        then show ?thesis using o cleanedD(5,7) [OF c] m(2) b by auto
      qed
      then show ?thesis using m(3) st(2) False by (simp add: page_ok_def cleaned_frame(3) [OF inv c j])
    qed
    moreover have "stored (v_fs t) ?k = Some ?d" using st m(2) by simp
    moreover have "open_node t (e_vnode ?e) m ?k" using m(1) by (simp add: cleaned_frame(1) [OF inv c])
    ultimately show ?thesis using ok tk True unfolding entry_ok_def g by (auto split: if_splits)
  qed
qed

lemma cleaned_inv:
  assumes inv: "cache_inv good stored fits s L T" and c: "cleaned good stored fits s L i n k b b' t"
    and i: "i < MAX_CACHE_PAGES" "is_page (g_page_cache s ! i) k (e_page_index (g_page_cache s ! i))"
    and b: "stored (v_fs s) k = Some b" and n: "open_node s a n k"
  shows "cache_inv good stored fits t L T"
proof -
  note fr = cleaned_frame [OF inv c]
  have st: "stored (v_fs t) = (stored (v_fs s))(k \<mapsto> b')" using c by (simp add: cleaned_def)
  have "node_ok stored t L m k'" if m: "open_node s a' m k'" for a' m k'
  proof -
    obtain d where d: "stored (v_fs s) k' = Some d" "length d \<le> n_size m" and ok: "node_ok stored s L m k'"
      using cache_invD(6) [OF inv m] by (auto simp: node_ok_def)
    let ?d = "if k' = k then b' else d"
    have mn: "n_size m = n_size n" if "k' = k" using cache_invD(7) [OF inv m] n that by blast
    have "\<exists>j < MAX_CACHE_PAGES. is_page (g_page_cache t ! j) k' (off div 4096) \<and> e_dirty (g_page_cache t ! j)"
      if o: "off < L k'" "length ?d \<le> off" for off
    proof -
      have "length d \<le> off" using o cleanedD(5) [OF c] d b by (auto split: if_splits)
      then obtain j where j: "j < MAX_CACHE_PAGES" "is_page (g_page_cache s ! j) k' (off div 4096)" "e_dirty (g_page_cache s ! j)"
        using ok o(1) d by (auto simp: node_ok_def)
      have "j \<noteq> i"
      proof
        assume "j = i"
        then have "k' = k" "off div 4096 = e_page_index (g_page_cache s ! i)" using j i(2) by (auto simp: is_page_def)
        then show False using cleanedD(8) [OF c, of off] o by auto
      qed
      then show ?thesis using j fr by auto
    qed
    moreover have "length ?d \<le> n_size m" using cleanedD(6) [OF c] d mn by simp
    ultimately show ?thesis using ok d st by (auto simp: node_ok_def)
  qed
  then have nodes: "node_ok stored t L m k'" if "open_node t a' m k'" for a' m k' using that by (simp add: fr(1))
  show ?thesis
  proof (rule cache_invI)
    show "n_size m = n_size m'" if "open_node t a m k'" "open_node t a' m' k'" for a a' m m' k'
      using cache_invD(7) [OF inv] that unfolding fr(1) by blast
  qed (use nodes cache_invD(1-5) [OF inv] cleanedD(1,3,9) [OF c] cleaned_entry_ok [OF inv c i b] in \<open>simp_all add: fr(2)\<close>)
qed


text \<open>A step of the cache that no operation above it sees.\<close>

definition unseen :: "('fs \<Rightarrow> u8 list \<Rightarrow> u8 list option) \<Rightarrow> ('fs \<Rightarrow> u8 list \<Rightarrow> nat \<Rightarrow> bool) \<Rightarrow>
    (u8 list \<Rightarrow> nat) \<Rightarrow> 'fs vfs \<Rightarrow> 'fs vfs \<Rightarrow> bool"
where
  "unseen stored fits L s t \<longleftrightarrow>
     nodes t = nodes s \<and> procs t = procs s \<and> current t = current s \<and> g_mount_list t = g_mount_list s \<and>
     storage t = storage s \<and> (\<forall>k m. fits (v_fs s) k m \<longrightarrow> fits (v_fs t) k m) \<and>
     (\<forall>a n k off. open_node s a n k \<and> off < L k \<longrightarrow> view stored t k off = view stored s k off)"

lemma open_node_cong: "nodes t = nodes s \<Longrightarrow> open_node t = open_node s"
  by (intro ext) (simp add: open_node_def)

lemma unseen_refl [simp]: "unseen stored fits L s s"
  by (simp add: unseen_def)

lemma unseen_trans: "unseen stored fits L s t \<Longrightarrow> unseen stored fits L t u \<Longrightarrow> unseen stored fits L s u"
  unfolding unseen_def by (metis open_node_cong)

lemma unseenD:
  assumes "unseen stored fits L s t"
  shows "open_node t = open_node s" "nodes t = nodes s" "procs t = procs s" "current t = current s"
    "g_mount_list t = g_mount_list s" "storage t = storage s"
    and "fits (v_fs s) k m \<Longrightarrow> fits (v_fs t) k m"
    and "open_node s a n k \<Longrightarrow> off < L k \<Longrightarrow> view stored t k off = view stored s k off"
  using assms open_node_cong [of t s] unfolding unseen_def by blast+

lemma unseen_file_bytes:
  "unseen stored fits L s t \<Longrightarrow> open_node s a n k \<Longrightarrow> file_bytes stored t L k = file_bytes stored s L k"
  unfolding file_bytes_def by (rule map_cong) (use unseenD(8) in auto)

text \<open>How many requests for memory are granted before one fails.\<close>

definition mallocs_left :: "mallocs \<Rightarrow> nat" where
  "mallocs_left h = length (takeWhile (\<lambda>x. x \<noteq> None) h)"

lemma mallocs_left_malloc:
  assumes "0 < mallocs_left h" "0 < n"
  obtains d h' where "malloc h n = (Some d, h')" "mallocs_left h = Suc (mallocs_left h')"
  using assms by (cases h) (auto simp: mallocs_left_def split: if_splits)

lemma deref_open_node: "open_node s a n k \<Longrightarrow> deref s a = Returns n"
  by (simp add: deref_def open_node_def)

lemma hold_drop:
  assumes a: "a < length (nodes s)" "nodes s ! a = Some n" "0 < n_ref_count n" "n_ref_count n < 2 ^ 32 - 1"
  shows "hold s a = Returns (set_node s a (n\<lparr>n_ref_count := Suc (n_ref_count n)\<rparr>))"
    and "drop_ref ops (set_node (s\<lparr>v_fs := fs\<rparr>) a (n\<lparr>n_ref_count := Suc (n_ref_count n)\<rparr>)) a = Returns (s\<lparr>v_fs := fs\<rparr>)"
proof -
  have w: "Suc (n_ref_count n) mod 2 ^ 32 = Suc (n_ref_count n)"
    "(Suc (n_ref_count n) + 2 ^ 32 - 1) mod 2 ^ 32 = n_ref_count n" using a(3,4) by simp_all
  show "hold s a = Returns (set_node s a (n\<lparr>n_ref_count := Suc (n_ref_count n)\<rparr>))"
    using a w by (simp add: hold_def deref_def set_node_def)
  have "(nodes s)[a := Some n] = nodes s" using a(2) list_update_id [of "nodes s" a] by simp
  then show "drop_ref ops (set_node (s\<lparr>v_fs := fs\<rparr>) a (n\<lparr>n_ref_count := Suc (n_ref_count n)\<rparr>)) a = Returns (s\<lparr>v_fs := fs\<rparr>)"
    using a w(2) by (simp add: drop_ref_def deref_def set_node_def)
qed


lemma in_page:
  assumes "(off :: nat) div 4096 = p"
  shows "p * 4096 \<le> off" "off < p * 4096 + 4096" "off - p * 4096 = off mod 4096"
  using assms by (auto simp: minus_div_mult_eq_mod [symmetric])

text \<open>The bytes of the page up to the size in the node go to the driver.\<close>

lemma written_back_cleaned:
  assumes e: "e = g_page_cache s ! i" and nd: "L k < 2 ^ 63" "length b \<le> n_size n" "e_page_index e * 4096 < n_size n"
    and settled: "\<And>off. off < L k \<Longrightarrow> off div 4096 = e_page_index e \<Longrightarrow> off < n_size n"
    and buf: "length buf = tw" "buf = take tw (e_data e)" "e_page_index e * 4096 + tw = min (e_page_index e * 4096 + 4096) (n_size n)"
    and w: "overwritten b (e_page_index e * 4096) buf b'" "stored (v_fs t) = (stored (v_fs s))(k \<mapsto> b')" "good (v_fs t)"
      "\<forall>k m. fits (v_fs s) k m \<longrightarrow> fits (v_fs t) k m"
    and t: "nodes t = nodes s" "g_page_cache_tick t = g_page_cache_tick s" "g_page_cache t = (g_page_cache s)[i := e\<lparr>e_dirty := False\<rparr>]"
  shows "cleaned good stored fits s L i n k b b' t"
  unfolding cleaned_def
proof (intro conjI allI impI, goal_cases)
  note ob = overwritten_bytes [OF w(1), unfolded buf(1)]
  let ?off = "e_page_index e * 4096"
  case (9 off)
  then have "off < ?off \<or> ?off + tw \<le> off" using buf(3) nd(2) e by auto
  then show ?case using ob(3) 9 by auto
next
  note ob = overwritten_bytes [OF w(1), unfolded buf(1)]
  case (10 off)
  then show ?case using settled [of off] ob(1) buf(3) e by auto
next
  note ob = overwritten_bytes [OF w(1), unfolded buf(1)]
  let ?off = "e_page_index e * 4096"
  case (11 off)
  then have "?off \<le> off" "off < ?off + tw" "off - ?off = off mod 4096"
    using settled [of off] in_page [of off "e_page_index e"] buf(3) e by auto
  then show ?case using ob(2) [of off] buf(2) e by simp
qed (use w t e overwritten_bytes(1) [OF w(1), unfolded buf(1)] buf(3) nd in \<open>auto simp: max_def\<close>)

context file_driver
begin

text \<open>The driver is called with the node held, which leaves the nodes as they were.\<close>

lemma flush_writes:
  assumes e: "e = g_page_cache s ! i" "e_valid e" "e_dirty e" and n: "open_node s (e_vnode e) n k"
    and r: "0 < n_ref_count n" "n_ref_count n < 2 ^ 32 - 1"
    and off: "wrap64 (e_page_index e * 4096) = e_page_index e * 4096" "e_page_index e * 4096 < n_size n"
    and tw: "tw = (if wrap64 (e_page_index e * 4096 + 4096) > n_size n then n_size n - e_page_index e * 4096 else 4096)"
    and h: "malloc (v_heap s) 4096 = (Some d, h)" and w: "op_write (ops unifs_file_ops) = Some wr"
      "wr (v_fs s) (n\<lparr>n_ref_count := Suc (n_ref_count n)\<rparr>) (take tw (e_data e)) (e_page_index e * 4096) False =
        Returns (x, n\<lparr>n_ref_count := Suc (n_ref_count n)\<rparr>, fs)"
  shows "pc_flush_entry_unlocked ops s i = Returns ((upd_entry (s\<lparr>v_heap := h\<rparr>) i (\<lambda>e. e\<lparr>e_dirty := False\<rparr>))\<lparr>v_fs := fs\<rparr>)"
proof -
  let ?s1 = "upd_entry (s\<lparr>v_heap := h\<rparr>) i (\<lambda>e. e\<lparr>e_dirty := False\<rparr>)" and ?n' = "n\<lparr>n_ref_count := Suc (n_ref_count n)\<rparr>"
  have nf: "n_ops n = unifs_file_ops" "e_vnode e < length (nodes s)" "nodes s ! e_vnode e = Some n"
    using n by (auto simp: open_node_def is_file_def)
  have hd: "hold ?s1 (e_vnode e) = Returns (set_node ?s1 (e_vnode e) ?n')"
    "drop_ref ops (set_node (?s1\<lparr>v_fs := fs\<rparr>) (e_vnode e) ?n') (e_vnode e) = Returns (?s1\<lparr>v_fs := fs\<rparr>)"
    by (rule hold_drop; use nf r in \<open>simp add: upd_entry_def\<close>)+
  show ?thesis
    using off e(2,3) deref_open_node [OF n] h hd w nf r
    by (simp add: pc_flush_entry_unlocked_def Let_def e(1) [symmetric] tw [symmetric] set_node_def deref_def upd_entry_def cong: if_cong)
qed

lemma flush_page:
  assumes inv: "cache_inv good stored fits s L T" and i: "i < MAX_CACHE_PAGES"
    and e: "e = g_page_cache s ! i" "e_valid e" "e_dirty e" "e_last_access e \<le> T"
    and m: "0 < mallocs_left (v_heap s)" "0 < budget (v_fs s)"
  shows "\<exists>t. pc_flush_entry_unlocked ops s i = Returns t \<and> cache_inv good stored fits t L T \<and> unseen stored fits L s t \<and>
    g_page_cache t = (g_page_cache s)[i := e\<lparr>e_dirty := False\<rparr>] \<and> g_page_cache_tick t = g_page_cache_tick s \<and>
    mallocs_left (v_heap s) \<le> Suc (mallocs_left (v_heap t)) \<and> budget (v_fs s) \<le> Suc (budget (v_fs t))"
proof -
  let ?k = "cstr (e_path e)" and ?off = "e_page_index e * 4096"
  obtain n b where n: "open_node s (e_vnode e) n ?k" and b: "stored (v_fs s) ?k = Some b"
    and pg: "page_ok stored fits s L T e n ?k b" and ed: "length (e_data e) = 4096"
    using cache_invD(4) [OF inv i] e(1,2) by (auto simp: entry_ok_def)
  have nd: "n_size n \<le> L ?k" "L ?k < 2 ^ 63" "length b \<le> n_size n"
    using cache_invD(6) [OF inv n] b by (auto simp: node_ok_def)
  have page: "is_page (g_page_cache s ! i) ?k (e_page_index (g_page_cache s ! i))" using e by (simp add: is_page_def)
  have off: "wrap64 ?off = ?off" using pg by (simp add: page_ok_def)
  have settled: "off < n_size n" if "off < L ?k" "off div 4096 = e_page_index e" for off
    using pg e(4) that by (cases "n_size n < L ?k") (auto simp: page_ok_def)
  have clean: "cache_inv good stored fits t L T \<and> unseen stored fits L s t"
    if c: "cleaned good stored fits s L i n ?k b b' t"
      "procs t = procs s" "current t = current s" "g_mount_list t = g_mount_list s" "storage t = storage s" for b' t
    using cleaned_inv [OF inv c(1) i page b n] cleaned_view [OF inv c(1) i page b] cleanedD(4) [OF c(1)] c
    by (auto simp: unseen_def cleaned_def)
  show ?thesis
  proof (cases "?off < n_size n")
    case False
    let ?u = "upd_entry s i (\<lambda>e. e\<lparr>e_dirty := False\<rparr>)"
    have "\<not> (off < L ?k \<and> off div 4096 = e_page_index e)" for off using settled [of off] False by auto
    then have "cleaned good stored fits s L i n ?k b b ?u"
      using cache_invD(1) [OF inv] nd(3) b e(1) by (auto simp: cleaned_def upd_entry_def)
    then show ?thesis using clean [of b ?u] False e off deref_open_node [OF n]
      by (intro exI [of _ ?u]) (simp add: pc_flush_entry_unlocked_def Let_def upd_entry_def)
  next
    case True
    define tw where "tw = (if wrap64 (?off + 4096) > n_size n then n_size n - ?off else 4096)"
    let ?buf = "take tw (e_data e)" and ?n' = "n\<lparr>n_ref_count := Suc (n_ref_count n)\<rparr>"
    have tw: "length ?buf = tw" "?off + tw = min (?off + 4096) (n_size n)" using True nd ed by (auto simp: tw_def)
    obtain d h where h: "malloc (v_heap s) 4096 = (Some d, h)" "mallocs_left (v_heap s) = Suc (mallocs_left h)"
      using mallocs_left_malloc [OF m(1)] by (metis zero_less_numeral)
    have "is_file ?n' ?k" using n by (simp add: open_node_def is_file_def)
    moreover have "fits (v_fs s) ?k (?off + length ?buf)"
      by (rule fits_less [of _ _ "L ?k"]) (use pg e tw nd in \<open>auto simp: page_ok_def\<close>)
    ultimately obtain wr b' fs where w: "op_write (ops unifs_file_ops) = Some wr"
      "wr (v_fs s) ?n' ?buf ?off False = Returns (int (length ?buf), ?n', fs)" "overwritten b ?off ?buf b'"
      "stored fs = (stored (v_fs s))(?k \<mapsto> b')" "good fs" "budget (v_fs s) \<le> Suc (budget fs)"
      "\<forall>k m. fits (v_fs s) k m \<longrightarrow> fits fs k m"
      using writes [OF cache_invD(1) [OF inv] _ b _ m(2)] by metis
    let ?t = "(upd_entry (s\<lparr>v_heap := h\<rparr>) i (\<lambda>e. e\<lparr>e_dirty := False\<rparr>))\<lparr>v_fs := fs\<rparr>"
    have run: "pc_flush_entry_unlocked ops s i = Returns ?t"
      using flush_writes [OF e(1-3) n _ _ off True tw_def h(1) w(1,2)] pg by (simp add: page_ok_def)
    have "cleaned good stored fits s L i n ?k b b' ?t"
      by (rule written_back_cleaned [where e = e and tw = tw and buf = ?buf])
        (use e(1) nd(2,3) True settled tw w(3-5,7) in \<open>simp_all add: upd_entry_def\<close>)
    then show ?thesis using clean [of b' ?t] run h(2) w(6) e(1) by (intro exI [of _ ?t]) (simp add: upd_entry_def)
  qed
qed

end

section \<open>Getting a page\<close>

lemma oldest_loop_least:
  "\<forall>e \<in> set es. e_valid e \<Longrightarrow>
    (\<forall>e \<in> set es. m \<le> e_last_access e) \<and> oldest_loop es i m best = best \<or>
    (\<exists>j < length es. e_last_access (es ! j) < m \<and> (\<forall>e \<in> set es. e_last_access (es ! j) \<le> e_last_access e) \<and>
       oldest_loop es i m best = Some (i + j))"
proof (induction es arbitrary: i m best)
  case (Cons e es)
  let ?m = "min m (e_last_access e)" and ?b = "if e_last_access e < m then Some i else best"
  have v: "oldest_loop (e # es) i m best = oldest_loop es (i + 1) ?m ?b" using Cons.prems by (auto simp: min_def)
  consider "\<forall>e \<in> set es. ?m \<le> e_last_access e" "oldest_loop es (i + 1) ?m ?b = ?b"
    | j where "j < length es" "e_last_access (es ! j) < ?m" "\<forall>e \<in> set es. e_last_access (es ! j) \<le> e_last_access e"
        "oldest_loop es (i + 1) ?m ?b = Some (i + 1 + j)"
    using Cons.IH [of ?m "i + 1" ?b] Cons.prems by auto
  then show ?case
  proof cases
    case 1
    then show ?thesis unfolding v by (cases "e_last_access e < m") (auto intro!: exI [of _ 0])
  next
    case (2 j)
    then show ?thesis unfolding v by (intro disjI2 exI [of _ "Suc j"]) auto
  qed
qed simp

lemma pick_victim_oldest:
  assumes "es \<noteq> []" "\<forall>e \<in> set es. e_last_access e < 2 ^ 64 - 1"
  obtains i where "pick_victim es = Some i" "i < length es"
    "e_valid (es ! i) \<longrightarrow> (\<forall>e \<in> set es. e_last_access (es ! i) \<le> e_last_access e)"
proof (cases "find_idx (\<lambda>e. \<not> e_valid e) es")
  case None
  then have "\<forall>e \<in> set es. e_valid e" by (simp add: find_idx_None)
  from oldest_loop_least [OF this, of "2 ^ 64 - 1" 0 None] show thesis
    using assms None that by (cases es) (auto simp: pick_victim_def)
next
  case (Some i)
  then have "pick_victim es = Some i" by (simp add: pick_victim_def)
  then show thesis using Some by (intro that) (auto simp: find_idx_Some)
qed

text \<open>The entries used since \<open>T\<close>; while they do not fill the cache, none of them is evicted.\<close>

definition recent :: "'fs vfs \<Rightarrow> nat \<Rightarrow> nat set" where
  "recent s T = {i. i < MAX_CACHE_PAGES \<and> T < e_last_access (g_page_cache s ! i)}"

lemma finite_recent [simp]: "finite (recent s T)"
  by (simp add: recent_def)

lemma victim_not_recent:
  assumes inv: "cache_inv good stored fits s L T" and tick: "g_page_cache_tick s < 2 ^ 64 - 1"
    and few: "card (recent s T) < MAX_CACHE_PAGES"
  obtains i where "pick_victim (g_page_cache s) = Some i" "i < MAX_CACHE_PAGES"
    "e_valid (g_page_cache s ! i) \<longrightarrow> e_last_access (g_page_cache s ! i) \<le> T"
proof -
  note l = cache_invD(2) [OF inv]
  have st: "\<forall>e \<in> set (g_page_cache s). e_last_access e < 2 ^ 64 - 1"
    using cache_invD(4) [OF inv] tick l by (fastforce simp: entry_ok_def in_set_conv_nth)
  have "g_page_cache s \<noteq> []" using l by (auto simp: MAX_CACHE_PAGES_def)
  then obtain i where i: "pick_victim (g_page_cache s) = Some i" "i < length (g_page_cache s)"
    "e_valid (g_page_cache s ! i) \<longrightarrow> (\<forall>e \<in> set (g_page_cache s). e_last_access (g_page_cache s ! i) \<le> e_last_access e)"
    by (rule pick_victim_oldest [OF _ st])
  have "\<exists>j < MAX_CACHE_PAGES. e_last_access (g_page_cache s ! j) \<le> T"
  proof (rule ccontr)
    assume "\<not> (\<exists>j < MAX_CACHE_PAGES. e_last_access (g_page_cache s ! j) \<le> T)"
    then have "recent s T = {..<MAX_CACHE_PAGES}" by (auto simp: recent_def)
    then show False using few by simp
  qed
  then obtain j where "j < MAX_CACHE_PAGES" "e_last_access (g_page_cache s ! j) \<le> T" by blast
  moreover from this have "e_valid (g_page_cache s ! i) \<longrightarrow> e_last_access (g_page_cache s ! i) \<le> e_last_access (g_page_cache s ! j)"
    using i(3) l by simp
  ultimately show thesis using i(1,2) l by (intro that [of i]) auto
qed

lemma pick_victim_cong:
  assumes "length es' = length es"
    and "\<And>i. i < length es \<Longrightarrow> e_valid (es' ! i) = e_valid (es ! i) \<and> e_last_access (es' ! i) = e_last_access (es ! i)"
  shows "pick_victim es' = pick_victim es"
proof -
  have a: "list_all2 (\<lambda>e' e. e_valid e' = e_valid e \<and> e_last_access e' = e_last_access e) es' es"
    using assms by (simp add: list_all2_conv_all_nth)
  then have "find_idx (\<lambda>e. \<not> e_valid e) es' = find_idx (\<lambda>e. \<not> e_valid e) es"
    by (induction rule: list_all2_induct) auto
  moreover have "oldest_loop es' i m b = oldest_loop es i m b" for i m b
    using a by (induction arbitrary: i m b rule: list_all2_induct) auto
  ultimately show ?thesis by (simp add: pick_victim_def split: option.splits)
qed

context file_driver
begin

text \<open>A page is found to evict: at once, or after one write-back.\<close>

lemma evict:
  assumes inv: "cache_inv good stored fits s L T" and tick: "g_page_cache_tick s < 2 ^ 64 - 1"
    and few: "card (recent s T) < MAX_CACHE_PAGES"
    and m: "0 < mallocs_left (v_heap s)" "0 < budget (v_fs s)"
  shows "\<exists>t i. i < MAX_CACHE_PAGES \<and> (e_valid (g_page_cache t ! i) \<longrightarrow> \<not> e_dirty (g_page_cache t ! i)) \<and>
    pc_evict_and_allocate_locked ops s a n p = Some (Returns (Some i,
      (upd_entry t i (claim_entry n a p (next_tick t)))\<lparr>g_page_cache_tick := next_tick t\<rparr>)) \<and>
    cache_inv good stored fits t L T \<and> unseen stored fits L s t \<and> g_page_cache_tick t = g_page_cache_tick s \<and>
    (\<forall>j < MAX_CACHE_PAGES. is_page (g_page_cache t ! j) = is_page (g_page_cache s ! j)) \<and>
    recent t T = recent s T \<and>
    mallocs_left (v_heap s) \<le> Suc (mallocs_left (v_heap t)) \<and> budget (v_fs s) \<le> Suc (budget (v_fs t))"
proof -
  note l = cache_invD(2) [OF inv]
  obtain i where i: "pick_victim (g_page_cache s) = Some i" "i < MAX_CACHE_PAGES"
    "e_valid (g_page_cache s ! i) \<longrightarrow> e_last_access (g_page_cache s ! i) \<le> T"
    using victim_not_recent [OF inv tick few] .
  show ?thesis
  proof (cases "e_valid (g_page_cache s ! i) \<and> e_dirty (g_page_cache s ! i)")
    case True
    obtain t where t: "pc_flush_entry_unlocked ops s i = Returns t" "cache_inv good stored fits t L T"
      "unseen stored fits L s t" "g_page_cache t = (g_page_cache s)[i := (g_page_cache s ! i)\<lparr>e_dirty := False\<rparr>]"
      "g_page_cache_tick t = g_page_cache_tick s" "mallocs_left (v_heap s) \<le> Suc (mallocs_left (v_heap t))"
      "budget (v_fs s) \<le> Suc (budget (v_fs t))"
      using flush_page [OF inv i(2) refl _ _ _ m] True i(3) by auto
    have e: "g_page_cache t ! j = (if j = i then (g_page_cache s ! i)\<lparr>e_dirty := False\<rparr> else g_page_cache s ! j)"
      if "j < MAX_CACHE_PAGES" for j using that l by (simp add: t(4) nth_list_update)
    have "pick_victim (g_page_cache t) = Some i"
      unfolding i(1) [symmetric] by (rule pick_victim_cong) (use e l cache_invD(2) [OF t(2)] in auto)
    then have "pc_evict_and_allocate_locked ops s a n p = Some (Returns (Some i,
        (upd_entry t i (claim_entry n a p (next_tick t)))\<lparr>g_page_cache_tick := next_tick t\<rparr>))"
      using i True t(1) e [OF i(2)]
      by (subst pc_evict_and_allocate_locked.simps) (simp add: pc_evict_and_allocate_locked.simps [of ops t])
    moreover have "recent t T = recent s T" using e by (auto simp: recent_def split: if_splits)
    moreover have "is_page (g_page_cache t ! j) = is_page (g_page_cache s ! j)" if "j < MAX_CACHE_PAGES" for j
      using e [OF that] by (intro ext) (simp add: is_page_def)
    ultimately show ?thesis using t i(2) e [OF i(2)] by (intro exI [of _ t] exI [of _ i]) simp
  next
    case False
    then have "pc_evict_and_allocate_locked ops s a n p = Some (Returns (Some i,
        (upd_entry s i (claim_entry n a p (next_tick s)))\<lparr>g_page_cache_tick := next_tick s\<rparr>))"
      using i by (subst pc_evict_and_allocate_locked.simps) auto
    then show ?thesis using inv i(2) False by (intro exI [of _ s] exI [of _ i]) auto
  qed
qed

end


text \<open>The cache with one entry replaced and the clock moved on.\<close>

definition put_entry :: "'fs vfs \<Rightarrow> nat \<Rightarrow> PageCacheEntry \<Rightarrow> 'fs vfs \<Rightarrow> bool" where
  "put_entry s i e t \<longleftrightarrow>
     nodes t = nodes s \<and> v_fs t = v_fs s \<and> g_page_cache_tick t = Suc (g_page_cache_tick s) \<and>
     g_page_cache t = (g_page_cache s)[i := e]"

lemma put_entry_nth:
  "put_entry s i e t \<Longrightarrow> length (g_page_cache s) = MAX_CACHE_PAGES \<Longrightarrow> j < MAX_CACHE_PAGES \<Longrightarrow>
    g_page_cache t ! j = (if j = i then e else g_page_cache s ! j)"
  by (auto simp: put_entry_def)

lemma put_entry_other:
  assumes "put_entry s i e t" "entry_ok stored fits s L T f"
  shows "entry_ok stored fits t L T f"
proof -
  have "open_node t = open_node s" using assms(1) by (intro open_node_cong) (simp add: put_entry_def)
  then show ?thesis using assms by (auto simp: put_entry_def entry_ok_def page_ok_def)
qed

lemma put_entry_inv:
  assumes inv: "cache_inv good stored fits s L T" and p: "put_entry s i e t" and i: "i < MAX_CACHE_PAGES"
    and e: "entry_ok stored fits t L T e"
    and new: "\<And>k p j. is_page e k p \<Longrightarrow> j < MAX_CACHE_PAGES \<Longrightarrow> is_page (g_page_cache s ! j) k p \<Longrightarrow> j = i"
    and old: "\<And>k p. is_page (g_page_cache s ! i) k p \<Longrightarrow> e_dirty (g_page_cache s ! i) \<Longrightarrow> is_page e k p \<and> e_dirty e"
  shows "cache_inv good stored fits t L T"
proof (rule cache_invI)
  note l = cache_invD(2) [OF inv]
  note t = put_entry_nth [OF p l]
  have nd: "open_node t = open_node s" using p by (intro open_node_cong) (simp add: put_entry_def)
  show "good (v_fs t)" "length (g_page_cache t) = MAX_CACHE_PAGES" "T \<le> g_page_cache_tick t"
    using cache_invD(1,2,3) [OF inv] p by (auto simp: put_entry_def)
  show "entry_ok stored fits t L T (g_page_cache t ! j)" if "j < MAX_CACHE_PAGES" for j
    using t [OF that] e put_entry_other [OF p cache_invD(4) [OF inv that]] by simp
  show "j = j'" if "j < MAX_CACHE_PAGES" "j' < MAX_CACHE_PAGES" "is_page (g_page_cache t ! j) k p" "is_page (g_page_cache t ! j') k p"
    for j j' k p
    using that t [OF that(1)] t [OF that(2)] new cache_invD(5) [OF inv] by (metis (full_types))
  show "n_size n = n_size m" if "open_node t a n k" "open_node t b m k" for a n b m k using that cache_invD(7) [OF inv] nd by metis
  show "node_ok stored t L n k" if n: "open_node t a n k" for a n k
  proof -
    have ok: "node_ok stored s L n k" using cache_invD(6) [OF inv] n nd by simp
    have "\<exists>j < MAX_CACHE_PAGES. is_page (g_page_cache t ! j) k q \<and> e_dirty (g_page_cache t ! j)"
      if "\<exists>j < MAX_CACHE_PAGES. is_page (g_page_cache s ! j) k q \<and> e_dirty (g_page_cache s ! j)" for q
      using that t old by (metis (full_types))
    then show ?thesis using ok p unfolding node_ok_def put_entry_def by metis
  qed
qed

lemma put_entry_view:
  assumes inv: "cache_inv good stored fits s L T" "cache_inv good stored fits t L T"
    and p: "put_entry s i e t" and i: "i < MAX_CACHE_PAGES"
    and new: "\<And>k off. is_page e k (off div 4096) \<Longrightarrow> off < L k \<Longrightarrow> e_data e ! (off mod 4096) = view stored s k off"
    and clean: "e_valid (g_page_cache s ! i) \<Longrightarrow> \<not> is_page e (cstr (e_path (g_page_cache s ! i))) (e_page_index (g_page_cache s ! i)) \<Longrightarrow>
      \<not> e_dirty (g_page_cache s ! i)"
    and n: "open_node s a n k" "off < L k"
  shows "view stored t k off = view stored s k off"
proof -
  note l = cache_invD(2) [OF inv(1)]
  note t = put_entry_nth [OF p l]
  have fs: "v_fs t = v_fs s" using p by (simp add: put_entry_def)
  let ?in = "\<lambda>u j. j < MAX_CACHE_PAGES \<and> is_page (g_page_cache u ! j) k (off div 4096)"
  consider "?in t i" | j where "?in t j" "j \<noteq> i" | "\<And>j. \<not> ?in t j" by blast
  then show ?thesis
  proof cases
    case 1
    then have "is_page e k (off div 4096)" using t [OF i] by simp
    then show ?thesis using view_cached [OF inv(2) i] new n(2) t [OF i] by simp
  next
    case (2 j)
    then have "?in s j" using t by auto
    then show ?thesis using 2 view_cached [OF inv(1)] view_cached [OF inv(2)] t by auto
  next
    case 3
    then have v: "view stored t k off = the (stored (v_fs s) k) ! off" using view_uncached [of t] cache_invD(2) [OF inv(2)] fs by auto
    show ?thesis
    proof (cases "?in s i")
      case True
      then have k: "k = cstr (e_path (g_page_cache s ! i))" "off div 4096 = e_page_index (g_page_cache s ! i)" "e_valid (g_page_cache s ! i)"
        by (auto simp: is_page_def)
      moreover have "\<not> is_page e k (off div 4096)" using 3 [of i] t i by auto
      ultimately have "\<not> e_dirty (g_page_cache s ! i)" using clean by simp
      then have "e_data (g_page_cache s ! i) ! (off mod 4096) = the (stored (v_fs s) k) ! off"
        using cache_invD(4) [OF inv(1) i] k n(2) by (auto simp: entry_ok_def page_ok_def)
      moreover have "view stored s k off = e_data (g_page_cache s ! i) ! (off mod 4096)"
        using view_cached [OF inv(1) i] True by blast
      ultimately show ?thesis using v by simp
    next
      case False
      then have "\<And>j. \<not> ?in s j" using 3 t by (metis (full_types))
      then show ?thesis using v view_uncached [OF l] by auto
    qed
  qed
qed


lemma cache_inv_heap [simp]:
  "cache_inv good stored fits (s\<lparr>v_heap := h\<rparr>) L T = cache_inv good stored fits s L T"
  "view stored (s\<lparr>v_heap := h\<rparr>) = view stored s"
  "open_node (s\<lparr>v_heap := h\<rparr>) = open_node s" "recent (s\<lparr>v_heap := h\<rparr>) T = recent s T"
proof -
  show n: "open_node (s\<lparr>v_heap := h\<rparr>) = open_node s" by (rule open_node_cong) simp
  show "cache_inv good stored fits (s\<lparr>v_heap := h\<rparr>) L T = cache_inv good stored fits s L T"
    unfolding cache_inv_def entry_ok_def page_ok_def node_ok_def n by simp
qed (auto simp: view_def recent_def fun_eq_iff split: option.splits)

lemma claim_entry_facts:
  assumes "is_file n k" "length k < 255" "length (e_path e) = 256"
  shows "e_ops (claim_entry n a p tk e) = Some unifs_file_ops" "e_vnode (claim_entry n a p tk e) = a"
    "cstr (e_path (claim_entry n a p tk e)) = k" "length (e_path (claim_entry n a p tk e)) = 256"
    "e_page_index (claim_entry n a p tk e) = p" "\<not> e_dirty (claim_entry n a p tk e)"
    "e_last_access (claim_entry n a p tk e) = tk"
proof -
  have "e_path (claim_entry n a p tk e) = (strncpy (e_path e) k 255)[255 := 0]"
    using assms(1) by (simp add: claim_entry_def Let_def is_file_def)
  moreover have "cstr ((strncpy (e_path e) k 255)[255 := 0]) = k"
    using assms by (simp add: strncpy_eq is_file_def cstr_id list_update_append cstr_append)
  ultimately show "cstr (e_path (claim_entry n a p tk e)) = k" "length (e_path (claim_entry n a p tk e)) = 256"
    using assms(3) by (simp_all add: length_strncpy)
qed (use assms(1) in \<open>simp_all add: claim_entry_def Let_def is_file_def\<close>)

lemma pc_find_locked_page:
  assumes inv: "cache_inv good stored fits s L T" and n: "is_file n k"
  shows "pc_find_locked s n p = find_idx (\<lambda>e. is_page e k p) (g_page_cache s)"
  unfolding pc_find_locked_def
proof (rule find_idx_cong)
  fix e assume "e \<in> set (g_page_cache s)"
  then have "e_valid e \<Longrightarrow> e_ops e = Some unifs_file_ops"
    using cache_invD(2,4) [OF inv] by (auto simp: in_set_conv_nth entry_ok_def)
  then show "(e_valid e \<and> e_page_index e = p \<and> pc_match e n) = is_page e k p"
    using n by (auto simp: pc_match_def is_page_def is_file_def strcmp_0 cstr_id)
qed

context file_driver
begin

lemma read_page_data:
  assumes inv: "cache_inv good stored fits s L T" and n: "open_node s a n k" and p: "p < 2 ^ 52"
    and u: "\<And>i. i < MAX_CACHE_PAGES \<Longrightarrow> \<not> is_page (g_page_cache s ! i) k p"
  shows "\<exists>buf. read_page ops s n p = Returns (Some buf, s) \<and> length buf = 4096 \<and>
    (\<forall>off < L k. off div 4096 = p \<longrightarrow> buf ! (off mod 4096) = view stored s k off)"
proof -
  have nf: "is_file n k" using n by (simp add: open_node_def)
  have ok: "node_ok stored s L n k" by (rule cache_invD(6) [OF inv n])
  then obtain b where b: "stored (v_fs s) k = Some b" "length b \<le> n_size n" and nd: "n_size n \<le> L k" "L k < 2 ^ 63"
    by (auto simp: node_ok_def)
  have v: "off < length b \<and> view stored s k off = b ! off" if "off < L k" "off div 4096 = p" for off
    using view_uncached [OF cache_invD(2) [OF inv]] uncached_stored [OF ok that(1) b(1)] u that b(1) by auto
  have w: "wrap64 (p * 4096) = p * 4096" using p by simp
  show ?thesis
  proof (cases "p * 4096 < n_size n")
    case False
    then have "\<not> (off < L k \<and> off div 4096 = p)" for off using v [of off] b(2) by (auto dest!: in_page)
    then show ?thesis using False w by (intro exI [of _ "replicate 4096 0"]) (simp add: read_page_def)
  next
    case True
    define tr where "tr = (if wrap64 (p * 4096 + 4096) > n_size n then n_size n - p * 4096 else 4096)"
    let ?c = "take tr (drop (p * 4096) b)"
    obtain rd where rd: "op_read (ops unifs_file_ops) = Some rd"
      "rd (v_fs s) n tr (p * 4096) False = Returns (int (length ?c), ?c, v_fs s)"
      using reads [OF cache_invD(1) [OF inv] nf b(1)] by blast
    have tr: "tr \<le> 4096" "p * 4096 + tr = min (p * 4096 + 4096) (n_size n)" using True nd by (auto simp: tr_def)
    define buf where "buf = ?c @ replicate (4096 - length ?c) (0 :: u8)"
    have "read_page ops s n p = Returns (Some buf, s)"
      using True w rd nf tr(1)
      by (auto simp: read_page_def Let_def tr_def [symmetric] is_file_def buf_def copy_bytes_def cong: if_cong)
    moreover have "length buf = 4096" using tr(1) by (simp add: buf_def)
    moreover have "buf ! (off mod 4096) = view stored s k off" if o: "off < L k" "off div 4096 = p" for off
    proof -
      have "off < length b" "view stored s k off = b ! off" "p * 4096 \<le> off" "off < p * 4096 + 4096" "off mod 4096 = off - p * 4096"
        using v [OF o] in_page [OF o(2)] by auto
      moreover have "off - p * 4096 < length ?c" using tr(2) calculation b(2) by auto
      ultimately show ?thesis by (simp add: buf_def nth_append)
    qed
    ultimately show ?thesis by blast
  qed
qed

end

end
