(* ===== verification/Vfs_Files.thy ===== *)
theory Vfs_Files
  imports Vfs_Cache
begin

text \<open>
  Reading and writing through the page cache: \<open>pc_get_page\<close>, the loops over pages, the operations on
  descriptors and write-back, over the bytes of files that \<open>Vfs_Cache\<close> defines.
\<close>

lemma touch_page:
  assumes inv: "cache_inv good stored fits s L T" and i: "i < MAX_CACHE_PAGES" "e_valid (g_page_cache s ! i)"
    and tick: "g_page_cache_tick s < 2 ^ 64 - 1"
  shows "cache_inv good stored fits (touch_entry s i) L T" "unseen stored fits L s (touch_entry s i)"
    and "g_page_cache (touch_entry s i) ! i = (g_page_cache s ! i)\<lparr>e_last_access := Suc (g_page_cache_tick s)\<rparr>"
    and "recent (touch_entry s i) T \<subseteq> insert i (recent s T)"
proof -
  let ?e = "(g_page_cache s ! i)\<lparr>e_last_access := Suc (g_page_cache_tick s)\<rparr>" and ?t = "touch_entry s i"
  note l = cache_invD(2) [OF inv]
  have nt: "next_tick s = Suc (g_page_cache_tick s)" using tick by (simp add: next_tick_def)
  have p: "put_entry s i ?e ?t" by (simp add: put_entry_def touch_entry_def upd_entry_def nt)
  have pg: "is_page ?e = is_page (g_page_cache s ! i)" by (intro ext) (simp add: is_page_def)
  have "entry_ok stored fits s L T (g_page_cache s ! i)" by (rule cache_invD(4) [OF inv i(1)])
  then have "entry_ok stored fits ?t L T (g_page_cache s ! i)" by (rule put_entry_other [OF p])
  then have e: "entry_ok stored fits ?t L T ?e"
    using p cache_invD(3) [OF inv] by (auto simp: entry_ok_def page_ok_def put_entry_def)
  show t: "cache_inv good stored fits ?t L T"
    by (rule put_entry_inv [OF inv p i(1) e]) (use pg cache_invD(5) [OF inv _ i(1)] in auto)
  have "view stored ?t k off = view stored s k off" if "open_node s a n k" "off < L k" for a n k off
    by (rule put_entry_view [OF inv t p i(1) _ _ that])
      (use pg i view_cached [OF inv i(1)] in \<open>auto simp: is_page_def\<close>)
  then show "unseen stored fits L s ?t" by (auto simp: unseen_def touch_entry_def upd_entry_def)
  note nth = put_entry_nth [OF p l]
  show "g_page_cache ?t ! i = ?e" using nth i by simp
  show "recent ?t T \<subseteq> insert i (recent s T)" using nth by (auto simp: recent_def split: if_splits)
qed

lemma load_page:
  assumes inv: "cache_inv good stored fits s L T" and i: "i < MAX_CACHE_PAGES"
    and free: "e_valid (g_page_cache s ! i) \<longrightarrow> \<not> e_dirty (g_page_cache s ! i)"
    and n: "open_node s a n k" "0 < n_ref_count n" "n_ref_count n < 2 ^ 32 - 1"
    and u: "\<And>j. j < MAX_CACHE_PAGES \<Longrightarrow> \<not> is_page (g_page_cache s ! j) k p" and p: "p < 2 ^ 52"
    and buf: "length buf = 4096" "\<forall>off < L k. off div 4096 = p \<longrightarrow> buf ! (off mod 4096) = view stored s k off"
    and e: "e = (claim_entry n a p (Suc (g_page_cache_tick s)) (g_page_cache s ! i))\<lparr>e_data := buf, e_valid := True\<rparr>"
    and t: "put_entry s i e t"
  shows "cache_inv good stored fits t L T" and "is_page e k p" "e_last_access e = Suc (g_page_cache_tick s)"
    and "\<And>a n k off. open_node s a n k \<Longrightarrow> off < L k \<Longrightarrow> view stored t k off = view stored s k off"
proof -
  have nf: "is_file n k" using n by (simp add: open_node_def)
  have ok: "node_ok stored s L n k" by (rule cache_invD(6) [OF inv n(1)])
  then obtain b where b: "stored (v_fs s) k = Some b" "length k < 255" by (auto simp: node_ok_def)
  have path: "length (e_path (g_page_cache s ! i)) = 256" using cache_invD(4) [OF inv i] by (simp add: entry_ok_def)
  note cf = claim_entry_facts [OF nf b(2) path]
  show pg: "is_page e k p" and ts: "e_last_access e = Suc (g_page_cache_tick s)" by (simp_all add: e is_page_def cf)
  have only: "is_page e k' p' \<longleftrightarrow> k' = k \<and> p' = p" for k' p' using pg by (auto simp: is_page_def)
  have v: "off < length b \<and> view stored s k off = b ! off" if "off < L k" "off div 4096 = p" for off
    using view_uncached [OF cache_invD(2) [OF inv]] uncached_stored [OF ok that(1) b(1)] u that b(1) by auto
  have "page_ok stored fits s L T e n k b"
    using n p buf v cache_invD(3) [OF inv] by (auto simp: page_ok_def e cf)
  then have "page_ok stored fits t L T e n k b" using t by (simp add: page_ok_def put_entry_def)
  moreover have "open_node t = open_node s" using t by (intro open_node_cong) (simp add: put_entry_def)
  ultimately have eo: "entry_ok stored fits t L T e"
    using n(1) b t buf(1) by (auto simp: entry_ok_def e cf put_entry_def)
  have "\<not> e_dirty (g_page_cache s ! i)" if "is_page (g_page_cache s ! i) k' p'" for k' p'
    using free that by (simp add: is_page_def)
  then show t': "cache_inv good stored fits t L T"
    by (intro put_entry_inv [OF inv t i eo]) (use only u in auto)
  show "view stored t k' off = view stored s k' off" if "open_node s a' n' k'" "off < L k'" for a' n' k' off
    by (rule put_entry_view [OF inv t' t i _ _ that]) (use only free buf(2) in \<open>auto simp: e\<close>)
qed

text \<open>What there is after a page has been had, in entry \<open>i\<close>.\<close>

definition got :: "('fs \<Rightarrow> bool) \<Rightarrow> ('fs \<Rightarrow> u8 list \<Rightarrow> u8 list option) \<Rightarrow> ('fs \<Rightarrow> u8 list \<Rightarrow> nat \<Rightarrow> bool) \<Rightarrow>
    ('fs \<Rightarrow> nat) \<Rightarrow> (u8 list \<Rightarrow> nat) \<Rightarrow> nat \<Rightarrow> u8 list \<Rightarrow> nat \<Rightarrow> 'fs vfs \<Rightarrow> nat \<Rightarrow> 'fs vfs \<Rightarrow> bool"
where
  "got good stored fits budget L T k p s i t \<longleftrightarrow>
     i < MAX_CACHE_PAGES \<and> is_page (g_page_cache t ! i) k p \<and> T < e_last_access (g_page_cache t ! i) \<and>
     cache_inv good stored fits t L T \<and> unseen stored fits L s t \<and>
     g_page_cache_tick t = Suc (g_page_cache_tick s) \<and> recent t T \<subseteq> insert i (recent s T) \<and>
     mallocs_left (v_heap s) \<le> mallocs_left (v_heap t) + 2 \<and> budget (v_fs s) \<le> Suc (budget (v_fs t))"

lemma gotD:
  assumes "got good stored fits budget L T k p s i t"
  shows "i < MAX_CACHE_PAGES" "is_page (g_page_cache t ! i) k p" "T < e_last_access (g_page_cache t ! i)"
    "cache_inv good stored fits t L T" "unseen stored fits L s t" "g_page_cache_tick t = Suc (g_page_cache_tick s)"
    "recent t T \<subseteq> insert i (recent s T)" "mallocs_left (v_heap s) \<le> mallocs_left (v_heap t) + 2"
    "budget (v_fs s) \<le> Suc (budget (v_fs t))"
  using assms unfolding got_def by blast+

lemma got_touch:
  assumes inv: "cache_inv good stored fits s L T" and i: "i < MAX_CACHE_PAGES" "is_page (g_page_cache s ! i) k p"
    and tick: "g_page_cache_tick s < 2 ^ 64 - 1"
  shows "got good stored fits budget L T k p s i (touch_entry s i)"
proof -
  have "e_valid (g_page_cache s ! i)" using i by (simp add: is_page_def)
  note tp = touch_page [OF inv i(1) this tick]
  have nt: "next_tick s = Suc (g_page_cache_tick s)" using tick by (simp add: next_tick_def)
  have tk: "g_page_cache_tick (touch_entry s i) = Suc (g_page_cache_tick s)" "v_heap (touch_entry s i) = v_heap s"
    "v_fs (touch_entry s i) = v_fs s" by (simp_all add: touch_entry_def upd_entry_def nt)
  show ?thesis
    unfolding got_def
  proof (intro conjI)
    show "is_page (g_page_cache (touch_entry s i) ! i) k p" using i(2) by (simp add: tp(3) is_page_def)
    show "T < e_last_access (g_page_cache (touch_entry s i) ! i)" using cache_invD(3) [OF inv] by (simp add: tp(3))
  qed (simp_all add: i(1) tp(1,2,4) tk)
qed

lemma got_load:
  assumes inv: "cache_inv good stored fits s L T" and un: "unseen stored fits L r s" and i: "i < MAX_CACHE_PAGES"
    and free: "e_valid (g_page_cache s ! i) \<longrightarrow> \<not> e_dirty (g_page_cache s ! i)"
    and n: "open_node s a n k" "0 < n_ref_count n" "n_ref_count n < 2 ^ 32 - 1"
    and u: "\<And>j. j < MAX_CACHE_PAGES \<Longrightarrow> \<not> is_page (g_page_cache s ! j) k p" and p: "p < 2 ^ 52"
    and buf: "length buf = 4096" "\<forall>off < L k. off div 4096 = p \<longrightarrow> buf ! (off mod 4096) = view stored s k off"
    and tick: "g_page_cache_tick s < 2 ^ 64 - 1" "g_page_cache_tick s = g_page_cache_tick r" and r: "recent s T = recent r T"
    and m: "mallocs_left (v_heap r) \<le> mallocs_left (v_heap s) + 2" "budget (v_fs r) \<le> Suc (budget (v_fs s))"
  shows "got good stored fits budget L T k p r i
    (upd_entry ((upd_entry s i (claim_entry n a p (next_tick s)))\<lparr>g_page_cache_tick := next_tick s\<rparr>) i
      (\<lambda>e. e\<lparr>e_data := buf, e_valid := True\<rparr>))" (is "got _ _ _ _ _ _ _ _ _ _ ?t")
proof -
  let ?e = "(claim_entry n a p (Suc (g_page_cache_tick s)) (g_page_cache s ! i))\<lparr>e_data := buf, e_valid := True\<rparr>"
  note l = cache_invD(2) [OF inv]
  have nt: "next_tick s = Suc (g_page_cache_tick s)" using tick by (simp add: next_tick_def)
  have put: "put_entry s i ?e ?t" using i l by (simp add: put_entry_def upd_entry_def nt)
  note ld = load_page [OF inv i free n u p buf refl put] and nth = put_entry_nth [OF put l]
  have "unseen stored fits L s ?t" using ld(4) by (auto simp: unseen_def upd_entry_def)
  then have "unseen stored fits L r ?t" by (rule unseen_trans [OF un])
  moreover have "g_page_cache ?t ! i = ?e" using nth i by simp
  moreover have "recent ?t T \<subseteq> insert i (recent r T)"
    unfolding r [symmetric] using nth by (auto simp: recent_def split: if_splits)
  moreover have "v_heap ?t = v_heap s" "v_fs ?t = v_fs s" "g_page_cache_tick ?t = Suc (g_page_cache_tick r)"
    using tick(2) nt by (simp_all add: upd_entry_def)
  ultimately show ?thesis
    unfolding got_def using i ld(1-3) m cache_invD(3) [OF inv] by (intro conjI) simp_all
qed

context file_driver
begin

lemma get_page:
  assumes inv: "cache_inv good stored fits s L T"
    and n: "open_node s a n k" "0 < n_ref_count n" "n_ref_count n < 2 ^ 32 - 1" and p: "p < 2 ^ 52"
    and tick: "g_page_cache_tick s < 2 ^ 64 - 1" and few: "card (recent s T) < MAX_CACHE_PAGES"
    and m: "2 \<le> mallocs_left (v_heap s)" "0 < budget (v_fs s)"
  shows "\<exists>i t. pc_get_page ops s a p = Some (Returns (Some i, t)) \<and> got good stored fits budget L T k p s i t"
proof -
  have nf: "is_file n k" using n by (simp add: open_node_def)
  note D = deref_open_node [OF n(1)] and find = pc_find_locked_page [OF inv nf] and l = cache_invD(2) [OF inv]
  show ?thesis
  proof (cases "find_idx (\<lambda>e. is_page e k p) (g_page_cache s)")
    case (Some i)
    then have i: "i < MAX_CACHE_PAGES" "is_page (g_page_cache s ! i) k p" using l by (simp_all add: find_idx_Some)
    have "pc_get_page ops s a p = Some (Returns (Some i, touch_entry s i))" using D find Some by (simp add: pc_get_page_def)
    then show ?thesis using got_touch [OF inv i tick] by blast
  next
    case None
    obtain d h where h: "malloc (v_heap s) 4096 = (Some d, h)" "mallocs_left (v_heap s) = Suc (mallocs_left h)"
      by (rule mallocs_left_malloc [of "v_heap s" 4096]) (use m(1) in auto)
    let ?s = "s\<lparr>v_heap := h\<rparr>"
    have u: "\<not> is_page (g_page_cache s ! j) k p" if "j < MAX_CACHE_PAGES" for j
      using None that l by (auto simp: find_idx_None)
    have inv': "cache_inv good stored fits ?s L T" "open_node ?s a n k" using inv n(1) by simp_all
    obtain buf where buf: "read_page ops ?s n p = Returns (Some buf, ?s)" "length buf = 4096"
      "\<forall>off < L k. off div 4096 = p \<longrightarrow> buf ! (off mod 4096) = view stored s k off"
      using read_page_data [OF inv' p] u by auto
    obtain t i where i: "i < MAX_CACHE_PAGES" "e_valid (g_page_cache t ! i) \<longrightarrow> \<not> e_dirty (g_page_cache t ! i)"
      and ev: "pc_evict_and_allocate_locked ops ?s a n p = Some (Returns (Some i,
        (upd_entry t i (claim_entry n a p (next_tick t)))\<lparr>g_page_cache_tick := next_tick t\<rparr>))"
      and t: "cache_inv good stored fits t L T" "unseen stored fits L ?s t" "g_page_cache_tick t = g_page_cache_tick s"
        "\<forall>j < MAX_CACHE_PAGES. is_page (g_page_cache t ! j) = is_page (g_page_cache s ! j)" "recent t T = recent s T"
        "mallocs_left h \<le> Suc (mallocs_left (v_heap t))" "budget (v_fs s) \<le> Suc (budget (v_fs t))"
      using evict [OF inv'(1), of a n p] tick few m h(2) by auto
    have un: "unseen stored fits L s t" using t(2) by (auto simp: unseen_def)
    have "\<forall>off < L k. off div 4096 = p \<longrightarrow> buf ! (off mod 4096) = view stored t k off"
      using buf(3) unseenD(8) [OF un n(1)] by simp
    moreover have "open_node t a n k" using n(1) unseenD(1) [OF un] by simp
    ultimately show ?thesis
      using got_load [OF t(1) un i _ n(2,3) _ p buf(2) _ _ t(3,5) _ t(7), of a] u t(4) tick t(3,6) h(2)
        D find None h(1) buf(1) pc_find_locked_page [OF inv'(1) nf] ev
      by (simp add: pc_get_page_def)
  qed
qed

end

section \<open>Writing into a page\<close>

text \<open>The page of \<open>pos\<close> gets new bytes; the file may grow by them.\<close>

definition page_written :: "'fs vfs \<Rightarrow> nat \<Rightarrow> nat \<Rightarrow> u8 list \<Rightarrow> 'fs vfs \<Rightarrow> bool" where
  "page_written s i pos chunk t \<longleftrightarrow>
     put_entry s i ((g_page_cache s ! i)\<lparr>e_data := copy_bytes (e_data (g_page_cache s ! i)) (pos mod 4096) chunk,
       e_dirty := True, e_last_access := Suc (g_page_cache_tick s)\<rparr>) t"

lemma same_page:
  assumes "(pos :: nat) \<le> off" "off < pos + n" "pos mod 4096 + n \<le> 4096"
  shows "off div 4096 = pos div 4096"
proof (rule div_nat_eqI)
  have "pos div 4096 * 4096 + pos mod 4096 = pos" by simp
  then show "4096 * (pos div 4096) \<le> off" "off < 4096 * Suc (pos div 4096)"
    unfolding mult_Suc_right using assms by linarith+
qed

lemma page_written_other:
  assumes inv: "cache_inv good stored fits s L T" and w: "page_written s i pos chunk t"
    and i: "i < MAX_CACHE_PAGES" "is_page (g_page_cache s ! i) k (pos div 4096)" and j: "j < MAX_CACHE_PAGES" "j \<noteq> i"
    and c: "pos mod 4096 + length chunk \<le> 4096" "pos \<le> L k"
    and f: "fits (v_fs s) k (max (L k) (pos + length chunk))"
  shows "entry_ok stored fits t (L(k := max (L k) (pos + length chunk))) T (g_page_cache s ! j)"
proof -
  let ?f = "g_page_cache s ! j" and ?L = "L(k := max (L k) (pos + length chunk))"
  have st: "v_fs t = v_fs s" "g_page_cache_tick t = Suc (g_page_cache_tick s)" "open_node t = open_node s"
    using w open_node_cong [of t s] by (auto simp: page_written_def put_entry_def)
  note ok = cache_invD(4) [OF inv j(1)]
  have "page_ok stored fits t ?L T ?f n (cstr (e_path ?f)) b"
    if v: "e_valid ?f" and n: "open_node s (e_vnode ?f) n (cstr (e_path ?f))"
      and p: "page_ok stored fits s L T ?f n (cstr (e_path ?f)) b" for n b
  proof (cases "cstr (e_path ?f) = k")
    case False
    then show ?thesis using p st(1) by (simp add: page_ok_def)
  next
    case True
    let ?p = "e_page_index ?f"
    have d: "?p \<noteq> pos div 4096"
      using cache_invD(5) [OF inv j(1) i(1) _ i(2)] j(2) v True by (auto simp: is_page_def)
    have cp: "pos div 4096 * 4096 \<le> pos" "pos + length chunk \<le> pos div 4096 * 4096 + 4096"
      using c(1) div_mult_mod_eq [of pos 4096] by linarith+
    have "off < L k" if "off < ?L k" "off div 4096 = ?p" for off
      using that d cp c(2) in_page [of off ?p] by (cases "off < L k") auto
    moreover have "T < e_last_access ?f" if "n_size n < ?L k" "?p * 4096 < ?L k" "n_size n < ?p * 4096 + 4096"
    proof -
      have "n_size n \<le> L k" using cache_invD(6) [OF inv n] True by (simp add: node_ok_def)
      have "?p * 4096 < L k \<and> n_size n < L k"
        using that d cp c(2) \<open>n_size n \<le> L k\<close> by (auto simp: max_def split: if_splits)
      then show ?thesis using p that(3) True by (simp add: page_ok_def)
    qed
    ultimately show ?thesis using p f st(1) True by (auto simp: page_ok_def)
  qed
  then show ?thesis using ok st by (auto simp: entry_ok_def)
qed


lemma page_written_inv:
  assumes inv: "cache_inv good stored fits s L T" and w: "page_written s i pos chunk t" and n: "open_node s a n k"
    and i: "i < MAX_CACHE_PAGES" "is_page (g_page_cache s ! i) k (pos div 4096)"
    and c: "pos mod 4096 + length chunk \<le> 4096" "pos \<le> L k" "max (L k) (pos + length chunk) < 2 ^ 63"
    and f: "fits (v_fs s) k (max (L k) (pos + length chunk))"
  shows "cache_inv good stored fits t (L(k := max (L k) (pos + length chunk))) T"
proof (rule cache_invI)
  let ?L = "L(k := max (L k) (pos + length chunk))"
  let ?e = "(g_page_cache s ! i)\<lparr>e_data := copy_bytes (e_data (g_page_cache s ! i)) (pos mod 4096) chunk,
       e_dirty := True, e_last_access := Suc (g_page_cache_tick s)\<rparr>"
  have put: "put_entry s i ?e t" using w by (simp add: page_written_def)
  note l = cache_invD(2) [OF inv] and ok = cache_invD(4) [OF inv i(1)]
  note nth = put_entry_nth [OF put l]
  have st: "v_fs t = v_fs s" "g_page_cache_tick t = Suc (g_page_cache_tick s)" "open_node t = open_node s"
    using put open_node_cong [of t s] by (auto simp: put_entry_def)
  have pg: "is_page (g_page_cache t ! j) = is_page (g_page_cache s ! j)" if "j < MAX_CACHE_PAGES" for j
    using nth [OF that] by (intro ext) (simp add: is_page_def)
  show "good (v_fs t)" "length (g_page_cache t) = MAX_CACHE_PAGES" "T \<le> g_page_cache_tick t"
    using cache_invD(1,2,3) [OF inv] put by (auto simp: put_entry_def)
  have "entry_ok stored fits t ?L T ?e"
    using ok i(2) c(1) f st cache_invD(3) [OF inv] by (auto simp: entry_ok_def page_ok_def is_page_def byte_simps)
  then show "entry_ok stored fits t ?L T (g_page_cache t ! j)" if "j < MAX_CACHE_PAGES" for j
    using page_written_other [OF inv w i that _ c(1,2) f] nth [OF that] by simp
  show "j = j'" if "j < MAX_CACHE_PAGES" "j' < MAX_CACHE_PAGES" "is_page (g_page_cache t ! j) k p" "is_page (g_page_cache t ! j') k p"
    for j j' k p using that pg cache_invD(5) [OF inv] by simp
  show "n_size n = n_size m" if "open_node t a n k" "open_node t b m k" for a n b m k using that cache_invD(7) [OF inv] st(3) by metis
  show "node_ok stored t ?L m k'" if m: "open_node t a' m k'" for a' m k'
  proof -
    have nk: "node_ok stored s L m k'" using cache_invD(6) [OF inv] m st(3) by simp
    then obtain b where b: "stored (v_fs s) k' = Some b" "length b \<le> n_size m" unfolding node_ok_def by blast
    have "\<exists>j < MAX_CACHE_PAGES. is_page (g_page_cache t ! j) k' (off div 4096) \<and> e_dirty (g_page_cache t ! j)"
      if o: "off < ?L k'" "length b \<le> off" for off
    proof (cases "off < L k'")
      case True
      then obtain j where "j < MAX_CACHE_PAGES" "is_page (g_page_cache s ! j) k' (off div 4096)" "e_dirty (g_page_cache s ! j)"
        using nk b(1) o(2) unfolding node_ok_def by (metis option.inject)
      then show ?thesis using pg nth by (intro exI [of _ j]) simp
    next
      case False
      then have "k' = k" "pos \<le> off" "off < pos + length chunk" using o c(2) by (auto split: if_splits)
      moreover from this have "off div 4096 = pos div 4096"
        using c(1) same_page by blast
      moreover have "e_dirty (g_page_cache t ! i)" using nth [OF i(1)] by simp
      ultimately show ?thesis using i pg [OF i(1)] by (intro exI [of _ i]) simp
    qed
    then show ?thesis using nk b c(3) st(1) by (auto simp: node_ok_def)
  qed
qed

lemma page_written_view:
  assumes inv: "cache_inv good stored fits s L T" and w: "page_written s i pos chunk t"
    and inv': "cache_inv good stored fits t L' T"
    and i: "i < MAX_CACHE_PAGES" "is_page (g_page_cache s ! i) k (pos div 4096)" and c: "pos mod 4096 + length chunk \<le> 4096"
  shows "view stored t k' off =
    (if k' = k \<and> pos \<le> off \<and> off < pos + length chunk then chunk ! (off - pos) else view stored s k' off)"
proof -
  let ?e = "g_page_cache s ! i"
  note l = cache_invD(2) [OF inv]
  have put: "put_entry s i (?e\<lparr>e_data := copy_bytes (e_data ?e) (pos mod 4096) chunk,
       e_dirty := True, e_last_access := Suc (g_page_cache_tick s)\<rparr>) t" using w by (simp add: page_written_def)
  note nth = put_entry_nth [OF put l]
  have pg: "is_page (g_page_cache t ! j) = is_page (g_page_cache s ! j)" if "j < MAX_CACHE_PAGES" for j
    using nth [OF that] by (intro ext) (simp add: is_page_def)
  have d: "length (e_data ?e) = 4096" using cache_invD(4) [OF inv i(1)] by (simp add: entry_ok_def)
  have o: "off div 4096 = pos div 4096" if "pos \<le> off" "off < pos + length chunk"
    using that c same_page by blast
  show ?thesis
  proof (cases "k' = k \<and> off div 4096 = pos div 4096")
    case True
    then have "view stored t k' off = copy_bytes (e_data ?e) (pos mod 4096) chunk ! (off mod 4096)"
      "view stored s k' off = e_data ?e ! (off mod 4096)"
      using view_cached [OF inv' i(1)] view_cached [OF inv i(1)] i pg [OF i(1)] nth [OF i(1)] by simp_all
    moreover have "(pos mod 4096 \<le> off mod 4096 \<and> off mod 4096 < pos mod 4096 + length chunk) = (pos \<le> off \<and> off < pos + length chunk)"
      "off mod 4096 - pos mod 4096 = off - pos"
      using True div_mult_mod_eq [of pos 4096] div_mult_mod_eq [of off 4096] by linarith+
    ultimately show ?thesis using True c d by (simp add: byte_simps)
  next
    case False
    have "g_page_cache t = (g_page_cache s)[i := g_page_cache t ! i]"
      using put l i(1) by (simp add: put_entry_def)
    then have f: "find_idx (\<lambda>e. is_page e k' (off div 4096)) (g_page_cache t) = find_idx (\<lambda>e. is_page e k' (off div 4096)) (g_page_cache s)"
      using find_idx_update pg [OF i(1)] by metis
    have "view stored t k' off = view stored s k' off"
    proof (cases "find_idx (\<lambda>e. is_page e k' (off div 4096)) (g_page_cache s)")
      case None
      then show ?thesis using f put by (simp add: view_def put_entry_def)
    next
      case (Some j)
      then have "j \<noteq> i" "j < MAX_CACHE_PAGES" using False i(2) l by (auto simp: find_idx_Some is_page_def)
      then have "g_page_cache t ! j = g_page_cache s ! j" using nth by simp
      then show ?thesis using Some f by (simp add: view_def)
    qed
    then show ?thesis using False o by auto
  qed
qed


text \<open>What the cache and the drivers do not touch.\<close>

definition rest :: "'fs vfs \<Rightarrow> VNode option list \<times> vproc list \<times> nat option \<times> Mount list \<times> nat" where
  "rest s = (nodes s, procs s, current s, g_mount_list s, storage s)"

lemma unseen_rest: "unseen stored fits L s t \<Longrightarrow> rest t = rest s"
  by (simp add: unseen_def rest_def)

lemma rest_open_node: "rest t = rest s \<Longrightarrow> open_node t = open_node s"
  by (intro open_node_cong) (simp add: rest_def)

lemma next_page:
  assumes "m < len" "part = page_bytes (off + m) (len - m)"
  shows "0 < part" "m + part \<le> len" "(off + m) mod 4096 + part \<le> 4096"
    and "m + part < len \<Longrightarrow> (off + (m + part)) div 4096 = Suc ((off + m) div 4096)"
proof -
  show "0 < part" "m + part \<le> len" "(off + m) mod 4096 + part \<le> 4096"
    using assms mod_less_divisor [of 4096 "off + m"] by (auto simp: page_bytes_def split: if_splits)
  assume "m + part < len"
  then have "part = 4096 - (off + m) mod 4096" using assms by (auto simp: page_bytes_def split: if_splits)
  then have "off + (m + part) = Suc ((off + m) div 4096) * 4096"
    using div_mult_mod_eq [of "off + m" 4096] mod_less_divisor [of 4096 "off + m"] unfolding mult_Suc by linarith
  then show "(off + (m + part)) div 4096 = Suc ((off + m) div 4096)" by simp
qed

lemma page_written_step:
  assumes inv: "cache_inv good stored fits s L T" and i: "i < MAX_CACHE_PAGES" "T < e_last_access (g_page_cache s ! i)"
    and tick: "g_page_cache_tick s < 2 ^ 64 - 1"
    and t: "t = touch_entry (upd_entry s i (\<lambda>e. e\<lparr>e_data := copy_bytes (e_data e) (pos mod 4096) chunk, e_dirty := True\<rparr>)) i"
  shows "page_written s i pos chunk t" "rest t = rest s" "v_fs t = v_fs s" "v_heap t = v_heap s"
    "g_page_cache_tick t = Suc (g_page_cache_tick s)" "recent t T = recent s T"
proof -
  note l = cache_invD(2) [OF inv]
  show w: "page_written s i pos chunk t" "rest t = rest s" "v_fs t = v_fs s" "v_heap t = v_heap s"
    "g_page_cache_tick t = Suc (g_page_cache_tick s)"
    using i(1) l tick by (simp_all add: page_written_def put_entry_def t touch_entry_def upd_entry_def next_tick_def rest_def)
  have "(T < e_last_access (g_page_cache t ! j)) = (T < e_last_access (g_page_cache s ! j))" if "j < MAX_CACHE_PAGES" for j
    using put_entry_nth [OF w(1) [unfolded page_written_def] l that] i(2) cache_invD(3) [OF inv] by simp
  then show "recent t T = recent s T" by (auto simp: recent_def)
qed

text \<open>From \<open>s\<close> to \<open>t\<close> the file \<open>k\<close> got the bytes \<open>off + m\<close> to \<open>off + n\<close> of a buffer that belongs at \<open>off\<close>.\<close>

definition wrote :: "('fs \<Rightarrow> bool) \<Rightarrow> ('fs \<Rightarrow> u8 list \<Rightarrow> u8 list option) \<Rightarrow> ('fs \<Rightarrow> u8 list \<Rightarrow> nat \<Rightarrow> bool) \<Rightarrow>
    (u8 list \<Rightarrow> nat) \<Rightarrow> nat \<Rightarrow> u8 list \<Rightarrow> nat \<Rightarrow> u8 list \<Rightarrow> nat \<Rightarrow> nat \<Rightarrow> 'fs vfs \<Rightarrow> 'fs vfs \<Rightarrow> bool"
where
  "wrote good stored fits L T k off buf m n s t \<longleftrightarrow>
     cache_inv good stored fits t (L(k := max (L k) (off + n))) T \<and> rest t = rest s \<and>
     (\<forall>k m. fits (v_fs s) k m \<longrightarrow> fits (v_fs t) k m) \<and>
     (\<forall>k' x. (\<exists>a n. open_node s a n k') \<longrightarrow> x < (L(k := max (L k) (off + n))) k' \<longrightarrow> view stored t k' x =
        (if k' = k \<and> off + m \<le> x \<and> x < off + n then buf ! (x - off) else view stored s k' x))"

lemma wroteD:
  assumes "wrote good stored fits L T k off buf m n s t"
  shows "cache_inv good stored fits t (L(k := max (L k) (off + n))) T" "rest t = rest s"
    and "\<And>k m. fits (v_fs s) k m \<Longrightarrow> fits (v_fs t) k m"
    and "\<And>a b k' x. open_node s a b k' \<Longrightarrow> x < (L(k := max (L k) (off + n))) k' \<Longrightarrow> view stored t k' x =
        (if k' = k \<and> off + m \<le> x \<and> x < off + n then buf ! (x - off) else view stored s k' x)"
  using assms unfolding wrote_def by blast+

lemma wrote_nothing:
  assumes "cache_inv good stored fits s L T" "off + n \<le> L k"
  shows "wrote good stored fits L T k off buf n n s s"
proof -
  have "max (L k) (off + n) = L k" using assms(2) by simp
  then show ?thesis using assms(1) by (auto simp: wrote_def)
qed

lemma wrote_trans:
  assumes s: "wrote good stored fits L T k off buf m n s t" and t: "wrote good stored fits (L(k := max (L k) (off + n))) T k off buf n l t u"
    and le: "m \<le> n" "n \<le> l"
  shows "wrote good stored fits L T k off buf m l s u"
proof -
  let ?L1 = "L(k := max (L k) (off + n))" and ?L2 = "L(k := max (L k) (off + l))"
  have L: "?L1(k := max (?L1 k) (off + l)) = ?L2" using le(2) by auto
  note s = wroteD [OF s] and t = wroteD [OF t, unfolded L]
  have "view stored u k' x = (if k' = k \<and> off + m \<le> x \<and> x < off + l then buf ! (x - off) else view stored s k' x)"
    if o: "open_node s a b k'" "x < ?L2 k'" for a b k' x
  proof -
    have "view stored u k' x = (if k' = k \<and> off + n \<le> x \<and> x < off + l then buf ! (x - off) else view stored t k' x)"
      using t(4) [of a b k' x] o rest_open_node [OF s(2)] by simp
    moreover have "x < ?L1 k'" if "\<not> (k' = k \<and> off + n \<le> x \<and> x < off + l)"
      using that o(2) by (auto split: if_splits)
    ultimately show ?thesis using s(4) [OF o(1)] le by (auto split: if_splits)
  qed
  moreover have "rest u = rest s" using s(2) t(2) by simp
  ultimately show ?thesis unfolding wrote_def using s(3) t(1,3) by blast
qed

context file_driver
begin

lemma write_loop_step:
  assumes inv: "cache_inv good stored fits s L T"
    and n: "open_node s a n k" "0 < n_ref_count n" "n_ref_count n < 2 ^ 32 - 1"
    and m: "m < length buf" "off + m \<le> L k" and size: "off + length buf < 2 ^ 63"
    and f: "fits (v_fs s) k (max (L k) (off + length buf))"
    and tick: "g_page_cache_tick s + 2 < 2 ^ 64" and few: "card (recent s T) < MAX_CACHE_PAGES"
    and h: "2 \<le> mallocs_left (v_heap s)" "0 < budget (v_fs s)"
    and part: "part = page_bytes (off + m) (length buf - m)"
  shows "\<exists>t. write_loop ops s a off buf m = write_loop ops t a off buf (m + part) \<and>
    wrote good stored fits L T k off buf m (m + part) s t \<and>
    g_page_cache_tick t = g_page_cache_tick s + 2 \<and> card (recent t T) \<le> Suc (card (recent s T)) \<and>
    mallocs_left (v_heap s) \<le> mallocs_left (v_heap t) + 2 \<and> budget (v_fs s) \<le> Suc (budget (v_fs t))"
proof -
  let ?pos = "off + m" let ?chunk = "take part (drop m buf)"
  define L' where "L' = L(k := max (L k) (off + (m + part)))"
  note np = next_page [OF m(1) part]
  have ch: "length ?chunk = part" using np(2) by simp
  have w: "wrap64 ?pos = ?pos" using m(1) size by simp
  have "?pos div 4096 < 2 ^ 52" using m(1) size by (intro less_mult_imp_div_less) simp
  with get_page [OF inv n this] tick few h obtain i t where t: "pc_get_page ops s a (?pos div 4096) = Some (Returns (Some i, t))"
    and g: "got good stored fits budget L T k (?pos div 4096) s i t" by auto
  note g = gotD [OF g]
  define u where "u = touch_entry (upd_entry t i (\<lambda>e. e\<lparr>e_data := copy_bytes (e_data e) (?pos mod 4096) ?chunk, e_dirty := True\<rparr>)) i"
  note st = page_written_step [OF g(4,1,3) _ u_def]
  have tk: "g_page_cache_tick t < 2 ^ 64 - 1" using g(6) tick by simp
  note st = st [OF tk] and un = unseenD [OF g(5)]
  have nt: "open_node t a n k" using n(1) un(1) by simp
  have "length (e_data (g_page_cache t ! i)) = 4096" using cache_invD(4) [OF g(4,1)] by (simp add: entry_ok_def)
  then have run: "write_loop ops s a off buf m = write_loop ops u a off buf (m + part)"
    using m(1) w t np(3) by (subst write_loop.simps) (simp add: Let_def part [symmetric] u_def)
  have le: "?pos + part \<le> off + length buf" "max (L k) (?pos + part) < 2 ^ 63"
    using np(2) size cache_invD(6) [OF inv n(1)] by (auto simp: node_ok_def)
  have "fits (v_fs t) k (max (L k) (?pos + length ?chunk))"
    by (rule un(7), rule fits_less [OF f]) (use le ch in auto)
  then have iu: "cache_inv good stored fits u L' T"
    using page_written_inv [OF g(4) st(1) nt g(1,2) _ m(2)] np(3) le ch L'_def by (simp add: add.assoc)
  note v = page_written_view [OF g(4) st(1) iu g(1,2), unfolded ch, OF np(3)]
  have "view stored u k' x = (if k' = k \<and> ?pos \<le> x \<and> x < ?pos + part then buf ! (x - off) else view stored s k' x)"
    if o: "open_node s a' n' k'" "x < L' k'" for a' n' k' x
  proof (cases "k' = k \<and> ?pos \<le> x \<and> x < ?pos + part")
    case True
    then show ?thesis using v [of k' x] np(2) by auto
  next
    case False
    then have "x < L k'" using o(2) m(2) L'_def by (auto split: if_splits)
    then have "view stored u k' x = view stored s k' x" using v [of k' x] False un(8) [OF o(1)] by simp
    then show ?thesis using False by auto
  qed
  moreover have cd: "card (recent u T) \<le> Suc (card (recent s T))"
    unfolding st(6) using card_mono [OF _ g(7)] card_insert_le_m1 [of _ "recent s T"] by (simp add: card_insert_if split: if_splits)
  moreover have "rest u = rest s" using st(2) unseen_rest [OF g(5)] by simp
  ultimately have "wrote good stored fits L T k off buf m (m + part) s u"
    using iu un(7) st(3) unfolding wrote_def L'_def [symmetric] by (auto simp: add.assoc)
  then show ?thesis using run cd st(4,5) g(6,8,9) st(3) by (intro exI [of _ u] conjI) simp_all
qed

text \<open>\<open>r\<close> pages are left; they and the pages used since \<open>T\<close> fit into the cache.\<close>

lemma write_loop_writes:
  assumes "cache_inv good stored fits s L T"
    and n: "open_node s a n k" "0 < n_ref_count n" "n_ref_count n < 2 ^ 32 - 1"
    and "m \<le> length buf" "off + m \<le> L k" and size: "off + length buf < 2 ^ 63"
    and "fits (v_fs s) k (max (L k) (off + length buf))"
    and "m < length buf \<Longrightarrow> off + length buf \<le> 4096 * ((off + m) div 4096 + r)"
    and "g_page_cache_tick s + 2 * r < 2 ^ 64" "card (recent s T) + r \<le> MAX_CACHE_PAGES"
    and "2 * r \<le> mallocs_left (v_heap s)" "r \<le> budget (v_fs s)"
  shows "\<exists>t. write_loop ops s a off buf m = Some (Returns (Some (length buf), t)) \<and>
    wrote good stored fits L T k off buf m (length buf) s t"
  using assms
proof (induction r arbitrary: s L m)
  case 0
  have "m = length buf"
  proof (rule ccontr)
    assume "m \<noteq> length buf"
    then have "off + length buf \<le> 4096 * ((off + m) div 4096)" "m < length buf" using "0.prems"(5,9) by auto
    then show False using times_div_less_eq_dividend [of 4096 "off + m"] by linarith
  qed
  then show ?case using wrote_nothing "0.prems"(1,6) by (auto simp: write_loop.simps)
next
  case (Suc r)
  show ?case
  proof (cases "m < length buf")
    case False
    then have "m = length buf" using Suc.prems(5) by simp
    then show ?thesis using wrote_nothing Suc.prems(1,6) by (auto simp: write_loop.simps)
  next
    case True
    define part where "part = page_bytes (off + m) (length buf - m)"
    define L1 where "L1 = L(k := max (L k) (off + (m + part)))"
    note np = next_page [OF True part_def]
    obtain t where t: "write_loop ops s a off buf m = write_loop ops t a off buf (m + part)"
      and w: "wrote good stored fits L T k off buf m (m + part) s t"
      and b: "g_page_cache_tick t = g_page_cache_tick s + 2" "card (recent t T) \<le> Suc (card (recent s T))"
        "mallocs_left (v_heap s) \<le> mallocs_left (v_heap t) + 2" "budget (v_fs s) \<le> Suc (budget (v_fs t))"
      using write_loop_step [OF Suc.prems(1-4) True Suc.prems(6-8) _ _ _ _ part_def] Suc.prems(10-13) by auto
    note wt = wroteD [OF w, folded L1_def]
    have L1: "max (L1 k) (off + length buf) = max (L k) (off + length buf)" using np(2) by (auto simp: L1_def)
    have nt: "open_node t a n k" "off + (m + part) \<le> L1 k" "fits (v_fs t) k (max (L1 k) (off + length buf))"
      using Suc.prems(2,8) wt(3) rest_open_node [OF wt(2)] L1 by (auto simp: L1_def)
    have cov: "m + part < length buf \<Longrightarrow> off + length buf \<le> 4096 * ((off + (m + part)) div 4096 + r)"
      using np(4) Suc.prems(9) [OF True] by simp
    have bud: "g_page_cache_tick t + 2 * r < 2 ^ 64" "card (recent t T) + r \<le> MAX_CACHE_PAGES"
      "2 * r \<le> mallocs_left (v_heap t)" "r \<le> budget (v_fs t)" using b Suc.prems(10-13) by auto
    obtain u where u: "write_loop ops t a off buf (m + part) = Some (Returns (Some (length buf), u))"
      "wrote good stored fits L1 T k off buf (m + part) (length buf) t u"
      using Suc.IH [OF wt(1) nt(1) n(2,3) np(2) nt(2) size nt(3) cov bud] by blast
    have "wrote good stored fits L T k off buf m (length buf) s u"
      by (rule wrote_trans [OF w u(2) [unfolded L1_def] _ np(2)]) simp
    then show ?thesis using t u(1) by auto
  qed
qed

end

end
