(* ===== verification/Vfs_Rw.thy ===== *)
theory Vfs_Rw
  imports Vfs_Files
begin

text \<open>
  \<open>vfs_read\<close>, \<open>vfs_write\<close> and \<open>vfs_sync\<close> on files behind the page cache.
\<close>

section \<open>The state between operations\<close>

text \<open>
  Between operations the size of a file is the one in each of its nodes.  Every descriptor has a node, and
  when a file has several nodes, as it has after it was opened several times, each of them is held by a descriptor.
\<close>

definition held :: "'fs vfs \<Rightarrow> nat \<Rightarrow> bool" where
  "held s b \<longleftrightarrow> (\<exists>f \<in> set (concat (map fd_table (procs s))). f_used f \<and> f_vnode f = Some b)"

definition fds_ok :: "'fs vfs \<Rightarrow> bool" where
  "fds_ok s \<longleftrightarrow>
     (\<forall>b. held s b \<longrightarrow>
        (\<exists>m. b < length (nodes s) \<and> nodes s ! b = Some m \<and> (n_ops m = unifs_file_ops \<longrightarrow> (\<exists>k. is_file m k)))) \<and>
     (\<forall>a n b m k. open_node s a n k \<and> open_node s b m k \<and> a \<noteq> b \<longrightarrow> held s b \<and> 0 < n_ref_count m)"

definition settled :: "('fs \<Rightarrow> bool) \<Rightarrow> ('fs \<Rightarrow> u8 list \<Rightarrow> u8 list option) \<Rightarrow> ('fs \<Rightarrow> u8 list \<Rightarrow> nat \<Rightarrow> bool) \<Rightarrow>
    'fs vfs \<Rightarrow> (u8 list \<Rightarrow> nat) \<Rightarrow> bool"
where
  "settled good stored fits s L \<longleftrightarrow>
     cache_inv good stored fits s L (g_page_cache_tick s) \<and> (\<forall>a n k. open_node s a n k \<longrightarrow> n_size n = L k) \<and> fds_ok s"

text \<open>A descriptor of an open file that the storage guard lets pass.\<close>

definition open_fd :: "'fs vfs \<Rightarrow> int \<Rightarrow> nat \<Rightarrow> FileDescriptor \<Rightarrow> nat \<Rightarrow> VNode \<Rightarrow> u8 list \<Rightarrow> bool" where
  "open_fd s fd p f a n k \<longleftrightarrow>
     fd_get s fd = Some (p, f) \<and> p < length (procs s) \<and> nat fd < length (fd_table (procs s ! p)) \<and>
     f_vnode f = Some a \<and> open_node s a n k \<and> 0 < n_ref_count n \<and> n_ref_count n < 2 ^ 32 - 1 \<and>
     f_flags f AND FD_FLAG_STORAGE_GUARDED = 0 \<and> f_flags f AND FD_FLAG_STORAGE_GUARDED_WRITE = 0"

lemma fds_ok_cong:
  assumes "nodes t = nodes s" "procs t = procs s"
  shows "fds_ok t = fds_ok s"
  unfolding fds_ok_def held_def open_node_cong [OF assms(1)] assms by simp

lemma settle:
  assumes inv: "cache_inv good stored fits s L T" and z: "\<forall>a n k. open_node s a n k \<longrightarrow> n_size n = L k"
    and T: "T' \<le> g_page_cache_tick s"
  shows "cache_inv good stored fits s L T'"
proof (rule cache_invI)
  show "entry_ok stored fits s L T' (g_page_cache s ! i)" if "i < MAX_CACHE_PAGES" for i
    using cache_invD(4) [OF inv that] z unfolding entry_ok_def page_ok_def by (metis less_irrefl)
  show "n_size n = n_size m" if "open_node s a n k" "open_node s b m k" for a n b m k using that z by simp
qed (use cache_invD(1-6) [OF inv] T in auto)

lemma cache_inv_cong:
  assumes t: "nodes t = nodes s" "g_page_cache t = g_page_cache s" "g_page_cache_tick t = g_page_cache_tick s" "v_fs t = v_fs s"
  shows "cache_inv good stored fits t L T = cache_inv good stored fits s L T" and "view stored t = view stored s"
proof -
  have n: "open_node t = open_node s" by (rule open_node_cong [OF t(1)])
  show "cache_inv good stored fits t L T = cache_inv good stored fits s L T"
    unfolding cache_inv_def entry_ok_def page_ok_def node_ok_def n t by simp
qed (simp add: view_def fun_eq_iff t split: option.splits)

lemma recent_now:
  assumes "cache_inv good stored fits s L T"
  shows "recent s (g_page_cache_tick s) = {}"
proof -
  have "e_last_access (g_page_cache s ! i) \<le> g_page_cache_tick s" if "i < MAX_CACHE_PAGES" for i
    using cache_invD(4) [OF assms that] by (simp add: entry_ok_def)
  then show ?thesis by (force simp: recent_def)
qed

lemma is_file_size [simp]: "is_file (n\<lparr>n_size := z\<rparr>) = is_file n"
  by (intro ext) (simp add: is_file_def)

text \<open>All nodes of a file grow together.\<close>

definition resized :: "u8 list \<Rightarrow> nat \<Rightarrow> 'fs vfs \<Rightarrow> 'fs vfs \<Rightarrow> bool" where
  "resized k z s t \<longleftrightarrow> (\<forall>b m k'. open_node t b m k' \<longleftrightarrow>
     (\<exists>m'. open_node s b m' k' \<and> m = (if k' = k then m'\<lparr>n_size := z\<rparr> else m')))"

lemma grow_nodes:
  assumes inv: "cache_inv good stored fits s L T" and z: "\<And>a n. open_node s a n k \<Longrightarrow> n_size n \<le> z" "z \<le> L k"
    and nd: "resized k z s t"
    and t: "g_page_cache t = g_page_cache s" "g_page_cache_tick t = g_page_cache_tick s" "v_fs t = v_fs s"
  shows "cache_inv good stored fits t L T"
proof (rule cache_invI)
  note nd = nd [unfolded resized_def, rule_format]
  show "entry_ok stored fits t L T (g_page_cache t ! i)" if i: "i < MAX_CACHE_PAGES" for i
  proof -
    let ?e = "g_page_cache s ! i"
    have ok: "entry_ok stored fits s L T ?e" by (rule cache_invD(4) [OF inv i])
    have "\<exists>m'. open_node t (e_vnode ?e) m' k' \<and> page_ok stored fits t L T ?e m' k' b"
      if m: "open_node s (e_vnode ?e) m k'" "page_ok stored fits s L T ?e m k' b" for m k' b
    proof (intro exI conjI)
      show "open_node t (e_vnode ?e) (if k' = k then m\<lparr>n_size := z\<rparr> else m) k'" using nd m(1) by blast
      show "page_ok stored fits t L T ?e (if k' = k then m\<lparr>n_size := z\<rparr> else m) k' b"
        using m z(1) [of "e_vnode ?e" m] t(3) by (auto simp: page_ok_def)
    qed
    then show ?thesis using ok t unfolding entry_ok_def by (metis (no_types, lifting))
  qed
  show "node_ok stored t L m k'" if m: "open_node t b m k'" for b m k'
  proof -
    obtain m' where m': "open_node s b m' k'" "m = (if k' = k then m'\<lparr>n_size := z\<rparr> else m')"
      using nd [THEN iffD1, OF m] by blast
    have "n_size m' \<le> n_size m" "n_size m \<le> L k'"
      using m' z cache_invD(6) [OF inv m'(1)] by (auto simp: node_ok_def)
    then show ?thesis using cache_invD(6) [OF inv m'(1)] by (auto simp: node_ok_def t)
  qed
  show "n_size m = n_size m'" if m: "open_node t b m k'" "open_node t c m' k'" for b c m m' k'
  proof -
    obtain x y where "open_node s b x k'" "m = (if k' = k then x\<lparr>n_size := z\<rparr> else x)"
      "open_node s c y k'" "m' = (if k' = k then y\<lparr>n_size := z\<rparr> else y)"
      using nd [THEN iffD1, OF m(1)] nd [THEN iffD1, OF m(2)] by blast
    then show ?thesis using cache_invD(7) [OF inv, of b x k' c y] by simp
  qed
qed (use cache_invD(1-5) [OF inv] t in auto)

lemma is_same_file_iff:
  assumes n: "is_file n k" and m: "n_ops m = unifs_file_ops \<longrightarrow> (\<exists>k. is_file m k)" and "b \<noteq> a"
  shows "vfs_is_same_file b m a n \<longleftrightarrow> is_file m k"
  using assms by (auto simp: vfs_is_same_file_def is_file_def strcmp_0 cstr_id split: if_splits)

text \<open>The nodes that \<open>sync_sizes\<close> gives the new size.\<close>

definition shares :: "'fs vfs \<Rightarrow> u8 list \<Rightarrow> nat \<Rightarrow> FileDescriptor list \<Rightarrow> nat \<Rightarrow> bool" where
  "shares s k a fds c \<longleftrightarrow>
     c \<noteq> a \<and> (\<exists>f \<in> set fds. f_used f \<and> f_vnode f = Some c) \<and> (\<exists>m. open_node s c m k \<and> 0 < n_ref_count m)"

definition fds_have_nodes :: "'fs vfs \<Rightarrow> FileDescriptor list \<Rightarrow> bool" where
  "fds_have_nodes s fds \<longleftrightarrow> (\<forall>f \<in> set fds. \<forall>b. f_used f \<and> f_vnode f = Some b \<longrightarrow>
     (\<exists>m. b < length (nodes s) \<and> nodes s ! b = Some m \<and> (n_ops m = unifs_file_ops \<longrightarrow> (\<exists>k. is_file m k))))"

text \<open>One descriptor, whose node is not the one that was written.\<close>

lemma sync_step:
  assumes n: "open_node s a n k" and f: "fds_have_nodes s (f # fds)" "f_used f" "f_vnode f = Some b" "b \<noteq> a"
  shows "\<exists>m g s'. nodes s ! b = Some m \<and> s' = (if g then set_node s b (m\<lparr>n_size := z\<rparr>) else s) \<and>
    sync_sizes s a z (f # fds) = sync_sizes s' a z fds \<and> open_node s' a n k \<and> fds_have_nodes s' fds \<and>
    length (nodes s') = length (nodes s) \<and> shares s' k a fds = shares s k a fds \<and>
    (\<forall>c. nodes s' ! c = (if c = b \<and> g then Some (m\<lparr>n_size := z\<rparr>) else nodes s ! c)) \<and>
    (\<forall>c. shares s k a (f # fds) c \<longleftrightarrow> c = b \<and> g \<or> shares s k a fds c)"
proof -
  obtain m where m: "b < length (nodes s)" "nodes s ! b = Some m" "n_ops m = unifs_file_ops \<longrightarrow> (\<exists>k. is_file m k)"
    using f unfolding fds_have_nodes_def by (meson list.set_intros(1))
  define g where "g = (0 < n_ref_count m \<and> is_file m k)"
  define s' where "s' = (if g then set_node s b (m\<lparr>n_size := z\<rparr>) else s)"
  have nf: "is_file n k" using n by (simp add: open_node_def)
  have run: "sync_sizes s a z (f # fds) = sync_sizes s' a z fds"
    using f(2-4) m deref_open_node [OF n] is_same_file_iff [OF nf m(3) f(4)]
    by (simp add: s'_def g_def deref_def cong: if_cong)
  have len: "length (nodes s') = length (nodes s)" by (simp add: s'_def set_node_def)
  have nth: "nodes s' ! c = (if c = b \<and> g then Some (m\<lparr>n_size := z\<rparr>) else nodes s ! c)" for c
    using m(1) by (simp add: s'_def set_node_def)
  have sh: "shares s' k a fds = shares s k a fds"
    using m(2) by (intro ext, rename_tac c, case_tac "c = b") (simp_all add: shares_def open_node_def len nth)
  have sc: "shares s k a (f # fds) c \<longleftrightarrow> c = b \<and> g \<or> shares s k a fds c" for c
    using f(2-4) m by (cases "c = b") (auto simp: shares_def open_node_def g_def)
  have n': "open_node s' a n k" using n f(4) by (simp add: open_node_def len nth)
  have "\<exists>x. c < length (nodes s') \<and> nodes s' ! c = Some x \<and> (n_ops x = unifs_file_ops \<longrightarrow> (\<exists>k. is_file x k))"
    if "c < length (nodes s) \<and> nodes s ! c = Some y \<and> (n_ops y = unifs_file_ops \<longrightarrow> (\<exists>k. is_file y k))" for c y
    using that m by (cases "c = b \<and> g") (auto simp: len nth)
  moreover have "fds_have_nodes s fds" using f(1) by (simp add: fds_have_nodes_def)
  ultimately have "fds_have_nodes s' fds" unfolding fds_have_nodes_def by blast
  then show ?thesis using m(2) run n' len sh nth sc s'_def by blast
qed

lemma sync_sizes_nodes:
  assumes "open_node s a n k" "fds_have_nodes s fds"
  shows "\<exists>ns. sync_sizes s a z fds = Returns (s\<lparr>nodes := ns\<rparr>) \<and> length ns = length (nodes s) \<and>
    (\<forall>c < length ns. ns ! c =
       (if shares s k a fds c then map_option (\<lambda>m. m\<lparr>n_size := z\<rparr>) (nodes s ! c) else nodes s ! c))"
  using assms
proof (induction fds arbitrary: s)
  case Nil
  show ?case by (intro exI [of _ "nodes s"]) (simp add: shares_def)
next
  case (Cons f fds)
  show ?case
  proof (cases "f_used f \<and> (\<exists>b. f_vnode f = Some b \<and> b \<noteq> a)")
    case False
    then have run: "sync_sizes s a z (f # fds) = sync_sizes s a z fds" by (cases "f_vnode f"; cases "f_used f") simp_all
    have sh: "shares s k a (f # fds) = shares s k a fds" using False by (intro ext) (auto simp: shares_def)
    have "fds_have_nodes s fds" using Cons.prems(2) by (simp add: fds_have_nodes_def)
    then show ?thesis unfolding run sh by (rule Cons.IH [OF Cons.prems(1)])
  next
    case True
    then obtain b where b: "f_used f" "f_vnode f = Some b" "b \<noteq> a" by blast
    obtain m g s' where m: "nodes s ! b = Some m" and s': "s' = (if g then set_node s b (m\<lparr>n_size := z\<rparr>) else s)"
      and run: "sync_sizes s a z (f # fds) = sync_sizes s' a z fds" "open_node s' a n k" "fds_have_nodes s' fds"
      and fr: "length (nodes s') = length (nodes s)" "shares s' k a fds = shares s k a fds"
      and nth: "\<forall>c. nodes s' ! c = (if c = b \<and> g then Some (m\<lparr>n_size := z\<rparr>) else nodes s ! c)"
      and sc: "\<forall>c. shares s k a (f # fds) c \<longleftrightarrow> c = b \<and> g \<or> shares s k a fds c"
      using sync_step [OF Cons.prems b, of z] by blast
    obtain ns where ns: "sync_sizes s' a z fds = Returns (s'\<lparr>nodes := ns\<rparr>)" "length ns = length (nodes s)"
      "\<And>c. c < length ns \<Longrightarrow> ns ! c =
        (if shares s k a fds c then map_option (\<lambda>m. m\<lparr>n_size := z\<rparr>) (nodes s' ! c) else nodes s' ! c)"
      using Cons.IH [OF run(2,3)] unfolding fr by blast
    have "s'\<lparr>nodes := ns\<rparr> = s\<lparr>nodes := ns\<rparr>" by (simp add: s' set_node_def)
    moreover have "ns ! c = (if shares s k a (f # fds) c then map_option (\<lambda>m. m\<lparr>n_size := z\<rparr>) (nodes s ! c) else nodes s ! c)"
      if "c < length ns" for c
      using ns(3) [OF that] m nth [rule_format, of c] unfolding sc [rule_format] by (cases "c = b \<and> g") auto
    ultimately show ?thesis using run(1) ns(1,2) by (intro exI [of _ ns]) simp
  qed
qed

lemma fd_get_Some:
  assumes "fd_get s fd = Some (p, f)"
  shows "current s = Some p" "f = fd_table (procs s ! p) ! nat fd" "f_used f" "0 \<le> fd"
  using assms by (auto simp: fd_get_def Let_def split: option.splits if_splits)

lemma fd_get_cong: "current t = current s \<Longrightarrow> procs t = procs s \<Longrightarrow> fd_get t fd = fd_get s fd"
  by (auto simp: fd_get_def split: option.splits)

lemma fd_get_set_fd:
  assumes "fd_get s fd = Some (p, f)" "p < length (procs s)" "nat fd < length (fd_table (procs s ! p))" "f_used g"
    and "current t = current s" "procs t = procs (set_fd s p (nat fd) g)"
  shows "fd_get t fd = Some (p, g)"
  using assms by (auto simp: fd_get_def set_fd_def Let_def split: option.splits if_splits)

text \<open>Moving a descriptor keeps its node.\<close>

lemma held_iff:
  "held s b \<longleftrightarrow> (\<exists>q < length (procs s). \<exists>i < length (fd_table (procs s ! q)).
     f_used (fd_table (procs s ! q) ! i) \<and> f_vnode (fd_table (procs s ! q) ! i) = Some b)"
  by (auto simp: held_def in_set_conv_nth Bex_def)

lemma held_moved:
  assumes g: "fd_get s fd = Some (p, f)" and f: "f_vnode f' = f_vnode f" "f_used f'"
  shows "held (set_fd s p (nat fd) f') = held s"
proof (intro ext)
  fix b
  let ?t = "set_fd s p (nat fd) f'"
  note fg = fd_get_Some [OF g]
  have l: "length (procs ?t) = length (procs s)" "length (fd_table (procs ?t ! q)) = length (fd_table (procs s ! q))"
    if "q < length (procs s)" for q using that by (cases "q = p"; simp add: set_fd_def)+
  have "fd_table (procs ?t ! q) ! i = (if q = p \<and> i = nat fd then f' else fd_table (procs s ! q) ! i)"
    if "q < length (procs s)" "i < length (fd_table (procs s ! q))" for q i
    using that by (cases "q = p"; cases "i = nat fd") (simp_all add: set_fd_def)
  then have e: "f_used (fd_table (procs ?t ! q) ! i) = f_used (fd_table (procs s ! q) ! i)"
      "f_vnode (fd_table (procs ?t ! q) ! i) = f_vnode (fd_table (procs s ! q) ! i)"
    if "q < length (procs s)" "i < length (fd_table (procs s ! q))" for q i
    using that f fg(2,3) by auto
  have "length (procs ?t) = length (procs s)" by (simp add: set_fd_def)
  then show "held ?t b = held s b" unfolding held_iff using l(2) e by (metis (no_types, lifting))
qed

lemma settled_moved:
  assumes s: "settled good stored fits s L" and g: "fd_get s fd = Some (p, f)" "p < length (procs s)" "nat fd < length (fd_table (procs s ! p))"
    and f: "f_vnode f' = f_vnode f" "f_used f'" and t: "t = set_fd s p (nat fd) f'"
  shows "settled good stored fits t L" "view stored t = view stored s" "open_node t = open_node s"
    "fd_get t fd = Some (p, f')" "p < length (procs t)" "nat fd < length (fd_table (procs t ! p))"
proof -
  have e: "nodes t = nodes s" "g_page_cache t = g_page_cache s" "g_page_cache_tick t = g_page_cache_tick s" "v_fs t = v_fs s"
    "current t = current s" by (simp_all add: t set_fd_def)
  have "fds_ok t"
    using s held_moved [OF g(1) f] unfolding settled_def fds_ok_def open_node_cong [OF e(1)] e(1) unfolding t by simp
  then show "settled good stored fits t L" "open_node t = open_node s"
    using s cache_inv_cong(1) [OF e(1-4)] open_node_cong [OF e(1)] e(3) by (auto simp: settled_def)
  show "view stored t = view stored s" by (rule cache_inv_cong(2) [OF e(1-4)])
  show "fd_get t fd = Some (p, f')" by (rule fd_get_set_fd [OF g f(2) e(5)]) (simp add: t)
  show "p < length (procs t)" "nat fd < length (fd_table (procs t ! p))" using g by (simp_all add: t set_fd_def)
qed

text \<open>
  The end of a write to a file whose nodes all have the size \<open>z\<close>: the node of the descriptor grows, and
  \<open>sync_sizes\<close> reaches all others.
\<close>

lemma after_write_resizes:
  assumes fds: "fds_ok s" and fd: "fd_get s fd = Some (p, f)"
    and n: "open_node s a n k" and w: "0 < w" "f_offset f + w < 2 ^ 63" "x = max (n_size n) (f_offset f + w)"
    and same: "\<And>b m. open_node s b m k \<Longrightarrow> n_size m = n_size n"
  shows "\<exists>ns. after_write s p (nat fd) f a w = Returns ((set_fd s p (nat fd) (f\<lparr>f_offset := f_offset f + w\<rparr>))\<lparr>nodes := ns\<rparr>) \<and>
    length ns = length (nodes s) \<and>
    (\<forall>c < length ns. ns ! c = (if \<exists>m. open_node s c m k then map_option (\<lambda>m. m\<lparr>n_size := x\<rparr>) (nodes s ! c) else nodes s ! c))"
proof -
  let ?g = "f\<lparr>f_offset := f_offset f + w\<rparr>" and ?fds = "concat (map fd_table (procs (set_fd s p (nat fd) (f\<lparr>f_offset := f_offset f + w\<rparr>))))"
  let ?s = "set_fd s p (nat fd) ?g"
  have na: "a < length (nodes s)" "nodes s ! a = Some n" and nf: "is_file n k" using n by (auto simp: open_node_def)
  have st: "nodes ?s = nodes s" by (simp add: set_fd_def)
  have wr: "wrap64 (f_offset f + w) = f_offset f + w" using w(2) by simp
  have hs: "held ?s = held s" by (rule held_moved [OF fd]) (use fd_get_Some(3) [OF fd] in simp_all)
  have d: "deref ?s a = Returns n" using na st by (simp add: deref_def)
  show ?thesis
  proof (cases "f_offset f + w > n_size n")
    case False
    then have x: "x = n_size n" using w(3) by simp
    have "nodes s ! c = map_option (\<lambda>m. m\<lparr>n_size := x\<rparr>) (nodes s ! c)" if "open_node s c m k" for c m
      using that same [OF that] x by (auto simp: open_node_def)
    moreover have "?s\<lparr>nodes := nodes s\<rparr> = ?s" using st by (cases ?s) simp
    ultimately show ?thesis using False w(1) wr d by (intro exI [of _ "nodes s"]) (auto simp: after_write_def Let_def)
  next
    case True
    then have x: "x = f_offset f + w" using w(3) by simp
    let ?t = "set_node ?s a (n\<lparr>n_size := x\<rparr>)"
    have nt: "nodes ?t = (nodes s)[a := Some (n\<lparr>n_size := x\<rparr>)]" by (simp add: set_node_def st)
    have ot: "open_node ?t a (n\<lparr>n_size := x\<rparr>) k" using na nf by (simp add: open_node_def nt)
    have oc: "open_node ?t c m k' \<longleftrightarrow> open_node s c m k'" if "c \<noteq> a" for c m k' using that by (simp add: open_node_def nt)
    have "\<exists>m. b < length (nodes ?t) \<and> nodes ?t ! b = Some m \<and> (n_ops m = unifs_file_ops \<longrightarrow> (\<exists>k. is_file m k))" if "held ?s b" for b
      using fds that na nf unfolding hs fds_ok_def nt by (cases "b = a") auto
    then have have_nodes: "fds_have_nodes ?t ?fds" unfolding fds_have_nodes_def held_def by blast
    obtain ns where ns: "sync_sizes ?t a x ?fds = Returns (?t\<lparr>nodes := ns\<rparr>)" "length ns = length (nodes s)"
      "\<And>c. c < length ns \<Longrightarrow> ns ! c = (if shares ?t k a ?fds c then map_option (\<lambda>m. m\<lparr>n_size := x\<rparr>) (nodes ?t ! c) else nodes ?t ! c)"
      using sync_sizes_nodes [OF ot have_nodes, of x] by (auto simp: nt)
    have sh: "shares ?t k a ?fds c \<longleftrightarrow> c \<noteq> a \<and> (\<exists>m. open_node s c m k)" for c
    proof (cases "c = a")
      case False
      have "held s c \<and> 0 < n_ref_count m" if "open_node s c m k" for m using fds that n False unfolding fds_ok_def by metis
      moreover have "(\<exists>f \<in> set ?fds. f_used f \<and> f_vnode f = Some c) = held s c"
        unfolding held_def [of ?s c, symmetric] hs by (rule refl)
      ultimately show ?thesis unfolding shares_def oc [OF False] using False by blast
    qed (simp add: shares_def)
    have "ns ! c = (if \<exists>m. open_node s c m k then map_option (\<lambda>m. m\<lparr>n_size := x\<rparr>) (nodes s ! c) else nodes s ! c)"
      if "c < length ns" for c
      using ns(3) [OF that] n na sh [of c] by (cases "c = a") (auto simp: nt)
    moreover have "?t\<lparr>nodes := ns\<rparr> = ?s\<lparr>nodes := ns\<rparr>" by (simp add: set_node_def)
    ultimately show ?thesis using True w(1) wr d x ns(1,2) by (intro exI [of _ ns]) (simp add: after_write_def Let_def)
  qed
qed

lemma nodes_resized:
  assumes l: "length (nodes t) = length (nodes s)" and ns: "\<forall>c < length (nodes t). nodes t ! c =
      (if \<exists>m. open_node s c m k then map_option (\<lambda>m. m\<lparr>n_size := z\<rparr>) (nodes s ! c) else nodes s ! c)"
  shows "resized k z s t" and "fds_ok s \<Longrightarrow> held t = held s \<Longrightarrow> fds_ok t"
proof -
  note ns = ns [rule_format]
  show nd: "resized k z s t" unfolding resized_def
  proof (intro allI)
    fix b m k'
    show "open_node t b m k' \<longleftrightarrow> (\<exists>m'. open_node s b m' k' \<and> m = (if k' = k then m'\<lparr>n_size := z\<rparr> else m'))"
    proof (cases "\<exists>x. open_node s b x k")
      case True
      then obtain x where x: "b < length (nodes s)" "nodes s ! b = Some x" "is_file x k" by (auto simp: open_node_def)
      have "nodes t ! b = Some (x\<lparr>n_size := z\<rparr>)" using ns [of b] True x l by simp
      moreover have "is_file x k' \<longleftrightarrow> k' = k" using x(3) by (auto simp: is_file_def)
      ultimately show ?thesis using x l by (auto simp: open_node_def)
    next
      case False
      then have "b < length (nodes t) \<Longrightarrow> nodes t ! b = nodes s ! b" using ns [of b] by simp
      then have "open_node t b m k' = open_node s b m k'" using l by (auto simp: open_node_def)
      then show ?thesis using False by auto
    qed
  qed
  note ndD = nd [unfolded resized_def, rule_format, THEN iffD1]
  assume ok: "fds_ok s" and h: "held t = held s"
  have "\<exists>m. b < length (nodes t) \<and> nodes t ! b = Some m \<and> (n_ops m = unifs_file_ops \<longrightarrow> (\<exists>k. is_file m k))" if hb: "held s b" for b
  proof -
    obtain m where "b < length (nodes s)" "nodes s ! b = Some m" "n_ops m = unifs_file_ops \<longrightarrow> (\<exists>k. is_file m k)"
      using hb ok unfolding fds_ok_def by blast
    then show ?thesis using ns [of b] l by auto
  qed
  moreover have "held s b \<and> 0 < n_ref_count m" if o: "open_node t a n k'" "open_node t b m k'" "a \<noteq> b" for a n b m k'
  proof -
    obtain n' m' where "open_node s a n' k'" "open_node s b m' k'" "n_ref_count m = n_ref_count m'"
      using ndD [OF o(1)] ndD [OF o(2)] by (auto split: if_splits)
    then show ?thesis using ok o(3) unfolding fds_ok_def by metis
  qed
  ultimately show "fds_ok t" unfolding fds_ok_def h by blast
qed

lemma after_write_grows:
  assumes inv: "cache_inv good stored fits s L T" and fds: "fds_ok s"
    and fd: "fd_get s fd = Some (p, f)" "p < length (procs s)" "nat fd < length (fd_table (procs s ! p))"
    and n: "open_node s a n k" and w: "0 < w" "f_offset f + w < 2 ^ 63" and L: "L k = max (n_size n) (f_offset f + w)"
    and z: "\<And>b m k'. open_node s b m k' \<Longrightarrow> k' \<noteq> k \<Longrightarrow> n_size m = L k'"
  shows "\<exists>t. after_write s p (nat fd) f a w = Returns t \<and> settled good stored fits t L \<and>
    view stored t = view stored s \<and> fd_get t fd = Some (p, f\<lparr>f_offset := f_offset f + w\<rparr>) \<and>
    p < length (procs t) \<and> nat fd < length (fd_table (procs t ! p)) \<and> resized k (L k) s t"
proof -
  let ?g = "f\<lparr>f_offset := f_offset f + w\<rparr>"
  let ?s = "set_fd s p (nat fd) ?g"
  have same: "n_size m = n_size n" if "open_node s b m k" for b m by (rule cache_invD(7) [OF inv that n])
  obtain ns where run: "after_write s p (nat fd) f a w = Returns (?s\<lparr>nodes := ns\<rparr>)" and ns: "length ns = length (nodes s)"
    "\<forall>c < length ns. ns ! c =
      (if \<exists>m. open_node s c m k then map_option (\<lambda>m. m\<lparr>n_size := L k\<rparr>) (nodes s ! c) else nodes s ! c)"
    using after_write_resizes [OF fds fd(1) n w L] same by blast
  define t where "t = ?s\<lparr>nodes := ns\<rparr>"
  have tt: "g_page_cache t = g_page_cache s" "g_page_cache_tick t = g_page_cache_tick s" "v_fs t = v_fs s"
    "current t = current s" "procs t = procs ?s" "nodes t = ns" by (simp_all add: t_def set_fd_def)
  note nr = nodes_resized [of t s, unfolded tt(6), OF ns]
  have inv': "cache_inv good stored fits t L T" by (rule grow_nodes [OF inv _ order_refl nr(1) tt(1-3)]) (use same L in simp)
  have sz: "n_size m = L k'" if m: "open_node t b m k'" for b m k'
  proof -
    obtain m' where "open_node s b m' k'" "m = (if k' = k then m'\<lparr>n_size := L k\<rparr> else m')"
      using nr(1) [unfolded resized_def, rule_format, THEN iffD1, OF m] by blast
    then show ?thesis using z [of b m' k'] by (cases "k' = k") simp_all
  qed
  have "held t = held s"
    using held_moved [OF fd(1), of ?g] fd_get_Some(3) [OF fd(1)] tt(5) by (simp add: held_def fun_eq_iff)
  then have "settled good stored fits t L"
    using settle [OF inv' _ order_refl] sz nr(2) [OF fds] by (auto simp: settled_def)
  moreover have "fd_get t fd = Some (p, ?g)"
    by (rule fd_get_set_fd [OF fd _ tt(4,5)]) (use fd_get_Some(3) [OF fd(1)] in simp)
  moreover have "view stored t = view stored s" using tt by (simp add: view_def fun_eq_iff split: option.splits)
  moreover have "p < length (procs t)" "nat fd < length (fd_table (procs t ! p))" using fd(2,3) tt(5) by (simp_all add: set_fd_def)
  ultimately show ?thesis using run nr(1) unfolding t_def [symmetric] by blast
qed

section \<open>Writing and reading\<close>

text \<open>What \<open>r\<close> pages need: clock, memory for the cache, memory for the driver.\<close>

definition room_for :: "('fs \<Rightarrow> nat) \<Rightarrow> 'fs vfs \<Rightarrow> nat \<Rightarrow> bool" where
  "room_for budget s r \<longleftrightarrow>
     g_page_cache_tick s + 2 * r < 2 ^ 64 \<and> 2 * r \<le> mallocs_left (v_heap s) \<and> r \<le> budget (v_fs s)"

lemma map_upt_split: "m \<le> n \<Longrightarrow> n \<le> l \<Longrightarrow> map f [m..<l] = map f [m..<n] @ map f [n..<l]"
  by (metis le_add_diff_inverse map_append upt_add_eq_append)

lemma written_bytes:
  assumes "off \<le> L" and v: "\<And>x. x < max L (off + length buf) \<Longrightarrow>
    g x = (if off \<le> x \<and> x < off + length buf then buf ! (x - off) else f x)"
  shows "map g [0..<max L (off + length buf)] = take off (map f [0..<L]) @ buf @ drop (off + length buf) (map f [0..<L])"
proof (rule nth_equalityI)
  show "length (map g [0..<max L (off + length buf)]) = length (take off (map f [0..<L]) @ buf @ drop (off + length buf) (map f [0..<L]))"
    using assms(1) by simp
  fix i assume "i < length (map g [0..<max L (off + length buf)])"
  then show "map g [0..<max L (off + length buf)] ! i = (take off (map f [0..<L]) @ buf @ drop (off + length buf) (map f [0..<L])) ! i"
    using assms(1) v [of i] by (auto simp: nth_append)
qed

lemma some_pages:
  assumes "buf \<noteq> []" "off + length buf \<le> 4096 * (off div 4096 + r)"
  shows "0 < r"
proof (rule ccontr)
  assume "\<not> 0 < r"
  then have "off + length buf \<le> 4096 * (off div 4096)" using assms(2) by simp
  moreover have "0 < length buf" using assms(1) by simp
  ultimately show False using times_div_less_eq_dividend [of 4096 off] by linarith
qed

text \<open>Pages that are still to be written back.\<close>

definition unwritten :: "PageCacheEntry \<Rightarrow> bool" where
  "unwritten e \<longleftrightarrow> e_valid e \<and> e_dirty e"

definition dirty_pages :: "'fs vfs \<Rightarrow> nat" where
  "dirty_pages s = length (filter unwritten (g_page_cache s))"

lemma dirty_pages_upt:
  assumes "length (g_page_cache s) = MAX_CACHE_PAGES"
  shows "length (filter (\<lambda>i. unwritten (g_page_cache s ! i)) [0..<MAX_CACHE_PAGES]) = dirty_pages s"
proof -
  have "g_page_cache s = map ((!) (g_page_cache s)) [0..<MAX_CACHE_PAGES]" using map_nth [of "g_page_cache s"] assms by simp
  then have "dirty_pages s = length (filter unwritten (map ((!) (g_page_cache s)) [0..<MAX_CACHE_PAGES]))"
    unfolding dirty_pages_def by (rule arg_cong)
  then show ?thesis by (simp add: filter_map o_def)
qed

context file_driver
begin

lemma vfs_write_bytes:
  assumes s: "settled good stored fits s L" and fd: "open_fd s fd p f a n k"
    and buf: "buf \<noteq> []" "f_offset f \<le> L k" "f_offset f + length buf < 2 ^ 63"
    and fit: "fits (v_fs s) k (max (L k) (f_offset f + length buf))"
    and r: "f_offset f + length buf \<le> 4096 * (f_offset f div 4096 + r)" "r \<le> MAX_CACHE_PAGES" "room_for budget s r"
    and L': "L' = L(k := max (L k) (f_offset f + length buf))"
  shows "\<exists>t. vfs_write ops s fd buf = Some (Returns (int (length buf), t)) \<and> settled good stored fits t L' \<and>
    open_fd t fd p (f\<lparr>f_offset := f_offset f + length buf\<rparr>) a (n\<lparr>n_size := L' k\<rparr>) k \<and>
    (\<forall>b m. open_node s b m k \<longrightarrow> open_node t b (m\<lparr>n_size := L' k\<rparr>) k) \<and>
    file_bytes stored t L' k = take (f_offset f) (file_bytes stored s L k) @ buf @
      drop (f_offset f + length buf) (file_bytes stored s L k) \<and>
    (\<forall>b m k'. open_node s b m k' \<and> k' \<noteq> k \<longrightarrow> file_bytes stored t L' k' = file_bytes stored s L k')"
proof -
  let ?off = "f_offset f" and ?T = "g_page_cache_tick s"
  have inv: "cache_inv good stored fits s L ?T" and z: "\<And>b m k'. open_node s b m k' \<Longrightarrow> n_size m = L k'" and fo: "fds_ok s"
    using s by (auto simp: settled_def)
  have g: "fd_get s fd = Some (p, f)" "p < length (procs s)" "nat fd < length (fd_table (procs s ! p))" "f_vnode f = Some a"
    and n: "open_node s a n k" "0 < n_ref_count n" "n_ref_count n < 2 ^ 32 - 1" using fd by (auto simp: open_fd_def)
  have nf: "is_file n k" using n by (simp add: open_node_def)
  obtain b where b: "stored (v_fs s) k = Some b" using cache_invD(6) [OF inv n(1)] by (auto simp: node_ok_def)
  have "0 < r" by (rule some_pages [OF buf(1) r(1)])
  then obtain wr where wr: "op_write (ops unifs_file_ops) = Some wr"
    using writes [OF cache_invD(1) [OF inv] nf b fits_less [OF fit], of 0 "[]"] r(3) by (auto simp: room_for_def)
  obtain t where t1: "write_loop ops s a ?off buf 0 = Some (Returns (Some (length buf), t))"
    and w: "wrote good stored fits L ?T k ?off buf 0 (length buf) s t"
    using write_loop_writes [OF inv n, of 0 buf ?off r] buf fit r recent_now [OF inv] by (auto simp: room_for_def)
  note wt = wroteD [OF w, folded L']
  note t = t1 wt(1,2)
  have vv: "view stored t k' x = (if k' = k \<and> ?off \<le> x \<and> x < ?off + length buf then buf ! (x - ?off) else view stored s k' x)"
    if "open_node s b m k'" "x < L' k'" for b m k' x using wt(4) [OF that] by simp
  note nt = rest_open_node [OF t(3)]
  have tf: "procs t = procs s" "current t = current s" "nodes t = nodes s" using t(3) by (auto simp: rest_def)
  have gt: "fd_get t fd = Some (p, f)" "p < length (procs t)" "nat fd < length (fd_table (procs t ! p))"
    using g tf fd_get_cong [OF tf(2,1)] by simp_all
  have "fds_ok t" using fo fds_ok_cong [OF tf(3,1)] by simp
  moreover have "L' k = max (n_size n) (?off + length buf)" using z [OF n(1)] L' by simp
  moreover have "n_size m = L' k'" if "open_node t b m k'" "k' \<noteq> k" for b m k' using z that unfolding nt L' by simp
  moreover have L'k: "L' k = max (L k) (?off + length buf)" using L' by simp
  ultimately obtain u where u: "after_write t p (nat fd) f a (length buf) = Returns u" "settled good stored fits u L'"
    "view stored u = view stored t" "fd_get u fd = Some (p, f\<lparr>f_offset := ?off + length buf\<rparr>)" "p < length (procs u)"
    "nat fd < length (fd_table (procs u ! p))" "resized k (L' k) t u"
    using after_write_grows [OF t(2) _ gt] n(1) nt buf by (metis length_greater_0_conv)
  have nu: "open_node u b (m\<lparr>n_size := L' k\<rparr>) k" if "open_node s b m k" for b m
    using u(7) that nt unfolding resized_def by auto
  have "vfs_write ops s fd buf = Some (Returns (int (length buf), u))"
    using g nf wr fd t(1) u(1) buf(1) deref_open_node [OF n(1)]
    by (simp add: vfs_write_def fd_node_def is_file_def cached_def open_fd_def)
  moreover have "open_fd u fd p (f\<lparr>f_offset := ?off + length buf\<rparr>) a (n\<lparr>n_size := L' k\<rparr>) k"
    using fd u nu [OF n(1)] by (simp add: open_fd_def)
  moreover have "file_bytes stored u L' k = take ?off (file_bytes stored s L k) @ buf @ drop (?off + length buf) (file_bytes stored s L k)"
    unfolding file_bytes_def u(3) L'k by (rule written_bytes [OF buf(2)]) (use vv [OF n(1)] L'k in simp)
  moreover have "file_bytes stored u L' k' = file_bytes stored s L k'" if "open_node s b m k'" "k' \<noteq> k" for b m k'
    unfolding file_bytes_def u(3) using that L' vv [OF that(1)] by simp
  ultimately show ?thesis using u(2) nu by (intro exI [of _ u]) blast
qed

lemma read_loop_step:
  assumes s: "settled good stored fits s L"
    and n: "open_node s a n k" "0 < n_ref_count n" "n_ref_count n < 2 ^ 32 - 1"
    and m: "length acc < cnt" and size: "off + cnt \<le> L k" and room: "room_for budget s (Suc r)"
    and part_def: "part = page_bytes (off + length acc) (cnt - length acc)"
  shows "\<exists>t. read_loop ops s a off cnt acc =
      read_loop ops t a off cnt (acc @ map (view stored s k) [off + length acc..<off + length acc + part]) \<and>
    settled good stored fits t L \<and> unseen stored fits L s t \<and> room_for budget t r"
proof -
  let ?m = "length acc" let ?pos = "off + ?m"
  note np = next_page [OF m part_def]
  have inv: "cache_inv good stored fits s L (g_page_cache_tick s)" and z: "\<forall>b m k'. open_node s b m k' \<longrightarrow> n_size m = L k'"
    and fo: "fds_ok s" using s by (auto simp: settled_def)
  have Lk: "L k < 2 ^ 63" using cache_invD(6) [OF inv n(1)] by (simp add: node_ok_def)
  have "?pos div 4096 < 2 ^ 52" using m size Lk by (intro less_mult_imp_div_less) simp
  moreover have "g_page_cache_tick s < 2 ^ 64 - 1" "card (recent s (g_page_cache_tick s)) < MAX_CACHE_PAGES"
    "2 \<le> mallocs_left (v_heap s)" "0 < budget (v_fs s)"
    using room recent_now [OF inv] by (auto simp: room_for_def MAX_CACHE_PAGES_def)
  ultimately obtain i t where t: "pc_get_page ops s a (?pos div 4096) = Some (Returns (Some i, t))"
    and g: "got good stored fits budget L (g_page_cache_tick s) k (?pos div 4096) s i t"
    using get_page [OF inv n] by blast
  note g = gotD [OF g]
  note un = unseenD [OF g(5)]
  let ?d = "e_data (g_page_cache t ! i)"
  define chunk where "chunk = take part (drop (?pos mod 4096) ?d)"
  have "length ?d = 4096" using cache_invD(4) [OF g(4,1)] by (simp add: entry_ok_def)
  then have lc: "length chunk = part" using np(3) by (simp add: chunk_def)
  have ch: "chunk = map (view stored s k) [?pos..<?pos + part]"
  proof (rule nth_equalityI)
    fix j assume "j < length chunk"
    then have j: "j < part" using lc by simp
    then have "(?pos + j) div 4096 = ?pos div 4096" by (intro same_page [OF _ _ np(3)]) simp_all
    moreover from this have "(?pos + j) mod 4096 = ?pos mod 4096 + j"
      using div_mult_mod_eq [of "?pos + j" 4096] div_mult_mod_eq [of ?pos 4096] by linarith
    moreover have "view stored t k (?pos + j) = view stored s k (?pos + j)"
      by (rule un(8) [OF n(1)]) (use j np(2) size in simp)
    ultimately show "chunk ! j = map (view stored s k) [?pos..<?pos + part] ! j"
      using view_cached [OF g(4,1)] g(2) j lc by (simp add: chunk_def)
  qed (simp add: lc)
  have "wrap64 ?pos = ?pos" using m size Lk by simp
  then have run: "read_loop ops s a off cnt acc = read_loop ops t a off cnt (acc @ chunk)"
    using m t lc by (subst read_loop.simps) (simp add: part_def [symmetric] chunk_def)
  have z': "\<forall>b m k'. open_node t b m k' \<longrightarrow> n_size m = L k'" using z un(1) by simp
  have "fds_ok t" using fo fds_ok_cong [OF un(2,3)] by simp
  then have "settled good stored fits t L" using settle [OF g(4) z' order_refl] z' by (simp add: settled_def)
  moreover have "room_for budget t r" using room g(6,8,9) by (auto simp: room_for_def)
  ultimately show ?thesis using run g(5) ch by (intro exI [of _ t]) simp
qed

lemma read_loop_reads:
  assumes "settled good stored fits s L"
    and n: "open_node s a n k" "0 < n_ref_count n" "n_ref_count n < 2 ^ 32 - 1"
    and "length acc \<le> cnt" and size: "off + cnt \<le> L k"
    and "length acc < cnt \<Longrightarrow> off + cnt \<le> 4096 * ((off + length acc) div 4096 + r)" "room_for budget s r"
  shows "\<exists>t. read_loop ops s a off cnt acc =
      Some (Returns (Some (acc @ map (view stored s k) [off + length acc..<off + cnt]), t)) \<and>
    settled good stored fits t L \<and> unseen stored fits L s t"
  using assms
proof (induction r arbitrary: s acc)
  case 0
  have "length acc = cnt"
  proof (rule ccontr)
    assume "length acc \<noteq> cnt"
    then have "length acc < cnt" using "0.prems"(5) by simp
    then show False using "0.prems"(7) times_div_less_eq_dividend [of 4096 "off + length acc"] by simp
  qed
  then show ?case using "0.prems"(1) by (intro exI [of _ s]) (simp add: read_loop.simps)
next
  case (Suc r)
  show ?case
  proof (cases "length acc < cnt")
    case False
    then show ?thesis using Suc.prems(1,5) by (intro exI [of _ s]) (simp add: read_loop.simps)
  next
    case True
    let ?pos = "off + length acc"
    define part where "part = page_bytes ?pos (cnt - length acc)"
    define chunk where "chunk = map (view stored s k) [?pos..<?pos + part]"
    note np = next_page [OF True part_def]
    obtain t where t: "read_loop ops s a off cnt acc = read_loop ops t a off cnt (acc @ chunk)" "settled good stored fits t L"
      "unseen stored fits L s t" "room_for budget t r"
      using read_loop_step [OF Suc.prems(1-4) True size Suc.prems(8) part_def] unfolding chunk_def by blast
    note un = unseenD [OF t(3)]
    have lc: "length chunk = part" by (simp add: chunk_def)
    have pre: "open_node t a n k" "length (acc @ chunk) \<le> cnt"
      "length (acc @ chunk) < cnt \<Longrightarrow> off + cnt \<le> 4096 * ((off + length (acc @ chunk)) div 4096 + r)"
      using Suc.prems(2) un(1) lc np(2,4) Suc.prems(7) [OF True] by auto
    obtain u where u: "read_loop ops t a off cnt (acc @ chunk) =
        Some (Returns (Some ((acc @ chunk) @ map (view stored t k) [off + length (acc @ chunk)..<off + cnt]), u))"
      "settled good stored fits u L" "unseen stored fits L t u"
      using Suc.IH [OF t(2) pre(1) n(2,3) pre(2) size pre(3) t(4)] by blast
    have "map (view stored t k) [off + length (acc @ chunk)..<off + cnt] = map (view stored s k) [?pos + part..<off + cnt]"
      using un(8) [OF Suc.prems(2)] size lc by (simp add: add.assoc)
    then have "chunk @ map (view stored t k) [off + length (acc @ chunk)..<off + cnt] = map (view stored s k) [?pos..<off + cnt]"
      unfolding chunk_def using map_upt_split [of ?pos "?pos + part" "off + cnt" "view stored s k"] np(2) by simp
    then show ?thesis using t(1) u unseen_trans [OF t(3) u(3)] by (intro exI [of _ u]) simp
  qed
qed

lemma vfs_read_bytes:
  assumes s: "settled good stored fits s L" and fd: "open_fd s fd p f a n k"
    and r: "f_offset f + sz < 2 ^ 64" "min (f_offset f + sz) (L k) \<le> 4096 * (f_offset f div 4096 + r)" "room_for budget s r"
    and res: "res = take sz (drop (f_offset f) (file_bytes stored s L k))"
  shows "\<exists>t. vfs_read ops s fd sz = Some (Returns (int (length res), res, t)) \<and> settled good stored fits t L \<and>
    open_fd t fd p (f\<lparr>f_offset := f_offset f + length res\<rparr>) a n k \<and>
    (\<forall>b m k'. open_node s b m k' \<longrightarrow> file_bytes stored t L k' = file_bytes stored s L k')"
proof -
  let ?off = "f_offset f"
  have inv: "cache_inv good stored fits s L (g_page_cache_tick s)" and z: "n_size n = L k"
    and g: "fd_get s fd = Some (p, f)" "p < length (procs s)" "nat fd < length (fd_table (procs s ! p))" "f_vnode f = Some a"
    and n: "open_node s a n k" "0 < n_ref_count n" "n_ref_count n < 2 ^ 32 - 1"
    using s fd by (auto simp: settled_def open_fd_def)
  have nf: "is_file n k" using n by (simp add: open_node_def)
  obtain b where b: "stored (v_fs s) k = Some b" using cache_invD(6) [OF inv n(1)] by (auto simp: node_ok_def)
  obtain rd where rd: "op_read (ops unifs_file_ops) = Some rd" using reads [OF cache_invD(1) [OF inv] nf b] by blast
  note run = vfs_read_def fd_node_def is_file_def cached_def open_fd_def
  show ?thesis
  proof (cases "?off < L k")
    case False
    then have "res = []" using res by (simp add: file_bytes_def)
    then show ?thesis using False fd s g nf rd z deref_open_node [OF n(1)] by (intro exI [of _ s]) (simp add: run)
  next
    case True
    define cnt where "cnt = (if wrap64 (?off + sz) > n_size n then n_size n - ?off else sz)"
    have c: "?off + cnt = min (?off + sz) (L k)" using True z r(1) by (auto simp: cnt_def)
    have "length res = min sz (L k - ?off)" by (simp add: res file_bytes_def min.commute)
    also have "\<dots> = cnt" using c True by linarith
    finally have lr: "length res = cnt" .
    have rs: "res = map (view stored s k) [?off..<?off + cnt]"
      by (rule nth_equalityI) (use lr in \<open>auto simp: res file_bytes_def drop_map drop_upt\<close>)
    obtain t where t: "read_loop ops s a ?off cnt [] = Some (Returns (Some res, t))" "settled good stored fits t L" "unseen stored fits L s t"
      using read_loop_reads [OF s n, of "[]" cnt ?off r] r(2,3) c rs by auto
    note un = unseenD [OF t(3)]
    have gt: "fd_get t fd = Some (p, f)" "p < length (procs t)" "nat fd < length (fd_table (procs t ! p))"
      using g un(3) fd_get_cong [OF un(4,3)] by simp_all
    let ?g = "f\<lparr>f_offset := ?off + cnt\<rparr>" let ?u = "set_fd t p (nat fd) ?g"
    have gu: "f_vnode ?g = f_vnode f" "f_used ?g" using fd_get_Some(3) [OF g(1)] by simp_all
    note mv = settled_moved [OF t(2) gt gu refl]
    have "?off + cnt < 2 ^ 64" using c r(1) by simp
    then have "vfs_read ops s fd sz = Some (Returns (int (length res), res, ?u))"
      using True fd g nf rd z deref_open_node [OF n(1)] t(1) cnt_def lr by (simp add: run)
    moreover have "open_fd ?u fd p ?g a n k" using fd mv un(1) by (simp add: open_fd_def)
    moreover have "file_bytes stored ?u L k' = file_bytes stored s L k'" if "open_node s b m k'" for b m k'
      using unseen_file_bytes [OF t(3) that] mv(2) by (simp add: file_bytes_def)
    ultimately show ?thesis using mv(1) lr by (intro exI [of _ ?u]) simp
  qed
qed

lemma settled_flushed:
  assumes s: "settled good stored fits s L" and t: "cache_inv good stored fits t L (g_page_cache_tick s)"
    "unseen stored fits L s t" "g_page_cache_tick t = g_page_cache_tick s"
  shows "settled good stored fits t L"
  using s t(1,3) unseenD(1-3) [OF t(2)] fds_ok_cong [of t s] by (auto simp: settled_def)

lemma flush_all_cleans:
  assumes "settled good stored fits s L" "set is \<subseteq> {..<MAX_CACHE_PAGES}" "distinct is"
    and "length (filter (\<lambda>i. unwritten (g_page_cache s ! i)) is) \<le> mallocs_left (v_heap s)"
    and "length (filter (\<lambda>i. unwritten (g_page_cache s ! i)) is) \<le> budget (v_fs s)"
  shows "\<exists>t. flush_all ops s is = Returns t \<and> settled good stored fits t L \<and> unseen stored fits L s t \<and>
    (\<forall>j < MAX_CACHE_PAGES. unwritten (g_page_cache t ! j) \<longrightarrow> j \<notin> set is \<and> unwritten (g_page_cache s ! j))"
  using assms
proof (induction "is" arbitrary: s)
  case (Cons i "is")
  let ?e = "g_page_cache s ! i" and ?todo = "\<lambda>s. length (filter (\<lambda>i. unwritten (g_page_cache s ! i)) is)"
  have inv: "cache_inv good stored fits s L (g_page_cache_tick s)" and i: "i < MAX_CACHE_PAGES"
    using Cons.prems by (auto simp: settled_def)
  obtain u where u: "(if e_valid ?e \<and> e_dirty ?e then pc_flush_entry_unlocked ops s i else Returns s) = Returns u"
    "settled good stored fits u L" "unseen stored fits L s u" "?todo u \<le> mallocs_left (v_heap u)" "?todo u \<le> budget (v_fs u)"
    "\<forall>j < MAX_CACHE_PAGES. unwritten (g_page_cache u ! j) \<longrightarrow> j \<noteq> i \<and> unwritten (g_page_cache s ! j)"
  proof (cases "unwritten ?e")
    case True
    have "e_last_access ?e \<le> g_page_cache_tick s" using cache_invD(4) [OF inv i] by (simp add: entry_ok_def)
    moreover have "0 < mallocs_left (v_heap s)" "0 < budget (v_fs s)" using Cons.prems True by auto
    ultimately obtain u where u: "pc_flush_entry_unlocked ops s i = Returns u" "cache_inv good stored fits u L (g_page_cache_tick s)"
      "unseen stored fits L s u" "g_page_cache u = (g_page_cache s)[i := ?e\<lparr>e_dirty := False\<rparr>]"
      "g_page_cache_tick u = g_page_cache_tick s" "mallocs_left (v_heap s) \<le> Suc (mallocs_left (v_heap u))"
      "budget (v_fs s) \<le> Suc (budget (v_fs u))"
      using flush_page [OF inv i refl] True unfolding unwritten_def by blast
    have nth: "g_page_cache u ! j = (if j = i then ?e\<lparr>e_dirty := False\<rparr> else g_page_cache s ! j)" if "j < MAX_CACHE_PAGES" for j
      using that i cache_invD(2) [OF inv] by (auto simp: u(4))
    have "g_page_cache u ! j = g_page_cache s ! j" if "j \<in> set is" for j
      using nth [of j] that Cons.prems(2,3) by (metis distinct.simps(2) insert_subset lessThan_iff list.simps(15) subset_iff)
    then have "?todo u = ?todo s" by (intro arg_cong [of _ _ length] filter_cong) simp_all
    then have "?todo u \<le> mallocs_left (v_heap u)" "?todo u \<le> budget (v_fs u)" using u(6,7) Cons.prems(4,5) True by auto
    moreover have "j \<noteq> i \<and> unwritten (g_page_cache s ! j)" if "j < MAX_CACHE_PAGES" "unwritten (g_page_cache u ! j)" for j
      using that nth [OF that(1)] by (auto simp: unwritten_def split: if_splits)
    ultimately show ?thesis
      using that [of u] True u(1,3) settled_flushed [OF Cons.prems(1) u(2,3,5)] by (auto simp: unwritten_def)
  next
    case False
    then show ?thesis by (intro that [of s]) (use Cons.prems in \<open>auto simp: unwritten_def split: if_splits\<close>)
  qed
  obtain t where t: "flush_all ops u is = Returns t" "settled good stored fits t L" "unseen stored fits L u t"
    "\<forall>j < MAX_CACHE_PAGES. unwritten (g_page_cache t ! j) \<longrightarrow> j \<notin> set is \<and> unwritten (g_page_cache u ! j)"
    using Cons.IH [OF u(2) _ _ u(4,5)] Cons.prems(2,3) by auto
  have "flush_all ops s (i # is) = Returns t" using u(1) t(1) by simp
  then show ?case using t(2,4) u(6) unseen_trans [OF u(3) t(3)] by (intro exI [of _ t]) auto
qed auto

lemma clean_stored:
  assumes s: "settled good stored fits s L" and n: "open_node s a n k"
    and clean: "\<And>j. j < MAX_CACHE_PAGES \<Longrightarrow> e_valid (g_page_cache s ! j) \<Longrightarrow> \<not> e_dirty (g_page_cache s ! j)"
  shows "stored (v_fs s) k = Some (file_bytes stored s L k)"
proof -
  have inv: "cache_inv good stored fits s L (g_page_cache_tick s)" and z: "n_size n = L k" using s n by (auto simp: settled_def)
  have ok: "node_ok stored s L n k" by (rule cache_invD(6) [OF inv n])
  then obtain b where b: "stored (v_fs s) k = Some b" "length b \<le> n_size n"
    "\<And>off. off < L k \<Longrightarrow> length b \<le> off \<Longrightarrow>
       \<exists>i < MAX_CACHE_PAGES. is_page (g_page_cache s ! i) k (off div 4096) \<and> e_dirty (g_page_cache s ! i)"
    unfolding node_ok_def by blast
  have "off < length b" if "off < L k" for off
    using b(3) [OF that] clean by (meson is_page_def not_le)
  from this [of "length b"] have l: "length b = L k" using b(2) z by (cases "length b < L k") auto
  have "view stored s k off = b ! off" if "off < L k" for off
  proof (cases "\<exists>i < MAX_CACHE_PAGES. is_page (g_page_cache s ! i) k (off div 4096)")
    case True
    then obtain i where i: "i < MAX_CACHE_PAGES" "is_page (g_page_cache s ! i) k (off div 4096)" by blast
    then have "e_data (g_page_cache s ! i) ! (off mod 4096) = b ! off"
      using cache_invD(4) [OF inv i(1)] clean [OF i(1)] b(1) that by (auto simp: entry_ok_def page_ok_def is_page_def)
    then show ?thesis using view_cached [OF inv i] by simp
  next
    case False
    then show ?thesis using view_uncached [OF cache_invD(2) [OF inv]] b(1) by auto
  qed
  then show ?thesis using b(1) l by (simp add: file_bytes_def list_eq_iff_nth_eq)
qed

lemma vfs_sync_stores:
  assumes s: "settled good stored fits s L"
    and h: "dirty_pages s \<le> mallocs_left (v_heap s)" "dirty_pages s \<le> budget (v_fs s)"
    and m: "\<forall>m \<in> set (g_mount_list s). \<exists>n. deref s (mt_root m) = Returns n \<and> op_sync (ops (n_ops n)) = None"
  shows "\<exists>t. vfs_sync ops s = Returns t \<and> settled good stored fits t L \<and> rest t = rest s \<and>
    (\<forall>a n k. open_node s a n k \<longrightarrow> stored (v_fs t) k = Some (file_bytes stored s L k) \<and> file_bytes stored t L k = file_bytes stored s L k)"
proof -
  have "sync_mounts ops s ms = Returns s" if "set ms \<subseteq> set (g_mount_list s)" for ms
    using that m by (induction ms) fastforce+
  then have sm: "sync_mounts ops s (g_mount_list s) = Returns s" by simp
  have len: "length (g_page_cache s) = MAX_CACHE_PAGES" using s cache_invD(2) unfolding settled_def by blast
  obtain t where t: "flush_all ops s [0..<MAX_CACHE_PAGES] = Returns t" "settled good stored fits t L" "unseen stored fits L s t"
    "\<forall>j < MAX_CACHE_PAGES. unwritten (g_page_cache t ! j) \<longrightarrow> j \<notin> {0..<MAX_CACHE_PAGES}"
    using flush_all_cleans [OF s, of "[0..<MAX_CACHE_PAGES]"] h dirty_pages_upt [OF len] by (auto simp: atLeast0LessThan)
  have "stored (v_fs t) k = Some (file_bytes stored s L k) \<and> file_bytes stored t L k = file_bytes stored s L k"
    if n: "open_node s a n k" for a n k
    using clean_stored [OF t(2)] n unseenD(1) [OF t(3)] unseen_file_bytes [OF t(3) n] t(4) by (auto simp: unwritten_def)
  then show ?thesis using sm t(1,2) unseen_rest [OF t(3)] by (intro exI [of _ t]) (auto simp: vfs_sync_def)
qed

end

end
