(* ===== verification/Vfs_Unifs.thy ===== *)
theory Vfs_Unifs
  imports Vfs_Rw
begin

text \<open>
  UniFS behind the virtual file system: its tables of operations, that it keeps the contract the page cache
  relies on, and what reading, writing and synchronising a UniFS file do to its bytes.
\<close>

section \<open>The tables of UniFS\<close>

text \<open>\<open>is_open\<close> tells which files are open; the operations of files ask for it only with a descriptor.\<close>

definition unifs_file_table :: "(u8 list \<Rightarrow> bool) \<Rightarrow> unifs vnode_ops" where
  "unifs_file_table is_open =
     \<lparr>op_read = Some (\<lambda>s n sz offset has_fd. case unifs_vfs_read s n sz offset of (r, bs) \<Rightarrow> Returns (r, bs, s)),
      op_write = Some (\<lambda>s n buf offset has_fd.
        obind (unifs_vfs_write is_open s n buf offset has_fd) (\<lambda>(r, s). Returns (r, n, s))),
      op_readdir = None, op_lookup = None, op_create = None, op_mkdir = None, op_sync = None,
      op_close = Some (\<lambda>s n. s)\<rparr>"

definition unifs_dir_table :: "unifs vnode_ops" where
  "unifs_dir_table =
     \<lparr>op_read = None, op_write = None,
      op_readdir = Some (\<lambda>s n index. case unifs_vfs_readdir s n index of None \<Rightarrow> (-1, [], s) | Some name \<Rightarrow> (0, name, s)),
      op_lookup = Some unifs_vfs_lookup, op_create = Some unifs_vfs_create, op_mkdir = Some unifs_vfs_mkdir,
      op_sync = None, op_close = Some (\<lambda>s n. s)\<rparr>"

text \<open>Only UniFS is mounted: nodes have one of its two tables.\<close>

definition unifs_ops :: "(u8 list \<Rightarrow> bool) \<Rightarrow> VNodeOps \<Rightarrow> unifs vnode_ops" where
  "unifs_ops is_open t = (if t = unifs_file_ops then unifs_file_table is_open else unifs_dir_table)"

section \<open>UniFS keeps the contract\<close>

text \<open>A RAM file may have up to \<open>MAX_FILE_SIZE\<close> bytes; each write asks for memory at most once.\<close>

definition unifs_fits :: "unifs \<Rightarrow> u8 list \<Rightarrow> nat \<Rightarrow> bool" where
  "unifs_fits s k n \<longleftrightarrow> find_ram_file s k \<noteq> None \<and> n \<le> MAX_FILE_SIZE"

definition unifs_budget :: "unifs \<Rightarrow> nat" where
  "unifs_budget s = mallocs_left (heap s)"

lemma obind_Returns:
  assumes "obind x f = Returns y"
  obtains a where "x = Returns a" "f a = Returns y"
  using assms by (cases x) auto

lemma ram_write_at_memory:
  assumes r: "ram_write_at s i buf off = Returns (r, t)" and m: "off + length buf \<le> MAX_FILE_SIZE"
    and h: "0 < mallocs_left (heap s)"
  shows "r \<noteq> -1" "mallocs_left (heap s) \<le> Suc (mallocs_left (heap t))"
proof -
  have w: "wrap64 (off + length buf) = off + length buf" using m by (simp add: MAX_FILE_SIZE_def)
  have "r \<noteq> -1 \<and> mallocs_left (heap s) \<le> Suc (mallocs_left (heap t))"
  proof (cases "off + length buf > r_capacity (file_at s i)")
    case True
    then have "0 < double_capacity (off + length buf)" using double_capacity_bounds(1) [OF m] by simp
    with h obtain d h' where d: "malloc (heap s) (double_capacity (off + length buf)) = (Some d, h')"
      "mallocs_left (heap s) = Suc (mallocs_left h')" by (rule mallocs_left_malloc)
    show ?thesis
      using r True d(1) m
      by (auto simp: ram_write_at_def w d(2) upd_file_def Let_def elim!: obind_Returns split: option.splits)
  next
    case False
    then show ?thesis using r m by (auto simp: ram_write_at_def w upd_file_def Let_def elim!: obind_Returns)
  qed
  then show "r \<noteq> -1" "mallocs_left (heap s) \<le> Suc (mallocs_left (heap t))" by auto
qed

lemma unifs_file_driver: "file_driver (unifs_ops is_open) unifs_inv contents unifs_fits unifs_budget"
proof (standard, goal_cases)
  case (1 fs n k b sz off)
  then obtain nm where o: "unifs_open_into fs k = Some (nm, b)" by (auto simp: contents_def)
  have "unifs_vfs_read fs n sz off = (int (length (take sz (drop off b))), take sz (drop off b))"
    using 1(2) o by (auto simp: unifs_vfs_read_def is_file_def node_name_def Let_def)
  then show ?case by (simp add: unifs_ops_def unifs_file_table_def)
next
  case (2 fs n k b off buf)
  then obtain i where i: "find_ram_file fs k = Some i" and m: "off + length buf \<le> MAX_FILE_SIZE" by (auto simp: unifs_fits_def)
  have b: "b = ram_bytes (file_at fs i)" using contents_ram [OF i] 2(3) by simp
  note f = ram_file_facts [OF 2(1) i]
  have wr: "unifs_vfs_write is_open fs n buf off False = ram_write_at fs i buf off"
    using 2(2) i by (simp add: unifs_vfs_write_def is_file_def node_name_def)
  have "off + length buf < 2 ^ 64" using m by (simp add: MAX_FILE_SIZE_def)
  then obtain t junk where t: "ram_write_at fs i buf off = Returns (int (length buf), t)" "length junk = off - r_size (file_at fs i)"
      "sets fs k (take off b @ junk @ buf @ drop (off + length buf) b) t"
    using ram_write_at_sets [OF 2(1) i] ram_write_at_memory(1) [OF _ m] 2(5) b unfolding unifs_budget_def by blast
  have "overwritten b off buf (take off b @ junk @ buf @ drop (off + length buf) b)"
    unfolding overwritten_def using t(2) f(5) b by auto
  moreover have "mallocs_left (heap fs) \<le> Suc (mallocs_left (heap t))"
    using ram_write_at_memory(2) [OF t(1) m] 2(5) by (simp add: unifs_budget_def)
  ultimately show ?case
    using t(1,3) wr by (auto simp: unifs_ops_def unifs_file_table_def unifs_budget_def sets_def unifs_fits_def)
next
  case (3 fs k m m')
  then show ?case by (simp add: unifs_fits_def)
qed

interpretation unifs_fd: file_driver "unifs_ops is_open" unifs_inv contents unifs_fits unifs_budget for is_open
  by (rule unifs_file_driver)

section \<open>The bytes of UniFS files\<close>

text \<open>How many pages the bytes from \<open>off\<close> on lie in.\<close>

definition pages :: "nat \<Rightarrow> nat \<Rightarrow> nat" where
  "pages off n = (off + n + 4095) div 4096 - off div 4096"

lemma pages_cover: "off + n \<le> 4096 * (off div 4096 + pages off n)"
proof -
  have "off div 4096 \<le> (off + n + 4095) div 4096" by (rule div_le_mono) simp
  then have "off div 4096 + pages off n = (off + n + 4095) div 4096" by (simp add: pages_def)
  moreover have "x \<le> 4096 * q" if "x + 4095 = q * 4096 + m" "m < 4096" for x q m :: nat using that by linarith
  from this [of "off + n"] have "off + n \<le> 4096 * ((off + n + 4095) div 4096)" by (metis div_mult_mod_eq mod_less_divisor zero_less_numeral)
  ultimately show ?thesis by simp
qed

lemma pages_le: "off + n \<le> MAX_FILE_SIZE \<Longrightarrow> pages off n \<le> MAX_CACHE_PAGES"
proof -
  assume "off + n \<le> MAX_FILE_SIZE"
  then have "(off + n + 4095) div 4096 \<le> (MAX_FILE_SIZE + 4095) div 4096" by (intro div_le_mono) simp
  then show "pages off n \<le> MAX_CACHE_PAGES" by (simp add: pages_def MAX_FILE_SIZE_def MAX_CACHE_PAGES_def)
qed

text \<open>
  C2.  Writing to an open UniFS file through the page cache returns the number of bytes and replaces or
  appends exactly those bytes: the descriptor moves behind them, every open node of the file gets the new
  size, no other open file changes, and the state is settled again.  Pages that must be evicted on the way are
  written back.  The premises: the state is settled, that is, all open nodes of a file agree on its size and
  what the driver lacks is in dirty pages (a file opened again while its growth is not yet written back has a
  node with an older size, and then the state is not settled); the descriptor is not guarded and its node has
  references, fewer than its counter can hold; the buffer is not empty; the write starts inside the file or at
  its end and ends within the largest size of a file; the file is a RAM file, not one that is only in the boot
  image; there is memory for the pages and for the driver, and the clock of the cache does not wrap.
\<close>

theorem vfs_write_refines:
  assumes "settled unifs_inv contents unifs_fits s L" and "open_fd s fd p f a n k"
    and "buf \<noteq> []" "f_offset f \<le> L k" "f_offset f + length buf \<le> MAX_FILE_SIZE"
    and "find_ram_file (v_fs s) k \<noteq> None" "L k \<le> MAX_FILE_SIZE"
    and "room_for unifs_budget s (pages (f_offset f) (length buf))"
  shows "\<exists>t L'. vfs_write (unifs_ops is_open) s fd buf = Some (Returns (int (length buf), t)) \<and>
    settled unifs_inv contents unifs_fits t L' \<and> L' = L(k := max (L k) (f_offset f + length buf)) \<and>
    open_fd t fd p (f\<lparr>f_offset := f_offset f + length buf\<rparr>) a (n\<lparr>n_size := L' k\<rparr>) k \<and>
    (\<forall>b m. open_node s b m k \<longrightarrow> open_node t b (m\<lparr>n_size := L' k\<rparr>) k) \<and>
    file_bytes contents t L' k = take (f_offset f) (file_bytes contents s L k) @ buf @
      drop (f_offset f + length buf) (file_bytes contents s L k) \<and>
    (\<forall>b m k'. open_node s b m k' \<and> k' \<noteq> k \<longrightarrow> file_bytes contents t L' k' = file_bytes contents s L k')"
proof -
  have "f_offset f + length buf < 2 ^ 63" using assms(5) by (simp add: MAX_FILE_SIZE_def)
  moreover have "unifs_fits (v_fs s) k (max (L k) (f_offset f + length buf))" using assms(5-7) by (simp add: unifs_fits_def)
  ultimately show ?thesis
    using unifs_fd.vfs_write_bytes [OF assms(1-4) _ _ pages_cover pages_le [OF assms(5)] assms(8) refl] by blast
qed

text \<open>
  C6.  Reading an open UniFS file through the page cache returns the bytes of the file from the offset of the
  descriptor on, as many as were asked for or as there are, whether they are in the cache or not.  The
  descriptor moves behind them, and no open file changes.  The premises: the state is settled (all open nodes
  of a file agree on its size), the descriptor is not guarded and its node has references, offset and size do
  not wrap, there is memory for the pages and for the driver that writes evicted ones back, and the clock of
  the cache does not wrap.
\<close>

theorem vfs_read_refines:
  assumes "settled unifs_inv contents unifs_fits s L" and "open_fd s fd p f a n k"
    and "f_offset f + sz < 2 ^ 64" and "room_for unifs_budget s (pages (f_offset f) sz)"
  shows "\<exists>t res. vfs_read (unifs_ops is_open) s fd sz = Some (Returns (int (length res), res, t)) \<and>
    res = take sz (drop (f_offset f) (file_bytes contents s L k)) \<and>
    settled unifs_inv contents unifs_fits t L \<and> open_fd t fd p (f\<lparr>f_offset := f_offset f + length res\<rparr>) a n k \<and>
    (\<forall>b m k'. open_node s b m k' \<longrightarrow> file_bytes contents t L k' = file_bytes contents s L k')"
proof -
  have "min (f_offset f + sz) (L k) \<le> 4096 * (f_offset f div 4096 + pages (f_offset f) sz)"
    using pages_cover [of "f_offset f" sz] by simp
  then show ?thesis using unifs_fd.vfs_read_bytes [OF assms(1-3) _ assms(4) refl, of is_open] by blast
qed



section \<open>An example\<close>

text \<open>
  The file \<open>a\<close> with the bytes 7, 8, 9 is open twice, on descriptors 0 and 1, and has two nodes; the cache is empty.
\<close>

definition no_page :: PageCacheEntry where
  "no_page = \<lparr>e_vnode = 0, e_ops = None, e_inode_id = 0, e_fs = 0, e_path = replicate 256 0, e_page_index = 0,
     e_data = replicate 4096 0, e_dirty = False, e_last_access = 0, e_valid = False\<rparr>"

definition no_fd :: FileDescriptor where
  "no_fd = \<lparr>f_used = False, f_flags = 0, f_vnode = None, f_offset = 0, f_dir_pos = 0\<rparr>"

definition demo_node :: VNode where
  "demo_node = \<lparr>n_inode_id = 0, n_size = 3, n_uid = 0, n_mode = VFS_DEFAULT_FILE_MODE, n_is_dir = False,
     n_ops = unifs_file_ops, n_fs_data = Some [0x61], n_ref_count = 1\<rparr>"

definition demo_vfs :: "unifs vfs" where
  "demo_vfs = \<lparr>v_fs = demo_fs\<lparr>heap := replicate 512 (Some (\<lambda>_. 0))\<rparr>, nodes = [Some demo_node, Some demo_node],
     g_page_cache = replicate 512 no_page, g_page_cache_tick = 0, g_mount_list = [],
     procs = [\<lparr>p_uid = 0, fd_table = no_fd\<lparr>f_used := True, f_vnode := Some 0\<rparr> # no_fd\<lparr>f_used := True, f_vnode := Some 1\<rparr> # replicate 126 no_fd\<rparr>],
     current = Some 0, storage = 0, v_heap = replicate 512 (Some (\<lambda>_. 0))\<rparr>"

definition demo_sizes :: "u8 list \<Rightarrow> nat" where
  "demo_sizes k = 3"

lemma mallocs_left_replicate: "mallocs_left (replicate n (Some f)) = n"
  by (simp add: mallocs_left_def)

lemma demo_vfs_fs: "unifs_inv (v_fs demo_vfs)" "contents (v_fs demo_vfs) [0x61] = Some [7, 8, 9]" "find_ram_file (v_fs demo_vfs) [0x61] = Some 0"
proof -
  show "unifs_inv (v_fs demo_vfs)" using demo_fs_inv(1) inv_cong [of "v_fs demo_vfs" demo_fs] by (simp add: demo_vfs_def)
  show "contents (v_fs demo_vfs) [0x61] = Some [7, 8, 9]"
    using demo_fs_files(3) contents_cong [of "v_fs demo_vfs" demo_fs] by (simp add: demo_vfs_def same_boot_def)
  show "find_ram_file (v_fs demo_vfs) [0x61] = Some 0"
    using demo_fs_files(1) by (simp add: find_ram_file_def demo_vfs_def)
qed

lemma demo_open_node: "open_node demo_vfs a n k \<longleftrightarrow> a < 2 \<and> n = demo_node \<and> k = [0x61]"
  by (cases "a = 0"; cases "a = 1") (auto simp: open_node_def demo_vfs_def demo_node_def is_file_def)

lemma demo_held: "held demo_vfs b \<longleftrightarrow> b < 2"
  by (auto simp: held_def demo_vfs_def no_fd_def less_2_cases_iff)

lemma demo_cache:
  "length (g_page_cache demo_vfs) = MAX_CACHE_PAGES" "g_page_cache_tick demo_vfs = 0"
  "i < MAX_CACHE_PAGES \<Longrightarrow> g_page_cache demo_vfs ! i = no_page" "\<not> e_valid no_page"
  by (simp_all add: demo_vfs_def MAX_CACHE_PAGES_def no_page_def)

lemma demo_settled: "settled unifs_inv contents unifs_fits demo_vfs demo_sizes"
proof -
  have "cache_inv unifs_inv contents unifs_fits demo_vfs demo_sizes 0"
  proof (rule cache_invI)
    show "entry_ok contents unifs_fits demo_vfs demo_sizes 0 (g_page_cache demo_vfs ! i)" if "i < MAX_CACHE_PAGES" for i
      unfolding demo_cache(3) [OF that] by (simp add: entry_ok_def no_page_def)
    show "node_ok contents demo_vfs demo_sizes n k" if "open_node demo_vfs a n k" for a n k
      using that demo_vfs_fs(2) by (simp add: demo_open_node node_ok_def demo_node_def demo_sizes_def)
  qed (use demo_vfs_fs(1) in \<open>auto simp: demo_open_node is_page_def demo_cache\<close>)
  moreover have "fds_ok demo_vfs"
  proof -
    have "is_file demo_node [0x61]" by (simp add: is_file_def demo_node_def)
    then have "\<exists>k. is_file demo_node k" by blast
    moreover have "0 < n_ref_count demo_node" by (simp add: demo_node_def)
    ultimately show ?thesis unfolding fds_ok_def demo_held demo_open_node by (auto simp: demo_vfs_def less_2_cases_iff)
  qed
  ultimately show ?thesis by (simp add: settled_def demo_open_node demo_node_def demo_sizes_def demo_cache(2))
qed

lemma demo_fd:
  "open_fd demo_vfs 0 0 (no_fd\<lparr>f_used := True, f_vnode := Some 0\<rparr>) 0 demo_node [0x61]"
  "file_bytes contents demo_vfs demo_sizes [0x61] = [7, 8, 9]" "r \<le> 256 \<Longrightarrow> room_for unifs_budget demo_vfs r"
proof -
  show "open_fd demo_vfs 0 0 (no_fd\<lparr>f_used := True, f_vnode := Some 0\<rparr>) 0 demo_node [0x61]"
    unfolding open_fd_def demo_open_node
    by (simp add: fd_get_def demo_vfs_def MAX_OPEN_FILES_def no_fd_def demo_node_def)
  have "contents (v_fs demo_vfs) [0x61] = Some (file_bytes contents demo_vfs demo_sizes [0x61])"
    by (rule unifs_fd.clean_stored [OF demo_settled, of 0 demo_node])
      (simp_all add: demo_open_node demo_cache)
  then show "file_bytes contents demo_vfs demo_sizes [0x61] = [7, 8, 9]" using demo_vfs_fs(2) by simp
  show "r \<le> 256 \<Longrightarrow> room_for unifs_budget demo_vfs r"
    by (simp add: room_for_def demo_vfs_def unifs_budget_def mallocs_left_replicate)
qed

theorem vfs_write_refines_witness:
  "settled unifs_inv contents unifs_fits demo_vfs demo_sizes \<and> open_node demo_vfs 1 demo_node [0x61] \<and>
   (\<exists>t. vfs_write (unifs_ops (\<lambda>_. False)) demo_vfs 0 [1, 2, 3, 4] = Some (Returns (4, t)) \<and>
      file_bytes contents t (demo_sizes([0x61] := 4)) [0x61] = [1, 2, 3, 4] \<and> open_node t 1 (demo_node\<lparr>n_size := 4\<rparr>) [0x61])"
proof -
  have "room_for unifs_budget demo_vfs (pages 0 4)" by (rule demo_fd(3)) (simp add: pages_def)
  moreover have l: "length [1, 2, 3, 4 :: u8] = 4" by simp
  moreover have n: "open_node demo_vfs 1 demo_node [0x61]" by (simp add: demo_open_node)
  ultimately show ?thesis
    using vfs_write_refines [OF demo_settled demo_fd(1), of "[1, 2, 3, 4]" "\<lambda>_. False", unfolded l] demo_vfs_fs(3) demo_fd(2) demo_settled
    by (auto simp: no_fd_def demo_sizes_def MAX_FILE_SIZE_def)
qed

theorem vfs_read_refines_witness:
  "settled unifs_inv contents unifs_fits demo_vfs demo_sizes \<and>
   (\<exists>t. vfs_read (unifs_ops (\<lambda>_. False)) demo_vfs 0 2 = Some (Returns (2, [7, 8], t)))"
proof -
  have "room_for unifs_budget demo_vfs (pages 0 2)" by (rule demo_fd(3)) (simp add: pages_def)
  then show ?thesis
    using vfs_read_refines [OF demo_settled demo_fd(1), of 2 "\<lambda>_. False"] demo_fd(2) demo_settled
    by (auto simp: no_fd_def)
qed



section \<open>Eviction and memory\<close>

text \<open>With no memory left the search for a page goes on for ever.\<close>

lemma evict_stuck:
  assumes v: "pick_victim (g_page_cache s) = Some i" "e_valid (g_page_cache s ! i)" "e_dirty (g_page_cache s ! i)"
    and n: "deref s (e_vnode (g_page_cache s ! i)) = Returns n" "wrap64 (e_page_index (g_page_cache s ! i) * 4096) < n_size n"
    and h: "v_heap s = []"
  shows "pc_evict_and_allocate_locked ops s a m p = None"
proof (rule ccontr)
  have s: "s\<lparr>v_heap := []\<rparr> = s" using h by (cases s) simp
  have fl: "pc_flush_entry_unlocked ops s i = Returns s"
    using v n h s by (simp add: pc_flush_entry_unlocked_def Let_def)
  assume "pc_evict_and_allocate_locked ops s a m p \<noteq> None"
  then obtain r where r: "pc_evict_and_allocate_locked ops s a m p = Some r" by blast
  have "s \<noteq> s"
    by (rule pc_evict_and_allocate_locked.raw_induct [where P = "\<lambda>ops' s' a' m' p' r. ops' = ops \<longrightarrow> s' \<noteq> s", rule_format, OF _ r])
      (use v fl in \<open>auto split: option.splits\<close>, blast)
  then show False by simp
qed

text \<open>
  C38.  Making room in a full page cache whose oldest page is dirty returns exactly when one of the requests for
  memory is granted in the end: write-back needs a buffer, is retried until it has one, and then an entry
  is handed out; without memory the loop never ends.
\<close>

theorem evict_returns_iff:
  assumes s: "settled unifs_inv contents unifs_fits s L" and t: "g_page_cache_tick s < 2 ^ 64 - 1" "0 < unifs_budget (v_fs s)"
    and v: "pick_victim (g_page_cache s) = Some i" "e_valid (g_page_cache s ! i)" "e_dirty (g_page_cache s ! i)"
    and n: "open_node s (e_vnode (g_page_cache s ! i)) n k" "e_page_index (g_page_cache s ! i) * 4096 < L k"
  shows "if \<exists>x \<in> set (v_heap s). x \<noteq> None
    then \<exists>j u. pc_evict_and_allocate_locked (unifs_ops is_open) s a m p = Some (Returns (Some j, u))
    else pc_evict_and_allocate_locked (unifs_ops is_open) s a m p = None"
  using assms
proof (induction "v_heap s" arbitrary: s)
  case Nil
  have "wrap64 (e_page_index (g_page_cache s ! i) * 4096) < n_size n"
    using Nil.prems(1,7,8) by (auto simp: settled_def wrap64_def intro: le_less_trans [OF mod_less_eq_dividend])
  then have "pc_evict_and_allocate_locked (unifs_ops is_open) s a m p = None"
    using evict_stuck [OF Nil.prems(4-6) deref_open_node [OF Nil.prems(7)]] Nil.hyps by simp
  then show ?case using Nil.hyps by simp
next
  case (Cons x h)
  have inv: "cache_inv unifs_inv contents unifs_fits s L (g_page_cache_tick s)" using Cons.prems(1) by (simp add: settled_def)
  show ?case
  proof (cases x)
    case (Some f)
    then have "0 < mallocs_left (v_heap s)" using Cons.hyps(2) by (simp add: mallocs_left_def flip: Cons.hyps(2))
    then show ?thesis
      using unifs_fd.evict [OF inv Cons.prems(2) _ _ Cons.prems(3), of is_open a m p] recent_now [OF inv] Some Cons.hyps(2) [symmetric]
      by (auto simp: MAX_CACHE_PAGES_def)
  next
    case None
    let ?s = "s\<lparr>v_heap := h\<rparr>"
    have "wrap64 (e_page_index (g_page_cache s ! i) * 4096) < n_size n"
      using Cons.prems(1,7,8) by (auto simp: settled_def wrap64_def intro: le_less_trans [OF mod_less_eq_dividend])
    then have "pc_flush_entry_unlocked (unifs_ops is_open) s i = Returns ?s"
      using Cons.prems(4-6) deref_open_node [OF Cons.prems(7)] None Cons.hyps(2) [symmetric]
      by (simp add: pc_flush_entry_unlocked_def Let_def)
    then have "pc_evict_and_allocate_locked (unifs_ops is_open) s a m p = pc_evict_and_allocate_locked (unifs_ops is_open) ?s a m p"
      using Cons.prems(4-6) by (subst pc_evict_and_allocate_locked.simps) simp
    moreover have "settled unifs_inv contents unifs_fits ?s L" using Cons.prems(1) fds_ok_cong [of ?s s] cache_inv_cong(1) [of ?s s] open_node_cong [of ?s s] by (simp add: settled_def)
    ultimately show ?thesis using Cons.hyps(1) [of ?s] Cons.prems None Cons.hyps(2) [symmetric] by simp
  qed
qed


definition demo_page :: "nat \<Rightarrow> PageCacheEntry" where
  "demo_page i = no_page\<lparr>e_ops := Some unifs_file_ops, e_path := 0x61 # replicate 255 0, e_page_index := i,
     e_dirty := (i = 0), e_last_access := i, e_valid := True\<rparr>"

definition demo_full :: "unifs vfs" where
  "demo_full = demo_vfs\<lparr>g_page_cache := map demo_page [0..<MAX_CACHE_PAGES], g_page_cache_tick := 511, v_heap := [None, Some (\<lambda>_. 0)]\<rparr>"

lemma oldest_loop_0: "oldest_loop es i 0 best = best"
  by (induction es arbitrary: i) auto

lemma demo_full_settled:
  "settled unifs_inv contents unifs_fits demo_full demo_sizes" "pick_victim (g_page_cache demo_full) = Some 0"
  "open_node demo_full a n k \<longleftrightarrow> a < 2 \<and> n = demo_node \<and> k = [0x61]" "g_page_cache demo_full ! 0 = demo_page 0"
proof -
  have fs: "v_fs demo_full = v_fs demo_vfs" "g_page_cache_tick demo_full = 511" "procs demo_full = procs demo_vfs" "nodes demo_full = nodes demo_vfs"
    by (simp_all add: demo_full_def)
  have c: "length (g_page_cache demo_full) = MAX_CACHE_PAGES" "i < MAX_CACHE_PAGES \<Longrightarrow> g_page_cache demo_full ! i = demo_page i" for i
    by (simp_all add: demo_full_def)
  have nd: "open_node demo_full a n k \<longleftrightarrow> a < 2 \<and> n = demo_node \<and> k = [0x61]" for a n k
    using open_node_cong [OF fs(4)] demo_open_node by simp
  have z: "cstr (replicate 255 0) = []" using cstr_replicate_0 [of 255 "[]"] by simp
  have "cache_inv unifs_inv contents unifs_fits demo_full demo_sizes 511"
  proof (rule cache_invI)
    show "entry_ok contents unifs_fits demo_full demo_sizes 511 (g_page_cache demo_full ! i)" if "i < MAX_CACHE_PAGES" for i
      unfolding c(2) [OF that] using that demo_vfs_fs
      by (auto simp: entry_ok_def page_ok_def demo_page_def no_page_def fs nd demo_node_def demo_sizes_def unifs_fits_def z
          MAX_FILE_SIZE_def MAX_CACHE_PAGES_def)
    show "node_ok contents demo_full demo_sizes n k" if "open_node demo_full a n k" for a n k
      using that demo_vfs_fs(2) by (simp add: nd fs node_ok_def demo_node_def demo_sizes_def)
  qed (use demo_vfs_fs(1) in \<open>auto simp: nd fs is_page_def c demo_page_def\<close>)
  moreover have "fds_ok demo_full" using demo_settled fds_ok_cong [OF fs(4,3)] by (simp add: settled_def)
  ultimately show "settled unifs_inv contents unifs_fits demo_full demo_sizes"
    by (simp add: settled_def nd fs demo_node_def demo_sizes_def)
  have "find_idx (\<lambda>e. \<not> e_valid e) (g_page_cache demo_full) = None" by (auto simp: find_idx_None demo_full_def demo_page_def)
  moreover have "[0..<MAX_CACHE_PAGES] = 0 # [Suc 0..<MAX_CACHE_PAGES]" by (rule upt_conv_Cons) (simp add: MAX_CACHE_PAGES_def)
  then have "g_page_cache demo_full = demo_page 0 # map demo_page [Suc 0..<MAX_CACHE_PAGES]" by (simp add: demo_full_def)
  ultimately show "pick_victim (g_page_cache demo_full) = Some 0"
    by (simp add: pick_victim_def demo_page_def oldest_loop_0)
  show "open_node demo_full a n k \<longleftrightarrow> a < 2 \<and> n = demo_node \<and> k = [0x61]" by (rule nd)
  show "g_page_cache demo_full ! 0 = demo_page 0" by (rule c) (simp add: MAX_CACHE_PAGES_def)
qed

theorem evict_returns_iff_witness:
  "settled unifs_inv contents unifs_fits demo_full demo_sizes \<and>
   (\<exists>j u. pc_evict_and_allocate_locked (unifs_ops (\<lambda>_. False)) demo_full 0 demo_node 600 = Some (Returns (Some j, u)))"
proof -
  have h: "g_page_cache_tick demo_full < 2 ^ 64 - 1" "0 < unifs_budget (v_fs demo_full)" "\<exists>x \<in> set (v_heap demo_full). x \<noteq> None"
    by (simp_all add: demo_full_def demo_vfs_def unifs_budget_def mallocs_left_replicate)
  have e: "e_valid (g_page_cache demo_full ! 0)" "e_dirty (g_page_cache demo_full ! 0)"
    "open_node demo_full (e_vnode (g_page_cache demo_full ! 0)) demo_node [0x61]"
    "e_page_index (g_page_cache demo_full ! 0) * 4096 < demo_sizes [0x61]"
    by (simp_all add: demo_full_settled(3,4) demo_page_def no_page_def demo_sizes_def)
  show ?thesis
    using evict_returns_iff [OF demo_full_settled(1) h(1,2) demo_full_settled(2) e, of "\<lambda>_. False" 0 demo_node 600]
      h(3) demo_full_settled(1) by simp
qed

section \<open>Paths and permissions\<close>

text \<open>
  \<open>lookup\<close> makes a new node with the size the driver has.  When the file has grown in the cache since, this is
  less than the size in the nodes that are open, and the next write through the new node may give them less.
\<close>

lemma lookup_size_is_stored:
  assumes "unifs_inv s" "boot_small s" "unifs_vfs_lookup s d name = (Some n, t)" "n_ops n = unifs_file_ops"
  shows "\<exists>b. contents s (cstr (path_in d name)) = Some b \<and> n_size n = length b"
proof -
  let ?p = "cstr (path_in d name)"
  have n: "unifs_file_exists s ?p" "n_size n = unifs_get_file_size s ?p"
    using assms(3,4) by (auto simp: unifs_vfs_lookup_def make_node_def vfs_create_vnode_def Let_def split: if_splits option.splits prod.splits)
  show ?thesis
  proof (cases "find_ram_file s ?p")
    case (Some i)
    then show ?thesis using n(2) ram_file_facts(5) [OF assms(1) Some] contents_ram [OF Some] by (simp add: unifs_get_file_size_def)
  next
    case None
    then obtain b where b: "find_boot_entry s ?p = Some b" using n(1) by (auto simp: unifs_file_exists_def)
    then show ?thesis
      using None n(2) boot_entry_facts(2) [OF assms(2) b] by (simp add: unifs_get_file_size_def contents_def unifs_open_into_def)
  qed
qed

text \<open>
  C39.  A path that goes on below a regular file makes the kernel call through a null pointer, when the caller is
  root or there is no current process: \<open>vfs_lookup_vnode\<close> tests only the root of the mount for a \<open>lookup\<close>, its
  loop asks each further node for the next name, and the table of a UniFS file has no \<open>lookup\<close>.  (For other
  callers the permission to search a file is missing, and the result is null.)  The premises: the path below
  the mount of a UniFS directory is a name, a slash and more, the name is found to be a file, and the
  directory has references, fewer than its counter can hold.
\<close>

theorem lookup_below_file:
  assumes path: "vfs_resolve_path (g_mount_list s) path = Some (root, name @ slash # below)" "length (name @ slash # below) < 511"
    and name: "name \<noteq> []" "slash \<notin> set name" "below \<noteq> []" "hd below \<noteq> slash"
    and root: "deref s root = Returns d" "n_ops d = unifs_dir_ops" "0 < n_ref_count d" "n_ref_count d < 2 ^ 32 - 1"
    and found: "unifs_vfs_lookup (v_fs s) d name = (Some n, fs)" "n_ops n = unifs_file_ops"
    and caller: "cur_uid s = None \<or> cur_uid s = Some 0"
  shows "vfs_lookup_vnode (unifs_ops is_open) s path = Overrun"
proof -
  let ?d = "d\<lparr>n_ref_count := Suc (n_ref_count d)\<rparr>" and ?ops = "unifs_ops is_open"
  let ?s = "set_node s root ?d"
  let ?t = "?s\<lparr>v_fs := fs, nodes := nodes ?s @ [Some n]\<rparr>"
  have r: "root < length (nodes s)" "nodes s ! root = Some d" using root(1) by (auto simp: deref_def split: if_splits option.splits)
  have h: "hold s root = Returns ?s" by (rule hold_drop(1) [OF r root(3,4)])
  have any: "may u m 1" if "cur_uid u = cur_uid s" for u :: "unifs vfs" and m
    using that caller by (auto simp: may_def vfs_check_permission_def)
  have "path_in ?d name = path_in d name" by (simp add: path_in_def node_name_def)
  then have "unifs_vfs_lookup (v_fs s) ?d name = unifs_vfs_lookup (v_fs s) d name" by (simp only: unifs_vfs_lookup_def) simp
  then have "unifs_vfs_lookup (v_fs s) ?d name = (Some n, fs)" using found(1) by simp
  then have lk: "node_lookup ?ops ?s ?d name = Returns (Some (length (nodes s)), ?t)"
    using root(2) by (simp add: node_lookup_def unifs_ops_def unifs_dir_table_def new_node_def set_node_def)
  define u where "u = set_node ?t root d"
  have close: "vfs_close_vnode ?ops ?t root = Returns u"
    using r root(3,4) by (simp add: vfs_close_vnode_def drop_ref_def deref_def set_node_def u_def nth_append list_update_append)
  have u: "deref u (length (nodes s)) = Returns n" "cur_uid u = cur_uid s"
    using r by (simp_all add: u_def set_node_def deref_def nth_append cur_uid_def list_update_append)
  have "takeWhile (\<lambda>c. c \<noteq> slash) below \<noteq> []" using name(3,4) by (cases below) auto
  then have stuck: "lookup_loop ?ops u (length (nodes s)) below = Overrun"
    using u any found(2) by (subst lookup_loop.simps) (simp add: node_lookup_def unifs_ops_def unifs_file_table_def)
  have split: "takeWhile (\<lambda>c. c \<noteq> slash) (name @ slash # below) = name" "dropWhile (\<lambda>c. c \<noteq> slash) (name @ slash # below) = slash # below"
    using name(2) by (induction name) auto
  have "deref ?s root = Returns ?d" "cur_uid ?s = cur_uid s" using r by (simp_all add: deref_def set_node_def cur_uid_def)
  then have "lookup_loop ?ops ?s root (name @ slash # below) = Overrun"
    using split name(1) any lk close stuck by (subst lookup_loop.simps) (simp add: Let_def)
  then show ?thesis
    using path root(1,2) h by (simp add: vfs_lookup_vnode_def unifs_ops_def unifs_dir_table_def)
qed

text \<open>A system in which UniFS is mounted at \<open>/\<close>.\<close>

definition root_mount :: Mount where
  "root_mount = \<lparr>mt_path = slash # replicate 63 0, mt_root = 0, mt_flags = 0\<rparr>"

lemma root_mount_resolves:
  "vfs_resolve_path [root_mount] (slash # p) = Some (0, dropWhile (\<lambda>c. c = slash) p)"
  "\<not> vfs_path_is_storage_guarded [root_mount] (slash # p)"
proof -
  have z: "cstr (slash # replicate 63 0) = [slash]" using cstr_replicate_0 [of 63 "[]"] by (simp add: slash_def)
  then have l: "strlen (slash # replicate 63 0) = 1" by (simp only: strlen_cstr) simp
  have best: "vfs_find_best_mount_locked [root_mount] (slash # q) = Some root_mount" for q
    using z l by (simp add: vfs_find_best_mount_locked_def mount_covers_def root_mount_def del: cstr_simps strlen.simps)
  show "vfs_resolve_path [root_mount] (slash # p) = Some (0, dropWhile (\<lambda>c. c = slash) p)"
    using l best [of p] by (simp add: vfs_resolve_path_def root_mount_def del: strlen.simps)
  have "cstr (slash # p) = slash # cstr p" by (simp add: slash_def)
  then show "\<not> vfs_path_is_storage_guarded [root_mount] (slash # p)"
    using best [of "cstr p"] by (simp add: vfs_path_is_storage_guarded_def root_mount_def del: cstr_simps)
qed

definition root_node :: VNode where
  "root_node = demo_node\<lparr>n_size := 0, n_is_dir := True, n_ops := unifs_dir_ops, n_fs_data := Some [], n_mode := VFS_DEFAULT_DIR_MODE\<rparr>"

definition root_vfs :: "unifs vfs" where
  "root_vfs = demo_vfs\<lparr>nodes := [Some root_node], g_mount_list := [root_mount],
     procs := [\<lparr>p_uid = 0, fd_table = replicate 128 no_fd\<rparr>]\<rparr>"

lemma root_lookup: "\<exists>fs. unifs_vfs_lookup (v_fs root_vfs) root_node [0x61] = (Some demo_node, fs)"
proof -
  have p: "cstr (path_in root_node [0x61]) = [0x61]"
    using cstr_path_in [of root_node "[0x61]"] by (simp add: root_node_def node_name_def)
  have fs: "v_fs root_vfs = v_fs demo_vfs" by (simp add: root_vfs_def)
  have "file_at (v_fs demo_vfs) 0 = demo_file" "heap (v_fs demo_vfs) = Some (\<lambda>_. 0) # Some (\<lambda>_. 0) # replicate 510 (Some (\<lambda>_. 0))"
    by (simp_all add: demo_vfs_def demo_fs_def numeral_eq_Suc)
  then show ?thesis
    using p demo_vfs_fs(3)
    by (simp add: unifs_vfs_lookup_def fs unifs_file_exists_def real_name_def unifs_get_file_size_def make_node_def
        vfs_create_vnode_def root_node_def SLASH_def demo_file_def demo_node_def)
qed

theorem lookup_below_file_witness:
  "vfs_lookup_vnode (unifs_ops (\<lambda>_. False)) root_vfs [slash, 0x61, slash, 0x78] = Overrun"
proof -
  obtain fs where fs: "unifs_vfs_lookup (v_fs root_vfs) root_node [0x61] = (Some demo_node, fs)" using root_lookup by blast
  have p: "vfs_resolve_path (g_mount_list root_vfs) [slash, 0x61, slash, 0x78] = Some (0, [0x61] @ slash # [0x78])"
    using root_mount_resolves(1) [of "[0x61, slash, 0x78]"] by (simp add: root_vfs_def slash_def)
  have d: "deref root_vfs 0 = Returns root_node" "cur_uid root_vfs = None \<or> cur_uid root_vfs = Some 0"
    by (simp_all add: root_vfs_def deref_def cur_uid_def demo_vfs_def)
  show ?thesis
    by (rule lookup_below_file [OF p _ _ _ _ _ d(1) _ _ _ fs _ d(2)]) (simp_all add: root_node_def demo_node_def slash_def)
qed

text \<open>
  C40.  Opening a file for reading never checks the permission to read it: \<open>O_RDONLY\<close> is \<open>0\<close>, so the test
  \<open>flags & O_RDONLY\<close> fails, no permission is asked for, and whatever owner and mode the node has the
  first free descriptor is returned.
\<close>

theorem open_read_unchecked:
  assumes "vfs_lookup_vnode ops s path = Returns (Some a, t)" "deref t a = Returns n"
    and "\<not> vfs_path_is_storage_guarded (g_mount_list s) path"
    and "current t = Some p" "p < length (procs t)" "find_idx (\<lambda>f. \<not> f_used f) (fd_table (procs t ! p)) = Some i"
  shows "\<exists>u. vfs_open ops cbs s path O_RDONLY mode = Returns (int i, u) \<and>
    f_used (fd_table (procs u ! p) ! i) \<and> f_vnode (fd_table (procs u ! p) ! i) = Some a"
proof -
  have "may t n 0" by (simp add: may_def vfs_check_permission_def split: option.splits)
  moreover have "i < length (fd_table (procs t ! p))" using assms(6) by (simp add: find_idx_Some)
  ultimately show ?thesis
    using assms by (simp add: vfs_open_def O_RDONLY_def install_fd_def set_fd_def)
qed

definition secret_node :: VNode where
  "secret_node = root_node\<lparr>n_uid := 1, n_mode := 0\<rparr>"

definition secret_vfs :: "unifs vfs" where
  "secret_vfs = root_vfs\<lparr>nodes := [Some secret_node], procs := [\<lparr>p_uid = 7, fd_table = replicate 128 no_fd\<rparr>]\<rparr>"

theorem open_read_unchecked_witness:
  "\<not> may secret_vfs secret_node 4 \<and>
   (\<exists>u. vfs_open (unifs_ops (\<lambda>_. False)) (\<lambda>_. \<lparr>cb_unlink = None, cb_rename = None, cb_truncate = None\<rparr>) secret_vfs
      [slash] O_RDONLY 0 = Returns (0, u))"
proof -
  let ?t = "set_node secret_vfs 0 (secret_node\<lparr>n_ref_count := Suc (Suc 0)\<rparr>)"
  have m: "g_mount_list secret_vfs = [root_mount]" by (simp add: secret_vfs_def root_vfs_def)
  note d = secret_vfs_def root_vfs_def demo_vfs_def
  have "vfs_lookup_vnode (unifs_ops (\<lambda>_. False)) secret_vfs [slash] = Returns (Some 0, ?t)"
    using root_mount_resolves(1) [of "[]"]
    by (simp add: vfs_lookup_vnode_def m hold_def deref_def) (simp add: d secret_node_def root_node_def demo_node_def)
  moreover have "deref ?t 0 = Returns (secret_node\<lparr>n_ref_count := Suc (Suc 0)\<rparr>)" by (simp add: deref_def set_node_def d)
  moreover have "current ?t = Some 0" "0 < length (procs ?t)" by (simp_all add: set_node_def d)
  moreover have "find_idx (\<lambda>f. \<not> f_used f) (fd_table (procs ?t ! 0)) = Some 0"
    by (simp add: set_node_def secret_vfs_def find_idx_Some no_fd_def)
  moreover have "\<not> may secret_vfs secret_node 4"
    by (simp add: may_def cur_uid_def d secret_node_def root_node_def demo_node_def vfs_check_permission_def)
  ultimately show ?thesis using open_read_unchecked [of _ secret_vfs "[slash]"] root_mount_resolves(2) [of "[]"] m by fastforce
qed

end
