(* ===== verification/Page_Tracker.thy ===== *)
theory Page_Tracker
  imports Prelude
begin

text \<open>
  The page tracker of the kernel heap, \<open>src/mm/heap.cpp\<close>: a hash table with open addressing that knows the
  pages the heap has cut into blocks.  A deleted slot becomes a tombstone, which a search passes over.
  Under an invariant on the probe sequences the table is a map from pages to their counts.
\<close>

section \<open>The table\<close>

record PageSlot =
  page_virt :: nat
  slot_bucket :: nat
  free_count :: nat
  total_count :: nat

definition MAX_TRACKED_PAGES :: nat where "MAX_TRACKED_PAGES = 65536"
definition SLOT_EMPTY :: nat where "SLOT_EMPTY = 0"
definition SLOT_TOMBSTONE :: nat where "SLOT_TOMBSTONE = 1"

definition hash_page :: "nat \<Rightarrow> nat" where
  "hash_page virt =
     (let v = (of_nat virt :: u64);
          v = v XOR drop_bit 33 v;
          v = v * 0xff51afd7ed558ccd;
          v = v XOR drop_bit 33 v
      in unat (v AND 65535))"

definition probe :: "nat \<Rightarrow> nat \<Rightarrow> nat" where
  "probe idx i = (idx + i) mod MAX_TRACKED_PAGES"

text \<open>Each loop ends with the first step of the probe sequence that returns.\<close>

definition page_tracker_add :: "PageSlot list \<Rightarrow> nat \<Rightarrow> nat \<Rightarrow> nat \<Rightarrow> bool \<times> PageSlot list" where
  "page_tracker_add slots page bucket_idx blocks =
     (let idx = hash_page page in
      case find (\<lambda>i. page_virt (slots ! probe idx i) = SLOT_EMPTY \<or> page_virt (slots ! probe idx i) = SLOT_TOMBSTONE)
             [0..<MAX_TRACKED_PAGES] of
        None \<Rightarrow> (False, slots)
      | Some i \<Rightarrow>
          (True, slots[probe idx i :=
             \<lparr>page_virt = page, slot_bucket = bucket_idx, free_count = blocks, total_count = blocks\<rparr>]))"

definition page_tracker_find :: "PageSlot list \<Rightarrow> nat \<Rightarrow> nat option" where
  "page_tracker_find slots page =
     (let idx = hash_page page in
      case find (\<lambda>i. page_virt (slots ! probe idx i) = page \<or> page_virt (slots ! probe idx i) = SLOT_EMPTY)
             [0..<MAX_TRACKED_PAGES] of
        None \<Rightarrow> None
      | Some i \<Rightarrow> if page_virt (slots ! probe idx i) = page then Some (probe idx i) else None)"

definition page_of_block :: "nat \<Rightarrow> nat" where
  "page_of_block block = block div 4096 * 4096"

definition page_tracker_alloc_block :: "PageSlot list \<Rightarrow> nat \<Rightarrow> PageSlot list" where
  "page_tracker_alloc_block slots block =
     (case page_tracker_find slots (page_of_block block) of
        Some k \<Rightarrow>
          if free_count (slots ! k) > 0
          then slots[k := (slots ! k)\<lparr>free_count := free_count (slots ! k) - 1\<rparr>] else slots
      | None \<Rightarrow> slots)"

text \<open>The page and bucket that became free with the block, if any; the count has 16 bits.\<close>

definition page_tracker_free_block :: "PageSlot list \<Rightarrow> nat \<Rightarrow> (nat \<times> nat) option \<times> PageSlot list" where
  "page_tracker_free_block slots block =
     (case page_tracker_find slots (page_of_block block) of
        None \<Rightarrow> (None, slots)
      | Some k \<Rightarrow>
          let slot = (slots ! k)\<lparr>free_count := (free_count (slots ! k) + 1) mod 2 ^ 16\<rparr> in
          if free_count slot = total_count slot
          then (Some (page_virt slot, slot_bucket slot), slots[k := slot\<lparr>page_virt := SLOT_TOMBSTONE\<rparr>])
          else (None, slots[k := slot]))"

section \<open>The table is a map\<close>

definition is_page :: "nat \<Rightarrow> bool" where
  "is_page p \<longleftrightarrow> p \<noteq> SLOT_EMPTY \<and> p \<noteq> SLOT_TOMBSTONE"

text \<open>A page is found before the first empty slot of its probe sequence.\<close>

definition reachable_at :: "PageSlot list \<Rightarrow> nat \<Rightarrow> bool" where
  "reachable_at slots k \<longleftrightarrow>
     (\<exists>i < MAX_TRACKED_PAGES. k = probe (hash_page (page_virt (slots ! k))) i \<and>
        (\<forall>j < i. page_virt (slots ! probe (hash_page (page_virt (slots ! k))) j) \<noteq> SLOT_EMPTY))"

definition tracker_ok :: "PageSlot list \<Rightarrow> bool" where
  "tracker_ok slots \<longleftrightarrow>
     length slots = MAX_TRACKED_PAGES \<and>
     (\<forall>k < MAX_TRACKED_PAGES. is_page (page_virt (slots ! k)) \<longrightarrow> reachable_at slots k) \<and>
     (\<forall>k < MAX_TRACKED_PAGES. \<forall>l < MAX_TRACKED_PAGES.
        is_page (page_virt (slots ! k)) \<and> page_virt (slots ! k) = page_virt (slots ! l) \<longrightarrow> k = l)"

definition tracked :: "PageSlot list \<Rightarrow> nat \<Rightarrow> PageSlot option" where
  "tracked slots p = (if is_page p then find (\<lambda>s. page_virt s = p) slots else None)"

lemma probe_less [simp]: "probe idx i < MAX_TRACKED_PAGES"
  by (simp add: probe_def MAX_TRACKED_PAGES_def)

lemma probe_inj:
  assumes "i < MAX_TRACKED_PAGES" "j < MAX_TRACKED_PAGES" "probe idx i = probe idx j"
  shows "i = j"
proof -
  have le: "b \<le> a" if "a \<le> b" "b < MAX_TRACKED_PAGES" "probe idx b = probe idx a" for a b
  proof -
    have "MAX_TRACKED_PAGES dvd (idx + b) - (idx + a)"
      using that by (intro mod_eq_dvd_iff_nat [THEN iffD1]) (simp_all add: probe_def)
    then show ?thesis using that(2) by (auto dest: dvd_imp_le)
  qed
  show ?thesis
    by (meson assms assms(3) [symmetric] le le_antisym nle_le)
qed

lemma find_upt: "find P [0..<n] = Some i \<longleftrightarrow> i < n \<and> P i \<and> (\<forall>j < i. \<not> P j)"
  by (auto simp: find_Some_iff)

lemma tracked_None: "tracked slots p = None \<longleftrightarrow> is_page p \<longrightarrow> (\<forall>s \<in> set slots. page_virt s \<noteq> p)"
  by (auto simp: tracked_def find_None_iff)

lemma tracked_Some:
  assumes "tracker_ok slots"
  shows "tracked slots p = Some s \<longleftrightarrow>
    is_page p \<and> (\<exists>k < MAX_TRACKED_PAGES. slots ! k = s \<and> page_virt s = p)"
proof
  assume "tracked slots p = Some s"
  then show "is_page p \<and> (\<exists>k < MAX_TRACKED_PAGES. slots ! k = s \<and> page_virt s = p)"
    using assms by (auto simp: tracked_def find_Some_iff tracker_ok_def split: if_splits)
next
  assume r: "is_page p \<and> (\<exists>k < MAX_TRACKED_PAGES. slots ! k = s \<and> page_virt s = p)"
  then obtain k where k: "k < MAX_TRACKED_PAGES" "slots ! k = s" "page_virt s = p" by blast
  have "\<not> page_virt (slots ! j) = p" if "j < k" for j
    using assms that k r unfolding tracker_ok_def by (metis less_irrefl less_trans)
  then show "tracked slots p = Some s"
    using r k assms by (auto simp: tracked_def find_Some_iff tracker_ok_def)
qed

lemma page_tracker_find_correct:
  assumes ok: "tracker_ok slots" and p: "is_page p"
  shows "(case page_tracker_find slots p of
      None \<Rightarrow> tracked slots p = None
    | Some k \<Rightarrow> k < MAX_TRACKED_PAGES \<and> tracked slots p = Some (slots ! k))"
proof (cases "tracked slots p")
  case None
  then have "page_virt (slots ! k) \<noteq> p" if "k < MAX_TRACKED_PAGES" for k
    using that p ok by (auto simp: tracked_None tracker_ok_def)
  then have "page_tracker_find slots p = None"
    by (auto simp: page_tracker_find_def Let_def split: option.split)
  then show ?thesis using None by simp
next
  case (Some s)
  then obtain k where k: "k < MAX_TRACKED_PAGES" "slots ! k = s" "page_virt s = p"
    using tracked_Some [OF ok] by blast
  then obtain i where i: "i < MAX_TRACKED_PAGES" "k = probe (hash_page p) i"
    "\<forall>j < i. page_virt (slots ! probe (hash_page p) j) \<noteq> SLOT_EMPTY"
    using ok p unfolding tracker_ok_def reachable_at_def by blast
  have "page_virt (slots ! probe (hash_page p) j) \<noteq> p" if "j < i" for j
  proof
    assume "page_virt (slots ! probe (hash_page p) j) = p"
    then have "probe (hash_page p) j = k" using ok k p by (auto simp: tracker_ok_def)
    then show False using probe_inj [of j i "hash_page p"] i that by simp
  qed
  then have "find (\<lambda>i. page_virt (slots ! probe (hash_page p) i) = p \<or> page_virt (slots ! probe (hash_page p) i) = SLOT_EMPTY)
      [0..<MAX_TRACKED_PAGES] = Some i"
    using i k unfolding find_upt by auto
  then show ?thesis using k i Some by (simp add: page_tracker_find_def)
qed

lemma page_tracker_find_eq:
  assumes "tracker_ok slots" "tracked slots p = Some s"
  obtains k where "page_tracker_find slots p = Some k" "k < length slots" "slots ! k = s"
    "page_virt s = p" "is_page p"
proof -
  have p: "is_page p" "page_virt s = p" using tracked_Some [OF assms(1)] assms(2) by auto
  then obtain k where "page_tracker_find slots p = Some k" "k < MAX_TRACKED_PAGES" "slots ! k = s"
    using page_tracker_find_correct [OF assms(1) p(1)] assms(2) by (auto split: option.splits)
  then show thesis using that p assms(1) by (simp add: tracker_ok_def)
qed

text \<open>A slot that keeps its page, or whose page is deleted.\<close>

lemma tracker_ok_update:
  assumes ok: "tracker_ok slots" and k: "k < MAX_TRACKED_PAGES"
    and s: "page_virt s = page_virt (slots ! k) \<or> page_virt s = SLOT_TOMBSTONE"
  shows "tracker_ok (slots[k := s])"
proof -
  have len: "length slots = MAX_TRACKED_PAGES" using ok by (simp add: tracker_ok_def)
  have same: "page_virt (slots[k := s] ! l) = page_virt (slots ! l) \<or> page_virt (slots[k := s] ! l) = SLOT_TOMBSTONE" for l
    using s k len by (cases "l = k") auto
  have "reachable_at (slots[k := s]) l" if "l < MAX_TRACKED_PAGES" "is_page (page_virt (slots[k := s] ! l))" for l
  proof -
    have eq: "page_virt (slots[k := s] ! l) = page_virt (slots ! l)"
      using same [of l] that(2) by (auto simp: is_page_def)
    then have "reachable_at slots l" using ok that by (simp add: tracker_ok_def)
    moreover have "page_virt (slots[k := s] ! m) \<noteq> SLOT_EMPTY" if "page_virt (slots ! m) \<noteq> SLOT_EMPTY" for m
      using same [of m] that by (auto simp: SLOT_EMPTY_def SLOT_TOMBSTONE_def)
    ultimately show ?thesis unfolding reachable_at_def eq by metis
  qed
  moreover have "l = m" if "l < MAX_TRACKED_PAGES" "m < MAX_TRACKED_PAGES" "is_page (page_virt (slots[k := s] ! l))"
    "page_virt (slots[k := s] ! l) = page_virt (slots[k := s] ! m)" for l m
    using same [of l] same [of m] that ok unfolding tracker_ok_def is_page_def by metis
  ultimately show ?thesis using len unfolding tracker_ok_def by (metis length_list_update)
qed

lemma tracked_update:
  assumes ok: "tracker_ok slots" and k: "k < MAX_TRACKED_PAGES" "is_page (page_virt (slots ! k))"
    and s: "page_virt s = page_virt (slots ! k) \<or> page_virt s = SLOT_TOMBSTONE"
  shows "tracked (slots[k := s]) =
    (tracked slots)(page_virt (slots ! k) := (if page_virt s = SLOT_TOMBSTONE then None else Some s))"
proof (rule ext, rule option_ext)
  fix p t
  note ok' = tracker_ok_update [OF ok k(1) s]
  have len: "length slots = MAX_TRACKED_PAGES" using ok by (simp add: tracker_ok_def)
  show "tracked (slots[k := s]) p = Some t \<longleftrightarrow>
    ((tracked slots)(page_virt (slots ! k) := (if page_virt s = SLOT_TOMBSTONE then None else Some s))) p = Some t"
  proof (cases "p = page_virt (slots ! k)")
    case True
    have "slots[k := s] ! l = t \<and> page_virt t = p \<longleftrightarrow> l = k \<and> s = t \<and> page_virt s = p" if "l < MAX_TRACKED_PAGES" for l
      using that True k ok len by (cases "l = k") (auto simp: tracker_ok_def)
    then have "(\<exists>l < MAX_TRACKED_PAGES. slots[k := s] ! l = t \<and> page_virt t = p) \<longleftrightarrow> s = t \<and> page_virt s = p"
      using k(1) by blast
    then show ?thesis
      using True k(2) s unfolding tracked_Some [OF ok'] by (auto simp: is_page_def)
  next
    case False
    have "slots[k := s] ! l = t \<and> page_virt t = p \<and> is_page p \<longleftrightarrow> slots ! l = t \<and> page_virt t = p \<and> is_page p"
      if "l < MAX_TRACKED_PAGES" for l
      using that False k s len by (cases "l = k") (auto simp: is_page_def)
    then have "tracked (slots[k := s]) p = Some t \<longleftrightarrow> tracked slots p = Some t"
      unfolding tracked_Some [OF ok'] tracked_Some [OF ok] by blast
    then show ?thesis using False by simp
  qed
qed

lemma page_tracker_add_correct:
  assumes ok: "tracker_ok slots" and p: "is_page p" "tracked slots p = None"
    and add: "page_tracker_add slots p b t = (r, slots')"
  shows "if r then tracker_ok slots' \<and> tracked slots' =
      (tracked slots)(p \<mapsto> \<lparr>page_virt = p, slot_bucket = b, free_count = t, total_count = t\<rparr>)
    else slots' = slots"
proof (cases r)
  case True
  let ?s = "\<lparr>page_virt = p, slot_bucket = b, free_count = t, total_count = t\<rparr>"
  let ?P = "\<lambda>i. page_virt (slots ! probe (hash_page p) i) = SLOT_EMPTY \<or> page_virt (slots ! probe (hash_page p) i) = SLOT_TOMBSTONE"
  obtain i where i: "find ?P [0..<MAX_TRACKED_PAGES] = Some i" "slots' = slots[probe (hash_page p) i := ?s]"
    using add True by (auto simp: page_tracker_add_def Let_def split: option.splits)
  let ?k = "probe (hash_page p) i"
  have len: "length slots = MAX_TRACKED_PAGES" using ok by (simp add: tracker_ok_def)
  have i': "i < MAX_TRACKED_PAGES" "?P i" "\<forall>j < i. \<not> ?P j" using i(1) unfolding find_upt by auto
  have new: "page_virt (slots ! l) \<noteq> p" if "l < MAX_TRACKED_PAGES" for l
    using p that len by (auto simp: tracked_None)
  have nth: "slots' ! l = (if l = ?k then ?s else slots ! l)" if "l < MAX_TRACKED_PAGES" for l
    using that len i(2) by simp
  have ne: "page_virt (slots' ! l) \<noteq> SLOT_EMPTY" if "page_virt (slots ! l) \<noteq> SLOT_EMPTY" "l < MAX_TRACKED_PAGES" for l
    using that nth p(1) by (auto simp: is_page_def)
  have reach: "reachable_at slots' l" if l: "l < MAX_TRACKED_PAGES" "is_page (page_virt (slots' ! l))" for l
  proof (cases "l = ?k")
    case True
    have "page_virt (slots' ! probe (hash_page p) j) \<noteq> SLOT_EMPTY" if "j < i" for j
      using ne i'(3) that by simp
    moreover have "page_virt (slots' ! l) = p" using True nth [of ?k] by simp
    ultimately show ?thesis using True i'(1) unfolding reachable_at_def by blast
  next
    case False
    then have "reachable_at slots l" using ok l nth by (auto simp: tracker_ok_def)
    then show ?thesis using False l ne nth unfolding reachable_at_def by (metis probe_less)
  qed
  have uniq: "l = m" if "l < MAX_TRACKED_PAGES" "m < MAX_TRACKED_PAGES" "is_page (page_virt (slots' ! l))"
    "page_virt (slots' ! l) = page_virt (slots' ! m)" for l m
  proof (cases "l = ?k \<or> m = ?k")
    case True
    then show ?thesis using that new nth by (auto split: if_splits)
  next
    case False
    then show ?thesis using that ok nth by (auto simp: tracker_ok_def)
  qed
  have ok': "tracker_ok slots'"
    unfolding tracker_ok_def using reach uniq len i(2) by (metis length_list_update)
  have "tracked slots' q = ((tracked slots)(p \<mapsto> ?s)) q" for q
  proof (rule option_ext)
    fix u
    have "slots' ! l = u \<and> page_virt u = q \<and> is_page q \<longleftrightarrow>
        (if l = ?k then ?s = u \<and> q = p else slots ! l = u \<and> page_virt u = q \<and> is_page q)" if "l < MAX_TRACKED_PAGES" for l
      using that nth p by (auto simp: is_page_def)
    moreover have "\<not> is_page (page_virt (slots ! ?k))" using i'(2) by (auto simp: is_page_def)
    ultimately have "tracked slots' q = Some u \<longleftrightarrow> ?s = u \<and> q = p \<or> tracked slots q = Some u"
      unfolding tracked_Some [OF ok'] tracked_Some [OF ok] by (metis probe_less)
    then show "tracked slots' q = Some u \<longleftrightarrow> ((tracked slots)(p \<mapsto> ?s)) q = Some u"
      using p(2) by auto
  qed
  then show ?thesis using True ok' by auto
next
  case False
  then show ?thesis using add by (auto simp: page_tracker_add_def Let_def split: option.splits)
qed

end
