(* ===== verification/Block_Allocator.thy ===== *)
theory Block_Allocator
  imports Prelude
begin

text \<open>
  What the clients of a memory allocator rely on, as a locale: the laws of \<open>alloc\<close> and \<open>release\<close> over the
  blocks in use, a map from their addresses to the sizes that were asked for.  The client lemmas are
  about whole histories of calls: at every moment the blocks in use are disjoint, and none of them
  moves or shrinks until it is released.
\<close>

datatype 'r mem_op =
    AllocMem 'r nat  \<comment> \<open>a request and the address it returned\<close>
  | FreeMem nat

text \<open>The bytes of the block at \<open>p\<close>.\<close>

definition block_bytes :: "(nat \<Rightarrow> nat option) \<Rightarrow> nat \<Rightarrow> nat set" where
  "block_bytes L p = (case L p of None \<Rightarrow> {} | Some n \<Rightarrow> {p ..< p + n})"

definition blocks_disjoint :: "(nat \<Rightarrow> nat option) \<Rightarrow> bool" where
  "blocks_disjoint L \<longleftrightarrow> (\<forall>p q. p \<noteq> q \<longrightarrow> block_bytes L p \<inter> block_bytes L q = {})"

text \<open>
  A history that follows the protocol: only blocks in use are released.  Its result has the state and
  the blocks in use at its end.
\<close>

fun mem_run ::
  "('s \<Rightarrow> 'r \<Rightarrow> nat \<times> 's) \<Rightarrow> ('s \<Rightarrow> nat \<Rightarrow> 's) \<Rightarrow> ('r \<Rightarrow> nat) \<Rightarrow>
   's \<Rightarrow> (nat \<Rightarrow> nat option) \<Rightarrow> 'r mem_op list \<Rightarrow> ('s \<times> (nat \<Rightarrow> nat option)) option"
where
  "mem_run alloc release bytes s L [] = Some (s, L)"
| "mem_run alloc release bytes s L (AllocMem r p # ops) =
     (let (q, s') = alloc s r in
      if q \<noteq> p then None
      else mem_run alloc release bytes s' (if p = 0 then L else L(p \<mapsto> bytes r)) ops)"
| "mem_run alloc release bytes s L (FreeMem p # ops) =
     (if L p = None then None else mem_run alloc release bytes (release s p) (L(p := None)) ops)"

locale block_allocator =
  fixes inv :: "'s \<Rightarrow> (nat \<Rightarrow> nat option) \<Rightarrow> bool"
    and alloc :: "'s \<Rightarrow> 'r \<Rightarrow> nat \<times> 's"
    and release :: "'s \<Rightarrow> nat \<Rightarrow> 's"
    and bytes :: "'r \<Rightarrow> nat"
  assumes alloc_null: "inv s L \<Longrightarrow> alloc s r = (0, s') \<Longrightarrow> inv s' L"
    and alloc_block: "inv s L \<Longrightarrow> alloc s r = (p, s') \<Longrightarrow> p \<noteq> 0 \<Longrightarrow> L p = None \<and> inv s' (L(p \<mapsto> bytes r))"
    and release_block: "inv s L \<Longrightarrow> L p = Some n \<Longrightarrow> inv (release s p) (L(p := None))"
    and inv_disjoint: "inv s L \<Longrightarrow> blocks_disjoint L"
begin

lemma run_inv: "mem_run alloc release bytes s L ops = Some (s', L') \<Longrightarrow> inv s L \<Longrightarrow> inv s' L'"
proof (induction ops arbitrary: s L)
  case (Cons op ops)
  then show ?case
    by (cases op) (auto split: prod.splits if_splits dest: alloc_null alloc_block release_block)
qed simp

lemma run_disjoint: "mem_run alloc release bytes s L ops = Some (s', L') \<Longrightarrow> inv s L \<Longrightarrow> blocks_disjoint L'"
  using run_inv inv_disjoint by blast

text \<open>A block that is not released is still in use, with its size.\<close>

lemma run_keeps:
  assumes "mem_run alloc release bytes s L ops = Some (s', L')" "inv s L" "L p = Some n" "FreeMem p \<notin> set ops"
  shows "L' p = Some n"
  using assms
proof (induction ops arbitrary: s L)
  case (Cons op ops)
  show ?case
  proof (cases op)
    case (AllocMem r q)
    then obtain s1 where s1: "alloc s r = (q, s1)"
      "mem_run alloc release bytes s1 (if q = 0 then L else L(q \<mapsto> bytes r)) ops = Some (s', L')"
      using Cons.prems(1) by (auto split: prod.splits if_splits)
    let ?L = "if q = 0 then L else L(q \<mapsto> bytes r)"
    have "inv s1 ?L \<and> ?L p = Some n"
      using alloc_null [OF Cons.prems(2)] alloc_block [OF Cons.prems(2) s1(1)] s1(1) Cons.prems(3) by (cases "q = 0") auto
    then show ?thesis using Cons.IH [OF s1(2)] Cons.prems(4) by simp
  next
    case (FreeMem q)
    then obtain m where m: "L q = Some m" "mem_run alloc release bytes (release s q) (L(q := None)) ops = Some (s', L')"
      using Cons.prems(1) by (auto split: if_splits)
    have "p \<noteq> q" using Cons.prems(4) FreeMem by auto
    then show ?thesis
      using Cons.IH [OF m(2) release_block [OF Cons.prems(2) m(1)]] Cons.prems(3,4) by simp
  qed
qed simp

end

end
