(* ===== verification/Heap.thy ===== *)
theory Heap
  imports Pmm Page_Tracker Block_Allocator
begin

text \<open>
  The kernel heap, \<open>src/mm/heap.cpp\<close>: blocks of eight sizes cut from pages, larger requests as whole
  frames, all taken from the physical memory manager.  A pointer is an address in the direct map, the
  physical address plus \<open>hhdm\<close>.  \<open>hdr a\<close> is the header at the address \<open>a\<close>; the link of a free block lies in
  the block, so a bucket is the list of its blocks.  Headers and links are kept apart from the bytes of memory in
  the model: writing one changes \<open>hdr\<close> or a bucket and not the bytes of the frame.  Where the code asks
  \<open>vmm_virt_to_phys\<close> for the physical address of a block it has released, the model subtracts \<open>hhdm\<close>: heap pages
  have addresses in the direct map, which the page tables translate that way.  Each function runs under
  \<open>g_heap_lock\<close> and is one step.
\<close>

section \<open>State\<close>

record AllocHeader =
  h_size :: nat
  h_magic :: u64

definition MIN_BUCKET_SIZE :: nat where "MIN_BUCKET_SIZE = 32"
definition MAX_BUCKET_SIZE :: nat where "MAX_BUCKET_SIZE = 4096"
definition NUM_BUCKETS :: nat where "NUM_BUCKETS = 8"
definition HEAP_MAGIC :: u64 where "HEAP_MAGIC = 0xC0FFEE1234567890"
definition ALIGNED_MAGIC :: u64 where "ALIGNED_MAGIC = 0x12345678C0FFEE00"

record kheap =
  h_pmm :: pmm
  hhdm :: nat
  hdr :: "nat \<Rightarrow> AllocHeader"
  g_buckets :: "nat list list"
  g_page_slots :: "PageSlot list"

section \<open>Sizes\<close>

definition is_power_of_two :: "nat \<Rightarrow> bool" where
  "is_power_of_two v \<longleftrightarrow> v \<noteq> 0 \<and> v AND (v - 1) = 0"

text \<open>The sum, unless it does not fit into 64 bits.\<close>

definition add_overflow :: "nat \<Rightarrow> nat \<Rightarrow> nat option" where
  "add_overflow a b = (if a + b \<ge> 2 ^ 64 then None else Some (a + b))"

definition mul_overflow :: "nat \<Rightarrow> nat \<Rightarrow> nat option" where
  "mul_overflow a b = (if a * b \<ge> 2 ^ 64 then None else Some (a * b))"

fun bit_length :: "nat \<Rightarrow> nat" where
  "bit_length n = (if n = 0 then 0 else Suc (bit_length (n div 2)))"

declare bit_length.simps [simp del]

definition clzll :: "nat \<Rightarrow> nat" where
  "clzll n = 64 - bit_length n"

definition get_bucket_index :: "nat \<Rightarrow> int" where
  "get_bucket_index sz = (if sz \<le> 32 then 0 else if sz > 4096 then -1 else 64 - int (clzll (sz - 1)) - 5)"

definition get_bucket_size :: "nat \<Rightarrow> nat" where
  "get_bucket_size index = 32 * 2 ^ index"

definition heap_init :: "kheap \<Rightarrow> kheap" where
  "heap_init s =
     s\<lparr>g_buckets := replicate NUM_BUCKETS [],
       g_page_slots := replicate MAX_TRACKED_PAGES \<lparr>page_virt = 0, slot_bucket = 0, free_count = 0, total_count = 0\<rparr>\<rparr>"

section \<open>Allocating\<close>

definition set_header :: "kheap \<Rightarrow> nat \<Rightarrow> nat \<Rightarrow> kheap" where
  "set_header s a sz = s\<lparr>hdr := (hdr s)(a := \<lparr>h_size = sz, h_magic = HEAP_MAGIC\<rparr>)\<rparr>"

definition heap_alloc_large :: "kheap \<Rightarrow> nat \<Rightarrow> nat \<times> kheap" where
  "heap_alloc_large s total_size =
     (let pages = wrap64 (total_size + 4095) div 4096; (ptr, pm) = pmm_alloc_frames (h_pmm s) pages;
          s = s\<lparr>h_pmm := pm\<rparr>
      in if ptr = 0 then (0, s)
         else let virt = ptr + hhdm s in (virt + 16, set_header s virt (wrap64 (pages * 4096))))"

text \<open>The branch for a bucket with a free block.\<close>

definition take_block :: "kheap \<Rightarrow> nat \<Rightarrow> nat \<times> kheap" where
  "take_block s bucket_idx =
     (let block = hd (g_buckets s ! bucket_idx);
          s = s\<lparr>g_buckets := (g_buckets s)[bucket_idx := tl (g_buckets s ! bucket_idx)],
                g_page_slots := page_tracker_alloc_block (g_page_slots s) block\<rparr>
      in (block + 16, set_header s block (get_bucket_size bucket_idx)))"

text \<open>A page is cut into blocks, which are put in front of the bucket one by one.\<close>

definition page_blocks :: "nat \<Rightarrow> nat \<Rightarrow> nat list" where
  "page_blocks page bucket_size = map (\<lambda>i. page + i * bucket_size) [0..<4096 div bucket_size]"

definition carve_page :: "kheap \<Rightarrow> nat \<Rightarrow> nat \<Rightarrow> kheap" where
  "carve_page s bucket_idx page =
     s\<lparr>g_buckets := (g_buckets s)
         [bucket_idx := rev (page_blocks page (get_bucket_size bucket_idx)) @ g_buckets s ! bucket_idx]\<rparr>"

text \<open>The call of itself at the end finds the bucket filled, and takes a block.\<close>

definition malloc_unlocked :: "kheap \<Rightarrow> nat \<Rightarrow> nat \<times> kheap" where
  "malloc_unlocked s sz =
     (if sz = 0 then (0, s)
      else case add_overflow sz 16 of
        None \<Rightarrow> (0, s)
      | Some total_size \<Rightarrow>
          if total_size > MAX_BUCKET_SIZE then heap_alloc_large s total_size
          else
            let bucket_idx = nat (get_bucket_index total_size) in
            if g_buckets s ! bucket_idx \<noteq> [] then take_block s bucket_idx
            else
              let (page_phys, pm) = pmm_alloc_frame (h_pmm s); s = s\<lparr>h_pmm := pm\<rparr> in
              if page_phys = 0 then (0, s)
              else
                let page = page_phys + hhdm s;
                    num_blocks = 4096 div get_bucket_size bucket_idx;
                    (ok, slots) = page_tracker_add (g_page_slots s) page bucket_idx num_blocks
                in if \<not> ok then (0, s\<lparr>h_pmm := pmm_free_frame pm page_phys\<rparr>)
                   else take_block (carve_page (s\<lparr>g_page_slots := slots\<rparr>) bucket_idx page) bucket_idx)"

text \<open>\<open>malloc\<close> under the lock; \<open>operator new\<close> is the same.\<close>

definition kmalloc :: "kheap \<Rightarrow> nat \<Rightarrow> nat \<times> kheap" where
  "kmalloc s sz = malloc_unlocked s sz"

definition aligned_alloc :: "kheap \<Rightarrow> nat \<Rightarrow> nat \<Rightarrow> nat \<times> kheap" where
  "aligned_alloc s alignment sz =
     (if \<not> is_power_of_two alignment then (0, s)
      else if alignment \<le> 16 then kmalloc s sz
      else case add_overflow sz (alignment - 1) of
        None \<Rightarrow> (0, s)
      | Some tot \<Rightarrow>
          case add_overflow tot 16 of
            None \<Rightarrow> (0, s)
          | Some tot \<Rightarrow>
              let (raw, s) = kmalloc s tot in
              if raw = 0 then (0, s)
              else
                let aligned_addr = unat ((of_nat (raw + 16 + alignment - 1) :: u64) AND NOT (of_nat (alignment - 1)))
                in (aligned_addr,
                    s\<lparr>hdr := (hdr s)(aligned_addr - 16 := \<lparr>h_size = raw, h_magic = ALIGNED_MAGIC\<rparr>)\<rparr>))"

section \<open>Releasing\<close>

text \<open>
  The header of a block and the pointer behind it: for an aligned pointer those of the block around it.
\<close>

definition heap_resolve_header :: "kheap \<Rightarrow> nat \<Rightarrow> (nat \<times> nat \<times> bool) option" where
  "heap_resolve_header s user_ptr =
     (if user_ptr = 0 then None
      else
        let header = user_ptr - 16 in
        if h_magic (hdr s header) \<noteq> ALIGNED_MAGIC then Some (header, user_ptr, False)
        else
          let raw_addr = h_size (hdr s header) in
          if raw_addr = 0 \<or> raw_addr \<ge> user_ptr then None
          else Some (raw_addr - 16, raw_addr, True))"

definition bucket_remove_page_blocks :: "kheap \<Rightarrow> nat \<Rightarrow> nat \<Rightarrow> kheap" where
  "bucket_remove_page_blocks s bucket_idx page =
     s\<lparr>g_buckets := (g_buckets s)
         [bucket_idx := filter (\<lambda>addr. addr < page \<or> addr \<ge> page + 4096) (g_buckets s ! bucket_idx)]\<rparr>"

fun free_frames_from :: "pmm \<Rightarrow> nat \<Rightarrow> nat \<Rightarrow> pmm" where
  "free_frames_from pm phys 0 = pm"
| "free_frames_from pm phys (Suc n) = pmm_free_frame (free_frames_from pm phys n) (phys + n * 4096)"

definition kfree :: "kheap \<Rightarrow> nat \<Rightarrow> kheap" where
  "kfree s ptr =
     (if ptr = 0 then s
      else case heap_resolve_header s ptr of
        None \<Rightarrow> s
      | Some (header, _, _) \<Rightarrow>
          if h_magic (hdr s header) \<noteq> HEAP_MAGIC then s
          else
            let sz = h_size (hdr s header);
                s = s\<lparr>hdr := (hdr s)(header := (hdr s header)\<lparr>h_magic := 0\<rparr>)\<rparr>
            in if sz > MAX_BUCKET_SIZE
               then s\<lparr>h_pmm := free_frames_from (h_pmm s) (header - hhdm s) (sz div 4096)\<rparr>
               else
                 let bucket_idx = nat (get_bucket_index sz);
                     (page, slots) = page_tracker_free_block (g_page_slots s) header;
                     s = s\<lparr>g_page_slots := slots\<rparr>
                 in case page of
                      Some (page_virt_out, page_bucket) \<Rightarrow>
                        let s = bucket_remove_page_blocks s page_bucket page_virt_out
                        in s\<lparr>h_pmm := pmm_free_frame (h_pmm s) (page_virt_out - hhdm s)\<rparr>
                    | None \<Rightarrow> s\<lparr>g_buckets := (g_buckets s)[bucket_idx := header # g_buckets s ! bucket_idx]\<rparr>)"

definition aligned_free :: "kheap \<Rightarrow> nat \<Rightarrow> kheap" where
  "aligned_free s ptr = kfree s ptr"

text \<open>The bytes of the heap are those of physical memory.\<close>

definition zero_bytes :: "kheap \<Rightarrow> nat \<Rightarrow> nat \<Rightarrow> kheap" where
  "zero_bytes s ptr n = s\<lparr>h_pmm := (h_pmm s)\<lparr>ram := zero_memory (ram (h_pmm s)) (ptr - hhdm s) n\<rparr>\<rparr>"

definition move_bytes :: "kheap \<Rightarrow> nat \<Rightarrow> nat \<Rightarrow> nat \<Rightarrow> kheap" where
  "move_bytes s dst src n =
     s\<lparr>h_pmm := (h_pmm s)\<lparr>ram := \<lambda>a. if dst \<le> a + hhdm s \<and> a + hhdm s < dst + n
          then ram (h_pmm s) (a + hhdm s - dst + (src - hhdm s)) else ram (h_pmm s) a\<rparr>\<rparr>"

definition calloc :: "kheap \<Rightarrow> nat \<Rightarrow> nat \<Rightarrow> nat \<times> kheap" where
  "calloc s nmemb sz =
     (case mul_overflow nmemb sz of
        None \<Rightarrow> (0, s)
      | Some tot \<Rightarrow>
          let (ptr, s) = kmalloc s tot in if ptr \<noteq> 0 then (ptr, zero_bytes s ptr tot) else (ptr, s))"

definition heap_observed_alignment :: "nat \<Rightarrow> nat" where
  "heap_observed_alignment addr =
     (if addr = 0 then 16
      else
        let alignment = unat ((of_nat addr :: u64) AND (NOT (of_nat addr) + 1));
            alignment = (if alignment < 16 then 16 else alignment)
        in if alignment > 4096 then 4096 else alignment)"

definition realloc :: "kheap \<Rightarrow> nat \<Rightarrow> nat \<Rightarrow> nat \<times> kheap" where
  "realloc s ptr sz =
     (if ptr = 0 then kmalloc s sz
      else if sz = 0 then (0, kfree s ptr)
      else case heap_resolve_header s ptr of
        None \<Rightarrow> (0, s)
      | Some (header, base_addr, was_aligned) \<Rightarrow>
          if h_magic (hdr s header) \<noteq> HEAP_MAGIC \<or> h_size (hdr s header) < 16 then (0, s)
          else
            let total_usable = h_size (hdr s header) - 16 in
            if ptr < base_addr then (0, s)
            else
              let alignment_slack = ptr - base_addr in
              if alignment_slack > total_usable then (0, s)
              else
                let old_size = total_usable - alignment_slack in
                if sz \<le> old_size then (ptr, s)
                else
                  let (new_ptr, s) = (if was_aligned then aligned_alloc s (heap_observed_alignment ptr) sz
                                      else kmalloc s sz)
                  in if new_ptr = 0 then (0, s)
                     else (new_ptr, kfree (move_bytes s new_ptr ptr old_size) ptr))"

end
