(* ===== verification/Heap_Inv.thy ===== *)
theory Heap_Inv
  imports Heap
begin

text \<open>
  The invariant of the kernel heap, and that every operation keeps it: the blocks in use lie in frames
  that the heap holds, apart from each other and from the free blocks, and the tracker counts the free
  blocks of each page.
\<close>

section \<open>Bucket sizes\<close>

abbreviation bsz :: "nat \<Rightarrow> nat" where
  "bsz \<equiv> get_bucket_size"

lemma bsz_cases: "b < 8 \<Longrightarrow> bsz b \<in> {32, 64, 128, 256, 512, 1024, 2048, 4096}"
proof -
  assume "b < 8"
  then have "b = 0 \<or> b = 1 \<or> b = 2 \<or> b = 3 \<or> b = 4 \<or> b = 5 \<or> b = 6 \<or> b = 7" by arith
  then show ?thesis by (auto simp: get_bucket_size_def)
qed

lemma bsz_facts:
  assumes "b < 8"
  shows "bsz b dvd 4096" "32 \<le> bsz b" "bsz b \<le> 4096" "0 < bsz b" "4096 div bsz b * bsz b = 4096" "0 < 4096 div bsz b" "4096 div bsz b \<le> 128"
  using bsz_cases [OF assms] by auto

lemma bit_length_upper: "n < 2 ^ bit_length n"
proof (induction n rule: bit_length.induct)
  case (1 n)
  then show ?case by (cases "n = 0") (auto simp: bit_length.simps [of n])
qed

lemma bit_length_le: "n < 2 ^ k \<Longrightarrow> bit_length n \<le> k"
proof (induction k arbitrary: n)
  case (Suc k)
  then have "bit_length (n div 2) \<le> k" by auto
  then show ?case by (simp add: bit_length.simps [of n])
qed (simp add: bit_length.simps)

lemma bit_length_ge: "2 ^ k \<le> n \<Longrightarrow> k < bit_length n"
proof (rule ccontr)
  assume n: "2 ^ k \<le> n" and "\<not> k < bit_length n"
  then have "(2::nat) ^ bit_length n \<le> 2 ^ k" by (intro power_increasing) auto
  then show False using n bit_length_upper [of n] by (meson leD le_trans)
qed

lemma get_bucket_index_fits:
  assumes "0 < sz" "sz \<le> 4096"
  shows "nat (get_bucket_index sz) < 8" "sz \<le> bsz (nat (get_bucket_index sz))"
proof -
  have *: "nat (get_bucket_index sz) < 8 \<and> sz \<le> bsz (nat (get_bucket_index sz))"
  proof (cases "sz \<le> 32")
    case False
    let ?l = "bit_length (sz - 1)"
    have l: "?l \<le> 12" "5 < ?l"
      using bit_length_le [of "sz - 1" 12] bit_length_ge [of 5 "sz - 1"] False assms by auto
    then have i: "nat (get_bucket_index sz) = ?l - 5"
      using False assms by (simp add: get_bucket_index_def clzll_def)
    have "(2::nat) ^ ?l = 32 * 2 ^ (?l - 5)"
      using l(2) power_add [of "2::nat" 5 "?l - 5"] by simp
    then have "sz - 1 < 32 * 2 ^ (?l - 5)" using bit_length_upper [of "sz - 1"] by metis
    then have "?l - 5 < 8 \<and> sz \<le> 32 * 2 ^ (?l - 5)" using l assms(1) by linarith
    then show ?thesis unfolding i get_bucket_size_def .
  qed (simp add: get_bucket_index_def get_bucket_size_def)
  show "nat (get_bucket_index sz) < 8" "sz \<le> bsz (nat (get_bucket_index sz))" using * by blast+
qed

lemma get_bucket_index_size: "b < 8 \<Longrightarrow> nat (get_bucket_index (bsz b)) = b"
proof (cases b)
  case (Suc c)
  assume b: "b < 8"
  let ?n = "bsz b - 1"
  have p: "bsz b = 2 ^ (b + 5)" by (simp add: get_bucket_size_def power_add)
  have "bit_length ?n \<le> b + 5" by (intro bit_length_le) (simp add: p)
  moreover have "(2::nat) ^ (b + 5) = 2 * 2 ^ (b + 4)" by (simp add: power_add)
  then have "2 ^ (b + 4) \<le> ?n" using one_le_power [of "2::nat" "b + 4"] unfolding p by linarith
  then have "b + 4 < bit_length ?n" by (rule bit_length_ge)
  ultimately have "bit_length ?n = b + 5" by simp
  moreover have "(2::nat) ^ 1 \<le> 2 ^ b" using Suc by (intro power_increasing) auto
  then have "32 < bsz b" by (simp add: get_bucket_size_def)
  ultimately show ?thesis using b bsz_facts(3) [OF b] by (simp add: get_bucket_index_def clzll_def)
qed (simp add: get_bucket_size_def get_bucket_index_def)

section \<open>The invariant\<close>

abbreviation pg :: "nat \<Rightarrow> nat" where
  "pg \<equiv> page_of_block"

definition frame_of :: "kheap \<Rightarrow> nat \<Rightarrow> nat" where
  "frame_of s a = (a - hhdm s) div 4096"

abbreviation held :: "kheap \<Rightarrow> nat \<Rightarrow> bool" where
  "held s a \<equiv> pmm_refs (h_pmm s) (frame_of s a) = 1"

abbreviation slot :: "kheap \<Rightarrow> nat \<Rightarrow> PageSlot option" where
  "slot s \<equiv> tracked (g_page_slots s)"

abbreviation bucket :: "kheap \<Rightarrow> nat \<Rightarrow> nat list" where
  "bucket s b \<equiv> g_buckets s ! b"

text \<open>The address of a block of bucket \<open>b\<close>.\<close>

definition cell :: "kheap \<Rightarrow> nat \<Rightarrow> nat \<Rightarrow> bool" where
  "cell s a b \<longleftrightarrow> b < 8 \<and> a mod bsz b = 0 \<and> (\<exists>t. slot s (pg a) = Some t \<and> slot_bucket t = b)"

definition slot_ok :: "kheap \<Rightarrow> nat \<Rightarrow> PageSlot \<Rightarrow> bool" where
  "slot_ok s p t \<longleftrightarrow>
     p mod 4096 = 0 \<and> hhdm s + 4096 \<le> p \<and> held s p \<and> slot_bucket t < 8 \<and>
     total_count t = 4096 div bsz (slot_bucket t) \<and>
     free_count t = card {a \<in> set (bucket s (slot_bucket t)). pg a = p}"

definition heap_ok :: "kheap \<Rightarrow> bool" where
  "heap_ok s \<longleftrightarrow>
     pmm_inv (h_pmm s) \<and> hhdm s mod 4096 = 0 \<and> hhdm s + g_bitmap_bits (h_pmm s) * 4096 < 2 ^ 64 \<and>
     tracker_ok (g_page_slots s) \<and> length (g_buckets s) = 8 \<and>
     (\<forall>p t. slot s p = Some t \<longrightarrow> slot_ok s p t) \<and>
     (\<forall>b < 8. distinct (bucket s b) \<and> (\<forall>a \<in> set (bucket s b). cell s a b))"

definition small_block :: "kheap \<Rightarrow> nat \<Rightarrow> nat \<Rightarrow> bool" where
  "small_block s a sz \<longleftrightarrow> (\<exists>b. cell s a b \<and> sz = bsz b \<and> a \<notin> set (bucket s b))"

definition large_block :: "kheap \<Rightarrow> nat \<Rightarrow> nat \<Rightarrow> bool" where
  "large_block s a sz \<longleftrightarrow>
     (\<exists>k \<ge> 2. sz = k * 4096 \<and> a mod 4096 = 0 \<and> hhdm s + 4096 \<le> a \<and>
       (\<forall>i < k. held s (a + i * 4096) \<and> slot s (a + i * 4096) = None))"

text \<open>The block \<open>{a ..< a + sz}\<close> with its header serves the pointer \<open>p\<close> of \<open>n\<close> bytes.\<close>

definition serves :: "kheap \<Rightarrow> nat \<Rightarrow> nat \<Rightarrow> nat \<Rightarrow> nat \<Rightarrow> bool" where
  "serves s p n a sz \<longleftrightarrow>
     hdr s a = \<lparr>h_size = sz, h_magic = HEAP_MAGIC\<rparr> \<and> a + 16 \<le> p \<and> p + n \<le> a + sz \<and>
     (p = a + 16 \<or> a + 32 \<le> p \<and> hdr s (p - 16) = \<lparr>h_size = a + 16, h_magic = ALIGNED_MAGIC\<rparr>) \<and>
     (small_block s a sz \<or> large_block s a sz)"

definition heap_inv :: "kheap \<Rightarrow> (nat \<Rightarrow> nat option) \<Rightarrow> bool" where
  "heap_inv s L \<longleftrightarrow> heap_ok s \<and>
     (\<exists>A Z. (\<forall>p n. L p = Some n \<longrightarrow> serves s p n (A p) (Z p)) \<and>
       (\<forall>p q. p \<in> dom L \<and> q \<in> dom L \<and> p \<noteq> q \<longrightarrow> {A p ..< A p + Z p} \<inter> {A q ..< A q + Z q} = {}))"

section \<open>Addresses\<close>

lemma pg_facts: "pg a \<le> a" "a < pg a + 4096" "pg a mod 4096 = 0" "pg (pg a) = pg a"
proof -
  have "a = pg a + a mod 4096" by (simp add: page_of_block_def)
  then show "pg a \<le> a" "a < pg a + 4096" by (metis le_add1, metis add_strict_left_mono mod_less_divisor zero_less_numeral)
qed (simp_all add: page_of_block_def)

lemma pg_unique: "p mod 4096 = 0 \<Longrightarrow> p \<le> a \<Longrightarrow> a < p + 4096 \<Longrightarrow> pg a = p"
proof -
  assume p: "p mod 4096 = 0" "p \<le> a" "a < p + 4096"
  obtain k where "p = 4096 * k" using p(1) by (auto simp: dvd_def mod_eq_0_iff_dvd)
  then have "a div 4096 = k" using p by (intro div_nat_eqI) auto
  then show ?thesis using \<open>p = 4096 * k\<close> by (simp add: page_of_block_def)
qed

lemma dvd_gap: "d dvd x \<Longrightarrow> d dvd y \<Longrightarrow> x < y \<Longrightarrow> x + d \<le> (y :: nat)"
  using dvd_imp_le [of d "y - x"] by auto

lemma cell_in_page:
  assumes "cell s a b"
  shows "a + bsz b \<le> pg a + 4096"
proof -
  have b: "b < 8" "bsz b dvd a" using assms by (auto simp: cell_def mod_eq_0_iff_dvd)
  note d = bsz_facts(1) [OF b(1)]
  have "(4096 :: nat) dvd pg a" by (simp add: page_of_block_def)
  then have "bsz b dvd pg a + 4096" using d dvd_trans by (intro dvd_add) blast+
  then show ?thesis using dvd_gap [OF b(2)] pg_facts(2) by blast
qed

lemma pg_in_cell: "cell s a b \<Longrightarrow> a \<le> x \<Longrightarrow> x < a + bsz b \<Longrightarrow> pg x = pg a"
  using cell_in_page [of s a b] pg_facts [of a] by (intro pg_unique) auto

lemma cells_disjoint:
  assumes "cell s a b" "cell s c d" "a \<noteq> c"
  shows "{a ..< a + bsz b} \<inter> {c ..< c + bsz d} = {}"
proof (rule ccontr)
  assume "{a ..< a + bsz b} \<inter> {c ..< c + bsz d} \<noteq> {}"
  then obtain x where "x \<in> {a ..< a + bsz b} \<inter> {c ..< c + bsz d}" by blast
  then have x: "a \<le> x" "x < a + bsz b" "c \<le> x" "x < c + bsz d" by auto
  then have "pg a = pg c" using pg_in_cell assms by metis
  then have e: "b = d" using assms by (auto simp: cell_def)
  have "bsz b dvd a" "bsz b dvd c" using assms e by (auto simp: cell_def mod_eq_0_iff_dvd)
  then show False using dvd_gap [of "bsz b" a c] dvd_gap [of "bsz b" c a] assms(3) x e by (cases "a < c") auto
qed

lemma large_page:
  assumes "large_block s c sz" "c \<le> x" "x < c + sz"
  shows "held s (pg x)" "slot s (pg x) = None" "c \<le> pg x"
proof -
  obtain k where k: "sz = k * 4096" "c mod 4096 = 0" "\<forall>i < k. held s (c + i * 4096) \<and> slot s (c + i * 4096) = None"
    using assms(1) by (auto simp: large_block_def)
  let ?i = "(x - c) div 4096"
  have "?i < k" using assms(2,3) k(1) by (simp add: less_mult_imp_div_less)
  moreover have "pg x = c + ?i * 4096"
  proof (rule pg_unique)
    show "(c + ?i * 4096) mod 4096 = 0" using k(2) by simp
    have "?i * 4096 \<le> x - c" "x - c < ?i * 4096 + 4096"
      by (simp_all add: div_times_less_eq_dividend dividend_less_div_times)
    then show "c + ?i * 4096 \<le> x" "x < c + ?i * 4096 + 4096" using assms(2) by linarith+
  qed
  ultimately show "held s (pg x)" "slot s (pg x) = None" "c \<le> pg x" using k(3) by auto
qed

lemma cell_large_disjoint:
  assumes "cell s a b" "large_block s c sz"
  shows "{a ..< a + bsz b} \<inter> {c ..< c + sz} = {}"
proof (rule ccontr)
  assume "{a ..< a + bsz b} \<inter> {c ..< c + sz} \<noteq> {}"
  then obtain x where "x \<in> {a ..< a + bsz b} \<inter> {c ..< c + sz}" by blast
  then have x: "a \<le> x" "x < a + bsz b" "c \<le> x" "x < c + sz" by auto
  have "slot s (pg x) = None" using large_page(2) [OF assms(2) x(3,4)] .
  then show False using pg_in_cell [OF assms(1) x(1,2)] assms(1) by (auto simp: cell_def)
qed

section \<open>Keeping blocks\<close>

lemma HEAP_ALIGNED_neq [simp]: "HEAP_MAGIC \<noteq> ALIGNED_MAGIC" "HEAP_MAGIC \<noteq> 0" "ALIGNED_MAGIC \<noteq> HEAP_MAGIC"
  by (simp_all add: HEAP_MAGIC_def ALIGNED_MAGIC_def)

lemma large_size: "large_block s a sz \<Longrightarrow> 8192 \<le> sz"
  by (auto simp: large_block_def)

lemma small_size: "small_block s a sz \<Longrightarrow> 32 \<le> sz \<and> sz \<le> 4096"
  using bsz_facts by (auto simp: small_block_def cell_def)

lemma serves_header: "serves s p n a sz \<Longrightarrow> a \<le> p - 16 \<and> p - 16 < a + sz \<and> a < a + sz"
  using large_size small_size by (fastforce simp: serves_def)

lemma serves_keep:
  assumes "serves s p n a sz"
    and "\<And>x. a \<le> x \<Longrightarrow> x < a + sz \<Longrightarrow> hdr s' x = hdr s x"
    and "\<And>b. cell s a b \<Longrightarrow> sz = bsz b \<Longrightarrow> a \<notin> set (bucket s b) \<Longrightarrow> cell s' a b \<and> a \<notin> set (bucket s' b)"
    and "large_block s a sz \<Longrightarrow> large_block s' a sz"
  shows "serves s' p n a sz"
proof -
  have "small_block s a sz \<Longrightarrow> small_block s' a sz" using assms(3) by (auto simp: small_block_def)
  moreover have "hdr s' a = hdr s a" "hdr s' (p - 16) = hdr s (p - 16)"
    using serves_header [OF assms(1)] assms(2) by auto
  ultimately show ?thesis using assms(1,4) unfolding serves_def by metis
qed

lemma large_keep:
  assumes "large_block s a sz" "hhdm s' = hhdm s"
    and "\<And>x. a \<le> x \<Longrightarrow> x < a + sz \<Longrightarrow> x mod 4096 = 0 \<Longrightarrow> hhdm s + 4096 \<le> x \<Longrightarrow> slot s x = None \<Longrightarrow> held s x \<Longrightarrow>
      slot s' x = None \<and> held s' x"
  shows "large_block s' a sz"
proof -
  obtain k where k: "k \<ge> 2" "sz = k * 4096" "a mod 4096 = 0" "hhdm s + 4096 \<le> a"
    "\<forall>i < k. held s (a + i * 4096) \<and> slot s (a + i * 4096) = None"
    using assms(1) by (auto simp: large_block_def)
  have "held s' (a + i * 4096) \<and> slot s' (a + i * 4096) = None" if "i < k" for i
    using assms(3) [of "a + i * 4096"] k that by auto
  then show ?thesis using k assms(2) unfolding large_block_def by auto
qed

lemma heap_inv_same:
  assumes "heap_inv s L" "heap_ok s'"
    and "\<And>q m c tz. L q = Some m \<Longrightarrow> serves s q m c tz \<Longrightarrow> serves s' q m c tz"
  shows "heap_inv s' L"
proof -
  obtain A Z where AZ: "\<And>p n. L p = Some n \<Longrightarrow> serves s p n (A p) (Z p)"
    "\<And>p q. p \<in> dom L \<Longrightarrow> q \<in> dom L \<Longrightarrow> p \<noteq> q \<Longrightarrow> {A p ..< A p + Z p} \<inter> {A q ..< A q + Z q} = {}"
    using assms(1) unfolding heap_inv_def by blast
  then show ?thesis
    unfolding heap_inv_def using assms(2,3) by (intro conjI exI [of _ A] exI [of _ Z]) blast+
qed

lemma heap_inv_alloc:
  assumes inv: "heap_inv s L" and ok: "heap_ok s'" and new: "serves s' p n a sz"
    and old: "\<And>q m c tz. L q = Some m \<Longrightarrow> serves s q m c tz \<Longrightarrow>
      serves s' q m c tz \<and> {c ..< c + tz} \<inter> {a ..< a + sz} = {}"
  shows "L p = None \<and> heap_inv s' (L(p \<mapsto> n))"
proof -
  obtain A Z where AZ: "\<And>p n. L p = Some n \<Longrightarrow> serves s p n (A p) (Z p)"
    "\<And>p q. p \<in> dom L \<Longrightarrow> q \<in> dom L \<Longrightarrow> p \<noteq> q \<Longrightarrow> {A p ..< A p + Z p} \<inter> {A q ..< A q + Z q} = {}"
    using inv unfolding heap_inv_def by blast
  have fresh: "L p = None"
  proof (rule ccontr)
    assume "L p \<noteq> None"
    then obtain m where "L p = Some m" by blast
    from old [OF this AZ(1) [OF this]] serves_header [OF AZ(1) [OF this]] serves_header [OF new]
    show False by (metis atLeastLessThan_iff disjoint_iff)
  qed
  let ?A = "A(p := a)" and ?Z = "Z(p := sz)"
  have "serves s' q m (?A q) (?Z q)" if "(L(p \<mapsto> n)) q = Some m" for q m
    using that new old AZ(1) by (cases "q = p") auto
  moreover have "{?A q ..< ?A q + ?Z q} \<inter> {?A r ..< ?A r + ?Z r} = {}"
    if qr: "q \<in> dom (L(p \<mapsto> n))" "r \<in> dom (L(p \<mapsto> n))" "q \<noteq> r" for q r
  proof -
    have d: "{A x ..< A x + Z x} \<inter> {a ..< a + sz} = {}" if "x \<in> dom L" for x
      using old AZ(1) that by blast
    consider "q = p" "r \<in> dom L" "r \<noteq> p" | "r = p" "q \<in> dom L" "q \<noteq> p" | "q \<in> dom L" "r \<in> dom L" "q \<noteq> p" "r \<noteq> p"
      using qr by auto
    then show ?thesis
    proof cases
      case 1
      then show ?thesis using d [of r] by (simp add: Int_commute)
    next
      case 2
      then show ?thesis using d [of q] by simp
    next
      case 3
      then show ?thesis using AZ(2) qr(3) by simp
    qed
  qed
  ultimately have "heap_inv s' (L(p \<mapsto> n))"
    unfolding heap_inv_def using ok by (intro conjI exI [of _ ?A] exI [of _ ?Z]) blast+
  then show ?thesis using fresh by simp
qed

lemma heap_inv_release:
  assumes "heap_inv s L" "L p = Some n"
  obtains a sz where "serves s p n a sz"
    "\<And>s'. heap_ok s' \<Longrightarrow> (\<And>q m c tz. L q = Some m \<Longrightarrow> q \<noteq> p \<Longrightarrow> serves s q m c tz \<Longrightarrow>
       {c ..< c + tz} \<inter> {a ..< a + sz} = {} \<Longrightarrow> serves s' q m c tz) \<Longrightarrow> heap_inv s' (L(p := None))"
proof -
  obtain A Z where AZ: "\<And>p n. L p = Some n \<Longrightarrow> serves s p n (A p) (Z p)"
    "\<And>p q. p \<in> dom L \<Longrightarrow> q \<in> dom L \<Longrightarrow> p \<noteq> q \<Longrightarrow> {A p ..< A p + Z p} \<inter> {A q ..< A q + Z q} = {}"
    using assms(1) unfolding heap_inv_def by blast
  show thesis
  proof (rule that [OF AZ(1) [OF assms(2)]])
    fix s' assume s': "heap_ok s'" "\<And>q m c tz. L q = Some m \<Longrightarrow> q \<noteq> p \<Longrightarrow> serves s q m c tz \<Longrightarrow>
       {c ..< c + tz} \<inter> {A p ..< A p + Z p} = {} \<Longrightarrow> serves s' q m c tz"
    have "serves s' q m (A q) (Z q)" if "(L(p := None)) q = Some m" for q m
    proof -
      have q: "L q = Some m" "q \<noteq> p" using that by (auto split: if_splits)
      then have "{A q ..< A q + Z q} \<inter> {A p ..< A p + Z p} = {}" using AZ(2) assms(2) by blast
      then show ?thesis using s'(2) q AZ(1) by blast
    qed
    moreover have "{A q ..< A q + Z q} \<inter> {A r ..< A r + Z r} = {}"
      if "q \<in> dom (L(p := None))" "r \<in> dom (L(p := None))" "q \<noteq> r" for q r
      using AZ(2) that by auto
    ultimately show "heap_inv s' (L(p := None))"
      unfolding heap_inv_def using s'(1) by (intro conjI exI [of _ A] exI [of _ Z]) blast+
  qed
qed

lemma heap_inv_serves: "heap_inv s L \<Longrightarrow> L p = Some n \<Longrightarrow> \<exists>a sz. serves s p n a sz"
  unfolding heap_inv_def by blast

lemma heap_inv_drop: "heap_inv s L \<Longrightarrow> heap_inv s (L(p := None))"
proof -
  assume inv: "heap_inv s L"
  obtain A Z where AZ: "\<And>p n. L p = Some n \<Longrightarrow> serves s p n (A p) (Z p)"
    "\<And>p q. p \<in> dom L \<Longrightarrow> q \<in> dom L \<Longrightarrow> p \<noteq> q \<Longrightarrow> {A p ..< A p + Z p} \<inter> {A q ..< A q + Z q} = {}"
    using inv unfolding heap_inv_def by blast
  have 1: "\<forall>q m. (L(p := None)) q = Some m \<longrightarrow> serves s q m (A q) (Z q)" using AZ(1) by (simp split: if_splits)
  have 2: "\<forall>q r. q \<in> dom (L(p := None)) \<and> r \<in> dom (L(p := None)) \<and> q \<noteq> r \<longrightarrow>
      {A q ..< A q + Z q} \<inter> {A r ..< A r + Z r} = {}"
  proof (intro allI impI)
    fix q r assume qr: "q \<in> dom (L(p := None)) \<and> r \<in> dom (L(p := None)) \<and> q \<noteq> r"
    then have "q \<in> dom L" "r \<in> dom L" by auto
    then show "{A q ..< A q + Z q} \<inter> {A r ..< A r + Z r} = {}" using AZ(2) qr by blast
  qed
  have "heap_ok s" using inv by (simp add: heap_inv_def)
  then show ?thesis using 1 2 unfolding heap_inv_def by (intro conjI exI [of _ A] exI [of _ Z])
qed

lemma heap_inv_disjoint: "heap_inv s L \<Longrightarrow> blocks_disjoint L"
  unfolding blocks_disjoint_def
proof (intro allI impI)
  fix p q :: nat
  assume inv: "heap_inv s L" and "p \<noteq> q"
  obtain A Z where AZ: "\<And>p n. L p = Some n \<Longrightarrow> serves s p n (A p) (Z p)"
    "\<And>p q. p \<in> dom L \<Longrightarrow> q \<in> dom L \<Longrightarrow> p \<noteq> q \<Longrightarrow> {A p ..< A p + Z p} \<inter> {A q ..< A q + Z q} = {}"
    using inv unfolding heap_inv_def by blast
  have "block_bytes L x \<subseteq> {A x ..< A x + Z x}" if "L x \<noteq> None" for x
    using AZ(1) [of x] that by (auto simp: block_bytes_def serves_def)
  moreover have "block_bytes L x = {}" if "L x = None" for x using that by (simp add: block_bytes_def)
  ultimately show "block_bytes L p \<inter> block_bytes L q = {}"
    using AZ(2) [OF _ _ \<open>p \<noteq> q\<close>] by (cases "L p = None \<or> L q = None") blast+
qed


section \<open>Taking and carving blocks\<close>

lemma heap_okD:
  assumes "heap_ok s"
  shows "pmm_inv (h_pmm s)" "hhdm s mod 4096 = 0" "tracker_ok (g_page_slots s)" "length (g_buckets s) = 8"
    "slot s p = Some t \<Longrightarrow> slot_ok s p t" "b < 8 \<Longrightarrow> distinct (bucket s b)"
    "b < 8 \<Longrightarrow> a \<in> set (bucket s b) \<Longrightarrow> cell s a b"
  using assms by (auto simp: heap_ok_def)

lemma slot_page: "heap_ok s \<Longrightarrow> slot s p = Some t \<Longrightarrow> page_virt t = p \<and> is_page p"
  using tracked_Some by (auto simp: heap_ok_def)

lemma cell_bucket: "cell s a b \<Longrightarrow> b < 8"
  by (simp add: cell_def)

text \<open>A block of a bucket leaves it.\<close>

lemma page_tracker_alloc_block_slot:
  assumes ok: "heap_ok s" and a: "b < 8" "a \<in> set (bucket s b)" and t: "slot s (pg a) = Some t"
  defines "slots \<equiv> page_tracker_alloc_block (g_page_slots s) a"
  shows "tracker_ok slots" "tracked slots = (slot s)(pg a \<mapsto> t\<lparr>free_count := free_count t - 1\<rparr>)" "0 < free_count t"
proof -
  note tr = heap_okD(3) [OF ok]
  obtain k where k: "page_tracker_find (g_page_slots s) (pg a) = Some k" "k < length (g_page_slots s)"
    "g_page_slots s ! k = t" "page_virt t = pg a" "is_page (pg a)"
    using page_tracker_find_eq [OF tr t] by metis
  have "slot_bucket t = b" using heap_okD(7) [OF ok a] t by (auto simp: cell_def)
  then have "a \<in> {x \<in> set (bucket s (slot_bucket t)). pg x = pg a}" using a by simp
  then have "0 < card {x \<in> set (bucket s (slot_bucket t)). pg x = pg a}" by (auto simp: card_gt_0_iff)
  then show f: "0 < free_count t" using heap_okD(5) [OF ok t] by (simp add: slot_ok_def)
  have len: "k < MAX_TRACKED_PAGES" using k(2) tr by (simp add: tracker_ok_def)
  have slots: "slots = (g_page_slots s)[k := t\<lparr>free_count := free_count t - 1\<rparr>]"
    using k f by (simp add: slots_def page_tracker_alloc_block_def)
  show "tracker_ok slots" unfolding slots using k by (intro tracker_ok_update [OF tr len]) simp
  have "page_virt t \<noteq> SLOT_TOMBSTONE" using k by (simp add: is_page_def)
  then show "tracked slots = (slot s)(pg a \<mapsto> t\<lparr>free_count := free_count t - 1\<rparr>)"
    unfolding slots using k by (subst tracked_update [OF tr len]) auto
qed

lemma card_page_tl:
  assumes "distinct xs" "xs \<noteq> []"
  shows "card {a \<in> set (tl xs). pg a = p} = card {a \<in> set xs. pg a = p} - (if pg (hd xs) = p then 1 else 0)"
proof (cases xs)
  case (Cons x ys)
  have "{a \<in> set xs. pg a = p} = (if pg x = p then insert x {a \<in> set ys. pg a = p} else {a \<in> set ys. pg a = p})"
    using Cons by auto
  then show ?thesis using Cons assms(1) by auto
qed (use assms in simp)

lemma take_block_inv:
  assumes inv: "heap_inv s L" and b: "b < 8" "bucket s b \<noteq> []" and n: "n + 16 \<le> bsz b"
    and take: "take_block s b = (p, s')"
  shows "L p = None \<and> heap_inv s' (L(p \<mapsto> n)) \<and> p \<noteq> 0 \<and> p mod 16 = 0 \<and> h_magic (hdr s' (p - 16)) = HEAP_MAGIC"
proof -
  have ok: "heap_ok s" using inv by (simp add: heap_inv_def)
  define a where "a = hd (bucket s b)"
  have a: "a \<in> set (bucket s b)" "bucket s b = a # tl (bucket s b)" using b(2) by (simp_all add: a_def)
  note c = heap_okD(7) [OF ok b(1) a(1)]
  obtain t where t: "slot s (pg a) = Some t" "slot_bucket t = b" using c by (auto simp: cell_def)
  note tr = page_tracker_alloc_block_slot [OF ok b(1) a(1) t(1)]
  have p: "p = a + 16" and s': "h_pmm s' = h_pmm s" "hhdm s' = hhdm s"
    "slot s' = (slot s)(pg a \<mapsto> t\<lparr>free_count := free_count t - 1\<rparr>)" "tracker_ok (g_page_slots s')"
    "hdr s' = (hdr s)(a := \<lparr>h_size = bsz b, h_magic = HEAP_MAGIC\<rparr>)"
    "g_buckets s' = (g_buckets s)[b := tl (bucket s b)]"
    using take tr(1,2) by (auto simp: take_block_def set_header_def Let_def a_def [symmetric])
  have bk: "bucket s' d = (if d = b then tl (bucket s b) else bucket s d)" if "d < 8" for d
    using s'(6) heap_okD(4) [OF ok] that by simp
  have sub: "set (bucket s' d) \<subseteq> set (bucket s d)" if "d < 8" for d
    using bk [OF that] a(2) by (auto dest: list.set_sel(2) [of "bucket s b", rotated])
  have cell: "cell s' x d = cell s x d" for x d using t by (auto simp: cell_def s'(3))
  have notin: "a \<notin> set (bucket s' b)" using bk [OF b(1)] a(2) heap_okD(6) [OF ok b(1)] by (metis distinct.simps(2))
  have "slot_ok s' q u" if "slot s' q = Some u" for q u
  proof -
    have held: "held s' q = held s q" by (simp add: s' frame_of_def)
    note card = card_page_tl [OF heap_okD(6) [OF ok b(1)] b(2), folded a_def]
    show ?thesis
    proof (cases "q = pg a")
      case True
      then show ?thesis
        using that heap_okD(5) [OF ok t(1)] t(2) card [of "pg a"] bk [OF b(1)] held s' by (auto simp: slot_ok_def)
    next
      case False
      then have "slot s q = Some u" using that s'(3) by simp
      then show ?thesis
        using heap_okD(5) [OF ok, of q u] False card [of q] bk held s' by (auto simp: slot_ok_def)
    qed
  qed
  moreover have "distinct (bucket s' d) \<and> (\<forall>x \<in> set (bucket s' d). cell s' x d)" if "d < 8" for d
    using heap_okD(6,7) [OF ok that] sub [OF that] bk [OF that] cell by (auto intro: distinct_tl)
  ultimately have ok': "heap_ok s'" using ok s' by (simp add: heap_ok_def)
  have new: "serves s' p n a (bsz b)"
    unfolding serves_def small_block_def using p s'(5) n c notin cell by auto
  have old: "serves s' q m x tz \<and> {x ..< x + tz} \<inter> {a ..< a + bsz b} = {}" if "serves s q m x tz" for q m x tz
  proof -
    have dis: "{x ..< x + tz} \<inter> {a ..< a + bsz b} = {}"
    proof (cases "small_block s x tz")
      case True
      then obtain d where d: "cell s x d" "tz = bsz d" "x \<notin> set (bucket s d)" by (auto simp: small_block_def)
      have "x \<noteq> a" using d a(1) t by (auto simp: cell_def)
      then show ?thesis using cells_disjoint [OF d(1) c] d(2) by simp
    next
      case False
      then show ?thesis using that cell_large_disjoint [OF c, of x tz] by (auto simp: serves_def)
    qed
    have "0 < bsz b" using bsz_facts b by simp
    then have na: "a \<notin> {x ..< x + tz}" using dis by (metis IntI atLeastLessThan_iff empty_iff le_refl less_add_same_cancel1)
    have "serves s' q m x tz"
    proof (rule serves_keep [OF that])
      show "hdr s' y = hdr s y" if "x \<le> y" "y < x + tz" for y using na that s'(5) by auto
      show "cell s' x d \<and> x \<notin> set (bucket s' d)" if "cell s x d" "x \<notin> set (bucket s d)" for d
        using that sub [OF cell_bucket [OF that(1)]] cell by blast
      show "large_block s' x tz" if "large_block s x tz"
        using t(1) by (intro large_keep [OF that s'(2)]) (auto simp: s'(1,2,3) frame_of_def)
    qed
    then show ?thesis using dis by simp
  qed
  have "16 dvd bsz b" using bsz_cases [OF b(1)] by auto
  then have "16 dvd a" using c by (auto simp: cell_def mod_eq_0_iff_dvd intro: dvd_trans)
  then show ?thesis using heap_inv_alloc [OF inv ok' new] old p s'(5) by (auto simp: mod_eq_0_iff_dvd)
qed


lemma pmm_bits:
  "pmm_alloc_frame s = (p, s') \<Longrightarrow> g_bitmap_bits s' = g_bitmap_bits s"
  "pmm_alloc_frames s n = (p, s') \<Longrightarrow> g_bitmap_bits s' = g_bitmap_bits s"
  "g_bitmap_bits (pmm_refcount_dec s q) = g_bitmap_bits s"
proof -
  have r: "g_bitmap_bits (reserve_frame_permanently t i) = g_bitmap_bits t" for t i
    by (simp add: reserve_frame_permanently_def Let_def)
  have f: "pmm_alloc_frame s = (p, s') \<Longrightarrow> g_bitmap_bits s' = g_bitmap_bits s" for p s'
    by (auto simp: pmm_alloc_frame_def r Let_def split: prod.splits if_splits)
  then show "pmm_alloc_frame s = (p, s') \<Longrightarrow> g_bitmap_bits s' = g_bitmap_bits s" .
  show "pmm_alloc_frames s n = (p, s') \<Longrightarrow> g_bitmap_bits s' = g_bitmap_bits s"
    by (auto simp: pmm_alloc_frames_def Let_def f split: if_splits)
  show "g_bitmap_bits (pmm_refcount_dec s q) = g_bitmap_bits s"
    by (simp add: pmm_refcount_dec_def Let_def)
qed

lemma frame_of_phys: "frame_ptr p \<Longrightarrow> frame_of s (p + hhdm s) = p div 4096"
  by (simp add: frame_of_def)

text \<open>A frame that is free is neither cut into blocks nor part of a large block.\<close>

lemma free_frame_unused:
  assumes "heap_ok s" "f \<in> free_frames (h_pmm s)" "frame_of s x = f"
  shows "slot s x = None" "\<not> held s x"
proof -
  show h: "\<not> held s x" using assms pmm_fa.avail_refs [OF heap_okD(1) [OF assms(1)]] by auto
  show "slot s x = None" using h heap_okD(5) [OF assms(1), of x] by (cases "slot s x") (auto simp: slot_ok_def)
qed

lemma page_blocks_set:
  assumes "b < 8" "P mod 4096 = 0"
  shows "distinct (page_blocks P (bsz b))" "length (page_blocks P (bsz b)) = 4096 div bsz b"
    "a \<in> set (page_blocks P (bsz b)) \<longleftrightarrow> pg a = P \<and> a mod bsz b = 0"
proof -
  note z = bsz_facts [OF assms(1)]
  show "distinct (page_blocks P (bsz b))" "length (page_blocks P (bsz b)) = 4096 div bsz b"
    using z(4) by (auto simp: page_blocks_def distinct_map inj_on_def)
  have dP: "bsz b dvd P" using z(1) assms(2) by (metis dvd_trans mod_0_imp_dvd)
  show "a \<in> set (page_blocks P (bsz b)) \<longleftrightarrow> pg a = P \<and> a mod bsz b = 0"
  proof
    assume "a \<in> set (page_blocks P (bsz b))"
    then obtain i where i: "i < 4096 div bsz b" "a = P + i * bsz b" by (auto simp: page_blocks_def)
    then have "i * bsz b < 4096" using z(5) by (metis mult_less_cancel2 z(4))
    then have "pg a = P" using i(2) by (intro pg_unique [OF assms(2)]) auto
    then show "pg a = P \<and> a mod bsz b = 0" using i(2) dP by auto
  next
    assume a: "pg a = P \<and> a mod bsz b = 0"
    then have "bsz b dvd a - P" using dP by (intro dvd_diff_nat) auto
    then obtain i where i: "a - P = bsz b * i" by (auto simp: dvd_def)
    then have e: "a = P + i * bsz b" using a pg_facts(1) [of a] by (simp add: mult.commute)
    then have "i * bsz b < 4096 div bsz b * bsz b" using a pg_facts(2) [of a] z(5) by simp
    then show "a \<in> set (page_blocks P (bsz b))" using e by (auto simp: page_blocks_def)
  qed
qed

lemma carve_page_inv:
  assumes inv: "heap_inv s L" and b: "b < 8" and al: "pmm_alloc_frame (h_pmm s) = (ph, pm)" "ph \<noteq> 0"
    and add: "page_tracker_add (g_page_slots s) (ph + hhdm s) b (4096 div bsz b) = (True, slots)"
  defines "s' \<equiv> carve_page (s\<lparr>h_pmm := pm, g_page_slots := slots\<rparr>) b (ph + hhdm s)"
  shows "heap_inv s' L" "bucket s' b \<noteq> []"
proof -
  define P where "P = ph + hhdm s"
  let ?t = "\<lparr>page_virt = P, slot_bucket = b, free_count = 4096 div bsz b, total_count = 4096 div bsz b\<rparr>"
  have ok: "heap_ok s" using inv by (simp add: heap_inv_def)
  note al' = pmm_alloc_frame_taken [OF heap_okD(1) [OF ok] al(1)]
  have ph: "frame_ptr ph" "ph div 4096 \<in> free_frames (h_pmm s)"
    "pmm_refs pm = (\<lambda>f. if f = ph div 4096 then 1 else pmm_refs (h_pmm s) f)" using al'(4) [OF al(2)] by auto
  note F = frame_of_phys [OF ph(1), of s, folded P_def]
  note un = free_frame_unused [OF ok ph(2)]
  have P: "P mod 4096 = 0" "hhdm s + 4096 \<le> P"
    using ph(1) heap_okD(2) [OF ok] by (auto simp: P_def frame_ptr_def dest: mod_eq_dvd_iff_nat dvd_imp_le)
  have isP: "is_page P" using P by (auto simp: is_page_def SLOT_EMPTY_def SLOT_TOMBSTONE_def)
  have slP: "slot s P = None" by (rule un(1) [OF F])
  have s': "h_pmm s' = pm" "hhdm s' = hhdm s" "hdr s' = hdr s" "g_page_slots s' = slots"
    "g_buckets s' = (g_buckets s)[b := rev (page_blocks P (bsz b)) @ bucket s b]"
    by (simp_all add: s'_def carve_page_def P_def)
  have tr: "tracker_ok slots" "slot s' = (slot s)(P \<mapsto> ?t)"
    using page_tracker_add_correct [OF heap_okD(3) [OF ok] isP slP] add by (auto simp: P_def s'(4))
  have bk: "bucket s' d = (if d = b then rev (page_blocks P (bsz b)) @ bucket s b else bucket s d)" if "d < 8" for d
    using s'(5) heap_okD(4) [OF ok] that by simp
  note pb = page_blocks_set [OF b P(1)]
  have held: "held s' x" if "held s x" for x using that by (simp add: s' frame_of_def ph(3))
  have pgn: "pg x \<noteq> P" if "cell s x d" for x d using that slP by (auto simp: cell_def)
  have cell: "cell s' x d" if "cell s x d" for x d using pgn [OF that] that by (simp add: cell_def tr(2))
  have slots: "slot_ok s' q u" if "slot s' q = Some u" for q u
  proof (cases "q = P")
    case True
    then have u: "u = ?t" using that tr(2) by simp
    have "pg x \<noteq> P" if "x \<in> set (bucket s b)" for x using pgn heap_okD(7) [OF ok b that] by blast
    then have "{a \<in> set (bucket s' b). pg a = P} = set (page_blocks P (bsz b))" using bk [OF b] pb(3) by auto
    then have "card {a \<in> set (bucket s' b). pg a = P} = 4096 div bsz b" using pb(1,2) by (simp add: distinct_card)
    moreover have "held s' P" using F by (simp add: s' frame_of_def ph(3))
    ultimately show ?thesis using True u P b s'(2) by (simp add: slot_ok_def)
  next
    case False
    then have q: "slot s q = Some u" using that tr(2) by simp
    have "{a \<in> set (bucket s' d). pg a = q} = {a \<in> set (bucket s d). pg a = q}" if "d < 8" for d
      using bk [OF that] pb(3) False by auto
    then show ?thesis using heap_okD(5) [OF ok q] held s'(2) by (simp add: slot_ok_def)
  qed
  have buckets: "distinct (bucket s' d) \<and> (\<forall>x \<in> set (bucket s' d). cell s' x d)" if "d < 8" for d
  proof (cases "d = b")
    case True
    have "set (page_blocks P (bsz b)) \<inter> set (bucket s b) = {}" using pb(3) pgn heap_okD(7) [OF ok b] by blast
    moreover have "cell s' x b" if "x \<in> set (page_blocks P (bsz b))" for x
      using that pb(3) b by (simp add: cell_def tr(2))
    ultimately show ?thesis using True bk [OF b] pb(1) heap_okD(6,7) [OF ok b] cell by auto
  next
    case False
    then show ?thesis using bk [OF that] heap_okD(6,7) [OF ok that] cell by simp
  qed
  have ok': "heap_ok s'" unfolding heap_ok_def
    using al'(1) ok tr(1) slots buckets pmm_bits(1) [OF al(1)] by (auto simp: s' heap_ok_def)
  have "serves s' q m x tz" if "serves s q m x tz" for q m x tz
  proof (rule serves_keep [OF that])
    show "cell s' x d \<and> x \<notin> set (bucket s' d)" if "cell s x d" "x \<notin> set (bucket s d)" for d
      using that cell pgn pb(3) bk [OF cell_bucket [OF that(1)]] by auto
    show "large_block s' x tz" if "large_block s x tz"
      using large_keep [OF that s'(2)] held tr(2) un(2) [OF F] by (metis fun_upd_other)
  qed (simp add: s')
  then show "heap_inv s' L" using heap_inv_same [OF inv ok'] by blast
  have "page_blocks P (bsz b) \<noteq> []" using pb(2) bsz_facts(6) [OF b] by auto
  then show "bucket s' b \<noteq> []" using bk [OF b] by simp
qed


section \<open>Allocation keeps the invariant\<close>

lemma heap_inv_pmm:
  assumes "heap_inv s L" "pmm_inv pm" "pmm_refs pm = pmm_refs (h_pmm s)" "g_bitmap_bits pm = g_bitmap_bits (h_pmm s)"
  shows "heap_inv (s\<lparr>h_pmm := pm\<rparr>) L"
proof -
  let ?s = "s\<lparr>h_pmm := pm\<rparr>"
  have eq: "frame_of ?s = frame_of s" "cell ?s = cell s" "slot_ok ?s = slot_ok s"
    by (auto simp: frame_of_def cell_def slot_ok_def assms(3) fun_eq_iff)
  have "heap_ok ?s" using assms(1,2) by (simp add: heap_inv_def heap_ok_def eq assms(4))
  moreover have "serves ?s q m a sz" if "serves s q m a sz" for q m a sz
    using that by (simp add: serves_def small_block_def large_block_def eq assms(3))
  ultimately show ?thesis using heap_inv_same [OF assms(1)] by blast
qed

lemma heap_alloc_large_inv:
  assumes inv: "heap_inv s L" and tot: "4096 < tot" "tot < 2 ^ 64" "n + 16 = tot"
    and al: "heap_alloc_large s tot = (p, s')"
  shows "if p = 0 then heap_inv s' L
    else L p = None \<and> heap_inv s' (L(p \<mapsto> n)) \<and> p mod 16 = 0 \<and> h_magic (hdr s' (p - 16)) = HEAP_MAGIC"
proof -
  have ok: "heap_ok s" using inv by (simp add: heap_inv_def)
  define k where "k = wrap64 (tot + 4095) div 4096"
  obtain ph pm where fr: "pmm_alloc_frames (h_pmm s) k = (ph, pm)" by fastforce
  note pinv = pmm_fa.alloc_inv [OF heap_okD(1) [OF ok] fr]
  show ?thesis
  proof (cases "ph = 0")
    case True
    then have "p = 0" "s' = s\<lparr>h_pmm := pm\<rparr>" using al fr by (auto simp: heap_alloc_large_def Let_def k_def)
    moreover have "pmm_refs pm = pmm_refs (h_pmm s)"
      using pmm_fa.alloc_fail [OF heap_okD(1) [OF ok]] fr True by blast
    ultimately show ?thesis using heap_inv_pmm [OF inv pinv] pmm_bits(2) [OF fr] by simp
  next
    case False
    have k0: "k \<noteq> 0"
    proof
      assume "k = 0"
      then show False using fr False by (simp add: pmm_alloc_frames_def)
    qed
    have "tot + 4095 < 2 ^ 64"
    proof (rule ccontr)
      assume "\<not> tot + 4095 < 2 ^ 64"
      then have "wrap64 (tot + 4095) = tot + 4095 - 2 ^ 64"
        using tot(2) by (simp add: wrap64_def mod_if [of "tot + 4095"])
      then show False using k0 tot(2) by (simp add: k_def)
    qed
    then have k: "k = (tot + 4095) div 4096" by (simp add: k_def)
    have kb: "2 \<le> k" "tot \<le> k * 4096" "k * 4096 < 2 ^ 64"
      using tot(1) \<open>tot + 4095 < 2 ^ 64\<close> div_times_less_eq_dividend [of "tot + 4095" 4096]
        dividend_less_div_times [of 4096 "tot + 4095"] unfolding k by linarith+
    note ao = pmm_fa.alloc_ok [OF heap_okD(1) [OF ok] fr False]
    define a where "a = ph + hhdm s"
    have s': "p = a + 16" "s' = set_header (s\<lparr>h_pmm := pm\<rparr>) a (k * 4096)"
      using al fr False kb(3) by (auto simp: heap_alloc_large_def Let_def k_def [symmetric] a_def)
    have ph: "frame_ptr ph" "frames_of ph k \<subseteq> free_frames (h_pmm s)"
      "pmm_refs pm = (\<lambda>f. if f \<in> frames_of ph k then 1 else pmm_refs (h_pmm s) f)" using ao by auto
    have am: "a mod 4096 = 0" "hhdm s + 4096 \<le> a"
      using ph(1) heap_okD(2) [OF ok] by (auto simp: a_def frame_ptr_def dest: mod_eq_dvd_iff_nat dvd_imp_le)
    have fo: "frame_of s' = frame_of s" "slot s' = slot s" "\<And>d. bucket s' d = bucket s d"
      by (auto simp: frame_of_def s' set_header_def)
    have mem: "frame_of s x \<in> frames_of ph k" if "a \<le> x" "x < a + k * 4096" for x
    proof -
      have "ph \<le> x - hhdm s" "x - hhdm s < ph + k * 4096" using that by (auto simp: a_def)
      moreover obtain f where "ph = f * 4096" using ph(1) frame_ptr_eq by blast
      ultimately show ?thesis
        by (auto simp: frames_of_def frame_of_def less_eq_div_iff_mult_less_eq div_less_iff_less_mult algebra_simps)
    qed
    have un: "slot s x = None" "\<not> held s x" if "a \<le> x" "x < a + k * 4096" for x
      using free_frame_unused [OF ok _ refl] mem [OF that] ph(2) by blast+
    have held: "held s' x" if "held s x \<or> a \<le> x \<and> x < a + k * 4096" for x
      using that mem [of x] ph(3) by (auto simp: fo s' set_header_def frame_of_def)
    have cell: "cell s' = cell s" by (simp add: cell_def fun_eq_iff fo)
    have ok': "heap_ok s'"
    proof -
      have "slot_ok s' q u" if "slot s q = Some u" for q u
        using heap_okD(5) [OF ok that] held by (auto simp: slot_ok_def fo s' set_header_def)
      then show ?thesis using ok pinv pmm_bits(2) [OF fr] cell fo
        by (auto simp: heap_ok_def s' set_header_def)
    qed
    have lb: "large_block s' a (k * 4096)"
      unfolding large_block_def using kb(1) am un held by (intro exI [of _ k]) (auto simp: fo s' set_header_def)
    have new: "serves s' p n a (k * 4096)"
      unfolding serves_def using lb kb tot(3) by (auto simp: s' set_header_def)
    have old: "serves s' q m c tz \<and> {c ..< c + tz} \<inter> {a ..< a + k * 4096} = {}" if sv: "serves s q m c tz" for q m c tz
    proof -
      have ls: "large_block s' c tz" if "large_block s c tz"
        using that held fo by (intro large_keep [OF that]) (auto simp: s' set_header_def)
      have dis: "{c ..< c + tz} \<inter> {a ..< a + k * 4096} = {}"
      proof (cases "small_block s c tz")
        case True
        then show ?thesis using cell_large_disjoint [OF _ lb] by (auto simp: small_block_def cell)
      next
        case False
        then have l: "large_block s c tz" using sv by (simp add: serves_def)
        show ?thesis
        proof (rule ccontr)
          assume "{c ..< c + tz} \<inter> {a ..< a + k * 4096} \<noteq> {}"
          then obtain x where "x \<in> {c ..< c + tz} \<inter> {a ..< a + k * 4096}" by blast
          then have x: "c \<le> x" "x < c + tz" "a \<le> x" "x < a + k * 4096" by auto
          have "a \<le> pg x" "pg x < a + k * 4096" using large_page(3) [OF lb x(3,4)] pg_facts(1) [of x] x(4) by linarith+
          then show False using un(2) large_page(1) [OF l x(1,2)] by blast
        qed
      qed
      moreover have "serves s' q m c tz"
      proof (rule serves_keep [OF sv])
        show "hdr s' x = hdr s x" if "c \<le> x" "x < c + tz" for x
        proof -
          have "x \<noteq> a" using dis that kb(1) by fastforce
          then show ?thesis by (simp add: s' set_header_def)
        qed
      qed (use cell fo ls in auto)
      ultimately show ?thesis by simp
    qed
    have "16 dvd a" using am(1) by (auto simp: mod_eq_0_iff_dvd intro: dvd_trans [of 16 4096])
    then show ?thesis using heap_inv_alloc [OF inv ok' new] old by (auto simp: s' set_header_def)
  qed
qed


lemma malloc_inv:
  assumes inv: "heap_inv s L" and al: "malloc_unlocked s n = (p, s')"
  shows "if p = 0 then heap_inv s' L
    else L p = None \<and> heap_inv s' (L(p \<mapsto> n)) \<and> p mod 16 = 0 \<and> h_magic (hdr s' (p - 16)) = HEAP_MAGIC"
proof -
  consider "n = 0 \<or> 2 ^ 64 \<le> n + 16" | "0 < n" "n + 16 < 2 ^ 64" "4096 < n + 16" | "0 < n" "n + 16 \<le> 4096" by linarith
  then show ?thesis
  proof cases
    case 1
    then show ?thesis using al inv by (auto simp: malloc_unlocked_def add_overflow_def)
  next
    case 2
    then show ?thesis
      using al heap_alloc_large_inv [OF inv, of "n + 16" n p s']
      by (simp add: malloc_unlocked_def add_overflow_def MAX_BUCKET_SIZE_def)
  next
    case 3
    define b where "b = nat (get_bucket_index (n + 16))"
    have b: "b < 8" "n + 16 \<le> bsz b" using get_bucket_index_fits [of "n + 16"] 3 by (simp_all add: b_def)
    show ?thesis
    proof (cases "bucket s b = []")
      case False
      then have "take_block s b = (p, s')"
        using al 3 by (simp add: malloc_unlocked_def add_overflow_def MAX_BUCKET_SIZE_def b_def [symmetric])
      then show ?thesis using take_block_inv [OF inv b(1) False b(2)] by simp
    next
      case True
      have ok: "heap_ok s" using inv by (simp add: heap_inv_def)
      obtain ph pm where fr: "pmm_alloc_frame (h_pmm s) = (ph, pm)" by fastforce
      note pt = pmm_alloc_frame_taken [OF heap_okD(1) [OF ok] fr]
      obtain r slots where ad: "page_tracker_add (g_page_slots s) (ph + hhdm s) b (4096 div bsz b) = (r, slots)" by fastforce
      have m: "(p, s') = (if ph = 0 then (0, s\<lparr>h_pmm := pm\<rparr>)
          else if \<not> r then (0, s\<lparr>h_pmm := pmm_free_frame pm ph\<rparr>)
          else take_block (carve_page (s\<lparr>h_pmm := pm, g_page_slots := slots\<rparr>) b (ph + hhdm s)) b)"
        using al 3 True fr ad
        by (simp add: malloc_unlocked_def add_overflow_def MAX_BUCKET_SIZE_def b_def [symmetric] Let_def split: if_splits)
      consider "ph = 0" | "ph \<noteq> 0" "\<not> r" | "ph \<noteq> 0" r by blast
      then show ?thesis
      proof cases
        case 1
        then show ?thesis using m heap_inv_pmm [OF inv pt(1)] pt(2) pmm_bits(1) [OF fr] by simp
      next
        case 2
        have f: "frame_ptr ph" "pmm_refs pm (ph div 4096) = 1" "ph div 4096 \<in> free_frames (h_pmm s)"
          "pmm_refs pm = (\<lambda>f. if f = ph div 4096 then 1 else pmm_refs (h_pmm s) f)" using pt(4) 2 by auto
        have "pmm_refs (pmm_refcount_dec pm ph) = pmm_refs (h_pmm s)"
          using pmm_fa.dec_ok [OF pt(1) f(1)] f pmm_fa.avail_refs [OF heap_okD(1) [OF ok] f(3)] by (auto simp: fun_eq_iff)
        then show ?thesis
          using m 2 heap_inv_pmm [OF inv] pmm_fa.dec_ok [OF pt(1) f(1)] f(2) pmm_bits(1) [OF fr]
          by (simp add: pmm_free_frame_def pmm_bits(3))
      next
        case 3
        then have "page_tracker_add (g_page_slots s) (ph + hhdm s) b (4096 div bsz b) = (True, slots)" using ad by simp
        note c = carve_page_inv [OF inv b(1) fr 3(1) this]
        show ?thesis using take_block_inv [OF c(1) b(1) c(2) b(2), of p s'] m 3 by simp
      qed
    qed
  qed
qed

section \<open>Aligned blocks\<close>

lemma power_of_two: "is_power_of_two v \<Longrightarrow> \<exists>k. v = 2 ^ k"
proof (induction v rule: less_induct)
  case (less v)
  show ?case
  proof (cases "even v")
    case True
    then obtain w where w: "v = 2 * w" by blast
    have "w \<noteq> 0" using less.prems w by (simp add: is_power_of_two_def)
    moreover have "v AND (v - 1) = 2 * (w AND (w - 1))"
    proof -
      have "v div 2 = w" "(v - 1) div 2 = w - 1" using w \<open>w \<noteq> 0\<close> by auto
      then show ?thesis using True by (subst and_rec) simp
    qed
    ultimately have "is_power_of_two w" "w < v" using less.prems w by (auto simp: is_power_of_two_def)
    then obtain k where "w = 2 ^ k" using less.IH by blast
    then show ?thesis using w by (intro exI [of _ "Suc k"]) simp
  next
    case False
    then have "v AND (v - 1) = 2 * (v div 2)"
      by (subst and_rec) (auto elim!: oddE)
    then have "v div 2 = 0" using less.prems by (simp add: is_power_of_two_def)
    then have "v = 1" using False by (auto elim!: oddE)
    then show ?thesis by (intro exI [of _ 0]) simp
  qed
qed

lemma round_down_mask:
  assumes "x < 2 ^ 64" "k < 64"
  shows "unat ((of_nat x :: u64) AND NOT (of_nat (2 ^ k - 1))) = x div 2 ^ k * 2 ^ k"
proof -
  have "(of_nat (2 ^ k - 1) :: u64) = mask k" by (simp add: mask_eq_exp_minus_1 of_nat_diff)
  then have "(of_nat x :: u64) AND NOT (of_nat (2 ^ k - 1)) = push_bit k (drop_bit k (of_nat x))"
    by (auto intro!: bit_eqI simp: bit_simps)
  moreover have "unat (push_bit k (drop_bit k (of_nat x :: u64))) = x div 2 ^ k * 2 ^ k"
  proof -
    have "x div 2 ^ k * 2 ^ k < 2 ^ 64" using assms(1) div_times_less_eq_dividend [of x "2 ^ k"] by linarith
    moreover have "unat (push_bit k (drop_bit k (of_nat x :: u64))) = take_bit 64 (push_bit k (drop_bit k (take_bit 64 (unat (of_nat x :: u64)))))"
      by (simp add: unsigned_push_bit_eq unsigned_drop_bit_eq)
    ultimately show ?thesis using assms by (simp add: push_bit_eq_mult drop_bit_eq_div take_bit_eq_mod unat_of_nat)
  qed
  ultimately show ?thesis by simp
qed


lemma serves_resolve:
  assumes "serves s p n a sz"
  shows "heap_resolve_header s p = Some (a, a + 16, p \<noteq> a + 16)"
  using assms by (auto simp: serves_def heap_resolve_header_def Let_def)

lemma serves_unique: "serves s p n a sz \<Longrightarrow> serves s p m c tz \<Longrightarrow> c = a \<and> tz = sz"
  using serves_resolve [of s p n a sz] serves_resolve [of s p m c tz] by (auto simp: serves_def)

lemma serves_disjoint:
  assumes "heap_inv s L" "L p = Some n" "L q = Some m" "p \<noteq> q" "serves s p n a sz" "serves s q m c tz"
  shows "{c ..< c + tz} \<inter> {a ..< a + sz} = {}"
proof -
  obtain A Z where AZ: "\<And>p n. L p = Some n \<Longrightarrow> serves s p n (A p) (Z p)"
    "\<And>p q. p \<in> dom L \<Longrightarrow> q \<in> dom L \<Longrightarrow> p \<noteq> q \<Longrightarrow> {A p ..< A p + Z p} \<inter> {A q ..< A q + Z q} = {}"
    using assms(1) unfolding heap_inv_def by blast
  have "A p = a" "Z p = sz" "A q = c" "Z q = tz"
    using serves_unique [OF assms(5) AZ(1) [OF assms(2)]] serves_unique [OF assms(6) AZ(1) [OF assms(3)]] by auto
  moreover have "p \<in> dom L" "q \<in> dom L" using assms(2,3) by blast+
  ultimately show ?thesis using AZ(2) [of q p] assms(4) by metis
qed

lemma held_bound:
  assumes "held s x" "x mod 4096 = 0" "hhdm s mod 4096 = 0" "hhdm s \<le> x"
  shows "x + 4096 \<le> hhdm s + g_bitmap_bits (h_pmm s) * 4096"
proof -
  have "frame_of s x < g_bitmap_bits (h_pmm s)" using assms(1) unfolding pmm_refs_def by (metis zero_neq_one)
  moreover have "4096 dvd x - hhdm s" using assms(2,3) by (intro dvd_diff_nat) (simp_all add: mod_0_imp_dvd)
  then have "x - hhdm s = frame_of s x * 4096" unfolding frame_of_def by (metis dvd_div_mult_self)
  ultimately show ?thesis using assms(4) by linarith
qed

lemma serves_bound:
  assumes ok: "heap_ok s" and sv: "serves s p n a sz"
  shows "a + sz < 2 ^ 64" "hhdm s \<le> a"
proof -
  have "hhdm s \<le> a \<and> a + sz \<le> hhdm s + g_bitmap_bits (h_pmm s) * 4096"
  proof (cases "small_block s a sz")
    case True
    then obtain b t where b: "cell s a b" "sz = bsz b" "slot s (pg a) = Some t" by (auto simp: small_block_def cell_def)
    have t: "held s (pg a)" "hhdm s + 4096 \<le> pg a" using heap_okD(5) [OF ok b(3)] by (auto simp: slot_ok_def)
    then show ?thesis
      using held_bound [OF t(1) pg_facts(3) heap_okD(2) [OF ok]] cell_in_page [OF b(1)] b(2) pg_facts(1) [of a] by linarith
  next
    case False
    then obtain k where k: "k \<ge> 2" "sz = k * 4096" "a mod 4096 = 0" "hhdm s + 4096 \<le> a" "held s (a + (k - 1) * 4096)"
      using sv by (auto simp: serves_def large_block_def)
    have "a + (k - 1) * 4096 + 4096 \<le> hhdm s + g_bitmap_bits (h_pmm s) * 4096"
      using k heap_okD(2) [OF ok] by (intro held_bound) auto
    moreover have "(k - 1) * 4096 + 4096 = k * 4096" using k(1) by (cases k) auto
    ultimately show ?thesis using k by linarith
  qed
  then show "a + sz < 2 ^ 64" "hhdm s \<le> a" using ok by (auto simp: heap_ok_def)
qed

text \<open>Writing a header inside a block touches no other block.\<close>

lemma heap_ok_hdr: "heap_ok (s\<lparr>hdr := h\<rparr>) = heap_ok s"
  by (simp add: heap_ok_def slot_ok_def cell_def frame_of_def)

lemma serves_hdr:
  assumes "serves s q m c tz" "y \<notin> {c ..< c + tz}"
  shows "serves (s\<lparr>hdr := (hdr s)(y := v)\<rparr>) q m c tz"
  using assms(2) by (intro serves_keep [OF assms(1)]) (auto simp: cell_def large_block_def frame_of_def)

lemma round_up_aligned:
  fixes raw al :: nat
  assumes al: "al = 2 ^ k" and lt: "raw + 16 + al - 1 < 2 ^ 64" "al < 2 ^ 64"
  defines "q \<equiv> unat ((of_nat (raw + 16 + al - 1) :: u64) AND NOT (of_nat (al - 1)))"
  shows "raw + 16 \<le> q" "q \<le> raw + 16 + al - 1" "q mod al = 0"
proof -
  have "k < 64" using lt(2) al by (metis power_strict_increasing_iff one_less_numeral_iff semiring_norm(76))
  then have q: "q = (raw + 16 + al - 1) div al * al"
    using round_down_mask [OF lt(1), of k] al by (simp add: q_def)
  have "0 < al" using al by simp
  then show "raw + 16 \<le> q" "q \<le> raw + 16 + al - 1" "q mod al = 0"
    using div_times_less_eq_dividend [of "raw + 16 + al - 1" al] dividend_less_div_times [of al "raw + 16 + al - 1"]
    unfolding q by (linarith, linarith, simp)
qed

lemma aligned_alloc_inv:
  assumes inv: "heap_inv s L" and al: "aligned_alloc s alignment n = (q, s')" and lt: "alignment < 2 ^ 64"
  shows "if q = 0 then heap_inv s' L else L q = None \<and> heap_inv s' (L(q \<mapsto> n)) \<and> q mod alignment = 0"
proof (cases "\<not> is_power_of_two alignment \<or> alignment \<le> 16")
  case True
  show ?thesis
  proof (cases "is_power_of_two alignment")
    case pow: True
    then obtain k where k: "alignment = 2 ^ k" using power_of_two by blast
    then have "(2::nat) ^ k \<le> 2 ^ 4" using True pow by simp
    then have "k \<le> 4" by (simp only: power_increasing_iff)
    then have "alignment dvd 16" using k le_imp_power_dvd [of k 4 "2::nat"] by simp
    moreover have m: "malloc_unlocked s n = (q, s')" using al pow True by (simp add: aligned_alloc_def kmalloc_def)
    ultimately show ?thesis using malloc_inv [OF inv m] by (auto simp: mod_eq_0_iff_dvd intro: dvd_trans)
  qed (use al inv in \<open>simp add: aligned_alloc_def\<close>)
next
  case False
  then obtain k where k: "alignment = 2 ^ k" "16 < alignment" using power_of_two by auto
  define tot where "tot = n + (alignment - 1) + 16"
  obtain raw s1 where m: "malloc_unlocked s tot = (raw, s1)" by fastforce
  note mi = malloc_inv [OF inv m]
  consider "q = 0" "s' = s" | "raw = 0" "q = 0" "s' = s1" | "raw \<noteq> 0" "tot < 2 ^ 64"
    "q = unat ((of_nat (raw + 16 + alignment - 1) :: u64) AND NOT (of_nat (alignment - 1)))"
    "s' = s1\<lparr>hdr := (hdr s1)(q - 16 := \<lparr>h_size = raw, h_magic = ALIGNED_MAGIC\<rparr>)\<rparr>"
  proof (cases "tot < 2 ^ 64")
    case True
    then have t: "add_overflow n (alignment - 1) = Some (n + (alignment - 1))" "add_overflow (n + (alignment - 1)) 16 = Some tot"
      by (simp_all add: add_overflow_def tot_def)
    show thesis
    proof (cases "raw = 0")
      case True
      then show thesis using that(2) al False m t by (simp add: aligned_alloc_def kmalloc_def)
    next
      case r: False
      show thesis using that(3) [OF r True] al False r m t by (auto simp: aligned_alloc_def kmalloc_def Let_def)
    qed
  next
    case F: False
    then have "add_overflow n (alignment - 1) = None \<or>
        add_overflow n (alignment - 1) = Some (n + (alignment - 1)) \<and> add_overflow (n + (alignment - 1)) 16 = None"
      by (auto simp: add_overflow_def tot_def)
    then have "aligned_alloc s alignment n = (0, s)"
      using False unfolding aligned_alloc_def by (elim disjE conjE) (simp_all only: option.case if_False de_Morgan_disj simp_thms)
    then show thesis using that(1) al by simp
  qed
  then show ?thesis
  proof cases
    case 3
    then have inv1: "heap_inv s1 (L(raw \<mapsto> tot))" and Lr: "L raw = None" and hm: "h_magic (hdr s1 (raw - 16)) = HEAP_MAGIC"
      using mi by auto
    have ok1: "heap_ok s1" using inv1 by (simp add: heap_inv_def)
    obtain a sz where sv: "serves s1 raw tot a sz" using heap_inv_serves [OF inv1, of raw tot] by auto
    then have raw: "raw = a + 16" "raw + tot \<le> a + sz" using hm by (auto simp: serves_def)
    note bd = serves_bound [OF ok1 sv]
    have q: "raw + 16 \<le> q" "q \<le> raw + 16 + alignment - 1" "q mod alignment = 0"
      using round_up_aligned [OF k(1) _ lt, of raw] 3(3) raw bd(1) by (auto simp: tot_def)
    have new: "serves s' q n a sz"
    proof -
      have "q - 16 \<noteq> a" "a + 32 \<le> q" "q + n \<le> a + sz" using q raw k(2) by (auto simp: tot_def)
      moreover have "small_block s' a sz \<or> large_block s' a sz"
        using sv by (auto simp: serves_def 3(4) small_block_def large_block_def cell_def frame_of_def)
      ultimately show ?thesis using sv raw(1) by (auto simp: serves_def 3(4))
    qed
    have old: "serves s' r m c tz \<and> {c ..< c + tz} \<inter> {a ..< a + sz} = {}" if "L r = Some m" "serves s1 r m c tz" for r m c tz
    proof -
      have rn: "r \<noteq> raw" using that(1) Lr by auto
      then have dis: "{c ..< c + tz} \<inter> {a ..< a + sz} = {}"
        using that(1) by (intro serves_disjoint [OF inv1 _ _ _ sv that(2)]) auto
      moreover have "q - 16 \<in> {a ..< a + sz}" using serves_header [OF new] by simp
      ultimately have "q - 16 \<notin> {c ..< c + tz}" by blast
      then show ?thesis using serves_hdr [OF that(2)] dis 3(4) by simp
    qed
    have "heap_inv s1 L" using heap_inv_drop [OF inv1, of raw] Lr by (simp add: fun_upd_idem)
    moreover have "heap_ok s'" using ok1 3(4) by (simp add: heap_ok_hdr)
    ultimately have "L q = None \<and> heap_inv s' (L(q \<mapsto> n))" using old by (rule heap_inv_alloc [OF _ _ new])
    moreover have "q \<noteq> 0" using q(1) by simp
    ultimately show ?thesis using q(3) by simp
  qed (use inv mi in auto)
qed


section \<open>Releasing keeps the invariant\<close>

lemma free_frames_from_spec:
  assumes "pmm_inv pm" "frame_ptr phys" "\<And>i. i < k \<Longrightarrow> pmm_refs pm (phys div 4096 + i) = 1"
  shows "pmm_inv (free_frames_from pm phys k) \<and>
    pmm_refs (free_frames_from pm phys k) = (\<lambda>f. if f \<in> frames_of phys k then 0 else pmm_refs pm f) \<and>
    g_bitmap_bits (free_frames_from pm phys k) = g_bitmap_bits pm"
  using assms(3)
proof (induction k)
  case 0
  then show ?case using assms(1) by (simp add: frames_of_def)
next
  case (Suc k)
  let ?pm = "free_frames_from pm phys k" and ?q = "phys + k * 4096"
  have IH: "pmm_inv ?pm" "pmm_refs ?pm = (\<lambda>f. if f \<in> frames_of phys k then 0 else pmm_refs pm f)"
    "g_bitmap_bits ?pm = g_bitmap_bits pm" using Suc by auto
  have q: "frame_ptr ?q" "?q div 4096 = phys div 4096 + k" using assms(2) by (auto simp: frame_ptr_def)
  then have r: "pmm_refs ?pm (?q div 4096) = 1" using IH(2) Suc.prems [of k] unfolding q(2) by (simp add: frames_of_def)
  show ?case
    using pmm_fa.dec_ok [OF IH(1) q(1)] r IH q(2) by (auto simp: pmm_free_frame_def frames_of_def fun_eq_iff pmm_bits(3))
qed

lemma kfree_eq:
  assumes "serves s p n a sz"
  defines "s1 \<equiv> s\<lparr>hdr := (hdr s)(a := \<lparr>h_size = sz, h_magic = 0\<rparr>)\<rparr>"
  shows "kfree s p =
    (if sz > 4096 then s1\<lparr>h_pmm := free_frames_from (h_pmm s) (a - hhdm s) (sz div 4096)\<rparr>
     else
       let (page, slots) = page_tracker_free_block (g_page_slots s) a in
       case page of
         Some (P, b) \<Rightarrow>
           s1\<lparr>g_page_slots := slots,
             g_buckets := (g_buckets s)[b := filter (\<lambda>x. x < P \<or> x \<ge> P + 4096) (bucket s b)],
             h_pmm := pmm_refcount_dec (h_pmm s) (P - hhdm s)\<rparr>
       | None \<Rightarrow> s1\<lparr>g_page_slots := slots, g_buckets := (g_buckets s)
             [nat (get_bucket_index sz) := a # bucket s (nat (get_bucket_index sz))]\<rparr>)"
proof -
  have h: "hdr s a = \<lparr>h_size = sz, h_magic = HEAP_MAGIC\<rparr>" "p \<noteq> 0" using assms(1) by (auto simp: serves_def)
  show ?thesis unfolding kfree_def serves_resolve [OF assms(1)]
    by (simp add: h s1_def Let_def MAX_BUCKET_SIZE_def pmm_free_frame_def bucket_remove_page_blocks_def split: prod.split option.split)
qed

lemma frame_of_inj:
  assumes "frame_of s x = frame_of s y" "x mod 4096 = 0" "y mod 4096 = 0" "hhdm s mod 4096 = 0" "hhdm s \<le> x" "hhdm s \<le> y"
  shows "x = y"
proof -
  have "x - hhdm s = frame_of s x * 4096" if "x mod 4096 = 0" "hhdm s \<le> x" for x
  proof -
    have "4096 dvd x - hhdm s" using that assms(4) by (intro dvd_diff_nat) (simp_all add: mod_0_imp_dvd)
    then show ?thesis unfolding frame_of_def by (metis dvd_div_mult_self)
  qed
  from this [OF assms(2,5)] this [OF assms(3,6)] show ?thesis using assms(1,5,6) by linarith
qed

lemma kfree_large_inv:
  assumes inv: "heap_inv s L" and L: "L p = Some n" and sv: "serves s p n a sz" and big: "sz > 4096"
  shows "heap_inv (kfree s p) (L(p := None))"
proof -
  have ok: "heap_ok s" using inv by (simp add: heap_inv_def)
  have lb: "large_block s a sz" using sv big small_size by (fastforce simp: serves_def)
  then obtain k where k: "k \<ge> 2" "sz = k * 4096" "a mod 4096 = 0" "hhdm s + 4096 \<le> a"
    "\<And>i. i < k \<Longrightarrow> held s (a + i * 4096)" "\<And>i. i < k \<Longrightarrow> slot s (a + i * 4096) = None"
    by (auto simp: large_block_def)
  let ?ph = "a - hhdm s" and ?s = "kfree s p"
  let ?pm = "free_frames_from (h_pmm s) ?ph k"
  have "4096 dvd ?ph" using k(3) heap_okD(2) [OF ok] by (intro dvd_diff_nat) (simp_all add: mod_0_imp_dvd)
  then have ph: "frame_ptr ?ph" using k(4) by (simp add: frame_ptr_def)
  have fr: "frame_of s (a + i * 4096) = ?ph div 4096 + i" for i
    using k(4) by (simp add: frame_of_def)
  have pm: "pmm_inv ?pm" "pmm_refs ?pm = (\<lambda>f. if f \<in> frames_of ?ph k then 0 else pmm_refs (h_pmm s) f)"
    "g_bitmap_bits ?pm = g_bitmap_bits (h_pmm s)"
    using free_frames_from_spec [OF heap_okD(1) [OF ok] ph, of k] k(5) fr by auto
  have s': "?s = s\<lparr>hdr := (hdr s)(a := \<lparr>h_size = sz, h_magic = 0\<rparr>), h_pmm := ?pm\<rparr>"
    using kfree_eq [OF sv] big k(2) by simp
  have sel: "hhdm ?s = hhdm s" "slot ?s = slot s" "g_buckets ?s = g_buckets s" "frame_of ?s = frame_of s" "cell ?s = cell s"
    "h_pmm ?s = ?pm" by (auto simp: s' frame_of_def cell_def fun_eq_iff)
  have held: "held ?s x" if "held s x" "x mod 4096 = 0" "hhdm s \<le> x" "x < a \<or> a + sz \<le> x" for x
  proof -
    have "frame_of s x \<notin> frames_of ?ph k"
    proof
      assume "frame_of s x \<in> frames_of ?ph k"
      then have "\<exists>i < k. frame_of s x = ?ph div 4096 + i"
        unfolding frames_of_def by (intro exI [of _ "frame_of s x - ?ph div 4096"]) (simp, linarith)
      then obtain i where i: "i < k" "frame_of s x = frame_of s (a + i * 4096)" unfolding fr by blast
      have m: "(a + i * 4096) mod 4096 = 0" "hhdm s \<le> a + i * 4096" using k(3,4) by auto
      have "x = a + i * 4096" by (rule frame_of_inj [OF i(2) that(2) m(1) heap_okD(2) [OF ok] that(3) m(2)])
      then show False using that(4) i(1) k(2) by auto
    qed
    then show ?thesis using that(1) pm(2) by (simp add: sel)
  qed
  have "slot_ok ?s q u" if "slot s q = Some u" for q u
  proof -
    have so: "slot_ok s q u" using heap_okD(5) [OF ok that] .
    have "q < a \<or> a + sz \<le> q"
    proof (rule ccontr)
      assume "\<not> (q < a \<or> a + sz \<le> q)"
      then have "slot s (pg q) = None" using large_page(2) [OF lb, of q] by simp
      moreover have "pg q = q" using so by (intro pg_unique) (auto simp: slot_ok_def)
      ultimately show False using that by simp
    qed
    then show ?thesis using so held [of q] by (auto simp: slot_ok_def sel)
  qed
  then have ok': "heap_ok ?s" using ok pm(1,3) unfolding heap_ok_def sel by (simp add: s')
  obtain a' sz' where r: "serves s p n a' sz'"
    "\<And>s'. heap_ok s' \<Longrightarrow> (\<And>q m c tz. L q = Some m \<Longrightarrow> q \<noteq> p \<Longrightarrow> serves s q m c tz \<Longrightarrow>
       {c ..< c + tz} \<inter> {a' ..< a' + sz'} = {} \<Longrightarrow> serves s' q m c tz) \<Longrightarrow> heap_inv s' (L(p := None))"
    using heap_inv_release [OF inv L] by blast
  have eq: "a' = a" "sz' = sz" using serves_unique [OF sv r(1)] by auto
  show ?thesis
  proof (rule r(2) [OF ok'])
    fix q m c tz
    assume q: "serves s q m c tz" "{c ..< c + tz} \<inter> {a' ..< a' + sz'} = {}"
    have out: "x < a \<or> a + sz \<le> x" if "c \<le> x" "x < c + tz" for x using q(2) that unfolding eq by fastforce
    show "serves ?s q m c tz"
    proof (rule serves_keep [OF q(1)])
      show "hdr ?s x = hdr s x" if "c \<le> x" "x < c + tz" for x using out [OF that] k by (auto simp: s')
      show "large_block ?s c tz" if lc: "large_block s c tz"
      proof (rule large_keep [OF lc sel(1)])
        fix x assume x: "c \<le> x" "x < c + tz" "x mod 4096 = 0" "hhdm s + 4096 \<le> x" "slot s x = None" "held s x"
        then show "slot ?s x = None \<and> held ?s x" using held [OF x(6,3) _ out [OF x(1,2)]] sel(2) by simp
      qed
    qed (use sel in auto)
  qed
qed

end
