(* ===== verification/Heap_Safety.thy ===== *)
theory Heap_Safety
  imports Heap_Inv
begin

text \<open>
  Releasing a block of a bucket, and the properties of the kernel heap: it satisfies the laws of
  \<open>block_allocator\<close>, so the blocks in use never overlap, whatever the history of calls.
\<close>

section \<open>Releasing small blocks\<close>

lemma page_tracker_free_block_slot:
  assumes ok: "heap_ok s" and c: "cell s a b" "a \<notin> set (bucket s b)" and t: "slot s (pg a) = Some t"
  defines "r \<equiv> page_tracker_free_block (g_page_slots s) a"
  shows "free_count t < 128" "tracker_ok (snd r)"
    "fst r = (if free_count t + 1 = total_count t then Some (pg a, b) else None)"
    "tracked (snd r) = (slot s)(pg a :=
       (if free_count t + 1 = total_count t then None else Some (t\<lparr>free_count := free_count t + 1\<rparr>)))"
    "free_count t + 1 = total_count t \<longleftrightarrow> {x \<in> set (bucket s b). pg x = pg a} = set (page_blocks (pg a) (bsz b)) - {a}"
proof -
  note tr = heap_okD(3) [OF ok]
  obtain k where k: "page_tracker_find (g_page_slots s) (pg a) = Some k" "k < length (g_page_slots s)"
    "g_page_slots s ! k = t" "page_virt t = pg a" "is_page (pg a)"
    using page_tracker_find_eq [OF tr t] by metis
  have b: "slot_bucket t = b" "b < 8" "a mod bsz b = 0" using c t by (auto simp: cell_def)
  have so: "total_count t = 4096 div bsz b" "free_count t = card {x \<in> set (bucket s b). pg x = pg a}"
    using heap_okD(5) [OF ok t] b by (auto simp: slot_ok_def)
  let ?F = "{x \<in> set (bucket s b). pg x = pg a}" and ?B = "set (page_blocks (pg a) (bsz b))"
  note pb = page_blocks_set [OF b(2), of "pg a", OF pg_facts(3)]
  have sub: "?F \<subseteq> ?B - {a}" using pb(3) heap_okD(7) [OF ok b(2)] c(2) by (auto simp: cell_def)
  have card: "card (?B - {a}) = 4096 div bsz b - 1" using pb(1,2) pb(3) [of a] b(3) by (simp add: distinct_card)
  have le: "card ?F \<le> 4096 div bsz b - 1" using card_mono [OF _ sub] card by simp
  obtain m where m: "4096 div bsz b = m" "0 < m" "m \<le> 128" using bsz_facts(6,7) [OF b(2)] by blast
  show f: "free_count t < 128" unfolding so(2) using le m(2,3) unfolding m(1) by linarith
  show iff: "free_count t + 1 = total_count t \<longleftrightarrow> ?F = ?B - {a}"
  proof -
    have "?F = ?B - {a} \<longleftrightarrow> card ?F = card (?B - {a})" 
      by (rule iffI, rule arg_cong [where f = card], assumption, rule card_subset_eq [OF finite_Diff [OF finite_set] sub])
    then show ?thesis unfolding so card m(1) using m(2) by linarith
  qed
  have len: "k < MAX_TRACKED_PAGES" using k(2) tr by (simp add: tracker_ok_def)
  let ?last = "free_count t + 1 = total_count t"
  let ?u = "t\<lparr>free_count := free_count t + 1\<rparr>"
  let ?t = "if ?last then ?u\<lparr>page_virt := SLOT_TOMBSTONE\<rparr> else ?u"
  have r: "r = (if ?last then Some (pg a, b) else None, (g_page_slots s)[k := ?t])"
    using k f b(1) by (auto simp: r_def page_tracker_free_block_def Let_def)
  then show "fst r = (if ?last then Some (pg a, b) else None)" by simp
  show "tracker_ok (snd r)" unfolding r snd_conv using k by (intro tracker_ok_update [OF tr len]) auto
  have "pg a \<noteq> SLOT_TOMBSTONE" using k(5) by (simp add: is_page_def)
  then show "tracked (snd r) = (slot s)(pg a := (if ?last then None else Some (t\<lparr>free_count := free_count t + 1\<rparr>)))"
    unfolding r snd_conv using k by (subst tracked_update [OF tr len]) auto
qed

lemma kfree_last_inv:
  assumes inv: "heap_inv s L" and L: "L p = Some n" and sv: "serves s p n a sz"
    and c: "cell s a b" "a \<notin> set (bucket s b)" "sz = bsz b" and t: "slot s (pg a) = Some t"
    and last: "free_count t + 1 = total_count t"
  shows "heap_inv (kfree s p) (L(p := None))"
proof -
  have ok: "heap_ok s" using inv by (simp add: heap_inv_def)
  have b8: "b < 8" using c(1) by (simp add: cell_def)
  note fb = page_tracker_free_block_slot [OF ok c(1,2) t]
  define P where "P = pg a"
  let ?s = "kfree s p"
  have P: "P mod 4096 = 0" "hhdm s + 4096 \<le> P" "held s P"
    using heap_okD(5) [OF ok t] by (auto simp: slot_ok_def P_def)
  have sz: "\<not> sz > 4096" using c(3) bsz_facts(3) [OF b8] by simp
  have s': "hhdm ?s = hhdm s" "hdr ?s = (hdr s)(a := \<lparr>h_size = sz, h_magic = 0\<rparr>)"
    "slot ?s = (slot s)(P := None)" "tracker_ok (g_page_slots ?s)"
    "g_buckets ?s = (g_buckets s)[b := filter (\<lambda>x. x < P \<or> x \<ge> P + 4096) (bucket s b)]"
    "h_pmm ?s = pmm_refcount_dec (h_pmm s) (P - hhdm s)"
    using kfree_eq [OF sv] sz fb(2,3,4) last by (auto simp: P_def Let_def split: prod.splits)
  have fo: "frame_of ?s = frame_of s" by (simp add: frame_of_def s' fun_eq_iff)
  have bk: "bucket ?s d = (if d = b then filter (\<lambda>x. x < P \<or> x \<ge> P + 4096) (bucket s b) else bucket s d)" if "d < 8" for d
    using s'(5) heap_okD(4) [OF ok] that by simp
  have inP: "x < P \<or> x \<ge> P + 4096 \<longleftrightarrow> pg x \<noteq> P" for x
    using pg_unique [OF P(1), of x] pg_facts(1,2) [of x] by (metis leD leI)
  have tP: "slot s P = Some t" "slot_bucket t = b" using t c(1) by (auto simp: P_def cell_def)
  have cellP: "d = b" if "cell s x d" "pg x = P" for x d using that tP by (auto simp: cell_def)
  have cell: "cell ?s x d" if "cell s x d" "pg x \<noteq> P" for x d using that by (simp add: cell_def s'(3))
  have "4096 dvd P - hhdm s" using P(1) heap_okD(2) [OF ok] by (intro dvd_diff_nat) (simp_all add: mod_0_imp_dvd)
  then have ph: "frame_ptr (P - hhdm s)" using P(2) by (simp add: frame_ptr_def)
  have rf: "0 < pmm_refs (h_pmm s) ((P - hhdm s) div 4096)" using P(3) by (simp add: frame_of_def)
  note dec = pmm_fa.dec_ok [OF heap_okD(1) [OF ok] ph rf, folded s'(6)]
  have held: "held ?s x" if "held s x" "x mod 4096 = 0" "hhdm s + 4096 \<le> x" "x \<noteq> P" for x
  proof -
    have "hhdm s \<le> x" "hhdm s \<le> P" using that(3) P(2) by auto
    then have "frame_of s x \<noteq> frame_of s P" using frame_of_inj [OF _ that(2) P(1) heap_okD(2) [OF ok]] that(4) by blast
    then show ?thesis using that(1) dec by (simp add: fo) (simp add: frame_of_def)
  qed
  have slots: "slot_ok ?s q u" if "slot ?s q = Some u" for q u
  proof -
    have q: "slot s q = Some u" "q \<noteq> P" using that s'(3) by (auto split: if_splits)
    note so = heap_okD(5) [OF ok q(1)]
    have "{x \<in> set (bucket ?s d). pg x = q} = {x \<in> set (bucket s d). pg x = q}" if "d < 8" for d
      using bk [OF that] inP q(2) by auto
    then show ?thesis using so held [of q] q(2) s'(1) by (auto simp: slot_ok_def)
  qed
  have buckets: "distinct (bucket ?s d) \<and> (\<forall>x \<in> set (bucket ?s d). cell ?s x d)" if "d < 8" for d
  proof -
    have "cell s x d \<and> pg x \<noteq> P" if "x \<in> set (bucket ?s d)" for x
      using that bk [OF \<open>d < 8\<close>] heap_okD(7) [OF ok \<open>d < 8\<close>] cellP [of x d] inP by (cases "d = b") auto
    moreover have "distinct (bucket ?s d)" using bk [OF that] heap_okD(6) [OF ok] that by simp
    ultimately show ?thesis using cell by blast
  qed
  have ok': "heap_ok ?s" unfolding heap_ok_def
    using dec ok slots buckets s'(1,4,5,6) by (simp add: heap_ok_def pmm_bits(3))
  obtain a' sz' where r: "serves s p n a' sz'"
    "\<And>s'. heap_ok s' \<Longrightarrow> (\<And>q m c tz. L q = Some m \<Longrightarrow> q \<noteq> p \<Longrightarrow> serves s q m c tz \<Longrightarrow>
       {c ..< c + tz} \<inter> {a' ..< a' + sz'} = {} \<Longrightarrow> serves s' q m c tz) \<Longrightarrow> heap_inv s' (L(p := None))"
    using heap_inv_release [OF inv L] by blast
  have eq: "a' = a" "sz' = sz" using serves_unique [OF sv r(1)] by auto
  have all: "x = a \<or> x \<in> set (bucket s b)" if "cell s x b" "pg x = P" for x
    using fb(5) last that page_blocks_set(3) [OF b8 P(1), of x] by (auto simp: P_def cell_def)
  show ?thesis
  proof (rule r(2) [OF ok'])
    fix q m e tz
    assume q: "serves s q m e tz" "{e ..< e + tz} \<inter> {a' ..< a' + sz'} = {}"
    have ea: "e \<noteq> a" "a \<notin> {e ..< e + tz}"
      using q(2) serves_header [OF q(1)] serves_header [OF sv] unfolding eq by (metis IntI atLeastLessThan_iff empty_iff le_refl)+
    show "serves ?s q m e tz"
    proof (rule serves_keep [OF q(1)])
      show "hdr ?s x = hdr s x" if "e \<le> x" "x < e + tz" for x using ea(2) that by (auto simp: s')
      show "cell ?s e d \<and> e \<notin> set (bucket ?s d)" if d: "cell s e d" "e \<notin> set (bucket s d)" for d
      proof -
        have "pg e \<noteq> P" using cellP [OF d(1)] all [of e] d ea(1) by auto
        then show ?thesis using cell [OF d(1)] d(2) bk [OF cell_bucket [OF d(1)]] by auto
      qed
      show "large_block ?s e tz" if lc: "large_block s e tz"
        using held tP(1) s'(3) by (intro large_keep [OF lc s'(1)]) auto
    qed
  qed
qed

lemma kfree_bucket_inv:
  assumes inv: "heap_inv s L" and L: "L p = Some n" and sv: "serves s p n a sz"
    and c: "cell s a b" "a \<notin> set (bucket s b)" "sz = bsz b" and t: "slot s (pg a) = Some t"
    and last: "free_count t + 1 \<noteq> total_count t"
  shows "heap_inv (kfree s p) (L(p := None))"
proof -
  have ok: "heap_ok s" using inv by (simp add: heap_inv_def)
  have b8: "b < 8" using c(1) by (simp add: cell_def)
  note fb = page_tracker_free_block_slot [OF ok c(1,2) t]
  let ?s = "kfree s p"
  have sz: "\<not> sz > 4096" using c(3) bsz_facts(3) [OF b8] by simp
  have s': "hhdm ?s = hhdm s" "hdr ?s = (hdr s)(a := \<lparr>h_size = sz, h_magic = 0\<rparr>)"
    "slot ?s = (slot s)(pg a \<mapsto> t\<lparr>free_count := free_count t + 1\<rparr>)" "tracker_ok (g_page_slots ?s)"
    "g_buckets ?s = (g_buckets s)[b := a # bucket s b]" "h_pmm ?s = h_pmm s"
    using kfree_eq [OF sv] sz fb(2,3,4) last get_bucket_index_size [OF b8] c(3)
    by (auto simp: Let_def split: prod.splits)
  have fo: "frame_of ?s = frame_of s" by (simp add: frame_of_def s' fun_eq_iff)
  have bk: "bucket ?s d = (if d = b then a # bucket s b else bucket s d)" if "d < 8" for d
    using s'(5) heap_okD(4) [OF ok] that by simp
  have cell: "cell ?s = cell s" using t by (auto simp: cell_def fun_eq_iff s'(3))
  have tb: "slot_bucket t = b" using t c(1) by (auto simp: cell_def)
  have slots: "slot_ok ?s q u" if "slot ?s q = Some u" for q u
  proof (cases "q = pg a")
    case True
    have "{x \<in> set (bucket ?s b). pg x = pg a} = insert a {x \<in> set (bucket s b). pg x = pg a}" using bk [OF b8] by auto
    then have "card {x \<in> set (bucket ?s b). pg x = pg a} = card {x \<in> set (bucket s b). pg x = pg a} + 1"
      using c(2) by simp
    then show ?thesis using True that heap_okD(5) [OF ok t] tb by (auto simp: slot_ok_def s' fo)
  next
    case False
    then have q: "slot s q = Some u" using that s'(3) by simp
    have "{x \<in> set (bucket ?s d). pg x = q} = {x \<in> set (bucket s d). pg x = q}" if "d < 8" for d
      using bk [OF that] False by auto
    then show ?thesis using heap_okD(5) [OF ok q] by (auto simp: slot_ok_def s'(1,6) fo)
  qed
  have buckets: "distinct (bucket ?s d) \<and> (\<forall>x \<in> set (bucket ?s d). cell ?s x d)" if "d < 8" for d
    using bk [OF that] heap_okD(6,7) [OF ok that] cell c by auto
  have ok': "heap_ok ?s" unfolding heap_ok_def
    using ok slots buckets s'(1,4,5,6) by (simp add: heap_ok_def)
  obtain a' sz' where r: "serves s p n a' sz'"
    "\<And>s'. heap_ok s' \<Longrightarrow> (\<And>q m c tz. L q = Some m \<Longrightarrow> q \<noteq> p \<Longrightarrow> serves s q m c tz \<Longrightarrow>
       {c ..< c + tz} \<inter> {a' ..< a' + sz'} = {} \<Longrightarrow> serves s' q m c tz) \<Longrightarrow> heap_inv s' (L(p := None))"
    using heap_inv_release [OF inv L] by blast
  have eq: "a' = a" "sz' = sz" using serves_unique [OF sv r(1)] by auto
  show ?thesis
  proof (rule r(2) [OF ok'])
    fix q m e tz
    assume q: "serves s q m e tz" "{e ..< e + tz} \<inter> {a' ..< a' + sz'} = {}"
    have ea: "e \<noteq> a" "a \<notin> {e ..< e + tz}"
      using q(2) serves_header [OF q(1)] serves_header [OF sv] unfolding eq by (metis IntI atLeastLessThan_iff empty_iff le_refl)+
    show "serves ?s q m e tz"
    proof (rule serves_keep [OF q(1)])
      show "hdr ?s x = hdr s x" if "e \<le> x" "x < e + tz" for x using ea(2) that by (auto simp: s')
      show "cell ?s e d \<and> e \<notin> set (bucket ?s d)" if "cell s e d" "e \<notin> set (bucket s d)" for d
        using that bk [OF cell_bucket [OF that(1)]] cell ea(1) by auto
      show "large_block ?s e tz" if lc: "large_block s e tz"
        using t by (intro large_keep [OF lc s'(1)]) (auto simp: s'(3,6) fo)
    qed
  qed
qed

lemma kfree_inv:
  assumes inv: "heap_inv s L" and L: "L p = Some n"
  shows "heap_inv (kfree s p) (L(p := None))"
proof -
  obtain a sz where sv: "serves s p n a sz" using heap_inv_serves [OF assms] by blast
  consider "sz > 4096" | b where "cell s a b" "a \<notin> set (bucket s b)" "sz = bsz b"
    using sv large_size by (fastforce simp: serves_def small_block_def)
  then show ?thesis
  proof cases
    case 1
    then show ?thesis using kfree_large_inv [OF inv L sv] by simp
  next
    case 2
    then obtain t where "slot s (pg a) = Some t" by (auto simp: cell_def)
    then show ?thesis using kfree_last_inv [OF inv L sv 2] kfree_bucket_inv [OF inv L sv 2] by blast
  qed
qed


section \<open>The kernel heap is a block allocator\<close>

text \<open>A request has its alignment and its size.\<close>

definition heap_request :: "kheap \<Rightarrow> u64 \<times> nat \<Rightarrow> nat \<times> kheap" where
  "heap_request s r = aligned_alloc s (unat (fst r)) (snd r)"

interpretation heap_ba: block_allocator heap_inv heap_request kfree snd
proof unfold_locales
  fix s L s' and r :: "u64 \<times> nat" and p n
  have lt: "unat (fst r) < 2 ^ 64" using unsigned_less [of "fst r", where ?'a = nat] by simp
  { assume "heap_inv s L" "heap_request s r = (0, s')"
    then show "heap_inv s' L" using aligned_alloc_inv [OF _ _ lt] by (fastforce simp: heap_request_def) }
  { assume "heap_inv s L" "heap_request s r = (p, s')" "p \<noteq> 0"
    then show "L p = None \<and> heap_inv s' (L(p \<mapsto> snd r))"
      using aligned_alloc_inv [OF _ _ lt, of s L "snd r" p s'] by (simp add: heap_request_def) }
  { assume "heap_inv s L" "L p = Some n"
    then show "heap_inv (kfree s p) (L(p := None))" by (rule kfree_inv) }
qed (rule heap_inv_disjoint)

definition heap_run ::
  "kheap \<Rightarrow> (nat \<Rightarrow> nat option) \<Rightarrow> (u64 \<times> nat) mem_op list \<Rightarrow> (kheap \<times> (nat \<Rightarrow> nat option)) option"
where
  "heap_run = mem_run heap_request kfree snd"

lemma heap_init_inv:
  assumes "pmm_inv (h_pmm s)" "hhdm s mod 4096 = 0" "hhdm s + g_bitmap_bits (h_pmm s) * 4096 < 2 ^ 64"
  shows "heap_inv (heap_init s) Map.empty"
proof -
  let ?e = "\<lparr>page_virt = 0, slot_bucket = 0, free_count = 0, total_count = 0\<rparr>"
  have n: "\<not> is_page (page_virt (replicate MAX_TRACKED_PAGES ?e ! k))" if "k < MAX_TRACKED_PAGES" for k
    using that by (simp add: is_page_def SLOT_EMPTY_def)
  then have t: "tracker_ok (replicate MAX_TRACKED_PAGES ?e)" by (auto simp: tracker_ok_def)
  moreover have "tracked (replicate MAX_TRACKED_PAGES ?e) p = None" for p
    unfolding tracked_None by (auto simp: is_page_def SLOT_EMPTY_def)
  ultimately have "heap_ok (heap_init s)"
    using assms by (simp add: heap_ok_def heap_init_def NUM_BUCKETS_def)
  then show ?thesis by (simp add: heap_inv_def)
qed

text \<open>A request of at most \<open>4080\<close> bytes succeeds on a fresh heap as long as a frame is free.\<close>

lemma malloc_fresh:
  assumes s: "pmm_inv (h_pmm s)" "free_frames (h_pmm s) \<noteq> {}" and n: "0 < n" "n \<le> 4080"
  shows "fst (kmalloc (heap_init s) n) \<noteq> 0"
proof -
  obtain ph pm where fr: "pmm_alloc_frame (h_pmm s) = (ph, pm)" by fastforce
  have ph: "ph \<noteq> 0" using pmm_alloc_frame_taken(3) [OF s(1) fr] s(2) by simp
  define b where "b = nat (get_bucket_index (n + 16))"
  have b: "b < 8" using get_bucket_index_fits(1) [of "n + 16"] n by (simp add: b_def)
  have "find (\<lambda>i. page_virt (g_page_slots (heap_init s) ! probe (hash_page P) i) = SLOT_EMPTY \<or>
      page_virt (g_page_slots (heap_init s) ! probe (hash_page P) i) = SLOT_TOMBSTONE) [0..<MAX_TRACKED_PAGES] = Some 0" for P
    unfolding find_upt by (simp add: heap_init_def SLOT_EMPTY_def MAX_TRACKED_PAGES_def probe_def)
  then have add: "fst (page_tracker_add (g_page_slots (heap_init s)) P b t)" for P t
    by (simp add: page_tracker_add_def Let_def)
  then obtain slots where ad: "page_tracker_add (g_page_slots (heap_init s)) (ph + hhdm s) b (4096 div bsz b) = (True, slots)"
    by (metis (full_types) prod.collapse)
  have "g_buckets (heap_init s) ! b = []" "hhdm (heap_init s) = hhdm s" "h_pmm (heap_init s) = h_pmm s"
    using b by (simp_all add: heap_init_def NUM_BUCKETS_def)
  moreover have "fst (take_block t b) \<noteq> 0" for t by (simp add: take_block_def Let_def)
  ultimately show ?thesis
    using n fr ph ad
    by (simp add: kmalloc_def malloc_unlocked_def add_overflow_def MAX_BUCKET_SIZE_def b_def [symmetric])
qed

section \<open>Contents\<close>

text \<open>Allocation changes no byte of a frame that is held.\<close>

lemma malloc_ram:
  assumes inv: "heap_inv s L" and al: "malloc_unlocked s n = (p, s')" and x: "pmm_refs (h_pmm s) (x div 4096) > 0"
  shows "ram (h_pmm s') x = ram (h_pmm s) x"
proof -
  have pinv: "pmm_inv (h_pmm s)" using inv by (simp add: heap_inv_def heap_ok_def)
  have one: "ram pm x = ram (h_pmm s) x" if fr: "pmm_alloc_frame (h_pmm s) = (ph, pm)" for ph pm
  proof (cases rule: pmm_alloc_frame_spec [OF pinv])
    case (1 h)
    then show ?thesis using fr by auto
  next
    case (2 i bm)
    have "x div 4096 \<noteq> i" using x 2(1) pmm_fa.avail_refs [OF pinv] by auto
    then have "\<not> (i * 4096 \<le> x \<and> x < i * 4096 + 4096)" by auto
    then show ?thesis using fr 2(6) by (auto simp: zero_memory_def)
  qed
  have many: "ram pm x = ram (h_pmm s) x" if "pmm_alloc_frames (h_pmm s) k = (ph, pm)" for k ph pm
  proof (cases "k = 1")
    case True
    then show ?thesis using that one by (simp add: pmm_alloc_frames_def)
  next
    case False
    have "pmm_alloc_frames t k = (ph, pm) \<Longrightarrow> ram pm = ram t" for t
      using False by (auto simp: pmm_alloc_frames_def Let_def split: if_splits)
    then show ?thesis using that by metis
  qed
  have dec: "ram (pmm_refcount_dec pm q) = ram pm" for pm q by (simp add: pmm_refcount_dec_def Let_def)
  have take: "h_pmm (snd (take_block t b)) = h_pmm t" for t b by (simp add: take_block_def set_header_def Let_def)
  have tk: "take_block t b = (q, u) \<Longrightarrow> h_pmm u = h_pmm t" for t b q u using take [of t b] by simp
  show ?thesis
    using al
    by (auto simp: malloc_unlocked_def heap_alloc_large_def set_header_def carve_page_def pmm_free_frame_def dec Let_def one many
        split: if_splits option.splits prod.splits dest!: tk)
qed

lemma kfree_ram: "ram (h_pmm (kfree s p)) = ram (h_pmm s)"
proof -
  have dec: "ram (pmm_refcount_dec pm q) = ram pm" for pm q by (simp add: pmm_refcount_dec_def Let_def)
  have "ram (free_frames_from pm q k) = ram pm" for pm q k by (induction k) (simp_all add: pmm_free_frame_def dec)
  then show ?thesis
    by (simp add: kfree_def Let_def pmm_free_frame_def dec bucket_remove_page_blocks_def split: prod.split option.split)
qed


lemma serves_held:
  assumes ok: "heap_ok s" and sv: "serves s p n a sz" and x: "a \<le> x" "x < a + sz"
  shows "held s x" "hhdm s \<le> x"
proof -
  have h: "held s (pg x) \<and> hhdm s \<le> pg x"
  proof (cases "small_block s a sz")
    case True
    then obtain b t where b: "cell s a b" "sz = bsz b" "slot s (pg a) = Some t" by (auto simp: small_block_def cell_def)
    have "pg x = pg a" using pg_in_cell [OF b(1) x(1)] x(2) unfolding b(2) by blast
    then show ?thesis using heap_okD(5) [OF ok b(3)] by (simp add: slot_ok_def)
  next
    case False
    then have "large_block s a sz" using sv by (simp add: serves_def)
    then show ?thesis using large_page [OF _ x] by (fastforce simp: large_block_def)
  qed
  then show "hhdm s \<le> x" using pg_facts(1) [of x] by simp
  have "4096 dvd pg x - hhdm s" using heap_okD(2) [OF ok] pg_facts(3) [of x] by (intro dvd_diff_nat) (simp_all add: mod_0_imp_dvd)
  then obtain k where k: "pg x - hhdm s = 4096 * k" by blast
  have "x - hhdm s = 4096 * k + (x - pg x)" "x - pg x < 4096" using k h pg_facts(1,2) [of x] by linarith+
  then have "frame_of s x = k" by (simp add: frame_of_def)
  moreover have "frame_of s (pg x) = k" by (simp add: frame_of_def k)
  ultimately show "held s x" using h by simp
qed

lemma malloc_hhdm: "malloc_unlocked s n = (p, s') \<Longrightarrow> hhdm s' = hhdm s"
  by (auto simp: malloc_unlocked_def heap_alloc_large_def set_header_def carve_page_def take_block_def Let_def
      split: if_splits option.splits prod.splits)

text \<open>Both ways \<open>realloc\<close> gets its new block.\<close>

lemma alloc_frame_rule:
  assumes inv: "heap_inv s L" and al: "(if w then aligned_alloc s g n else kmalloc s n) = (q, s')" "g < 2 ^ 64" "q \<noteq> 0"
  shows "L q = None" "heap_inv s' (L(q \<mapsto> n))" "hhdm s' = hhdm s"
    "0 < pmm_refs (h_pmm s) (x div 4096) \<Longrightarrow> ram (h_pmm s') x = ram (h_pmm s) x"
proof -
  have "L q = None \<and> heap_inv s' (L(q \<mapsto> n))"
    using al aligned_alloc_inv [OF inv _ al(2), of n q s'] malloc_inv [OF inv, of n q s']
    by (auto simp: kmalloc_def split: if_splits)
  then show "L q = None" "heap_inv s' (L(q \<mapsto> n))" by auto
  obtain m r t where m: "malloc_unlocked s m = (r, t)" "hhdm s' = hhdm t" "h_pmm s' = h_pmm t"
    using al(1,3) by (auto simp: kmalloc_def aligned_alloc_def Let_def split: if_splits option.splits prod.splits)
  show "hhdm s' = hhdm s" using m(2) malloc_hhdm [OF m(1)] by simp
  show "0 < pmm_refs (h_pmm s) (x div 4096) \<Longrightarrow> ram (h_pmm s') x = ram (h_pmm s) x"
    using m(3) malloc_ram [OF inv m(1)] by simp
qed

lemma heap_inv_resize:
  assumes inv: "heap_inv s L" and L: "L p = Some m" and sv: "serves s p m a sz" and n: "p + n \<le> a + sz"
  shows "heap_inv s ((L(p := None))(p \<mapsto> n))"
proof -
  have "serves s p n a sz" using sv n by (auto simp: serves_def)
  moreover have "serves s q k c tz \<and> {c ..< c + tz} \<inter> {a ..< a + sz} = {}"
    if "(L(p := None)) q = Some k" "serves s q k c tz" for q k c tz
    using that serves_disjoint [OF inv L _ _ sv that(2)] by (auto split: if_splits)
  moreover have "heap_ok s" using inv by (simp add: heap_inv_def)
  ultimately show ?thesis using heap_inv_alloc [OF heap_inv_drop [OF inv]] by blast
qed

lemma heap_inv_move: "heap_inv s L \<Longrightarrow> heap_inv (move_bytes s d c n) L"
proof -
  assume inv: "heap_inv s L"
  have "pmm_inv (h_pmm s)" using inv by (simp add: heap_inv_def heap_ok_def)
  then show ?thesis unfolding move_bytes_def
    by (intro heap_inv_pmm [OF inv]) (auto simp: pmm_inv_def pmm_core_def pmm_refs_def free_frames_def fun_eq_iff)
qed

section \<open>Properties\<close>

text \<open>A machine with two free frames, for the witnesses.\<close>

definition ex_heap :: kheap where
  "ex_heap = heap_init \<lparr>h_pmm = three_frames, hhdm = 8192, hdr = \<lambda>_. \<lparr>h_size = 0, h_magic = 0\<rparr>, g_buckets = [], g_page_slots = []\<rparr>"

lemma ex_heap_inv: "heap_inv ex_heap Map.empty"
  unfolding ex_heap_def by (intro heap_init_inv) (simp_all add: three_frames_inv, simp add: three_frames_def)

lemma ex_heap_malloc:
  obtains p s where "kmalloc ex_heap 100 = (p, s)" "p \<noteq> 0" "heap_inv s [p \<mapsto> 100]"
proof -
  obtain p s where ps: "kmalloc ex_heap 100 = (p, s)" by fastforce
  have "p \<noteq> 0" using malloc_fresh [of "\<lparr>h_pmm = three_frames, hhdm = 8192, hdr = \<lambda>_. \<lparr>h_size = 0, h_magic = 0\<rparr>,
      g_buckets = [], g_page_slots = []\<rparr>" 100] ps by (simp add: three_frames_inv three_frames_free ex_heap_def)
  then show thesis using that ps malloc_inv [OF ex_heap_inv, of 100 p s] by (simp add: kmalloc_def)
qed

text \<open>
  C5.  The heap never hands out memory twice.  From any state with the invariant, after any sequence of
  allocations (with any alignment) and releases of blocks in use, the blocks in use are pairwise
  disjoint, and every block that was not released is still in use with its size.
\<close>

theorem heap_never_overlaps:
  assumes "heap_inv s L" and "heap_run s L ops = Some (s', L')"
  shows "blocks_disjoint L' \<and> (\<forall>p n. L p = Some n \<and> FreeMem p \<notin> set ops \<longrightarrow> L' p = Some n)"
  using heap_ba.run_disjoint heap_ba.run_keeps assms unfolding heap_run_def by metis

lemma heap_never_overlaps_witness:
  "\<exists>p q s L. p \<noteq> 0 \<and> heap_run ex_heap Map.empty [AllocMem (16, 100) p, AllocMem (64, 10) q] = Some (s, L) \<and>
     blocks_disjoint L"
proof -
  obtain p s1 where p: "kmalloc ex_heap 100 = (p, s1)" "p \<noteq> 0" by (rule ex_heap_malloc)
  then have a: "heap_request ex_heap (16, 100) = (p, s1)"
    by (simp add: heap_request_def aligned_alloc_def is_power_of_two_def)
  obtain q s2 where q: "heap_request s1 (64, 10) = (q, s2)" by fastforce
  have "\<exists>s L. heap_run ex_heap Map.empty [AllocMem (16, 100) p, AllocMem (64, 10) q] = Some (s, L)"
    using a q p(2) by (simp add: heap_run_def)
  then show ?thesis using heap_never_overlaps [OF ex_heap_inv] p(2) by metis
qed

text \<open>
  A second release of a block is noticed: the header was marked when the block was released, so
  the second call changes nothing.
\<close>

theorem kfree_twice:
  assumes "heap_inv s L" and "L p = Some n"
  shows "kfree (kfree s p) p = kfree s p"
proof -
  obtain a sz where sv: "serves s p n a sz" using heap_inv_serves [OF assms] by blast
  have h: "hdr (kfree s p) = (hdr s)(a := \<lparr>h_size = sz, h_magic = 0\<rparr>)"
    unfolding kfree_eq [OF sv] by (simp add: Let_def split: prod.split option.split)
  have p: "p \<noteq> 0" "a + 16 \<le> p" "p = a + 16 \<or> a + 32 \<le> p \<and> hdr s (p - 16) = \<lparr>h_size = a + 16, h_magic = ALIGNED_MAGIC\<rparr>"
    using sv by (auto simp: serves_def)
  then have "heap_resolve_header (kfree s p) p = Some (a, a + 16, p \<noteq> a + 16)"
    unfolding heap_resolve_header_def by (auto simp: h Let_def ALIGNED_MAGIC_def)
  then show ?thesis using p(1) by (simp add: kfree_def [of "kfree s p"] h HEAP_MAGIC_def)
qed

lemma kfree_twice_witness:
  "\<exists>p s. kmalloc ex_heap 100 = (p, s) \<and> p \<noteq> 0 \<and> heap_inv s [p \<mapsto> 100] \<and> kfree (kfree s p) p = kfree s p"
proof -
  obtain p s where p: "kmalloc ex_heap 100 = (p, s)" "p \<noteq> 0" "heap_inv s [p \<mapsto> 100]" by (rule ex_heap_malloc)
  then show ?thesis using kfree_twice [OF p(3), of p 100] by auto
qed


text \<open>
  C15.  \<open>realloc\<close> keeps the contents.  When it returns a pointer, the block at that pointer has the new
  size, takes the place of the old block among the blocks in use, and begins with the bytes of the old
  block.
\<close>

theorem realloc_keeps_bytes:
  assumes inv: "heap_inv s L" and L: "L p = Some m" and n: "0 < n" and re: "realloc s p n = (q, s')" "q \<noteq> 0"
  shows "heap_inv s' ((L(p := None))(q \<mapsto> n)) \<and>
    (\<forall>i < min m n. ram (h_pmm s') (q - hhdm s + i) = ram (h_pmm s) (p - hhdm s + i))"
proof -
  have ok: "heap_ok s" using inv by (simp add: heap_inv_def)
  obtain a sz where sv: "serves s p m a sz" using heap_inv_serves [OF inv L] by blast
  have h: "hdr s a = \<lparr>h_size = sz, h_magic = HEAP_MAGIC\<rparr>" "a + 16 \<le> p" "p + m \<le> a + sz" "p \<noteq> 0" "16 \<le> sz"
    using sv small_size large_size by (fastforce simp: serves_def)+
  define old where "old = a + sz - p"
  let ?w = "p \<noteq> a + 16"
  have old: "sz - 16 - (p - (a + 16)) = old" "\<not> p - (a + 16) > sz - 16" "m \<le> old" using h by (auto simp: old_def)
  show ?thesis
  proof (cases "n \<le> old")
    case True
    then have "q = p" "s' = s" using re n h old serves_resolve [OF sv] by (auto simp: realloc_def Let_def)
    then show ?thesis using heap_inv_resize [OF inv L sv] True h by (auto simp: old_def)
  next
    case False
    obtain s1 where s1: "(if ?w then aligned_alloc s (heap_observed_alignment p) n else kmalloc s n) = (q, s1)"
      "s' = kfree (move_bytes s1 q p old) p"
      using re n h old False serves_resolve [OF sv] by (auto simp: realloc_def Let_def split: prod.splits if_splits)
    have g: "heap_observed_alignment p < 2 ^ 64" by (simp add: heap_observed_alignment_def Let_def)
    note al = alloc_frame_rule [OF inv s1(1) g re(2)]
    have pq: "p \<noteq> q" using al(1) L by auto
    let ?s = "move_bytes s1 q p old"
    have "heap_inv (kfree ?s p) ((L(q \<mapsto> n))(p := None))"
      by (rule kfree_inv [OF heap_inv_move [OF al(2)]]) (use L pq in simp)
    then have "heap_inv s' ((L(p := None))(q \<mapsto> n))" using s1(2) pq by (simp add: fun_upd_twist)
    moreover have "ram (h_pmm s') (q - hhdm s + i) = ram (h_pmm s) (p - hhdm s + i)" if "i < m" for i
    proof -
      have "heap_ok s1" using al(2) by (simp add: heap_inv_def)
      moreover obtain c tz where cz: "serves s1 q n c tz" using heap_inv_serves [OF al(2), of q n] by auto
      ultimately have qh: "hhdm s \<le> q" using serves_bound(2) [OF _ cz] al(3) cz by (auto simp: serves_def)
      have "p + i < a + sz" "a \<le> p + i" using that h by auto
      then have "held s (p + i)" "hhdm s \<le> p" using serves_held [OF ok sv] serves_bound(2) [OF ok sv] h(2) by auto
      then have r: "0 < pmm_refs (h_pmm s) ((p - hhdm s + i) div 4096)" by (simp add: frame_of_def)
      have "ram (h_pmm s') (q - hhdm s + i) = ram (h_pmm ?s) (q - hhdm s + i)" by (simp add: s1(2) kfree_ram)
      also have "\<dots> = ram (h_pmm s1) (p - hhdm s + i)"
        using qh that old(3) al(3) by (simp add: move_bytes_def add.commute)
      also have "\<dots> = ram (h_pmm s) (p - hhdm s + i)" by (rule al(4) [OF r])
      finally show ?thesis .
    qed
    ultimately show ?thesis by simp
  qed
qed

lemma realloc_keeps_bytes_witness:
  "\<exists>p s q s'. kmalloc ex_heap 100 = (p, s) \<and> p \<noteq> 0 \<and> heap_inv s [p \<mapsto> 100] \<and> realloc s p 100 = (q, s') \<and> q \<noteq> 0 \<and>
     heap_inv s' [q \<mapsto> 100]"
proof -
  obtain p s where p: "kmalloc ex_heap 100 = (p, s)" "p \<noteq> 0" "heap_inv s [p \<mapsto> 100]" by (rule ex_heap_malloc)
  obtain a sz where sv: "serves s p 100 a sz" using heap_inv_serves [OF p(3), of p 100] by auto
  have "hdr s a = \<lparr>h_size = sz, h_magic = HEAP_MAGIC\<rparr>" "a + 16 \<le> p" "p + 100 \<le> a + sz" using sv by (auto simp: serves_def)
  then have r: "realloc s p 100 = (p, s)"
    using p(2) serves_resolve [OF sv] by (auto simp: realloc_def Let_def)
  have "heap_inv s ([p \<mapsto> 100](p := None, p \<mapsto> 100))"
    using realloc_keeps_bytes [OF p(3) _ _ r p(2)] by simp
  then show ?thesis using p r by auto
qed

text \<open>
  C37.  Where allocated memory lies.  The address is a multiple of the alignment, the block does not wrap
  around the end of the address space, and each of its bytes lies in a frame that has exactly one
  reference.
\<close>

theorem aligned_alloc_bounds:
  assumes inv: "heap_inv s L" and al: "aligned_alloc s alignment n = (q, s')" "q \<noteq> 0" "alignment < 2 ^ 64"
  shows "q mod alignment = 0 \<and> q + n < 2 ^ 64 \<and> (\<forall>x. q \<le> x \<and> x < q + n \<longrightarrow> pmm_refs (h_pmm s') ((x - hhdm s') div 4096) = 1)"
proof -
  have i: "heap_inv s' (L(q \<mapsto> n))" "q mod alignment = 0" using aligned_alloc_inv [OF inv al(1,3)] al(2) by auto
  have ok: "heap_ok s'" using i(1) by (simp add: heap_inv_def)
  obtain a sz where sv: "serves s' q n a sz" using heap_inv_serves [OF i(1), of q n] by auto
  have q: "a + 16 \<le> q" "q + n \<le> a + sz" using sv by (auto simp: serves_def)
  have "held s' x" if "q \<le> x" "x < q + n" for x using serves_held(1) [OF ok sv, of x] that q by simp
  then show ?thesis using i(2) serves_bound(1) [OF ok sv] q(2) by (auto simp: frame_of_def)
qed

lemma aligned_alloc_bounds_witness:
  "\<exists>q s. aligned_alloc ex_heap 16 100 = (q, s) \<and> q \<noteq> 0 \<and> q mod 16 = 0 \<and> q + 100 < 2 ^ 64"
proof -
  obtain p s where p: "kmalloc ex_heap 100 = (p, s)" "p \<noteq> 0" by (rule ex_heap_malloc)
  then have a: "aligned_alloc ex_heap 16 100 = (p, s)" by (simp add: aligned_alloc_def is_power_of_two_def)
  show ?thesis using aligned_alloc_bounds [OF ex_heap_inv a p(2)] a p(2) by auto
qed

end
