(* ===== verification/Spec2Isabelle.thy ===== *)
theory Spec2Isabelle
  imports Pmm_Init Vma Pipe Wm_Policy Udp Tcp_States Unifs_Image Vmm_Map Vmm_Dma Vfs_Unifs Heap_Safety
begin

text \<open>
  A verification of parts of the operating system uniOS: its memory managers, its file system and pipes,
  its network stack, the string routines of its kernel, and the damage policy of its window manager.
  The definitions follow the functions of the same names under \<open>src/\<close>.

  \<^bold>\<open>Conventions.\<close>  A machine word whose bits matter is a \<open>word\<close>; indices, sizes and addresses are natural
  numbers, with \<open>wrap64\<close> where a 64-bit sum may wrap.  An early return is a branch of the definition, a
  result code is kept as the code has it, and \<open>panic\<close> is the value \<open>Panic\<close> of \<open>kresult\<close>.  A loop is a
  recursive function with a termination proof, so there is no fuel.  What \<open>malloc\<close> returns is an input
  (\<open>heap_oracle\<close>, \<open>mallocs\<close>).  A function that holds its spinlock throughout is one step.

  \<^bold>\<open>Memory\<close> (\<open>src/src/mm\<close>).  \<open>Bitmap\<close> and \<open>Bitmap_Runs\<close> are \<open>bitmap.cpp\<close>: the scans over 64-bit words find
  exactly the first free bit and the first and last free runs.  \<open>Pmm\<close> and \<open>Pmm_Init\<close> are \<open>pmm.cpp\<close>: its
  invariant, that frames are never handed out twice (by the locale \<open>frame_allocator\<close> of \<open>Frame_Allocator\<close>),
  and that start-up establishes the invariant from a boot memory map.  \<open>Vma\<close> is \<open>vma.cpp\<close>: the sorted
  list of areas refines a map from addresses to attributes (locale \<open>region_map\<close>).  \<open>Vmm\<close> is \<open>vmm.cpp\<close>:
  \<open>Vmm_Tables\<close> shows that walking the page tables, with splitting of huge pages, keeps a tree of
  allocated frames and every translation; \<open>Vmm_Map\<close> gives the effect of mapping, unmapping and of page
  faults, on top of \<open>Pmm\<close> and \<open>Vma\<close>; \<open>Vmm_Dma\<close> is the allocator of device addresses.  \<open>Vmm_Ex\<close> holds a small
  machine for the witnesses.  \<open>Heap\<close> is \<open>heap.cpp\<close>, with its hash table of pages in \<open>Page_Tracker\<close>;
  \<open>Heap_Inv\<close> and \<open>Heap_Safety\<close> show that every operation keeps its invariant, so that it satisfies the locale
  \<open>block_allocator\<close> of \<open>Block_Allocator\<close>: blocks in use never overlap.

  \<^bold>\<open>Files\<close> (\<open>src/src/fs\<close>).  \<open>Unifs\<close> is \<open>unifs.cpp\<close>, with boot files in an image and RAM files over them.
  \<open>Unifs_Files\<close> and \<open>Unifs_Spec\<close> show that its operations refine operations on a map from names to bytes;
  \<open>Unifs_Dir\<close> that a directory is enumerated without repetition; \<open>Unifs_Image\<close> that the image written by
  \<open>src/tools/mkunifs.py\<close> is read back by the kernel.  \<open>Pipe\<close> is \<open>pipe.cpp\<close>, a bounded queue by the locale
  \<open>bounded_fifo\<close> of \<open>Bounded_Fifo\<close>.  \<open>Vfs_Path\<close> is the part of \<open>vfs.cpp\<close> that works on paths, with permissions
  and \<open>storage_guard.cpp\<close>: the normal form of a path and the mount it belongs to.  \<open>Vfs\<close> has nodes and their
  references, the page cache and descriptors, \<open>Vfs_Ops\<close> the operations on paths; both take the drivers' tables of
  operations as a parameter, and an operation that may never return is \<open>None\<close> there.  \<open>File_Driver\<close> is the contract
  between the page cache and a driver as a locale; under it \<open>Vfs_Cache\<close>, \<open>Vfs_Files\<close> and \<open>Vfs_Rw\<close> show that the cache
  is transparent: a file is a sequence of bytes that reads, writes, eviction and write-back keep to, and that
  synchronising gives to the driver.  \<open>Vfs_Unifs\<close> interprets the contract with the operations of UniFS.
  A file may be open several times there, with a node for each; the states covered are those in which all open
  nodes of a file agree on its size, which a write keeps (\<open>sync_sizes\<close>) and which fails when a file is opened again
  while its growth is not yet written back.  The files written are RAM files, not files that are only in the boot
  image, and writes start inside the file or at its end.  \<open>Kstring\<close> is \<open>include/libk/kstring.h\<close>: copying, comparing, printing.

  \<^bold>\<open>Network\<close> (\<open>src/src/net\<close>).  \<open>Net_Bytes\<close> has byte order and the Internet checksum, \<open>Link\<close> Ethernet and ARP,
  \<open>Ipv4\<close>, \<open>Udp\<close> and \<open>Tcp\<close> the protocols of these names.  The frames a host sends are collected in its
  state and given to the other host, so exchanges, deliveries, the TCP handshake (\<open>Tcp_Conn\<close>) and data
  transfer are theorems about two hosts.  \<open>Tcp_Stream\<close> has ports and the receive ring, an interpretation
  of \<open>bounded_fifo\<close>; \<open>Tcp_States\<close> the state diagram.

  \<^bold>\<open>Window manager.\<close>  \<open>Wm_Policy\<close> is \<open>include/wm/interaction_policy.h\<close>: no damaged pixel is lost.

  \<^bold>\<open>Not modelled.\<close>  Device drivers and processor set-up, which are writes to registers; the boot loader,
  which runs on firmware; drawing and the event loops of the applications; and, so far, FAT32,
  the scheduler, the system calls and the user libraries.  Operations of different processors are not interleaved: a
  locked operation is one step.  The manifest lists every part.
\<close>

end
